(* ===== verification/Prelude.thy ===== *)
theory Prelude
  imports Main "HOL-Library.Word" "HOL-Library.Monad_Syntax"
begin

text \<open>
  Shared vocabulary of the byteback development: bytes and buffers, fixed-width
  unsigned arithmetic on \<open>nat\<close> with the wrap-around written out, slices of
  buffers, little- and big-endian reads, and reads that make an out-of-bounds access
  visible (\<open>None\<close>) instead of returning an unspecified value.  The named collections
  \<open>slice_simps\<close> and \<open>wrap_simps\<close> carry the facts the component theories hand to
  the simplifier.
\<close>

unbundle bit_operations_syntax

named_theorems slice_simps
named_theorems wrap_simps

section \<open>Bytes and buffers\<close>

type_synonym byte = "8 word"
type_synonym buf = "byte list"
type_synonym u32 = "32 word"
type_synonym u64 = "64 word"

lemma unat_byte_less [simp]: "unat (b :: byte) < 256"
proof -
  have "unat b < 2 ^ LENGTH(8)"
    by (rule unsigned_less)
  then show ?thesis by simp
qed

lemma unat_ucast_byte [simp]: "unat (ucast (a :: byte) :: u32) = unat a"
proof -
  have "unat a < 2 ^ 32"
    using unat_byte_less [of a] by (rule less_trans) simp
  then show ?thesis
    by (simp add: unsigned_ucast_eq take_bit_nat_eq_self)
qed

lemma ucast_ucast_byte [simp]: "ucast (ucast (a :: byte) :: u32) = a"
  by (rule bit_eqI) (simp add: bit_unsigned_iff)

text \<open>Exhaustion over the 256 bytes, for facts that the kernel evaluates.\<close>

lemma byte_cases_list: "list_all P (map word_of_nat [0..<256]) \<Longrightarrow> P (a :: byte)"
proof -
  assume "list_all P (map word_of_nat [0..<256])"
  moreover have "unat a \<in> set [0..<256]"
    by simp
  ultimately have "P (word_of_nat (unat a))"
    unfolding list_all_iff by (metis (no_types, lifting) image_eqI list.set_map)
  then show ?thesis by simp
qed

section \<open>Fixed-width unsigned arithmetic\<close>

text \<open>
  The C++ code computes offsets, lengths and sector numbers in \<open>uint64_t\<close>,
  \<open>uint32_t\<close> and \<open>size_t\<close> (64 bits on every supported target).  Such values are
  \<open>nat\<close> here; where the code's guards do not exclude an overflow, the reduction
  modulo the width is written out with these functions.
\<close>

definition w8 :: "nat \<Rightarrow> nat" where "w8 n = n mod 2 ^ 8"
definition w16 :: "nat \<Rightarrow> nat" where "w16 n = n mod 2 ^ 16"
definition w32 :: "nat \<Rightarrow> nat" where "w32 n = n mod 2 ^ 32"
definition w64 :: "nat \<Rightarrow> nat" where "w64 n = n mod 2 ^ 64"

definition u64_max :: nat where "u64_max = 2 ^ 64 - 1"

text \<open>Unsigned 64-bit subtraction: it wraps when the subtrahend is larger.\<close>

definition sub64 :: "nat \<Rightarrow> nat \<Rightarrow> nat" where
  "sub64 a b = (if b \<le> a then a - b else 2 ^ 64 - (b - a))"

lemma w8_id [wrap_simps]: "n < 256 \<Longrightarrow> w8 n = n"
  by (simp add: w8_def)

lemma w16_id [wrap_simps]: "n < 65536 \<Longrightarrow> w16 n = n"
  by (simp add: w16_def)

lemma w32_id [wrap_simps]: "n < 2 ^ 32 \<Longrightarrow> w32 n = n"
  by (simp add: w32_def)

lemma w64_id [wrap_simps]: "n < 2 ^ 64 \<Longrightarrow> w64 n = n"
  by (simp add: w64_def)

lemma w32_less [simp]: "w32 n < 2 ^ 32"
  by (simp add: w32_def)

lemma w64_less [simp]: "w64 n < 2 ^ 64"
  by (simp add: w64_def)

lemma w64_le: "w64 n \<le> n"
  by (simp add: w64_def)

lemma w32_le: "w32 n \<le> n"
  by (simp add: w32_def)

lemma sub64_no_wrap [wrap_simps]: "b \<le> a \<Longrightarrow> sub64 a b = a - b"
  by (simp add: sub64_def)

lemma sub64_wraps: "a < b \<Longrightarrow> sub64 a b = 2 ^ 64 - (b - a)"
  by (simp add: sub64_def)

section \<open>Slices of buffers\<close>

definition slice :: "nat \<Rightarrow> nat \<Rightarrow> 'a list \<Rightarrow> 'a list" where
  "slice off n xs = take n (drop off xs)"

lemma length_slice [simp]: "length (slice off n xs) = min n (length xs - off)"
  by (simp add: slice_def)

lemma slice_zero [simp, slice_simps]: "slice off 0 xs = []"
  by (simp add: slice_def)

lemma slice_all [slice_simps]: "slice 0 (length xs) xs = xs"
  by (simp add: slice_def)

lemma nth_slice [slice_simps]:
  "i < n \<Longrightarrow> off + i < length xs \<Longrightarrow> slice off n xs ! i = xs ! (off + i)"
  by (simp add: slice_def)

lemma slice_append_slice:
  "slice off a xs @ slice (off + a) b xs = slice off (a + b) xs"
  by (simp add: slice_def take_add add.commute)

lemma slice_slice [slice_simps]:
  "a + b \<le> n \<Longrightarrow> slice a b (slice off n xs) = slice (off + a) b xs"
  by (simp add: slice_def drop_take add.commute)

lemma slice_map: "slice off n (map f xs) = map f (slice off n xs)"
  by (simp add: slice_def drop_map take_map)

lemma slice_append_left [slice_simps]:
  "off + n \<le> length xs \<Longrightarrow> slice off n (xs @ ys) = slice off n xs"
  by (simp add: slice_def)

lemma slice_append_right [slice_simps]:
  "length xs \<le> off \<Longrightarrow> slice off n (xs @ ys) = slice (off - length xs) n ys"
  by (simp add: slice_def)

lemma slice_eqI:
  assumes "length ys = n" "off + n \<le> length xs"
    and "\<And>i. i < n \<Longrightarrow> ys ! i = xs ! (off + i)"
  shows "ys = slice off n xs"
  using assms by (intro nth_equalityI) (simp_all add: slice_def)

text \<open>Overwriting a range of a buffer, as \<open>memcpy\<close> into it does.\<close>

definition splice :: "nat \<Rightarrow> 'a list \<Rightarrow> 'a list \<Rightarrow> 'a list" where
  "splice off new xs = take off xs @ new @ drop (off + length new) xs"

lemma length_splice [simp]:
  "off + length new \<le> length xs \<Longrightarrow> length (splice off new xs) = length xs"
  by (simp add: splice_def)

lemma slice_splice_same [slice_simps]:
  "off \<le> length xs \<Longrightarrow> slice off (length new) (splice off new xs) = new"
  by (simp add: splice_def slice_def)

section \<open>Checked reads\<close>

text \<open>
  A read outside the buffer is undefined behaviour in C++; here it is \<open>None\<close>.  A
  parser written with these reads is memory safe on an input exactly when it returns
  \<open>Some\<close>.
\<close>

definition rd8 :: "'a list \<Rightarrow> nat \<Rightarrow> 'a option" where
  "rd8 xs i = (if i < length xs then Some (xs ! i) else None)"

definition rd_slice :: "'a list \<Rightarrow> nat \<Rightarrow> nat \<Rightarrow> 'a list option" where
  "rd_slice xs off n = (if off + n \<le> length xs then Some (slice off n xs) else None)"

fun le_nat :: "buf \<Rightarrow> nat" where
  "le_nat [] = 0"
| "le_nat (b # bs) = unat b + 256 * le_nat bs"

fun be_nat :: "nat \<Rightarrow> buf \<Rightarrow> nat" where
  "be_nat acc [] = acc"
| "be_nat acc (b # bs) = be_nat (256 * acc + unat b) bs"

definition rd_le :: "nat \<Rightarrow> buf \<Rightarrow> nat \<Rightarrow> nat option" where
  "rd_le n xs off = map_option le_nat (rd_slice xs off n)"

lemma rd8_Some [simp]: "i < length xs \<Longrightarrow> rd8 xs i = Some (xs ! i)"
  by (simp add: rd8_def)

lemma rd_slice_Some [simp]: "off + n \<le> length xs \<Longrightarrow> rd_slice xs off n = Some (slice off n xs)"
  by (simp add: rd_slice_def)

lemma rd_le_Some [simp]: "off + n \<le> length xs \<Longrightarrow> rd_le n xs off = Some (le_nat (slice off n xs))"
  by (simp add: rd_le_def)

lemma le_nat_less: "le_nat bs < 256 ^ length bs"
proof (induction bs)
  case Nil
  then show ?case by simp
next
  case (Cons b bs)
  have "unat b + 256 * le_nat bs < 256 + 256 * le_nat bs"
    by simp
  also have "\<dots> \<le> 256 * 256 ^ length bs"
    using Cons.IH by simp
  finally show ?case by simp
qed

lemma le_nat_slice_less: "le_nat (slice off n xs) < 256 ^ n"
proof -
  have "le_nat (slice off n xs) < 256 ^ length (slice off n xs)"
    by (rule le_nat_less)
  also have "\<dots> \<le> 256 ^ n"
    by (rule power_increasing) simp_all
  finally show ?thesis .
qed

lemma rd_le_less: "rd_le n xs off = Some v \<Longrightarrow> v < 256 ^ n"
  by (auto simp: rd_le_def rd_slice_def le_nat_slice_less split: if_splits)

text \<open>The byte loop \<open>v |= p[i] << 8 * i\<close> agrees with \<open>le_nat\<close>: the encoder is its inverse.\<close>

fun nat_le :: "nat \<Rightarrow> nat \<Rightarrow> buf" where
  "nat_le 0 v = []"
| "nat_le (Suc n) v = word_of_nat v # nat_le n (v div 256)"

lemma length_nat_le [simp]: "length (nat_le n v) = n"
  by (induction n v rule: nat_le.induct) simp_all

lemma le_nat_nat_le: "le_nat (nat_le n v) = v mod 256 ^ n"
proof (induction n v rule: nat_le.induct)
  case (1 v)
  then show ?case by simp
next
  case (2 n v)
  have "le_nat (nat_le (Suc n) v) = v mod 256 + 256 * (v div 256 mod 256 ^ n)"
    using 2 by (simp add: unat_of_nat)
  also have "\<dots> = v mod (256 * 256 ^ n)"
    by (simp add: mod_mult2_eq)
  finally show ?case by simp
qed

section \<open>Rounding up to a block size\<close>

lemma round_up_ge: "0 < b \<Longrightarrow> x \<le> (x + b - 1) div b * (b :: nat)"
  using div_mult_mod_eq [of "x + b - 1" b] mod_less_divisor [of b "x + b - 1"] by linarith

lemma round_up_less: "0 < b \<Longrightarrow> (x + b - 1) div b * b < x + (b :: nat)"
  using div_mult_mod_eq [of "x + b - 1" b] by linarith

lemma round_up_le:
  assumes "0 < b" "x \<le> q * (b :: nat)"
  shows "(x + b - 1) div b * b \<le> q * b"
proof -
  have "(x + b - 1) div b < q + 1"
    using assms by (intro less_mult_imp_div_less) simp
  then show ?thesis by (intro mult_le_mono1) simp
qed

lemma round_up_fits: "0 < b \<Longrightarrow> s < b \<Longrightarrow> n + 3 * b < M \<Longrightarrow> (s + n + b - 1) div b * b + b < (M :: nat)"
  using round_up_less [of b "s + n"] by simp

lemma round_up_add:
  assumes "0 < (b :: nat)"
  shows "q * b + (x + b - 1) div b * b = (q * b + x + b - 1) div b * b"
proof -
  have "q * b + x + b - 1 = x + b - 1 + q * b" using assms by simp
  moreover have "(x + b - 1 + q * b) div b = q + (x + b - 1) div b"
    using assms by (rule div_mult_self1 [OF less_imp_neq [THEN not_sym]])
  ultimately show ?thesis by (simp only: add_mult_distrib)
qed

section \<open>Decimal strings\<close>

text \<open>\<open>std::to_string\<close> of an unsigned value.\<close>

definition dec_digit :: "nat \<Rightarrow> char" where
  "dec_digit d = char_of (48 + d)"

fun dec_string :: "nat \<Rightarrow> string" where
  "dec_string n = (if n < 10 then [dec_digit n] else dec_string (n div 10) @ [dec_digit (n mod 10)])"

declare dec_string.simps [simp del]

section \<open>Hexadecimal strings\<close>

definition hex_digit :: "nat \<Rightarrow> char" where
  "hex_digit d = (if d < 10 then char_of (48 + d) else char_of (87 + d))"

definition hex_byte :: "byte \<Rightarrow> string" where
  "hex_byte b = [hex_digit (unat b div 16), hex_digit (unat b mod 16)]"

section \<open>Strings as bytes\<close>

definition bytes_of :: "string \<Rightarrow> buf" where
  "bytes_of s = map (\<lambda>c. word_of_nat (of_char c)) s"

lemma length_bytes_of [simp]: "length (bytes_of s) = length s"
  by (simp add: bytes_of_def)

text \<open>
  A test on memory that may lie outside the buffer: \<open>None\<close> is the undefined access, and
  the conjunction evaluates its second test only when the first one holds.
\<close>

definition and_also :: "bool option \<Rightarrow> bool option \<Rightarrow> bool option" where
  "and_also a b = (case a of None \<Rightarrow> None | Some False \<Rightarrow> Some False | Some True \<Rightarrow> b)"

definition mem_at :: "buf \<Rightarrow> nat \<Rightarrow> buf \<Rightarrow> bool option" where
  "mem_at pattern off s = map_option (\<lambda>b. b = pattern) (rd_slice s off (length pattern))"

definition byte_at :: "byte \<Rightarrow> nat \<Rightarrow> buf \<Rightarrow> bool option" where
  "byte_at v off s = map_option (\<lambda>b. b = v) (rd8 s off)"

lemma and_also_simps [simp]: "and_also (Some True) b = b" "and_also (Some False) b = Some False"
  "and_also None b = None"
  by (simp_all add: and_also_def)

lemma mem_at_Some [simp]: "off + length pattern \<le> length s \<Longrightarrow> mem_at pattern off s = Some (slice off (length pattern) s = pattern)"
  by (simp add: mem_at_def)

lemma byte_at_Some [simp]: "off < length s \<Longrightarrow> byte_at v off s = Some (s ! off = v)"
  by (simp add: byte_at_def)

section \<open>Finite bijections\<close>

lemma bij_betw_cardI:
  assumes "inj_on f A" "f ` A \<subseteq> B" "finite B" "card A = card B"
  shows "bij_betw f A B"
  using assms by (simp add: bij_betw_def card_image card_subset_eq)

section \<open>Exclusive or on buffers\<close>

definition xor_bytes :: "buf \<Rightarrow> buf \<Rightarrow> buf" where
  "xor_bytes a b = map2 (\<lambda>x y. x XOR y) a b"

lemma length_xor_bytes [simp]: "length (xor_bytes a b) = min (length a) (length b)"
  by (simp add: xor_bytes_def)

lemma nth_xor_bytes [simp]:
  "i < length a \<Longrightarrow> i < length b \<Longrightarrow> xor_bytes a b ! i = a ! i XOR b ! i"
  by (simp add: xor_bytes_def)

lemma xor_cancel_right [simp]: "(x XOR y) XOR y = (x :: 'a :: len word)"
  by (simp add: xor.assoc)

lemma xor_cancel_left [simp]: "y XOR (y XOR x) = (x :: 'a :: len word)"
  by (simp flip: xor.assoc)

lemma xor_bytes_cancel:
  "length a = length b \<Longrightarrow> xor_bytes (xor_bytes a b) b = a"
  by (rule nth_equalityI) simp_all

lemma xor_bytes_commute: "xor_bytes a b = xor_bytes b a"
  by (cases "length a \<le> length b") (rule nth_equalityI; simp add: xor.commute)+

end
