(* ===== verification/Raid_Layout.thy ===== *)
theory Raid_Layout
  imports Prelude
begin

text \<open>
  Model of \<open>native/src/fs/raid_layout.cpp\<close>: on which member disk the data and
  parity blocks of a stripe live.  Stripe indices are \<open>uint64_t\<close>, disk numbers
  \<open>uint32_t\<close>; both are \<open>nat\<close>, with the 32-bit reductions of the code written out
  where a caller's arguments could make them matter.
\<close>

section \<open>RAID 5\<close>

datatype raid5_algorithm = LeftAsymmetric | LeftSymmetric | RightAsymmetric | RightSymmetric

definition raid5_parity_disk :: "nat \<Rightarrow> nat \<Rightarrow> raid5_algorithm \<Rightarrow> nat" where
  "raid5_parity_disk stripe n algo =
     (if n = 0 then 0
      else let i = stripe mod n in
        if algo = RightAsymmetric \<or> algo = RightSymmetric then i else (n - 1) - i)"

definition raid5_data_disk :: "nat \<Rightarrow> nat \<Rightarrow> nat \<Rightarrow> raid5_algorithm \<Rightarrow> nat" where
  "raid5_data_disk stripe block n algo =
     (let parity = raid5_parity_disk stripe n algo in
      if n = 0 then 0
      else if algo = LeftSymmetric then w32 (parity + 1 + block) mod n
      else if algo = RightSymmetric then w32 (2 ^ 32 + parity + n - 1 - block) mod n
      else (let disk = (if parity \<le> block then w32 (block + 1) else block) in disk mod n))"

section \<open>RAID 6\<close>

record raid6_map =
  pDisk :: nat
  qDisk :: nat

definition raid6_disks :: "nat \<Rightarrow> nat \<Rightarrow> raid6_map" where
  "raid6_disks stripe n =
     (if n = 0 then \<lparr>pDisk = 0, qDisk = 0\<rparr>
      else let p = (n - 1) - stripe mod n in
        \<lparr>pDisk = p, qDisk = (if p = 0 then n - 1 else p - 1)\<rparr>)"

text \<open>The walk over the disks that skips both parity positions: \<open>i\<close> is the loop
  variable, \<open>seen\<close> the number of data disks passed.\<close>

function raid6_walk :: "raid6_map \<Rightarrow> nat \<Rightarrow> nat \<Rightarrow> nat \<Rightarrow> nat \<Rightarrow> nat" where
  "raid6_walk m block n i seen =
     (if i < n then
        (if i = pDisk m \<or> i = qDisk m then raid6_walk m block n (i + 1) seen
         else if seen = block then i
         else raid6_walk m block n (i + 1) (seen + 1))
      else 0)"
  by pat_completeness auto
termination
  by (relation "measure (\<lambda>(m, block, n, i, seen). n - i)") auto

declare raid6_walk.simps [simp del]

definition raid6_data_disk :: "nat \<Rightarrow> nat \<Rightarrow> nat \<Rightarrow> nat" where
  "raid6_data_disk stripe block n = raid6_walk (raid6_disks stripe n) block n 0 0"

section \<open>RAID 10 and RAID 1E\<close>

definition raid10_pair :: "nat \<Rightarrow> nat \<Rightarrow> nat" where
  "raid10_pair block n = (let pairs = n div 2 in if pairs = 0 then 0 else block mod pairs)"

definition raid10_member_a :: "nat \<Rightarrow> nat \<Rightarrow> nat" where
  "raid10_member_a block n = raid10_pair block n * 2"

definition raid10_member_b :: "nat \<Rightarrow> nat \<Rightarrow> nat" where
  "raid10_member_b block n = raid10_pair block n * 2 + 1"

record raid1e_loc =
  loc_disk :: nat
  loc_row :: nat

definition raid1e_copy :: "nat \<Rightarrow> nat \<Rightarrow> nat \<Rightarrow> raid1e_loc" where
  "raid1e_copy idx copy n =
     (if n < 3 \<or> copy > 1 then \<lparr>loc_disk = 0, loc_row = 0\<rparr>
      else let slot = w64 (idx * 2 + copy) in \<lparr>loc_disk = slot mod n, loc_row = slot div n\<rparr>)"

section \<open>Closed forms\<close>

lemma raid5_parity_less: "0 < n \<Longrightarrow> raid5_parity_disk s n algo < n"
  by (simp add: raid5_parity_disk_def Let_def)

lemma mod_once: "x < 2 * n \<Longrightarrow> x mod n = (if x < n then x else x - n)" for x n :: nat
  by (simp add: mod_if)

text \<open>With at most \<open>2 ^ 31\<close> disks the 32-bit arithmetic of the code does not wrap, and
  the three orders have these closed forms.\<close>

lemma raid5_data_asym:
  assumes "b < n - 1" "n \<le> 2 ^ 31" "algo = LeftAsymmetric \<or> algo = RightAsymmetric"
  shows "raid5_data_disk s b n algo = (if raid5_parity_disk s n algo \<le> b then b + 1 else b)"
  using assms by (auto simp: raid5_data_disk_def Let_def w32_def)

lemma raid5_data_left_sym:
  fixes s :: nat
  assumes "b < n - 1" "n \<le> 2 ^ 31"
  defines "p \<equiv> raid5_parity_disk s n LeftSymmetric"
  shows "raid5_data_disk s b n LeftSymmetric = (if p + 1 + b < n then p + 1 + b else p + 1 + b - n)"
proof -
  have p: "p < n"
    using assms(1) by (simp add: p_def raid5_parity_less)
  then have "w32 (p + 1 + b) = p + 1 + b"
    using assms(1,2) by (intro w32_id) simp
  moreover have "(p + 1 + b) mod n = (if p + 1 + b < n then p + 1 + b else p + 1 + b - n)"
    using p assms(1) by (intro mod_once) simp
  ultimately show ?thesis
    using assms(1) by (auto simp: raid5_data_disk_def Let_def p_def)
qed

lemma raid5_data_right_sym:
  fixes s :: nat
  assumes "b < n - 1" "n \<le> 2 ^ 31"
  defines "p \<equiv> raid5_parity_disk s n RightSymmetric"
  shows "raid5_data_disk s b n RightSymmetric = (if b < p then p - 1 - b else p + n - 1 - b)"
proof -
  have p: "p < n"
    using assms(1) by (simp add: p_def raid5_parity_less)
  have "2 ^ 32 + p + n - 1 - b = (p + n - 1 - b) + 2 ^ 32"
    using assms(1) by simp
  then have "w32 (2 ^ 32 + p + n - 1 - b) = w32 ((p + n - 1 - b) + 2 ^ 32)"
    by (simp only:)
  also have "\<dots> = p + n - 1 - b"
    using p assms(2) by (simp add: w32_def)
  finally have w: "w32 (2 ^ 32 + p + n - 1 - b) = p + n - 1 - b" .
  have "(p + n - 1 - b) mod n = (if p + n - 1 - b < n then p + n - 1 - b else p + n - 1 - b - n)"
    using p by (intro mod_once) simp
  then show ?thesis
    using p assms(1) w by (auto simp: raid5_data_disk_def Let_def p_def)
qed

lemmas raid5_data_forms = raid5_data_asym raid5_data_left_sym raid5_data_right_sym

lemma raid5_data_inj:
  assumes "n \<le> 2 ^ 31"
  shows "inj_on (\<lambda>b. raid5_data_disk s b n algo) {..<n - 1}"
proof (rule inj_onI)
  fix a b assume "a \<in> {..<n - 1}" "b \<in> {..<n - 1}"
    and eq: "raid5_data_disk s a n algo = raid5_data_disk s b n algo"
  then have ab: "a < n - 1" "b < n - 1" by simp_all
  then have p: "raid5_parity_disk s n algo < n" by (simp add: raid5_parity_less)
  show "a = b"
  proof (cases algo)
    case LeftAsymmetric
    with eq ab assms show ?thesis by (simp add: raid5_data_asym split: if_splits)
  next
    case LeftSymmetric
    with eq ab assms p show ?thesis by (simp add: raid5_data_left_sym split: if_splits)
  next
    case RightAsymmetric
    with eq ab assms show ?thesis by (simp add: raid5_data_asym split: if_splits)
  next
    case RightSymmetric
    with eq ab assms p show ?thesis by (simp add: raid5_data_right_sym split: if_splits)
  qed
qed

lemma raid5_data_avoids_parity:
  assumes "b < n - 1" "n \<le> 2 ^ 31"
  shows "raid5_data_disk s b n algo < n \<and> raid5_data_disk s b n algo \<noteq> raid5_parity_disk s n algo"
proof -
  have p: "raid5_parity_disk s n algo < n"
    using assms(1) by (simp add: raid5_parity_less)
  show ?thesis
    using assms p by (cases algo) (auto simp: raid5_data_forms)
qed

section \<open>The stripe layout interface\<close>

text \<open>
  What the read paths of \<open>virtual_raid.cpp\<close> need from a layout: within every stripe the
  data blocks occupy distinct disks, and exactly those disks that hold no parity.  RAID 5
  (each of its four orders) and RAID 6 provide it below.
\<close>

locale stripe_layout =
  fixes data_disk :: "nat \<Rightarrow> nat \<Rightarrow> nat \<Rightarrow> nat"
    and parity :: "nat \<Rightarrow> nat \<Rightarrow> nat set"
    and npar :: nat
    and valid :: "nat \<Rightarrow> bool"
  assumes inj: "valid n \<Longrightarrow> inj_on (\<lambda>b. data_disk s b n) {..<n - npar}"
    and avoids: "valid n \<Longrightarrow> b < n - npar \<Longrightarrow> data_disk s b n \<in> {..<n} - parity s n"
    and counts: "valid n \<Longrightarrow> card ({..<n} - parity s n) = n - npar"
begin

lemma data_bij:
  assumes "valid n"
  shows "bij_betw (\<lambda>b. data_disk s b n) {..<n - npar} ({..<n} - parity s n)"
  by (rule bij_betw_cardI) (use assms inj avoids counts in auto)

lemma every_data_disk_used:
  assumes "valid n" "d < n" "d \<notin> parity s n"
  shows "\<exists>!b. b < n - npar \<and> data_disk s b n = d"
proof -
  have "d \<in> (\<lambda>b. data_disk s b n) ` {..<n - npar}"
    using assms data_bij [of n s] by (simp add: bij_betw_def)
  then obtain b where b: "b < n - npar" "data_disk s b n = d"
    by auto
  moreover have "b' = b" if "b' < n - npar" "data_disk s b' n = d" for b'
    using inj [OF assms(1), of s] that b by (auto simp: inj_on_def)
  ultimately show ?thesis by blast
qed

lemma data_disk_less: "valid n \<Longrightarrow> b < n - npar \<Longrightarrow> data_disk s b n < n"
  using avoids [of n b s] by simp

lemma data_disk_image:
  "valid n \<Longrightarrow> (\<lambda>b. data_disk s b n) ` {..<n - npar} = {..<n} - parity s n"
  using data_bij [of n s] by (simp add: bij_betw_def)

end

interpretation raid5: stripe_layout
  "\<lambda>s b n. raid5_data_disk s b n algo" "\<lambda>s n. {raid5_parity_disk s n algo}" 1
  "\<lambda>n. 2 \<le> n \<and> n \<le> 2 ^ 31" for algo
proof
  fix s b n :: nat
  assume n: "2 \<le> n \<and> n \<le> 2 ^ 31"
  show "inj_on (\<lambda>b. raid5_data_disk s b n algo) {..<n - 1}"
    using n by (intro raid5_data_inj) simp
  show "b < n - 1 \<Longrightarrow> raid5_data_disk s b n algo \<in> {..<n} - {raid5_parity_disk s n algo}"
    using raid5_data_avoids_parity [of b n s algo] n by simp
  show "card ({..<n} - {raid5_parity_disk s n algo}) = n - 1"
    using n by (simp add: raid5_parity_less)
qed

section \<open>RAID 6: the walk\<close>

abbreviation raid6_parity :: "raid6_map \<Rightarrow> nat set" where
  "raid6_parity m \<equiv> {pDisk m, qDisk m}"

text \<open>The walk returns the disk with exactly \<open>block\<close> data disks below it.\<close>

lemma raid6_walk_correct:
  assumes "seen = card ({..<i} - raid6_parity m)" "seen \<le> block" "block < card ({..<n} - raid6_parity m)"
  shows "raid6_walk m block n i seen < n \<and> raid6_walk m block n i seen \<notin> raid6_parity m \<and>
    card ({..<raid6_walk m block n i seen} - raid6_parity m) = block"
  using assms
proof (induction m block n i seen rule: raid6_walk.induct)
  case (1 m block n i seen)
  have "i < n"
  proof (rule ccontr)
    assume "\<not> i < n"
    then have "card ({..<n} - raid6_parity m) \<le> card ({..<i} - raid6_parity m)"
      by (intro card_mono) auto
    with "1.prems" show False by simp
  qed
  have up: "{..<Suc i} - raid6_parity m =
      (if i \<in> raid6_parity m then {..<i} - raid6_parity m else insert i ({..<i} - raid6_parity m))"
    by (auto simp: lessThan_Suc)
  note unfold = raid6_walk.simps [of m block n i seen]
  consider "i \<in> raid6_parity m" | "i \<notin> raid6_parity m" "seen = block"
    | "i \<notin> raid6_parity m" "seen \<noteq> block" by blast
  then show ?case
  proof cases
    case 1
    with "1.IH"(1) "1.prems" \<open>i < n\<close> up unfold show ?thesis by simp
  next
    case 2
    with "1.prems" \<open>i < n\<close> unfold show ?thesis by simp
  next
    case 3
    with "1.IH"(2) "1.prems" \<open>i < n\<close> up unfold show ?thesis by simp
  qed
qed

lemma raid6_pq:
  assumes "2 \<le> n"
  shows "pDisk (raid6_disks s n) < n" "qDisk (raid6_disks s n) < n"
    and "pDisk (raid6_disks s n) \<noteq> qDisk (raid6_disks s n)"
proof -
  define r where "r = s mod n"
  have r: "r < n" and n: "n \<noteq> 0"
    using assms by (simp_all add: r_def)
  have d: "raid6_disks s n = \<lparr>pDisk = n - 1 - r, qDisk = if n - 1 - r = 0 then n - 1 else n - 1 - r - 1\<rparr>"
    using n by (simp add: raid6_disks_def r_def)
  show "pDisk (raid6_disks s n) < n" "qDisk (raid6_disks s n) < n"
    "pDisk (raid6_disks s n) \<noteq> qDisk (raid6_disks s n)"
    using assms r by (auto simp: d)
qed

lemma raid6_data_disks:
  assumes "2 \<le> n"
  shows "card ({..<n} - {pDisk (raid6_disks s n), qDisk (raid6_disks s n)}) = n - 2"
  using raid6_pq [OF assms, of s] by (simp add: card_Diff_subset)

lemma raid6_data_disk_rank:
  fixes s :: nat
  assumes "2 \<le> n" "b < n - 2"
  defines "P \<equiv> {pDisk (raid6_disks s n), qDisk (raid6_disks s n)}"
  shows "raid6_data_disk s b n < n \<and> raid6_data_disk s b n \<notin> P \<and>
    card ({..<raid6_data_disk s b n} - P) = b"
  unfolding raid6_data_disk_def P_def
  by (rule raid6_walk_correct) (use assms raid6_data_disks [of n s] in simp_all)

interpretation raid6: stripe_layout raid6_data_disk
  "\<lambda>s n. {pDisk (raid6_disks s n), qDisk (raid6_disks s n)}" 2 "\<lambda>n. 2 \<le> n"
proof
  fix s b n :: nat
  assume n: "2 \<le> n"
  show "inj_on (\<lambda>b. raid6_data_disk s b n) {..<n - 2}"
  proof (rule inj_onI)
    fix a b assume "a \<in> {..<n - 2}" "b \<in> {..<n - 2}"
      and "raid6_data_disk s a n = raid6_data_disk s b n"
    then show "a = b"
      using raid6_data_disk_rank [OF n, of a s] raid6_data_disk_rank [OF n, of b s]
      by (metis lessThan_iff)
  qed
  show "b < n - 2 \<Longrightarrow> raid6_data_disk s b n \<in>
      {..<n} - {pDisk (raid6_disks s n), qDisk (raid6_disks s n)}"
    using raid6_data_disk_rank [OF n, of b s] by simp
  show "card ({..<n} - {pDisk (raid6_disks s n), qDisk (raid6_disks s n)}) = n - 2"
    using n by (rule raid6_data_disks)
qed

section \<open>Mirrored layouts\<close>

lemma raid10_pair_less: "2 \<le> n \<Longrightarrow> raid10_pair b n < n div 2"
  by (simp add: raid10_pair_def Let_def)

lemma raid1e_slot:
  assumes "3 \<le> n" "c \<le> 1" "idx * 2 + c < 2 ^ 64"
  shows "loc_row (raid1e_copy idx c n) * n + loc_disk (raid1e_copy idx c n) = idx * 2 + c"
    and "loc_disk (raid1e_copy idx c n) < n"
  using assms by (simp_all add: raid1e_copy_def w64_id Let_def)

section \<open>Properties\<close>

text \<open>C4. Within every RAID 5 stripe, for each of the four mdadm orders, the logical blocks
  occupy pairwise distinct disks and exactly the disks that do not hold the stripe's parity.\<close>

theorem raid5_stripe_bijection:
  assumes "2 \<le> n" "n \<le> 2 ^ 31"
  shows "bij_betw (\<lambda>b. raid5_data_disk s b n algo) {..<n - 1} ({..<n} - {raid5_parity_disk s n algo})"
  by (rule raid5.data_bij) (use assms in simp)

theorem raid5_stripe_bijection_witness:
  "bij_betw (\<lambda>b. raid5_data_disk 2 b 3 LeftSymmetric) {..<2} ({..<3} - {raid5_parity_disk 2 3 LeftSymmetric})
   \<and> raid5_parity_disk 2 3 LeftSymmetric = 0 \<and> raid5_data_disk 2 1 3 LeftSymmetric = 2"
  using raid5_stripe_bijection [of 3 2 LeftSymmetric]
  by (simp add: raid5_parity_disk_def raid5_data_disk_def w32_def)

text \<open>Within every RAID 6 stripe P and Q are on two different disks and the logical blocks
  occupy exactly the other disks, one each, in disk order: block \<open>b\<close> is on the disk with
  \<open>b\<close> data disks below it, which is the slot number the Q syndrome uses.\<close>

lemma raid6_stripe_bijection:
  assumes "2 \<le> n"
  shows "pDisk (raid6_disks s n) \<noteq> qDisk (raid6_disks s n)
    \<and> bij_betw (\<lambda>b. raid6_data_disk s b n) {..<n - 2}
        ({..<n} - {pDisk (raid6_disks s n), qDisk (raid6_disks s n)})
    \<and> (\<forall>b < n - 2. card ({..<raid6_data_disk s b n} -
         {pDisk (raid6_disks s n), qDisk (raid6_disks s n)}) = b)"
  using raid6_pq(3) [OF assms] raid6.data_bij [OF assms] raid6_data_disk_rank [OF assms] by auto

lemma raid6_stripe_bijection_witness:
  "pDisk (raid6_disks 1 4) \<noteq> qDisk (raid6_disks 1 4) \<and> raid6_data_disk 1 1 4 = 3"
  using raid6_stripe_bijection [of 4 1]
  by (simp add: raid6_data_disk_def raid6_disks_def raid6_walk.simps)

text \<open>The two copies of a RAID 1E block are on different members, and the copies of
  all blocks occupy distinct (disk, row) positions.\<close>

lemma raid1e_copies_distinct:
  assumes "3 \<le> n" "idx * 2 + 1 < 2 ^ 64" "idx' * 2 + 1 < 2 ^ 64" "c \<le> 1" "c' \<le> 1"
  shows "loc_disk (raid1e_copy idx 0 n) \<noteq> loc_disk (raid1e_copy idx 1 n)
    \<and> (raid1e_copy idx c n = raid1e_copy idx' c' n \<longleftrightarrow> idx = idx' \<and> c = c')"
proof -
  have slot: "loc_row (raid1e_copy i k n) * n + loc_disk (raid1e_copy i k n) = i * 2 + k"
    if "i * 2 + 1 < 2 ^ 64" "k \<le> 1" for i k
    using that assms(1) by (intro raid1e_slot) simp_all
  have "(idx * 2) mod n \<noteq> (idx * 2 + 1) mod n"
    using assms(1) by (auto simp: mod_Suc)
  then have "loc_disk (raid1e_copy idx 0 n) \<noteq> loc_disk (raid1e_copy idx 1 n)"
    using assms(1,2) by (simp add: raid1e_copy_def w64_id Let_def)
  moreover have "idx = idx' \<and> c = c'" if "raid1e_copy idx c n = raid1e_copy idx' c' n"
  proof -
    have "idx * 2 + c = idx' * 2 + c'"
      using slot [OF assms(2,4)] slot [OF assms(3,5)] that by simp
    then show ?thesis
      using assms(4,5) by presburger
  qed
  ultimately show ?thesis by auto
qed

lemma raid1e_copies_distinct_witness:
  "loc_disk (raid1e_copy 1 0 3) \<noteq> loc_disk (raid1e_copy 1 1 3)
   \<and> raid1e_copy 1 0 3 = \<lparr>loc_disk = 2, loc_row = 0\<rparr> \<and> raid1e_copy 1 1 3 = \<lparr>loc_disk = 0, loc_row = 1\<rparr>"
  using raid1e_copies_distinct [of 3 1 1 0 1] by (simp add: raid1e_copy_def w64_def)

end
