(* ===== verification/Gf256.thy ===== *)
theory Gf256
  imports Prelude
begin

text \<open>
  Model of \<open>native/src/fs/raid6_math.cpp\<close>: arithmetic in GF(2^8) with the polynomial
  0x11D, computed with exponent and logarithm tables, and the proof that the tables
  implement the field: multiplication is polynomial multiplication modulo 0x11D, it is
  commutative, associative, distributes over exclusive or, and division inverts it.
\<close>

section \<open>The tables and the operations\<close>

text \<open>The constructor's loop: \<open>x\<close> is the running power of the generator; \<open>log\<close> has
  256 entries, of which entry 0 keeps the sentinel.\<close>

record gf_tables =
  gf_exp :: "byte list"
  gf_log :: "nat list"

definition gf_next :: "u32 \<Rightarrow> u32" where
  "gf_next x = (let y = push_bit 1 x in if y AND 0x100 \<noteq> 0 then y XOR 0x11D else y)"

fun gf_fill :: "nat \<Rightarrow> nat \<Rightarrow> u32 \<Rightarrow> byte list \<Rightarrow> nat list \<Rightarrow> byte list \<times> nat list" where
  "gf_fill 0 i x es ls = (es, ls)"
| "gf_fill (Suc k) i x es ls = gf_fill k (Suc i) (gf_next x) (es @ [ucast x]) (ls[unat x := i])"

definition gf_init :: gf_tables where
  "gf_init = (case gf_fill 255 0 1 [] (replicate 256 0) of
     (es, ls) \<Rightarrow> \<lparr>gf_exp = take 512 (es @ es @ es), gf_log = ls[0 := 0xFFFF]\<rparr>)"

definition gf_mul :: "byte \<Rightarrow> byte \<Rightarrow> byte" where
  "gf_mul a b = (if a = 0 \<or> b = 0 then 0
     else gf_exp gf_init ! (gf_log gf_init ! unat a + gf_log gf_init ! unat b))"

definition gf_pow :: "int \<Rightarrow> byte" where
  "gf_pow exponent =
     (let e = (if exponent < 0 then - ((- exponent) mod 255) else exponent mod 255);
          e' = (if e < 0 then e + 255 else e)
      in gf_exp gf_init ! nat e')"

definition gf_div :: "byte \<Rightarrow> byte \<Rightarrow> string + byte" where
  "gf_div a b =
     (if b = 0 then Inl ''GF division by zero''
      else if a = 0 then Inr 0
      else Inr (gf_exp gf_init ! ((gf_log gf_init ! unat a + 255 - gf_log gf_init ! unat b) mod 255)))"

section \<open>Polynomial multiplication modulo 0x11D\<close>

text \<open>Multiplication by the generator, and the schoolbook product as the reference.\<close>

definition xtimes :: "byte \<Rightarrow> byte" where
  "xtimes a = push_bit 1 a XOR (if bit a 7 then 0x1D else 0)"

fun poly_mul_upto :: "nat \<Rightarrow> byte \<Rightarrow> byte \<Rightarrow> byte" where
  "poly_mul_upto 0 a b = 0"
| "poly_mul_upto (Suc k) a b =
     poly_mul_upto k a b XOR (if bit b k then (xtimes ^^ k) a else 0)"

definition poly_mul :: "byte \<Rightarrow> byte \<Rightarrow> byte" where
  "poly_mul a b = poly_mul_upto 8 a b"

lemma xtimes_xor: "xtimes (a XOR b) = xtimes a XOR xtimes b"
  by (cases "bit a 7"; cases "bit b 7")
    (simp_all add: xtimes_def bit_xor_iff xor.assoc xor.commute xor.left_commute)

lemma xtimes_0 [simp]: "xtimes 0 = 0"
  by (simp add: xtimes_def)

lemma xtimes_pow_xor: "(xtimes ^^ k) (a XOR b) = (xtimes ^^ k) a XOR (xtimes ^^ k) b"
  by (induction k) (simp_all add: xtimes_xor)

lemma xtimes_pow_0 [simp]: "(xtimes ^^ k) 0 = 0"
  by (induction k) simp_all

lemma poly_mul_upto_xor_right:
  "poly_mul_upto k a (b XOR c) = poly_mul_upto k a b XOR poly_mul_upto k a c"
  by (induction k) (auto simp: bit_xor_iff xor.assoc xor.commute xor.left_commute)

lemma poly_mul_upto_xor_left:
  "poly_mul_upto k (a XOR b) c = poly_mul_upto k a c XOR poly_mul_upto k b c"
  by (induction k) (auto simp: xtimes_pow_xor xor.assoc xor.commute xor.left_commute)

lemma poly_mul_upto_xtimes: "poly_mul_upto k (xtimes a) b = xtimes (poly_mul_upto k a b)"
  by (induction k) (simp_all add: xtimes_xor funpow_swap1)

lemma poly_mul_upto_xtimes_pow:
  "poly_mul_upto k ((xtimes ^^ i) a) b = (xtimes ^^ i) (poly_mul_upto k a b)"
  by (induction i) (simp_all add: poly_mul_upto_xtimes)

section \<open>The generator has order 255\<close>

lemma gf_next_xtimes: "gf_next (ucast (a :: byte)) = ucast (xtimes a)"
  by (rule byte_cases_list) code_simp

lemma xtimes_inj: "xtimes a = xtimes b \<Longrightarrow> a = b"
proof -
  assume "xtimes a = xtimes b"
  then have "xtimes (a XOR b) = 0"
    by (simp add: xtimes_xor)
  moreover have "xtimes c = 0 \<longrightarrow> c = 0" for c
    by (rule byte_cases_list) code_simp
  ultimately have "a XOR b = 0" by blast
  then have "b XOR (a XOR b) = b" by simp
  then show "a = b"
    by (metis xor.commute xor_cancel_right)
qed

lemma xtimes_pow_inj: "(xtimes ^^ k) a = (xtimes ^^ k) b \<Longrightarrow> a = b"
  by (induction k) (auto dest: xtimes_inj)

text \<open>Iteration with an accumulator, for evaluation.\<close>

fun xtimes_iter :: "nat \<Rightarrow> byte \<Rightarrow> byte" where
  "xtimes_iter 0 a = a"
| "xtimes_iter (Suc n) a = xtimes_iter n (xtimes a)"

lemma xtimes_iter_eq: "xtimes_iter n a = (xtimes ^^ n) a"
  by (induction n arbitrary: a) (simp_all add: funpow_swap1)

lemma xtimes_255: "(xtimes ^^ 255) 1 = 1"
proof -
  have "xtimes_iter 255 1 = 1" by code_simp
  then show ?thesis by (simp only: xtimes_iter_eq)
qed

lemma xtimes_no_small_period:
  "(xtimes ^^ 85) 1 \<noteq> 1" "(xtimes ^^ 51) 1 \<noteq> 1" "(xtimes ^^ 15) 1 \<noteq> 1"
proof -
  have "xtimes_iter 85 1 = 214" "xtimes_iter 51 1 = 10" "xtimes_iter 15 1 = 38"
    by code_simp+
  then show "(xtimes ^^ 85) 1 \<noteq> 1" "(xtimes ^^ 51) 1 \<noteq> 1" "(xtimes ^^ 15) 1 \<noteq> 1"
    by (simp_all only: xtimes_iter_eq) simp_all
qed

lemma xtimes_period_mult: "(xtimes ^^ d) 1 = 1 \<Longrightarrow> (xtimes ^^ (m * d)) 1 = 1"
  by (induction m) (simp_all add: funpow_add)

lemma xtimes_period_gcd:
  assumes "(xtimes ^^ a) 1 = 1" "(xtimes ^^ b) 1 = 1" "0 < a"
  shows "(xtimes ^^ gcd a b) 1 = 1"
proof -
  obtain x y where xy: "x * a = y * b + gcd a b"
    using bezout_nat [of a b] assms(3) by (metis mult.commute neq0_conv)
  have "(xtimes ^^ gcd a b) ((xtimes ^^ (y * b)) 1) = (xtimes ^^ (x * a)) 1"
    by (simp add: xy funpow_add [symmetric] add.commute flip: comp_apply [of "xtimes ^^ _" "xtimes ^^ _"])
  then show ?thesis
    using assms(1,2) by (simp add: xtimes_period_mult)
qed

lemma proper_divisor_255:
  assumes "d dvd 255" "d < (255 :: nat)"
  shows "d dvd 85 \<or> d dvd 51 \<or> d dvd 15"
proof -
  have "\<forall>d < (255 :: nat). d dvd 255 \<longrightarrow> d dvd 85 \<or> d dvd 51 \<or> d dvd 15"
    by code_simp
  with assms show ?thesis by blast
qed

lemma xtimes_order:
  assumes "(xtimes ^^ k) 1 = 1" "0 < k"
  shows "255 \<le> k"
proof (rule ccontr)
  assume "\<not> 255 \<le> k"
  then have "gcd k 255 < 255"
    using assms(2) by (metis gcd_le1_nat le_less_trans neq0_conv not_le)
  then have "gcd k 255 dvd 85 \<or> gcd k 255 dvd 51 \<or> gcd k 255 dvd 15"
    by (rule proper_divisor_255 [OF gcd_dvd2])
  moreover have "(xtimes ^^ m) 1 = 1" if "gcd k 255 dvd m" for m
    using that xtimes_period_mult [OF xtimes_period_gcd [OF assms(1) xtimes_255 assms(2)]]
    by (metis dvd_def mult.commute)
  ultimately show False
    using xtimes_no_small_period by blast
qed

lemma generator_inj: "inj_on (\<lambda>j. (xtimes ^^ j) 1) {..<255}"
proof (rule linorder_inj_onI')
  fix i j :: nat
  assume "i \<in> {..<255}" "j \<in> {..<255}" "i < j"
  show "(xtimes ^^ i) 1 \<noteq> (xtimes ^^ j) 1"
  proof
    assume eq: "(xtimes ^^ i) 1 = (xtimes ^^ j) 1"
    have "(xtimes ^^ j) 1 = (xtimes ^^ i) ((xtimes ^^ (j - i)) 1)"
      using \<open>i < j\<close> by (simp flip: funpow_add [THEN fun_cong, unfolded comp_apply])
    with eq have "(xtimes ^^ (j - i)) 1 = 1"
      by (metis xtimes_pow_inj)
    then show False
      using xtimes_order [of "j - i"] \<open>i < j\<close> \<open>j \<in> {..<255}\<close> by simp
  qed
qed

lemma generator_nonzero: "(xtimes ^^ j) 1 \<noteq> 0"
  using xtimes_pow_inj [of j 1 0] by auto

lemma generator_onto: "(\<lambda>j. (xtimes ^^ j) 1) ` {..<255} = - {0 :: byte}"
proof (rule card_subset_eq)
  show "(\<lambda>j. (xtimes ^^ j) 1) ` {..<255} \<subseteq> - {0}"
    using generator_nonzero by auto
  have "card (- {0 :: byte}) = 255"
    by (simp add: Compl_eq_Diff_UNIV card_word)
  then show "card ((\<lambda>j. (xtimes ^^ j) 1) ` {..<255}) = card (- {0 :: byte})"
    using card_image [OF generator_inj] by simp
qed simp

definition gen_pow :: "nat \<Rightarrow> byte" where
  "gen_pow j = (xtimes ^^ j) 1"

lemma gen_pow_0 [simp]: "gen_pow 0 = 1"
  by (simp add: gen_pow_def)

lemma gen_pow_add: "(xtimes ^^ i) (gen_pow j) = gen_pow (i + j)"
  by (simp add: gen_pow_def funpow_add)

lemma gen_pow_add_255: "gen_pow (i + 255) = gen_pow i"
  using xtimes_255 by (simp add: gen_pow_def funpow_add)

lemma gen_pow_mod: "gen_pow (i mod 255) = gen_pow i"
proof -
  have "gen_pow (r + 255 * q) = gen_pow r" for r q
    by (induction q) (use gen_pow_add_255 [of "r + 255 * _"] in \<open>simp_all add: add.commute add.left_commute\<close>)
  from this [of "i mod 255" "i div 255"] show ?thesis by simp
qed

lemma gen_pow_nonzero [simp]: "gen_pow j \<noteq> 0"
  using generator_nonzero by (simp add: gen_pow_def)

lemma gen_pow_eq_iff: "i < 255 \<Longrightarrow> j < 255 \<Longrightarrow> gen_pow i = gen_pow j \<longleftrightarrow> i = j"
  using generator_inj by (auto simp: gen_pow_def inj_on_def)

lemma gen_pow_cases:
  assumes "a \<noteq> 0"
  obtains i where "i < 255" "a = gen_pow i"
proof -
  have "a \<in> (\<lambda>j. (xtimes ^^ j) 1) ` {..<255}"
    using assms by (simp add: generator_onto)
  then show ?thesis
    using that by (auto simp: gen_pow_def)
qed

section \<open>What the table construction computes\<close>

lemma gf_fill_exp:
  "fst (gf_fill k i (ucast (a :: byte)) es ls) = es @ map (\<lambda>j. (xtimes ^^ j) a) [0..<k]"
proof (induction k arbitrary: i a es ls)
  case 0
  then show ?case by simp
next
  case (Suc k)
  have "map (\<lambda>j. (xtimes ^^ j) a) [0..<Suc k] = a # map (\<lambda>j. (xtimes ^^ j) (xtimes a)) [0..<k]"
    by (simp add: upt_conv_Cons map_Suc_upt [symmetric] funpow_swap1 del: upt_Suc)
  with Suc.IH show ?case
    by (simp add: gf_next_xtimes)
qed

lemma gf_fill_log:
  assumes "length ls = 256" "inj_on (\<lambda>j. (xtimes ^^ j) a) {..<k}"
  shows "length (snd (gf_fill k i (ucast (a :: byte)) es ls)) = 256
    \<and> (\<forall>j < k. snd (gf_fill k i (ucast a) es ls) ! unat ((xtimes ^^ j) a) = i + j)
    \<and> (\<forall>v. v \<notin> (\<lambda>j. (xtimes ^^ j) a) ` {..<k} \<longrightarrow> snd (gf_fill k i (ucast a) es ls) ! unat v = ls ! unat v)"
  using assms
proof (induction k arbitrary: i a es ls)
  case 0
  then show ?case by simp
next
  case (Suc k)
  let ?ls = "ls[unat a := i]"
  let ?r = "snd (gf_fill k (Suc i) (ucast (xtimes a)) (es @ [a]) ?ls)"
  have step: "snd (gf_fill (Suc k) i (ucast a) es ls) = ?r"
    by (simp add: gf_next_xtimes)
  have shift: "(xtimes ^^ j) (xtimes a) = (xtimes ^^ Suc j) a" for j
    by (simp add: funpow_swap1)
  have inj: "inj_on (\<lambda>j. (xtimes ^^ j) (xtimes a)) {..<k}"
    using Suc.prems(2) by (force simp: shift inj_on_def simp del: funpow.simps)
  note IH = Suc.IH [of ?ls "xtimes a" "Suc i" "es @ [a]", OF _ inj]
  have fresh: "a \<notin> (\<lambda>j. (xtimes ^^ j) (xtimes a)) ` {..<k}"
  proof
    assume "a \<in> (\<lambda>j. (xtimes ^^ j) (xtimes a)) ` {..<k}"
    then obtain j where j: "j < k" "(xtimes ^^ Suc j) a = (xtimes ^^ 0) a"
      by (auto simp: shift simp del: funpow.simps(2))
    have "Suc j = 0"
      by (rule inj_onD [OF Suc.prems(2) j(2)]) (use j(1) in simp_all)
    then show False by simp
  qed
  have image: "(\<lambda>j. (xtimes ^^ j) a) ` {..<Suc k} = insert a ((\<lambda>j. (xtimes ^^ j) (xtimes a)) ` {..<k})"
    by (auto simp: lessThan_Suc_eq_insert_0 shift image_iff simp del: funpow.simps(2))
  show ?case
    unfolding step
  proof (intro conjI allI impI)
    show "length ?r = 256" using IH Suc.prems(1) by simp
  next
    fix j assume j: "j < Suc k"
    show "?r ! unat ((xtimes ^^ j) a) = i + j"
    proof (cases j)
      case 0
      with IH Suc.prems(1) fresh show ?thesis by simp
    next
      case (Suc j')
      with j IH Suc.prems(1) show ?thesis by (simp add: shift [symmetric] del: funpow.simps(2))
    qed
  next
    fix v assume "v \<notin> (\<lambda>j. (xtimes ^^ j) a) ` {..<Suc k}"
    then have "v \<noteq> a" "v \<notin> (\<lambda>j. (xtimes ^^ j) (xtimes a)) ` {..<k}"
      by (simp_all add: image)
    then show "?r ! unat v = ls ! unat v"
      using IH Suc.prems(1) by (simp add: word_unat_eq_iff)
  qed
qed

lemma gf_exp_nth:
  assumes "i < 512"
  shows "gf_exp gf_init ! i = gen_pow i"
proof -
  define es where "es = map gen_pow [0..<255]"
  have "fst (gf_fill 255 0 1 [] (replicate 256 0)) = es"
    using gf_fill_exp [of 255 0 1 "[]"] by (simp add: es_def gen_pow_def [abs_def])
  then have exp: "gf_exp gf_init = take 512 (es @ es @ es)"
    by (simp add: gf_init_def case_prod_beta)
  have len: "length es = 255" by (simp add: es_def)
  consider "i < 255" | "255 \<le> i" "i < 510" | "510 \<le> i" by linarith
  then show ?thesis
  proof cases
    case 1
    then show ?thesis by (simp add: exp nth_append len) (simp add: es_def)
  next
    case 2
    then have "i - 255 < 255" by linarith
    with 2 have "gf_exp gf_init ! i = gen_pow (i - 255)"
      by (simp add: exp nth_append len) (simp add: es_def)
    with 2 show ?thesis using gen_pow_add_255 [of "i - 255"] by simp
  next
    case 3
    then have "\<not> i - 255 < 255" "i - 510 < 255" using assms by linarith+
    with 3 assms have "gf_exp gf_init ! i = gen_pow (i - 510)"
      by (simp add: exp nth_append len) (simp add: es_def)
    with 3 show ?thesis
      using gen_pow_add_255 [of "i - 510"] gen_pow_add_255 [of "i - 255"] by simp
  qed
qed

lemma gf_log_gen_pow:
  assumes "i < 255"
  shows "gf_log gf_init ! unat (gen_pow i) = i"
proof -
  note fill = gf_fill_log [of "replicate 256 0" 1 255 0 "[]", OF _ generator_inj]
  have "unat (gen_pow i) \<noteq> 0"
    using gen_pow_nonzero [of i] by (simp add: unat_eq_0)
  moreover have "snd (gf_fill 255 0 1 [] (replicate 256 0)) ! unat (gen_pow i) = i"
    using fill assms by (simp add: gen_pow_def)
  ultimately show ?thesis
    by (simp add: gf_init_def case_prod_beta)
qed

lemma gf_mul_gen_pow: "gf_mul (gen_pow i) (gen_pow j) = gen_pow (i + j)"
proof -
  have "gf_mul (gen_pow (i mod 255)) (gen_pow (j mod 255)) = gen_pow (i mod 255 + j mod 255)"
    by (simp add: gf_mul_def gf_log_gen_pow gf_exp_nth add_strict_mono [of _ 255 _ 257, simplified] less_imp_le_nat)
  also have "\<dots> = gen_pow ((i mod 255 + j mod 255) mod 255)"
    by (simp only: gen_pow_mod)
  also have "\<dots> = gen_pow (i + j)"
    by (simp only: mod_add_eq gen_pow_mod)
  finally show ?thesis by (simp only: gen_pow_mod)
qed

lemma gf_pow_nat: "gf_pow (int k) = gen_pow k"
proof -
  have "int k mod 255 = int (k mod 255)"
    by (simp add: zmod_int)
  then have "gf_pow (int k) = gf_exp gf_init ! (k mod 255)"
    by (simp add: gf_pow_def Let_def)
  also have "\<dots> = gen_pow (k mod 255)"
    by (rule gf_exp_nth) (rule less_trans [OF mod_less_divisor], simp_all)
  finally show ?thesis by (simp only: gen_pow_mod)
qed

lemma poly_mul_one: "poly_mul 1 b = b"
  by (rule byte_cases_list) code_simp

lemma poly_mul_gen_pow: "poly_mul (gen_pow i) b = (xtimes ^^ i) b"
  using poly_mul_upto_xtimes_pow [of 8 i 1 b] poly_mul_one by (simp add: poly_mul_def gen_pow_def)

lemma gf_mul_zero [simp]: "gf_mul 0 b = 0" "gf_mul a 0 = 0"
  by (simp_all add: gf_mul_def)

lemma poly_mul_zero: "poly_mul 0 b = 0" "poly_mul a 0 = 0"
  using poly_mul_upto_xor_left [of 8 a a b] poly_mul_upto_xor_right [of 8 a b b]
  by (simp_all add: poly_mul_def)

lemma gf_mul_poly: "gf_mul a b = poly_mul a b"
proof (cases "a = 0 \<or> b = 0")
  case True
  then show ?thesis by (auto simp: poly_mul_zero)
next
  case False
  then obtain i j where "a = gen_pow i" "b = gen_pow j"
    by (metis gen_pow_cases)
  then show ?thesis
    by (simp add: gf_mul_gen_pow poly_mul_gen_pow gen_pow_add)
qed

lemma gf_mul_commute: "gf_mul a b = gf_mul b a"
  by (cases "a = 0"; cases "b = 0") (auto elim!: gen_pow_cases simp: gf_mul_gen_pow add.commute)

lemma gf_mul_assoc: "gf_mul (gf_mul a b) c = gf_mul a (gf_mul b c)"
  by (cases "a = 0"; cases "b = 0"; cases "c = 0") (auto elim!: gen_pow_cases simp: gf_mul_gen_pow add.assoc)

lemma gf_mul_xor_left: "gf_mul (a XOR b) c = gf_mul a c XOR gf_mul b c"
  by (simp add: gf_mul_poly poly_mul_def poly_mul_upto_xor_left)

lemma gf_mul_xor_right: "gf_mul a (b XOR c) = gf_mul a b XOR gf_mul a c"
  by (simp add: gf_mul_poly poly_mul_def poly_mul_upto_xor_right)

lemma gf_mul_one: "gf_mul 1 a = a"
  by (simp add: gf_mul_poly poly_mul_one)

lemma gf_div_mul: "b \<noteq> 0 \<Longrightarrow> gf_div (gf_mul a b) b = Inr a"
proof (cases "a = 0")
  case True
  moreover assume "b \<noteq> 0"
  ultimately show ?thesis by (simp add: gf_div_def)
next
  case False
  assume "b \<noteq> 0"
  with False obtain i j where ij: "i < 255" "j < 255" "a = gen_pow i" "b = gen_pow j"
    by (metis gen_pow_cases)
  have prod: "gf_mul (gen_pow i) (gen_pow j) = gen_pow ((i + j) mod 255)"
    by (simp add: gf_mul_gen_pow gen_pow_mod)
  have "((i + j) mod 255 + 255 - j) mod 255 = i"
    using ij(1,2) by (auto simp: mod_if)
  then have "gf_exp gf_init ! (((i + j) mod 255 + 255 - j) mod 255) = gen_pow i"
    using ij(1) by (simp add: gf_exp_nth)
  then show ?thesis
    using ij(2) by (simp add: gf_div_def prod gf_log_gen_pow ij(3,4))
qed

section \<open>The interface to the RAID 6 reconstruction\<close>

text \<open>
  What \<open>read_raid6\<close> relies on when it solves for lost blocks: a commutative,
  associative product that distributes over exclusive or and has an inverse division.
\<close>

locale erasure_field =
  fixes mul :: "byte \<Rightarrow> byte \<Rightarrow> byte"
    and dvd_by :: "byte \<Rightarrow> byte \<Rightarrow> string + byte"
  assumes commute: "mul a b = mul b a"
    and assoc: "mul (mul a b) c = mul a (mul b c)"
    and distrib: "mul a (b XOR c) = mul a b XOR mul a c"
    and one: "mul 1 a = a"
    and div_mul: "b \<noteq> 0 \<Longrightarrow> dvd_by (mul a b) b = Inr a"
begin

lemma distrib_left: "mul (a XOR b) c = mul a c XOR mul b c"
  by (simp add: commute [of _ c] distrib)

lemma zero_right: "mul a 0 = 0"
  using distrib [of a 0 0] by simp

lemma solve_one: "g \<noteq> 0 \<Longrightarrow> dvd_by (mul x g) g = Inr x"
  by (rule div_mul)

lemma solve_two:
  assumes "gi XOR gj \<noteq> 0" "p = x XOR y" "q = mul x gi XOR mul y gj"
  shows "dvd_by (mul gj p XOR q) (gi XOR gj) = Inr x" "p XOR x = y"
proof -
  have "mul gj p XOR q = mul x (gi XOR gj)"
    by (simp add: assms(2,3) distrib commute [of _ gj] xor.assoc xor.commute xor.left_commute)
  then show "dvd_by (mul gj p XOR q) (gi XOR gj) = Inr x"
    using div_mul [OF assms(1)] by simp
  show "p XOR x = y"
    by (simp add: assms(2) xor.commute [of x y])
qed

end

interpretation gf: erasure_field gf_mul gf_div
  by unfold_locales
    (rule gf_mul_commute gf_mul_assoc gf_mul_xor_right gf_mul_one gf_div_mul; assumption?)+

section \<open>Properties\<close>

text \<open>C3. The table-driven product of the RAID 6 code is polynomial multiplication modulo 0x11D,
  and with exclusive or it makes the bytes a field: the product is commutative, associative,
  distributes over exclusive or, has unit 1, and \<open>gf_div\<close> undoes it by any nonzero factor.\<close>

theorem gf_tables_implement_field:
  "gf_mul a b = poly_mul a b
   \<and> gf_mul a b = gf_mul b a
   \<and> gf_mul (gf_mul a b) c = gf_mul a (gf_mul b c)
   \<and> gf_mul a (b XOR c) = gf_mul a b XOR gf_mul a c
   \<and> gf_mul 1 a = a
   \<and> gf_div (gf_mul a (if b = 0 then 1 else b)) (if b = 0 then 1 else b) = Inr a
   \<and> gf_div a 0 = Inl ''GF division by zero''"
  by (simp add: gf_mul_poly [symmetric] gf.assoc gf.distrib gf.one gf.div_mul gf_div_def [of a 0])
    (rule gf.commute)

text \<open>The generator has full order: \<open>gf_pow\<close> has period 255 in its integer exponent,
  negative exponents included, and the 255 powers are exactly the nonzero bytes, so that two
  different slots of a stripe of at most 255 data disks never have the same coefficient.\<close>

lemma gf_pow_primitive:
  "gf_pow k = gf_pow (k mod 255)
   \<and> bij_betw (\<lambda>i. gf_pow (int i)) {..<255} (- {0})
   \<and> gf_mul (gf_pow (int i)) (gf_pow (int j)) = gf_pow (int (i + j))"
proof -
  have neg: "gf_pow e = gen_pow (nat (e mod 255))" for e
  proof -
    have "gf_pow e = gf_exp gf_init ! nat (e mod 255)"
      by (auto simp: gf_pow_def Let_def zmod_zminus1_eq_if)
    also have "\<dots> = gen_pow (nat (e mod 255))"
      by (rule gf_exp_nth) (use pos_mod_bound [of 255 e] in linarith)
    finally show ?thesis .
  qed
  have "bij_betw gen_pow {..<255} (- {0})"
    unfolding bij_betw_def using generator_inj generator_onto by (simp add: gen_pow_def [abs_def])
  moreover have "gf_pow k = gf_pow (k mod 255)"
    by (simp add: neg)
  ultimately show ?thesis
    by (simp only: gf_pow_nat gf_mul_gen_pow)
qed

end
