(* ===== verification/Aes.thy ===== *)
theory Aes
  imports Prelude
begin

text \<open>
  Model of \<open>native/src/crypto/aes_xts.cpp\<close>: the AES block cipher with 128- and 256-bit
  keys, and XTS.  A block is a list of 16 bytes, a key schedule a list of 176 or 240 bytes.
\<close>

section \<open>Tables\<close>

definition k_sbox :: buf where
  "k_sbox =
   [0x63, 0x7c, 0x77, 0x7b, 0xf2, 0x6b, 0x6f, 0xc5, 0x30, 0x01, 0x67, 0x2b, 0xfe, 0xd7, 0xab, 0x76,
   0xca, 0x82, 0xc9, 0x7d, 0xfa, 0x59, 0x47, 0xf0, 0xad, 0xd4, 0xa2, 0xaf, 0x9c, 0xa4, 0x72, 0xc0,
   0xb7, 0xfd, 0x93, 0x26, 0x36, 0x3f, 0xf7, 0xcc, 0x34, 0xa5, 0xe5, 0xf1, 0x71, 0xd8, 0x31, 0x15,
   0x04, 0xc7, 0x23, 0xc3, 0x18, 0x96, 0x05, 0x9a, 0x07, 0x12, 0x80, 0xe2, 0xeb, 0x27, 0xb2, 0x75,
   0x09, 0x83, 0x2c, 0x1a, 0x1b, 0x6e, 0x5a, 0xa0, 0x52, 0x3b, 0xd6, 0xb3, 0x29, 0xe3, 0x2f, 0x84,
   0x53, 0xd1, 0x00, 0xed, 0x20, 0xfc, 0xb1, 0x5b, 0x6a, 0xcb, 0xbe, 0x39, 0x4a, 0x4c, 0x58, 0xcf,
   0xd0, 0xef, 0xaa, 0xfb, 0x43, 0x4d, 0x33, 0x85, 0x45, 0xf9, 0x02, 0x7f, 0x50, 0x3c, 0x9f, 0xa8,
   0x51, 0xa3, 0x40, 0x8f, 0x92, 0x9d, 0x38, 0xf5, 0xbc, 0xb6, 0xda, 0x21, 0x10, 0xff, 0xf3, 0xd2,
   0xcd, 0x0c, 0x13, 0xec, 0x5f, 0x97, 0x44, 0x17, 0xc4, 0xa7, 0x7e, 0x3d, 0x64, 0x5d, 0x19, 0x73,
   0x60, 0x81, 0x4f, 0xdc, 0x22, 0x2a, 0x90, 0x88, 0x46, 0xee, 0xb8, 0x14, 0xde, 0x5e, 0x0b, 0xdb,
   0xe0, 0x32, 0x3a, 0x0a, 0x49, 0x06, 0x24, 0x5c, 0xc2, 0xd3, 0xac, 0x62, 0x91, 0x95, 0xe4, 0x79,
   0xe7, 0xc8, 0x37, 0x6d, 0x8d, 0xd5, 0x4e, 0xa9, 0x6c, 0x56, 0xf4, 0xea, 0x65, 0x7a, 0xae, 0x08,
   0xba, 0x78, 0x25, 0x2e, 0x1c, 0xa6, 0xb4, 0xc6, 0xe8, 0xdd, 0x74, 0x1f, 0x4b, 0xbd, 0x8b, 0x8a,
   0x70, 0x3e, 0xb5, 0x66, 0x48, 0x03, 0xf6, 0x0e, 0x61, 0x35, 0x57, 0xb9, 0x86, 0xc1, 0x1d, 0x9e,
   0xe1, 0xf8, 0x98, 0x11, 0x69, 0xd9, 0x8e, 0x94, 0x9b, 0x1e, 0x87, 0xe9, 0xce, 0x55, 0x28, 0xdf,
   0x8c, 0xa1, 0x89, 0x0d, 0xbf, 0xe6, 0x42, 0x68, 0x41, 0x99, 0x2d, 0x0f, 0xb0, 0x54, 0xbb, 0x16]"

definition k_inv_sbox :: buf where
  "k_inv_sbox =
   [0x52, 0x09, 0x6a, 0xd5, 0x30, 0x36, 0xa5, 0x38, 0xbf, 0x40, 0xa3, 0x9e, 0x81, 0xf3, 0xd7, 0xfb,
   0x7c, 0xe3, 0x39, 0x82, 0x9b, 0x2f, 0xff, 0x87, 0x34, 0x8e, 0x43, 0x44, 0xc4, 0xde, 0xe9, 0xcb,
   0x54, 0x7b, 0x94, 0x32, 0xa6, 0xc2, 0x23, 0x3d, 0xee, 0x4c, 0x95, 0x0b, 0x42, 0xfa, 0xc3, 0x4e,
   0x08, 0x2e, 0xa1, 0x66, 0x28, 0xd9, 0x24, 0xb2, 0x76, 0x5b, 0xa2, 0x49, 0x6d, 0x8b, 0xd1, 0x25,
   0x72, 0xf8, 0xf6, 0x64, 0x86, 0x68, 0x98, 0x16, 0xd4, 0xa4, 0x5c, 0xcc, 0x5d, 0x65, 0xb6, 0x92,
   0x6c, 0x70, 0x48, 0x50, 0xfd, 0xed, 0xb9, 0xda, 0x5e, 0x15, 0x46, 0x57, 0xa7, 0x8d, 0x9d, 0x84,
   0x90, 0xd8, 0xab, 0x00, 0x8c, 0xbc, 0xd3, 0x0a, 0xf7, 0xe4, 0x58, 0x05, 0xb8, 0xb3, 0x45, 0x06,
   0xd0, 0x2c, 0x1e, 0x8f, 0xca, 0x3f, 0x0f, 0x02, 0xc1, 0xaf, 0xbd, 0x03, 0x01, 0x13, 0x8a, 0x6b,
   0x3a, 0x91, 0x11, 0x41, 0x4f, 0x67, 0xdc, 0xea, 0x97, 0xf2, 0xcf, 0xce, 0xf0, 0xb4, 0xe6, 0x73,
   0x96, 0xac, 0x74, 0x22, 0xe7, 0xad, 0x35, 0x85, 0xe2, 0xf9, 0x37, 0xe8, 0x1c, 0x75, 0xdf, 0x6e,
   0x47, 0xf1, 0x1a, 0x71, 0x1d, 0x29, 0xc5, 0x89, 0x6f, 0xb7, 0x62, 0x0e, 0xaa, 0x18, 0xbe, 0x1b,
   0xfc, 0x56, 0x3e, 0x4b, 0xc6, 0xd2, 0x79, 0x20, 0x9a, 0xdb, 0xc0, 0xfe, 0x78, 0xcd, 0x5a, 0xf4,
   0x1f, 0xdd, 0xa8, 0x33, 0x88, 0x07, 0xc7, 0x31, 0xb1, 0x12, 0x10, 0x59, 0x27, 0x80, 0xec, 0x5f,
   0x60, 0x51, 0x7f, 0xa9, 0x19, 0xb5, 0x4a, 0x0d, 0x2d, 0xe5, 0x7a, 0x9f, 0x93, 0xc9, 0x9c, 0xef,
   0xa0, 0xe0, 0x3b, 0x4d, 0xae, 0x2a, 0xf5, 0xb0, 0xc8, 0xeb, 0xbb, 0x3c, 0x83, 0x53, 0x99, 0x61,
   0x17, 0x2b, 0x04, 0x7e, 0xba, 0x77, 0xd6, 0x26, 0xe1, 0x69, 0x14, 0x63, 0x55, 0x21, 0x0c, 0x7d]"

definition k_rcon :: buf where
  "k_rcon = [0x00, 0x01, 0x02, 0x04, 0x08, 0x10, 0x20, 0x40, 0x80, 0x1b, 0x36]"

section \<open>Field arithmetic and the round steps\<close>

definition aes_xtime :: "byte \<Rightarrow> byte" where
  "aes_xtime x = push_bit 1 x XOR (drop_bit 7 x * 0x1b)"

fun aes_gf_mul_loop :: "nat \<Rightarrow> byte \<Rightarrow> byte \<Rightarrow> byte \<Rightarrow> byte" where
  "aes_gf_mul_loop 0 p a b = p"
| "aes_gf_mul_loop (Suc i) p a b =
     aes_gf_mul_loop i
       (if b AND 1 \<noteq> 0 then p XOR a else p)
       (if a AND 0x80 \<noteq> 0 then push_bit 1 a XOR 0x1b else push_bit 1 a)
       (drop_bit 1 b)"

definition aes_gf_mul :: "byte \<Rightarrow> byte \<Rightarrow> byte" where
  "aes_gf_mul a b = aes_gf_mul_loop 8 0 a b"

definition add_round_key :: "buf \<Rightarrow> buf \<Rightarrow> buf" where
  "add_round_key s rk = map (\<lambda>i. s ! i XOR rk ! i) [0..<16]"

definition sub_bytes :: "buf \<Rightarrow> buf" where
  "sub_bytes s = map (\<lambda>i. k_sbox ! unat (s ! i)) [0..<16]"

definition inv_sub_bytes :: "buf \<Rightarrow> buf" where
  "inv_sub_bytes s = map (\<lambda>i. k_inv_sbox ! unat (s ! i)) [0..<16]"

definition shift_rows :: "buf \<Rightarrow> buf" where
  "shift_rows s =
     (let s = s[1 := s ! 5, 5 := s ! 9, 9 := s ! 13, 13 := s ! 1];
          s = s[2 := s ! 10, 10 := s ! 2];
          s = s[6 := s ! 14, 14 := s ! 6]
      in s[15 := s ! 11, 11 := s ! 7, 7 := s ! 3, 3 := s ! 15])"

definition inv_shift_rows :: "buf \<Rightarrow> buf" where
  "inv_shift_rows s =
     (let s = s[13 := s ! 9, 9 := s ! 5, 5 := s ! 1, 1 := s ! 13];
          s = s[2 := s ! 10, 10 := s ! 2];
          s = s[6 := s ! 14, 14 := s ! 6]
      in s[3 := s ! 7, 7 := s ! 11, 11 := s ! 15, 15 := s ! 3])"

definition mix_column :: "byte \<Rightarrow> byte \<Rightarrow> byte \<Rightarrow> byte \<Rightarrow> buf" where
  "mix_column a b c d =
     [aes_xtime a XOR aes_xtime b XOR b XOR c XOR d,
      a XOR aes_xtime b XOR aes_xtime c XOR c XOR d,
      a XOR b XOR aes_xtime c XOR aes_xtime d XOR d,
      aes_xtime a XOR a XOR b XOR c XOR aes_xtime d]"

definition inv_mix_column :: "byte \<Rightarrow> byte \<Rightarrow> byte \<Rightarrow> byte \<Rightarrow> buf" where
  "inv_mix_column a b c d =
     [aes_gf_mul a 14 XOR aes_gf_mul b 11 XOR aes_gf_mul c 13 XOR aes_gf_mul d 9,
      aes_gf_mul a 9 XOR aes_gf_mul b 14 XOR aes_gf_mul c 11 XOR aes_gf_mul d 13,
      aes_gf_mul a 13 XOR aes_gf_mul b 9 XOR aes_gf_mul c 14 XOR aes_gf_mul d 11,
      aes_gf_mul a 11 XOR aes_gf_mul b 13 XOR aes_gf_mul c 9 XOR aes_gf_mul d 14]"

definition mix_columns :: "buf \<Rightarrow> buf" where
  "mix_columns s = concat (map (\<lambda>c. mix_column (s ! (4 * c)) (s ! (4 * c + 1)) (s ! (4 * c + 2)) (s ! (4 * c + 3))) [0..<4])"

definition inv_mix_columns :: "buf \<Rightarrow> buf" where
  "inv_mix_columns s = concat (map (\<lambda>c. inv_mix_column (s ! (4 * c)) (s ! (4 * c + 1)) (s ! (4 * c + 2)) (s ! (4 * c + 3))) [0..<4])"

section \<open>Key schedules\<close>

text \<open>\<open>rk\<close> grows by one word per step: \<open>i\<close> is the index of the word being appended.\<close>

definition key_word :: "buf \<Rightarrow> nat \<Rightarrow> buf" where
  "key_word rk i = map (\<lambda>j. rk ! (i * 4 + j)) [0..<4]"

definition rot_sub :: "buf \<Rightarrow> byte \<Rightarrow> buf" where
  "rot_sub t rcon = [k_sbox ! unat (t ! 1) XOR rcon, k_sbox ! unat (t ! 2), k_sbox ! unat (t ! 3), k_sbox ! unat (t ! 0)]"

fun expand_key_loop :: "nat \<Rightarrow> nat \<Rightarrow> buf \<Rightarrow> buf" where
  "expand_key_loop 0 i rk = rk"
| "expand_key_loop (Suc k) i rk =
     (let t = key_word rk (i - 1);
          t = (if i mod 4 = 0 then rot_sub t (k_rcon ! (i div 4)) else t)
      in expand_key_loop k (i + 1) (rk @ map (\<lambda>j. rk ! ((i - 4) * 4 + j) XOR t ! j) [0..<4]))"

definition expand_key :: "buf \<Rightarrow> buf" where
  "expand_key key = expand_key_loop 40 4 key"

fun expand_key256_loop :: "nat \<Rightarrow> nat \<Rightarrow> buf \<Rightarrow> buf" where
  "expand_key256_loop 0 i rk = rk"
| "expand_key256_loop (Suc k) i rk =
     (let t = key_word rk (i - 1);
          t = (if i mod 8 = 0 then rot_sub t (k_rcon ! (i div 8))
               else if i mod 8 = 4 then map (\<lambda>x. k_sbox ! unat x) t else t)
      in expand_key256_loop k (i + 1) (rk @ map (\<lambda>j. rk ! ((i - 8) * 4 + j) XOR t ! j) [0..<4]))"

definition expand_key256 :: "buf \<Rightarrow> buf" where
  "expand_key256 key = expand_key256_loop 52 8 key"

section \<open>The block cipher\<close>

definition round_key :: "buf \<Rightarrow> nat \<Rightarrow> buf" where
  "round_key rk r = slice (r * 16) 16 rk"

text \<open>The middle rounds: \<open>r\<close> counts up when encrypting, down when decrypting.\<close>

fun enc_rounds :: "buf \<Rightarrow> nat \<Rightarrow> buf \<Rightarrow> buf" where
  "enc_rounds rk 0 s = s"
| "enc_rounds rk (Suc r) s =
     add_round_key (mix_columns (shift_rows (sub_bytes (enc_rounds rk r s)))) (round_key rk (Suc r))"

fun dec_rounds :: "buf \<Rightarrow> nat \<Rightarrow> buf \<Rightarrow> buf" where
  "dec_rounds rk 0 s = s"
| "dec_rounds rk (Suc r) s =
     dec_rounds rk r (inv_mix_columns (add_round_key (inv_sub_bytes (inv_shift_rows s)) (round_key rk (Suc r))))"

definition aes_block_crypt :: "buf \<Rightarrow> nat \<Rightarrow> buf \<Rightarrow> bool \<Rightarrow> buf" where
  "aes_block_crypt rk rounds inp decrypt =
     (if \<not> decrypt then
        add_round_key
          (shift_rows (sub_bytes (enc_rounds rk (rounds - 1) (add_round_key inp (round_key rk 0)))))
          (round_key rk rounds)
      else
        add_round_key
          (inv_sub_bytes (inv_shift_rows (dec_rounds rk (rounds - 1) (add_round_key inp (round_key rk rounds)))))
          (round_key rk 0))"

definition aes128_encrypt_block :: "buf \<Rightarrow> buf \<Rightarrow> buf" where
  "aes128_encrypt_block key inp = aes_block_crypt (expand_key key) 10 inp False"

definition aes128_decrypt_block :: "buf \<Rightarrow> buf \<Rightarrow> buf" where
  "aes128_decrypt_block key inp = aes_block_crypt (expand_key key) 10 inp True"

definition aes256_encrypt_block :: "buf \<Rightarrow> buf \<Rightarrow> buf" where
  "aes256_encrypt_block key inp = aes_block_crypt (expand_key256 key) 14 inp False"

definition aes256_decrypt_block :: "buf \<Rightarrow> buf \<Rightarrow> buf" where
  "aes256_decrypt_block key inp = aes_block_crypt (expand_key256 key) 14 inp True"

section \<open>XTS\<close>

text \<open>Multiplication of the tweak by x: \<open>carry\<close> is the bit shifted out of the byte below.\<close>

fun xts_shift :: "byte \<Rightarrow> buf \<Rightarrow> buf \<times> byte" where
  "xts_shift carry [] = ([], carry)"
| "xts_shift carry (x # xs) =
     (let (ys, c) = xts_shift (drop_bit 7 x) xs in ((push_bit 1 x OR carry) # ys, c))"

definition xts_gf_mul :: "buf \<Rightarrow> buf" where
  "xts_gf_mul t = (let (ys, c) = xts_shift 0 t in if c \<noteq> 0 then ys[0 := ys ! 0 XOR 0x87] else ys)"

fun xts_blocks :: "(buf \<Rightarrow> buf) \<Rightarrow> buf \<Rightarrow> buf \<Rightarrow> buf" where
  "xts_blocks f t inp =
     (if length inp < 16 then []
      else xor_bytes (f (xor_bytes (take 16 inp) t)) t @ xts_blocks f (xts_gf_mul t) (drop 16 inp))"

declare xts_blocks.simps [simp del]

text \<open>The result is \<open>None\<close> where the code returns false and writes nothing.  The null-pointer
  tests of the code have no counterpart: buffers are values here.\<close>

definition xts_aes_crypt_impl ::
  "nat \<Rightarrow> (buf \<Rightarrow> buf \<Rightarrow> buf) \<Rightarrow> (buf \<Rightarrow> buf \<Rightarrow> buf) \<Rightarrow> buf \<Rightarrow> buf \<Rightarrow> buf \<Rightarrow> bool \<Rightarrow> buf option" where
  "xts_aes_crypt_impl tweak_key_off enc dec key tweak inp encrypt =
     (if length inp = 0 then Some []
      else if length inp mod 16 \<noteq> 0 then None
      else let t = enc (slice tweak_key_off tweak_key_off key) tweak;
               k = slice 0 tweak_key_off key
           in Some (xts_blocks (if encrypt then enc k else dec k) t inp))"

definition xts_aes128_crypt :: "buf \<Rightarrow> buf \<Rightarrow> buf \<Rightarrow> bool \<Rightarrow> buf option" where
  "xts_aes128_crypt = xts_aes_crypt_impl 16 aes128_encrypt_block aes128_decrypt_block"

definition xts_aes256_crypt :: "buf \<Rightarrow> buf \<Rightarrow> buf \<Rightarrow> bool \<Rightarrow> buf option" where
  "xts_aes256_crypt = xts_aes_crypt_impl 32 aes256_encrypt_block aes256_decrypt_block"

section \<open>Each round step is inverted by its counterpart\<close>

lemma inv_sbox_table: "map (\<lambda>x. k_inv_sbox ! unat x) k_sbox = map word_of_nat [0..<256]"
proof -
  have "map (\<lambda>x. k_inv_sbox ! unat x) k_sbox = [0, 1, 2, 3, 4, 5, 6, 7, 8, 9, 10, 11, 12, 13, 14, 15, 16, 17, 18, 19, 20, 21, 22, 23, 24, 25,
      26, 27, 28, 29, 30, 31, 32, 33, 34, 35, 36, 37, 38, 39, 40, 41, 42, 43, 44, 45, 46, 47, 48, 49,
      50, 51, 52, 53, 54, 55, 56, 57, 58, 59, 60, 61, 62, 63, 64, 65, 66, 67, 68, 69, 70, 71, 72, 73,
      74, 75, 76, 77, 78, 79, 80, 81, 82, 83, 84, 85, 86, 87, 88, 89, 90, 91, 92, 93, 94, 95, 96, 97,
      98, 99, 100, 101, 102, 103, 104, 105, 106, 107, 108, 109, 110, 111, 112, 113, 114, 115, 116,
      117, 118, 119, 120, 121, 122, 123, 124, 125, 126, 127, 128, 129, 130, 131, 132, 133, 134, 135,
      136, 137, 138, 139, 140, 141, 142, 143, 144, 145, 146, 147, 148, 149, 150, 151, 152, 153, 154,
      155, 156, 157, 158, 159, 160, 161, 162, 163, 164, 165, 166, 167, 168, 169, 170, 171, 172, 173,
      174, 175, 176, 177, 178, 179, 180, 181, 182, 183, 184, 185, 186, 187, 188, 189, 190, 191, 192,
      193, 194, 195, 196, 197, 198, 199, 200, 201, 202, 203, 204, 205, 206, 207, 208, 209, 210, 211,
      212, 213, 214, 215, 216, 217, 218, 219, 220, 221, 222, 223, 224, 225, 226, 227, 228, 229, 230,
      231, 232, 233, 234, 235, 236, 237, 238, 239, 240, 241, 242, 243, 244, 245, 246, 247, 248, 249,
      250, 251, 252, 253, 254, 255]"
    by (simp add: k_sbox_def k_inv_sbox_def)
  also have "\<dots> = map word_of_nat [0..<256]"
    by code_simp
  finally show ?thesis .
qed

lemma length_sbox: "length k_sbox = 256" "length k_inv_sbox = 256"
  by (simp_all add: k_sbox_def k_inv_sbox_def)

lemma inv_sbox_sbox: "k_inv_sbox ! unat (k_sbox ! unat (x :: byte)) = x"
proof -
  have "map (\<lambda>x. k_inv_sbox ! unat x) k_sbox ! unat x = map word_of_nat [0..<256] ! unat x"
    by (simp only: inv_sbox_table)
  then show ?thesis
    by (simp add: length_sbox)
qed

lemma length_round_steps [simp]:
  "length (add_round_key s rk) = 16" "length (sub_bytes s) = 16" "length (inv_sub_bytes s) = 16"
  "length (mix_columns s) = 16" "length (inv_mix_columns s) = 16"
  by (simp_all add: add_round_key_def sub_bytes_def inv_sub_bytes_def mix_columns_def inv_mix_columns_def
      mix_column_def inv_mix_column_def length_concat upt_rec)

lemma length_shift_rows [simp]:
  "length (shift_rows s) = length s" "length (inv_shift_rows s) = length s"
  by (simp_all add: shift_rows_def inv_shift_rows_def Let_def)

lemma add_round_key_invol: "length s = 16 \<Longrightarrow> add_round_key (add_round_key s rk) rk = s"
  by (rule nth_equalityI) (simp_all add: add_round_key_def)

lemma inv_sub_bytes_sub_bytes: "length s = 16 \<Longrightarrow> inv_sub_bytes (sub_bytes s) = s"
  by (rule nth_equalityI) (simp_all add: inv_sub_bytes_def sub_bytes_def inv_sbox_sbox)

lemma list16_cases:
  assumes "length (s :: 'a list) = 16"
  obtains x0 x1 x2 x3 x4 x5 x6 x7 x8 x9 xa xb xc xd xe xf
  where "s = [x0, x1, x2, x3, x4, x5, x6, x7, x8, x9, xa, xb, xc, xd, xe, xf]"
proof -
  have "s = map (\<lambda>i. s ! i) [0..<16]"
    using assms by (metis map_nth)
  also have "map (\<lambda>i. s ! i) [0..<16] = [s ! 0, s ! 1, s ! 2, s ! 3, s ! 4, s ! 5, s ! 6, s ! 7,
      s ! 8, s ! 9, s ! 10, s ! 11, s ! 12, s ! 13, s ! 14, s ! 15]"
    by (simp add: upt_rec numeral_eq_Suc)
  finally show ?thesis by (rule that)
qed

lemma inv_shift_rows_shift_rows: "length s = 16 \<Longrightarrow> inv_shift_rows (shift_rows s) = s"
  by (erule list16_cases) (simp add: inv_shift_rows_def shift_rows_def)

lemma aes_xtime_if: "aes_xtime x = push_bit 1 x XOR (if x AND 0x80 \<noteq> 0 then 0x1b else 0)"
proof -
  have "drop_bit 7 x * 0x1b = (if x AND 0x80 \<noteq> 0 then 0x1b else (0 :: byte))" for x :: byte
    by (rule byte_cases_list) code_simp
  then show ?thesis by (simp only: aes_xtime_def)
qed

lemma aes_xtime_xor: "aes_xtime (x XOR y) = aes_xtime x XOR aes_xtime y"
proof -
  have bit7: "(a AND 0x80 \<noteq> 0) = bit a 7" for a :: byte
    by (rule byte_cases_list) code_simp
  show ?thesis
    unfolding aes_xtime_if bit7
    by (cases "bit x 7"; cases "bit y 7")
      (simp_all add: bit_xor_iff xor.assoc xor.commute xor.left_commute)
qed

lemma aes_gf_mul_step:
  "(if a AND 0x80 \<noteq> 0 then push_bit 1 a XOR 0x1b else push_bit 1 a) = aes_xtime a"
  by (simp only: aes_xtime_if) simp

lemma aes_gf_mul_loop_Suc:
  "aes_gf_mul_loop (Suc i) p a b =
     aes_gf_mul_loop i (if b AND 1 \<noteq> 0 then p XOR a else p) (aes_xtime a) (drop_bit 1 b)"
  by (simp only: aes_gf_mul_loop.simps aes_gf_mul_step)

lemma aes_gf_mul_unroll:
  "aes_gf_mul a b = aes_gf_mul_loop (Suc (Suc (Suc (Suc (Suc (Suc (Suc (Suc 0)))))))) 0 a b"
  unfolding aes_gf_mul_def by (rule arg_cong [where f = "\<lambda>n. aes_gf_mul_loop n 0 a b"]) simp

lemma aes_gf_mul_consts:
  "aes_gf_mul x 9 = aes_xtime (aes_xtime (aes_xtime x)) XOR x"
  "aes_gf_mul x 11 = aes_xtime (aes_xtime (aes_xtime x)) XOR aes_xtime x XOR x"
  "aes_gf_mul x 13 = aes_xtime (aes_xtime (aes_xtime x)) XOR aes_xtime (aes_xtime x) XOR x"
  "aes_gf_mul x 14 = aes_xtime (aes_xtime (aes_xtime x)) XOR aes_xtime (aes_xtime x) XOR aes_xtime x"
  by (simp_all add: aes_gf_mul_unroll aes_gf_mul_loop_Suc xor.assoc xor.commute xor.left_commute
     del: aes_gf_mul_loop.simps(2))

lemma xor_self_left: "x XOR (x XOR y) = (y :: byte)"
  by (rule xor_cancel_left)

lemma inv_mix_column_mix_column:
  "inv_mix_column (mix_column a b c d ! 0) (mix_column a b c d ! 1) (mix_column a b c d ! 2) (mix_column a b c d ! 3)
   = [a, b, c, d]"
  by (simp add: mix_column_def inv_mix_column_def aes_gf_mul_consts aes_xtime_xor
      xor.assoc xor.commute xor.left_commute)

section \<open>Block decryption inverts encryption\<close>

lemma mix_columns_list:
  "mix_columns [x0, x1, x2, x3, x4, x5, x6, x7, x8, x9, xa, xb, xc, xd, xe, xf] =
     mix_column x0 x1 x2 x3 @ mix_column x4 x5 x6 x7 @ mix_column x8 x9 xa xb @ mix_column xc xd xe xf"
  by (simp add: mix_columns_def upt_rec numeral_eq_Suc)

lemma inv_mix_columns_list:
  "inv_mix_columns [x0, x1, x2, x3, x4, x5, x6, x7, x8, x9, xa, xb, xc, xd, xe, xf] =
     inv_mix_column x0 x1 x2 x3 @ inv_mix_column x4 x5 x6 x7 @ inv_mix_column x8 x9 xa xb @ inv_mix_column xc xd xe xf"
  by (simp add: inv_mix_columns_def upt_rec numeral_eq_Suc)

lemma mix_column_nths:
  "mix_column a b c d = [mix_column a b c d ! 0, mix_column a b c d ! 1, mix_column a b c d ! 2, mix_column a b c d ! 3]"
  by (simp add: mix_column_def)

lemma inv_mix_columns_mix_columns:
  assumes "length s = 16"
  shows "inv_mix_columns (mix_columns s) = s"
proof -
  obtain x0 x1 x2 x3 x4 x5 x6 x7 x8 x9 xa xb xc xd xe xf
    where s: "s = [x0, x1, x2, x3, x4, x5, x6, x7, x8, x9, xa, xb, xc, xd, xe, xf]"
    using assms by (rule list16_cases)
  show ?thesis
    unfolding s mix_columns_list
    by (subst (1 2 3 4) mix_column_nths)
      (simp only: append_Cons append_Nil inv_mix_columns_list inv_mix_column_mix_column)
qed

lemma length_enc_rounds [simp]: "length s = 16 \<Longrightarrow> length (enc_rounds rk r s) = 16"
  by (cases r) simp_all

lemma dec_rounds_enc_rounds:
  assumes "length s = 16"
  shows "dec_rounds rk r (shift_rows (sub_bytes (enc_rounds rk r s))) = shift_rows (sub_bytes s)"
proof (induction r)
  case 0
  then show ?case by simp
next
  case (Suc r)
  then show ?case
    using assms
    by (simp add: inv_shift_rows_shift_rows inv_sub_bytes_sub_bytes add_round_key_invol
        inv_mix_columns_mix_columns)
qed

lemma length_aes_block_crypt [simp]: "length (aes_block_crypt rk n b d) = 16"
  by (simp add: aes_block_crypt_def)

lemma aes_block_roundtrip:
  assumes "length b = 16"
  shows "aes_block_crypt rk n (aes_block_crypt rk n b False) True = b"
  using assms
  by (simp add: aes_block_crypt_def add_round_key_invol dec_rounds_enc_rounds
      inv_shift_rows_shift_rows inv_sub_bytes_sub_bytes)

lemma length_xts_shift: "length (fst (xts_shift c xs)) = length xs"
  by (induction c xs rule: xts_shift.induct) (simp_all add: Let_def case_prod_beta)

lemma length_xts_gf_mul: "length t = n \<Longrightarrow> length (xts_gf_mul t) = n"
  using length_xts_shift [of 0 t] by (simp add: xts_gf_mul_def case_prod_beta)

section \<open>Key schedule lengths\<close>

lemma length_expand_key_loop: "length (expand_key_loop k i rk) = length rk + 4 * k"
  by (induction k i rk rule: expand_key_loop.induct) (simp_all add: Let_def)

lemma length_expand_key256_loop: "length (expand_key256_loop k i rk) = length rk + 4 * k"
  by (induction k i rk rule: expand_key256_loop.induct) (simp_all add: Let_def)

lemma length_expand_key:
  "length key = 16 \<Longrightarrow> length (expand_key key) = 176"
  "length key' = 32 \<Longrightarrow> length (expand_key256 key') = 240"
  by (simp_all add: expand_key_def expand_key256_def length_expand_key_loop length_expand_key256_loop)

lemma round_key_in_schedule:
  "length key = 16 \<Longrightarrow> r \<le> 10 \<Longrightarrow> length (round_key (expand_key key) r) = 16"
  "length key' = 32 \<Longrightarrow> r \<le> 14 \<Longrightarrow> length (round_key (expand_key256 key') r) = 16"
  by (simp_all add: round_key_def length_expand_key)

section \<open>The block cipher interface and XTS over it\<close>

text \<open>
  XTS, and CCM in its own theory, use a block cipher through this contract only: blocks keep
  their length and decryption under the same key undoes encryption.
\<close>

locale block_cipher =
  fixes key_len :: nat
    and enc :: "buf \<Rightarrow> buf \<Rightarrow> buf"
    and dec :: "buf \<Rightarrow> buf \<Rightarrow> buf"
  assumes dec_enc: "length k = key_len \<Longrightarrow> length b = 16 \<Longrightarrow> dec k (enc k b) = b"
    and length_enc: "length k = key_len \<Longrightarrow> length b = 16 \<Longrightarrow> length (enc k b) = 16"
    and length_dec: "length k = key_len \<Longrightarrow> length b = 16 \<Longrightarrow> length (dec k b) = 16"
begin

lemma xts_blocks_roundtrip:
  assumes "length k = key_len"
  shows "length t = 16 \<Longrightarrow> length p mod 16 = 0 \<Longrightarrow>
    xts_blocks (dec k) t (xts_blocks (enc k) t p) = p \<and> length (xts_blocks (enc k) t p) = length p"
proof (induction "enc k" t p rule: xts_blocks.induct)
  case (1 t p)
  show ?case
  proof (cases "length p < 16")
    case True
    with "1.prems"(2) have "p = []" by (cases p) simp_all
    then show ?thesis by (simp add: xts_blocks.simps)
  next
    case False
    let ?c = "xor_bytes (enc k (xor_bytes (take 16 p) t)) t"
    have gf: "length (xts_gf_mul t) = 16"
      using "1.prems"(1) by (rule length_xts_gf_mul)
    have "length (drop 16 p) mod 16 = 0"
      using "1.prems"(2) False by (simp add: le_mod_geq)
    with "1.hyps" [OF False gf] have IH:
      "xts_blocks (dec k) (xts_gf_mul t) (xts_blocks (enc k) (xts_gf_mul t) (drop 16 p)) = drop 16 p"
      "length (xts_blocks (enc k) (xts_gf_mul t) (drop 16 p)) = length (drop 16 p)"
      by simp_all
    have in16: "length (xor_bytes (take 16 p) t) = 16"
      using False "1.prems"(1) by simp
    then have len: "length (enc k (xor_bytes (take 16 p) t)) = 16"
      by (rule length_enc [OF assms])
    then have c: "length ?c = 16"
      using "1.prems"(1) by simp
    have "xor_bytes (dec k (xor_bytes ?c t)) t = take 16 p"
      using len in16 False "1.prems"(1) by (simp add: xor_bytes_cancel dec_enc [OF assms])
    with c IH False show ?thesis
      by (simp add: xts_blocks.simps [of "enc k" t p] xts_blocks.simps [of "dec k" t "?c @ _"])
  qed
qed

lemma xts_roundtrip:
  assumes "length key = 2 * key_len" "length tweak = 16"
    and "xts_aes_crypt_impl key_len enc dec key tweak p True = Some c"
  shows "xts_aes_crypt_impl key_len enc dec key tweak c False = Some p \<and> length c = length p"
proof (cases "p = []")
  case True
  with assms(3) show ?thesis by (simp add: xts_aes_crypt_impl_def)
next
  case False
  let ?k = "slice 0 key_len key" and ?t = "enc (slice key_len key_len key) tweak"
  from False assms(3) have p: "length p mod 16 = 0" "c = xts_blocks (enc ?k) ?t p"
    by (auto simp: xts_aes_crypt_impl_def Let_def split: if_splits)
  have "length ?k = key_len" "length ?t = 16"
    using assms(1,2) by (simp_all add: length_enc)
  then have "xts_blocks (dec ?k) ?t c = p \<and> length c = length p"
    using xts_blocks_roundtrip p by simp
  with False p(1) show ?thesis
    by (auto simp: xts_aes_crypt_impl_def Let_def)
qed

end

interpretation aes128: block_cipher 16 aes128_encrypt_block aes128_decrypt_block
  by unfold_locales (simp_all add: aes128_encrypt_block_def aes128_decrypt_block_def aes_block_roundtrip)

interpretation aes256: block_cipher 32 aes256_encrypt_block aes256_decrypt_block
  by unfold_locales (simp_all add: aes256_encrypt_block_def aes256_decrypt_block_def aes_block_roundtrip)

section \<open>Properties\<close>

text \<open>C5. XTS decryption undoes XTS encryption, for both key sizes, every key, tweak and
  every input the code accepts; it refuses exactly the inputs that are not whole blocks.\<close>

theorem xts_decrypt_encrypt:
  assumes "length key = 32" "length key' = 64" "length tweak = 16"
  shows "(case xts_aes128_crypt key tweak p True of
            None \<Rightarrow> length p mod 16 \<noteq> 0
          | Some c \<Rightarrow> length c = length p \<and> xts_aes128_crypt key tweak c False = Some p)
    \<and> (case xts_aes256_crypt key' tweak p True of
            None \<Rightarrow> length p mod 16 \<noteq> 0
          | Some c \<Rightarrow> length c = length p \<and> xts_aes256_crypt key' tweak c False = Some p)"
proof -
  have none: "xts_aes_crypt_impl n e d k tweak p b = None \<longleftrightarrow> length p mod 16 \<noteq> 0" for n e d k b
    by (auto simp: xts_aes_crypt_impl_def Let_def)
  show ?thesis
    using aes128.xts_roundtrip [of key tweak p] aes256.xts_roundtrip [of key' tweak p] assms
    by (auto simp: xts_aes128_crypt_def xts_aes256_crypt_def none split: option.splits)
qed

theorem xts_decrypt_encrypt_witness:
  "xts_aes128_crypt (replicate 32 7) (replicate 16 1) (replicate 5 0) True = None
   \<and> (\<exists>c. xts_aes128_crypt (replicate 32 7) (replicate 16 1) (replicate 32 9) True = Some c
        \<and> xts_aes128_crypt (replicate 32 7) (replicate 16 1) c False = Some (replicate 32 9))"
  using xts_decrypt_encrypt [of "replicate 32 7" "replicate 64 7" "replicate 16 1" "replicate 32 9"]
  by (simp add: xts_aes128_crypt_def xts_aes_crypt_impl_def [of _ _ _ _ _ "replicate 5 0"] split: option.splits)

end
