(* ===== verification/Disk_IO.thy ===== *)
theory Disk_IO
  imports Prelude Aes
begin

text \<open>
  The disk reader (include/byteback\_io.h and io/disk\_reader\_win.cpp): a reader owns one
  source (memory volume, EWF image, raw image, RAID volume or physical handle), reads
  whole sectors from it, decrypts them with an AES-XTS volume key when one is set, and
  records the sectors it could not read.  Memory volumes are shared between a reader and
  its clones, so they live in an explicit store (\<open>heap\<close>) and a reader holds a
  reference.  The EWF, raw and RAID back ends and the Win32 calls are fields or arguments
  of the model.  A result \<open>None\<close> is an access outside a buffer, undefined in C++.
\<close>

section \<open>Read results\<close>

record read_result =
  success :: bool
  bytes_read :: nat
  error :: string
  padded_zeros :: bool

definition no_result :: read_result where
  "no_result = \<lparr>success = False, bytes_read = 0, error = [], padded_zeros = False\<rparr>"

definition ok_result :: "nat \<Rightarrow> read_result" where
  "ok_result n = no_result\<lparr>success := True, bytes_read := n\<rparr>"

definition err_result :: "string \<Rightarrow> read_result" where
  "err_result e = no_result\<lparr>error := e\<rparr>"

definition read_complete :: "read_result \<Rightarrow> nat \<Rightarrow> bool" where
  "read_complete res need \<longleftrightarrow> success res \<and> \<not> padded_zeros res \<and> need \<le> bytes_read res"

definition io_unread :: "read_result \<Rightarrow> nat \<Rightarrow> bool" where
  "io_unread res need =
     (if \<not> success res then True
      else if padded_zeros res then False
      else bytes_read res < need)"

section \<open>Memory volumes and readers\<close>

record mem_volume =
  vol_data :: buf
  fault_start :: nat
  fault_count :: nat
  short_start :: nat
  short_count :: nat

definition new_volume :: "buf \<Rightarrow> mem_volume" where
  "new_volume img = \<lparr>vol_data = img, fault_start = 0, fault_count = 0, short_start = 0, short_count = 0\<rparr>"

type_synonym heap = "mem_volume list"

record ewf_backend =
  ewf_bps :: nat
  ewf_bytes :: nat
  ewf_read :: "nat \<Rightarrow> buf \<Rightarrow> bool \<times> string \<times> buf"

record raw_backend =
  raw_size :: nat
  raw_read :: "nat \<Rightarrow> buf \<Rightarrow> bool \<times> buf"
  raw_error :: string

record raid_backend =
  raid_capacity :: nat
  raid_read :: "nat \<Rightarrow> nat \<Rightarrow> string + buf"

record reader =
  sector_size :: nat
  disk_size :: nat
  drive_index :: int
  handle_open :: bool
  share_write :: bool
  volume_path :: string
  raw_path :: string
  ewf_path :: string
  ewf_http :: bool
  mem_ref :: "nat option"
  memory_mode :: bool
  ewf :: "ewf_backend option"
  raw :: "raw_backend option"
  raw_http :: bool
  raid :: "raid_backend option"
  xts_key :: buf
  xts_key_len :: nat
  xts_from :: nat
  bad_reads :: nat
  bad_list :: "nat list"

definition new_reader :: reader where
  "new_reader = \<lparr>sector_size = 512, disk_size = 0, drive_index = -1, handle_open = False,
     share_write = False, volume_path = [], raw_path = [], ewf_path = [], ewf_http = False,
     mem_ref = None, memory_mode = False, ewf = None, raw = None, raw_http = False,
     raid = None, xts_key = replicate 64 0, xts_key_len = 0, xts_from = 0,
     bad_reads = 0, bad_list = []\<rparr>"

definition close_drive :: "reader \<Rightarrow> reader" where
  "close_drive r = r\<lparr>handle_open := False, disk_size := 0, drive_index := -1, share_write := False,
     volume_path := [], raw_path := [], ewf_path := [], ewf_http := False, raid := None,
     mem_ref := None, memory_mode := False, ewf := None, raw := None, raw_http := False\<rparr>"

definition set_raid_backend :: "reader \<Rightarrow> raid_backend option \<Rightarrow> reader" where
  "set_raid_backend r b =
     (case b of
        None \<Rightarrow> r\<lparr>raid := None\<rparr>
      | Some v \<Rightarrow> r\<lparr>raid := Some v, disk_size := raid_capacity v, sector_size := 512,
                   drive_index := -1, handle_open := False\<rparr>)"

definition attach_memory_volume :: "heap \<Rightarrow> reader \<Rightarrow> buf \<Rightarrow> nat \<Rightarrow> heap \<times> reader" where
  "attach_memory_volume h r img ss =
     (h @ [new_volume img],
      (close_drive r)\<lparr>mem_ref := Some (length h),
        sector_size := (if ss \<noteq> 0 then ss else 512),
        disk_size := length img, memory_mode := True, drive_index := -1\<rparr>)"

definition detach_memory_volume :: "reader \<Rightarrow> reader" where
  "detach_memory_volume r = r\<lparr>mem_ref := None, memory_mode := False, disk_size := 0\<rparr>"

definition set_memory_fault_range :: "heap \<Rightarrow> reader \<Rightarrow> nat \<Rightarrow> nat \<Rightarrow> heap" where
  "set_memory_fault_range h r start count =
     (case mem_ref r of
        None \<Rightarrow> h
      | Some a \<Rightarrow> h[a := (h ! a)\<lparr>fault_start := start, fault_count := count\<rparr>])"

definition set_memory_short_range :: "heap \<Rightarrow> reader \<Rightarrow> nat \<Rightarrow> nat \<Rightarrow> heap" where
  "set_memory_short_range h r start count =
     (case mem_ref r of
        None \<Rightarrow> h
      | Some a \<Rightarrow> h[a := (h ! a)\<lparr>short_start := start, short_count := count\<rparr>])"

text \<open>Opening an EWF or raw image replaces whatever the reader held; a failed open leaves it closed.\<close>

definition is_http_url :: "string \<Rightarrow> bool" where
  "is_http_url s \<longleftrightarrow> take 7 s = ''http://'' \<or> take 8 s = ''https://''"

definition attach_ewf_image :: "(string \<Rightarrow> string + ewf_backend) \<Rightarrow> reader \<Rightarrow> string \<Rightarrow> bool \<times> string \<times> reader" where
  "attach_ewf_image ewf_open r path =
     (let r1 = close_drive r in
      case ewf_open path of
        Inl err \<Rightarrow> (False, err, r1)
      | Inr b \<Rightarrow> (True, [], r1\<lparr>ewf := Some b, sector_size := ewf_bps b, disk_size := ewf_bytes b,
                  drive_index := -1, ewf_path := path, ewf_http := is_http_url path\<rparr>))"

definition attach_raw_file :: "(string \<Rightarrow> string + raw_backend) \<Rightarrow> reader \<Rightarrow> string \<Rightarrow> bool \<times> string \<times> reader" where
  "attach_raw_file open_file r path =
     (let r1 = close_drive r in
      case open_file path of
        Inl err \<Rightarrow> (False, err, r1)
      | Inr b \<Rightarrow> (True, [], r1\<lparr>raw := Some b, raw_http := False, sector_size := 512,
                  disk_size := raw_size b, drive_index := -1, raw_path := path\<rparr>))"

definition attach_http_raw_image :: "(string \<Rightarrow> string + raw_backend) \<Rightarrow> reader \<Rightarrow> string \<Rightarrow> bool \<times> string \<times> reader" where
  "attach_http_raw_image open_http r url =
     (let r1 = close_drive r in
      case open_http url of
        Inl err \<Rightarrow> (False, err, r1)
      | Inr b \<Rightarrow> (True, [], r1\<lparr>raw := Some b, raw_http := True, sector_size := 512,
                  disk_size := raw_size b, drive_index := -1\<rparr>))"

definition detach_image_backend :: "reader \<Rightarrow> reader" where
  "detach_image_backend r =
     (let r1 = r\<lparr>ewf := None, raw := None, raw_http := False\<rparr>
      in if \<not> memory_mode r1 \<and> \<not> handle_open r1 \<and> raid r1 = None
         then r1\<lparr>disk_size := 0\<rparr> else r1)"

definition has_image_backend :: "reader \<Rightarrow> bool" where
  "has_image_backend r \<longleftrightarrow> ewf r \<noteq> None \<or> raw r \<noteq> None"

definition is_open :: "reader \<Rightarrow> bool" where
  "is_open r \<longleftrightarrow> handle_open r \<or> memory_mode r \<or> raid r \<noteq> None \<or> ewf r \<noteq> None \<or> raw r \<noteq> None"

definition get_disk_size :: "reader \<Rightarrow> nat" where
  "get_disk_size r = (case raid r of Some v \<Rightarrow> raid_capacity v | None \<Rightarrow> disk_size r)"

definition supports_parallel_scan :: "reader \<Rightarrow> bool" where
  "supports_parallel_scan r \<longleftrightarrow>
     memory_mode r \<or> raw r \<noteq> None \<and> \<not> raw_http r \<or> ewf r \<noteq> None \<and> \<not> ewf_http r"

section \<open>Volume keys\<close>

definition set_xts_fvek :: "reader \<Rightarrow> buf option \<Rightarrow> bool \<times> reader" where
  "set_xts_fvek r key =
     (case key of
        None \<Rightarrow> (False, r\<lparr>xts_key_len := 0\<rparr>)
      | Some k \<Rightarrow>
          if length k \<noteq> 32 \<and> length k \<noteq> 64 then (False, r\<lparr>xts_key_len := 0\<rparr>)
          else (True, r\<lparr>xts_key := splice 0 k (xts_key r), xts_key_len := length k\<rparr>))"

definition set_xts_decrypt_from :: "reader \<Rightarrow> nat \<Rightarrow> reader" where
  "set_xts_decrypt_from r off = r\<lparr>xts_from := off\<rparr>"

definition clear_xts_fvek :: "reader \<Rightarrow> reader" where
  "clear_xts_fvek r = r\<lparr>xts_key_len := 0, xts_key := replicate 64 0, xts_from := 0\<rparr>"

definition has_xts_fvek :: "reader \<Rightarrow> bool" where
  "has_xts_fvek r \<longleftrightarrow> xts_key_len r = 32 \<or> xts_key_len r = 64"

definition copy_xts_fvek_from :: "reader \<Rightarrow> reader \<Rightarrow> reader" where
  "copy_xts_fvek_from r src =
     (if has_xts_fvek src
      then set_xts_decrypt_from (snd (set_xts_fvek r (Some (take (xts_key_len src) (xts_key src))))) (xts_from src)
      else clear_xts_fvek r)"

text \<open>\<open>DiskReader::clone\<close>: a memory volume is shared, other sources are opened again.\<close>

definition clone_reader ::
  "(int \<Rightarrow> reader \<Rightarrow> reader option) \<Rightarrow> (string \<Rightarrow> reader \<Rightarrow> reader option)
   \<Rightarrow> (string \<Rightarrow> string + raw_backend) \<Rightarrow> (string \<Rightarrow> string + ewf_backend)
   \<Rightarrow> heap \<Rightarrow> reader \<Rightarrow> reader option" where
  "clone_reader open_drive open_volume open_file ewf_open h r =
     (if raid r \<noteq> None \<or> raw_http r then None
      else do {
        c \<leftarrow> (case (if memory_mode r then mem_ref r else None) of
               Some a \<Rightarrow> Some ((close_drive new_reader)\<lparr>mem_ref := Some a, memory_mode := True,
                          sector_size := (if sector_size r \<noteq> 0 then sector_size r else 512),
                          disk_size := length (vol_data (h ! a))\<rparr>)
             | None \<Rightarrow>
                 if drive_index r \<ge> 0 then open_drive (drive_index r) new_reader
                 else if volume_path r \<noteq> [] then open_volume (volume_path r) new_reader
                 else if raw_path r \<noteq> [] then
                   (let (ok, _, c) = attach_raw_file open_file new_reader (raw_path r) in if ok then Some c else None)
                 else if ewf_path r \<noteq> [] then
                   (let (ok, _, c) = attach_ewf_image ewf_open new_reader (ewf_path r) in if ok then Some c else None)
                 else None);
        Some (copy_xts_fvek_from c r)
      })"

section \<open>Sector decryption\<close>

definition sector_bytes :: "reader \<Rightarrow> nat" where
  "sector_bytes r = (if sector_size r \<noteq> 0 then sector_size r else 512)"

definition xts_tweak :: "nat \<Rightarrow> buf" where
  "xts_tweak sec = nat_le 8 sec @ replicate 8 0"

definition xts_crypt_sector :: "reader \<Rightarrow> buf \<Rightarrow> buf \<Rightarrow> bool \<Rightarrow> buf option" where
  "xts_crypt_sector r tweak s encrypt =
     (if xts_key_len r = 32 then xts_aes128_crypt (take 32 (xts_key r)) tweak s encrypt
      else xts_aes256_crypt (xts_key r) tweak s encrypt)"

text \<open>
  The loop of \<open>maybeDecryptXts\<close>: \<open>off\<close>, \<open>n\<close> and the loop variable are
  \<open>uint32_t\<close>, so \<open>o + ss\<close> wraps; the loop need not end, hence a partial function.
\<close>

partial_function (option) decrypt_sectors :: "reader \<Rightarrow> nat \<Rightarrow> nat \<Rightarrow> nat \<Rightarrow> buf \<Rightarrow> buf option" where
  "decrypt_sectors r off n i buf =
     (let ss = sector_bytes r; abs = w64 (off + i) in
      if \<not> w32 (i + ss) \<le> n then Some buf
      else if abs < xts_from r then decrypt_sectors r off n (w32 (i + ss)) buf
      else if i + ss \<le> length buf
      then (case xts_crypt_sector r (xts_tweak ((abs - xts_from r) div ss)) (slice i ss buf) False of
              None \<Rightarrow> decrypt_sectors r off n (w32 (i + ss)) buf
            | Some p \<Rightarrow> decrypt_sectors r off n (w32 (i + ss)) (splice i p buf))
      else None)"

declare decrypt_sectors.simps [simp del]

definition maybe_decrypt_xts :: "reader \<Rightarrow> nat \<Rightarrow> nat \<Rightarrow> buf \<Rightarrow> buf option" where
  "maybe_decrypt_xts r off n buf =
     (if \<not> has_xts_fvek r then Some buf
      else if n = 0 then Some buf
      else if sector_bytes r mod 16 \<noteq> 0 then Some buf
      else decrypt_sectors r off n 0 buf)"

section \<open>Bad-sector telemetry\<close>

definition k_max_bad_samples :: nat where "k_max_bad_samples = 4096"

fun sample_loop :: "nat \<Rightarrow> nat \<Rightarrow> nat \<Rightarrow> nat \<Rightarrow> nat list \<Rightarrow> nat list" where
  "sample_loop 0 i start count acc = acc"
| "sample_loop (Suc k) i start count acc =
     (if length acc < k_max_bad_samples
      then sample_loop k (i + 1) start count
             (if count > k_max_bad_samples \<and> i mod (count div k_max_bad_samples + 1) \<noteq> 0
              then acc else acc @ [w64 (start + i)])
      else acc)"

definition note_bad_read :: "reader \<Rightarrow> nat \<Rightarrow> nat \<Rightarrow> reader" where
  "note_bad_read r off n =
     (let ss = sector_bytes r;
          start = off div ss;
          count = w32 (n + ss - 1) div ss
      in r\<lparr>bad_reads := w64 (bad_reads r + count),
           bad_list := sample_loop count 0 start count (bad_list r)\<rparr>)"

definition merge_telemetry :: "reader \<Rightarrow> reader \<Rightarrow> reader" where
  "merge_telemetry r src =
     (if bad_reads src = 0 \<and> bad_list src = [] then r
      else r\<lparr>bad_reads := w64 (bad_reads r + bad_reads src),
             bad_list := bad_list r @ take (k_max_bad_samples - length (bad_list r)) (bad_list src)\<rparr>)"

section \<open>Reading sectors\<close>

text \<open>What the Win32 calls of one physical read return, and the bytes they leave in the buffer.\<close>

record win_io =
  event_ok :: bool
  readfile_ok :: bool
  readfile_err :: nat
  wait_code :: nat
  overlapped_ok :: bool
  overlapped_err :: nat
  overlapped_bytes :: nat
  last_error :: nat
  io_buffer :: buf

type_synonym read_outcome = "(reader \<times> read_result \<times> buf) option"

definition misaligned :: "reader \<Rightarrow> nat \<Rightarrow> nat \<Rightarrow> bool" where
  "misaligned r off n \<longleftrightarrow> off mod sector_size r \<noteq> 0 \<or> n mod sector_size r \<noteq> 0"

definition align_error :: string where
  "align_error = ''Read offset and size must be sector-aligned''"

definition range_hit :: "nat \<Rightarrow> nat \<Rightarrow> nat \<Rightarrow> nat \<Rightarrow> nat \<Rightarrow> bool" where
  "range_hit ss off n start count \<longleftrightarrow>
     count > 0 \<and>
     (let first = off div ss; last = sub64 (w64 (first + n div ss)) 1
      in first \<le> sub64 (w64 (start + count)) 1 \<and> start \<le> last)"

text \<open>The success tail shared by the back ends: \<open>bytesRead = n\<close>, then decrypt in place.\<close>

definition finish_read :: "reader \<Rightarrow> nat \<Rightarrow> nat \<Rightarrow> buf \<Rightarrow> read_outcome" where
  "finish_read r off n buf =
     do { plain \<leftarrow> maybe_decrypt_xts r off n buf; Some (r, ok_result n, plain) }"

definition read_memory :: "heap \<Rightarrow> reader \<Rightarrow> nat \<Rightarrow> nat \<Rightarrow> buf \<Rightarrow> read_outcome" where
  "read_memory h r off n buf =
     (case mem_ref r of
        None \<Rightarrow> Some (r, err_result ''No drive opened'', buf)
      | Some a \<Rightarrow>
          let mv = h ! a; bytes = vol_data mv in
          if misaligned r off n then Some (r, err_result align_error, buf)
          else if range_hit (sector_size r) off n (fault_start mv) (fault_count mv)
          then Some (note_bad_read r off n, err_result ''injected memory fault range'', buf)
          else if range_hit (sector_size r) off n (short_start mv) (short_count mv)
          then Some (note_bad_read r off n, ok_result 0, buf)
          else if w64 (off + n) > length bytes
          then (let avail = (if off < length bytes then min n (length bytes - off) else 0);
                    padded = splice 0 (slice off avail bytes @ replicate (n - avail) 0) buf
                in Some (note_bad_read r off n,
                         no_result\<lparr>success := True, bytes_read := avail, padded_zeros := True\<rparr>, padded))
          else if off + n \<le> length bytes
          then finish_read r off n (splice 0 (slice off n bytes) buf)
          else None)"

definition read_ewf :: "ewf_backend \<Rightarrow> reader \<Rightarrow> nat \<Rightarrow> nat \<Rightarrow> buf \<Rightarrow> read_outcome" where
  "read_ewf b r off n buf =
     (if misaligned r off n then Some (r, err_result align_error, buf)
      else let (ok, err, got) = ewf_read b off (take n buf); buf' = splice 0 got buf
           in if \<not> ok
              then Some (note_bad_read r off n,
                         err_result (if err = [] then ''ewf read failed'' else err), buf')
              else finish_read r off n buf')"

definition read_raw :: "raw_backend \<Rightarrow> reader \<Rightarrow> nat \<Rightarrow> nat \<Rightarrow> buf \<Rightarrow> read_outcome" where
  "read_raw b r off n buf =
     (if misaligned r off n then Some (r, err_result align_error, buf)
      else if w64 (off + n) > raw_size b
      then Some (note_bad_read r off n, err_result ''read past end of image'', buf)
      else let (ok, got) = raw_read b off (take n buf); buf' = splice 0 got buf
           in if \<not> ok then Some (note_bad_read r off n, err_result (raw_error b), buf')
              else finish_read r off n buf')"

definition read_raid :: "raid_backend \<Rightarrow> reader \<Rightarrow> nat \<Rightarrow> nat \<Rightarrow> buf \<Rightarrow> read_outcome" where
  "read_raid b r off n buf =
     (if misaligned r off n then Some (r, err_result align_error, buf)
      else case raid_read b off n of
        Inl e \<Rightarrow> Some (note_bad_read r off n, (err_result e)\<lparr>padded_zeros := True\<rparr>,
                        splice 0 (replicate n 0) buf)
      | Inr got \<Rightarrow>
          if length got < n
          then Some (note_bad_read r off n,
                     (ok_result n)\<lparr>padded_zeros := True\<rparr>,
                     splice 0 (got @ replicate (n - length got) 0) buf)
          else finish_read r off n (splice 0 (take n got) buf))"

text \<open>
  The physical path.  The codes are \<open>ERROR_IO_PENDING\<close> 997, \<open>WAIT_TIMEOUT\<close> 258,
  \<open>WAIT_OBJECT_0\<close> 0, \<open>ERROR_CRC\<close> 23 and \<open>ERROR_IO_DEVICE\<close> 1117.
\<close>

definition read_physical :: "(nat \<Rightarrow> nat \<Rightarrow> win_io) \<Rightarrow> reader \<Rightarrow> nat \<Rightarrow> nat \<Rightarrow> buf \<Rightarrow> read_outcome" where
  "read_physical win r off n buf =
     (if \<not> handle_open r then Some (r, err_result ''No drive opened'', buf)
      else if misaligned r off n then Some (r, err_result align_error, buf)
      else let io = win off n; buf' = splice 0 (io_buffer io) buf in
      if \<not> event_ok io then Some (r, err_result ''Failed to create event'', buf)
      else let pending = (\<not> readfile_ok io \<and> readfile_err io = 997) in
      if pending \<and> wait_code io = 258
      then Some (note_bad_read r off n, err_result ''Read timed out (5000ms)'', buf')
      else if pending \<and> wait_code io \<noteq> 0
      then Some (r, err_result (''Wait failed: '' @ dec_string (last_error io)), buf')
      else let done_ok = ((readfile_ok io \<or> pending) \<and> overlapped_ok io);
               err = (if readfile_ok io \<or> pending then overlapped_err io else readfile_err io) in
      if done_ok then finish_read r off (overlapped_bytes io) buf'
      else Some (note_bad_read r off n,
                 err_result (''ReadFile failed: error '' @ dec_string err
                   @ (if err = 23 \<or> err = 1117 then '' (bad sector)'' else [])), buf'))"

definition read_sectors :: "(nat \<Rightarrow> nat \<Rightarrow> win_io) \<Rightarrow> heap \<Rightarrow> reader \<Rightarrow> nat \<Rightarrow> nat \<Rightarrow> buf \<Rightarrow> read_outcome" where
  "read_sectors win h r0 off n buf =
     (let r = r0\<lparr>sector_size := sector_bytes r0\<rparr> in
      if memory_mode r then read_memory h r off n buf
      else case ewf r of Some b \<Rightarrow> read_ewf b r off n buf
      | None \<Rightarrow> (case raw r of Some b \<Rightarrow> read_raw b r off n buf
      | None \<Rightarrow> (case raid r of Some b \<Rightarrow> read_raid b r off n buf
      | None \<Rightarrow> read_physical win r off n buf)))"

section \<open>Reading bytes\<close>

text \<open>
  \<open>readBytes\<close> over any sector reader \<open>rd\<close>; the reader calls it with its own
  \<open>readSectors\<close>.
\<close>

definition read_bytes_via :: "(reader \<Rightarrow> nat \<Rightarrow> nat \<Rightarrow> buf \<Rightarrow> read_outcome) \<Rightarrow> reader \<Rightarrow> nat \<Rightarrow> nat \<Rightarrow> buf \<Rightarrow> read_outcome" where
  "read_bytes_via rd r off n buf =
     (let ss = sector_bytes r;
          start = off div ss * ss;
          skip = off - start in
      if skip = 0 \<and> n mod ss = 0 then rd r off n buf
      else let aligned = (skip + n + ss - 1) div ss * ss in
      if aligned > 2 ^ 32 - 1 then Some (r, err_result ''readBytes: size too large'', buf)
      else do {
        (r', res, scratch) \<leftarrow> rd r start aligned (replicate aligned 0);
        Some (if bytes_read res > skip
              then let avail = min (bytes_read res - skip) n
                   in (r', res\<lparr>bytes_read := avail\<rparr>, splice 0 (slice skip avail scratch) buf)
              else if success res \<or> bytes_read res > 0
              then (r', res\<lparr>success := False, bytes_read := 0,
                     error := (if error res = [] then ''read ended before requested offset'' else error res)\<rparr>, buf)
              else (r', res, buf))
      })"

definition read_bytes :: "(nat \<Rightarrow> nat \<Rightarrow> win_io) \<Rightarrow> heap \<Rightarrow> reader \<Rightarrow> nat \<Rightarrow> nat \<Rightarrow> buf \<Rightarrow> read_outcome" where
  "read_bytes win h = read_bytes_via (read_sectors win h)"

section \<open>What decryption does to whole sectors\<close>

definition decrypting :: "reader \<Rightarrow> bool" where
  "decrypting r \<longleftrightarrow> has_xts_fvek r \<and> sector_bytes r mod 16 = 0"

definition plain_sector :: "reader \<Rightarrow> nat \<Rightarrow> buf \<Rightarrow> buf" where
  "plain_sector r k s =
     (let ss = sector_bytes r in
      if decrypting r \<and> xts_from r \<le> k * ss
      then (case xts_crypt_sector r (xts_tweak ((k * ss - xts_from r) div ss)) s False of
              Some p \<Rightarrow> p | None \<Rightarrow> s)
      else s)"

text \<open>The decrypted view of a whole volume: every sector on its own.\<close>

definition plain_volume :: "reader \<Rightarrow> buf \<Rightarrow> buf" where
  "plain_volume r vol =
     (let ss = sector_bytes r in
      concat (map (\<lambda>k. plain_sector r k (slice (k * ss) ss vol)) [0..<length vol div ss]))"

lemma sector_bytes_pos [simp]: "sector_bytes r > 0" "sector_bytes r \<noteq> 0"
  by (simp_all add: sector_bytes_def)

lemma length_concat_uniform:
  "(\<And>i. i \<in> set is \<Longrightarrow> length (f i) = b) \<Longrightarrow> length (concat (map f is)) = length is * b"
  by (induction "is") simp_all

lemma slice_concat_uniform:
  assumes "\<And>i. i < N \<Longrightarrow> length (f i) = b" "k + m \<le> N"
  shows "slice (k * b) (m * b) (concat (map f [0..<N])) = concat (map (\<lambda>q. f (k + q)) [0..<m])"
proof -
  from assms(2) obtain d where "N = k + (m + d)"
    using le_Suc_ex [of "k + m" N] by (auto simp: add.assoc)
  then have "[0..<N] = [0..<k] @ [k..<k + m] @ [k + m..<N]"
    by (simp add: upt_add_eq_append [of 0 k "m + d"] upt_add_eq_append [of k "k + m" d, simplified add.assoc])
  moreover have "map f [k..<k + m] = map (\<lambda>q. f (k + q)) [0..<m]"
    by (rule nth_equalityI) simp_all
  ultimately have split: "concat (map f [0..<N]) =
      concat (map f [0..<k]) @ concat (map (\<lambda>q. f (k + q)) [0..<m]) @ concat (map f [k + m..<N])"
    by simp
  have "length (concat (map f [0..<k])) = k * b"
    using assms by (subst length_concat_uniform [where b = b]) auto
  moreover have "length (concat (map (\<lambda>q. f (k + q)) [0..<m])) = m * b"
    using assms by (subst length_concat_uniform [where b = b]) auto
  ultimately show ?thesis
    unfolding split by (simp add: slice_def)
qed

lemma length_xts_blocks:
  "(\<And>b. length (f b) = 16) \<Longrightarrow> length t = 16 \<Longrightarrow> length p mod 16 = 0 \<Longrightarrow>
     length (xts_blocks f t p) = length p"
proof (induction f t p rule: xts_blocks.induct)
  case (1 f t p)
  show ?case
  proof (cases "length p < 16")
    case True
    with "1.prems"(3) show ?thesis by (cases p) (simp_all add: xts_blocks.simps [of f t])
  next
    case False
    with "1.prems" have "length (xts_blocks f (xts_gf_mul t) (drop 16 p)) = length p - 16"
      using "1.IH" by (simp add: length_xts_gf_mul le_mod_geq)
    with False "1.prems"(1,2) show ?thesis
      by (simp add: xts_blocks.simps [of f t p])
  qed
qed

lemma length_xts_crypt_sector:
  "xts_crypt_sector r tweak s enc = Some p \<Longrightarrow> length p = length s"
  by (auto simp: xts_crypt_sector_def xts_aes128_crypt_def xts_aes256_crypt_def xts_aes_crypt_impl_def
      Let_def length_xts_blocks aes128_encrypt_block_def aes128_decrypt_block_def
      aes256_encrypt_block_def aes256_decrypt_block_def split: if_splits)

lemma length_plain_sector [simp]: "length (plain_sector r k s) = length s"
  by (auto simp: plain_sector_def Let_def length_xts_crypt_sector split: option.splits)

lemma length_plain_volume:
  "length vol mod sector_bytes r = 0 \<Longrightarrow> length (plain_volume r vol) = length vol"
proof -
  assume "length vol mod sector_bytes r = 0"
  then obtain m where m: "length vol = m * sector_bytes r"
    by (auto simp: mod_eq_0_iff_dvd dvd_def mult.commute)
  have "length (plain_volume r vol) = length [0..<m] * sector_bytes r"
    unfolding plain_volume_def Let_def
  proof (subst length_concat_uniform [where b = "sector_bytes r"])
    fix k assume k: "k \<in> set [0..<length vol div sector_bytes r]"
    then have "k + 1 \<le> m"
      using m by simp
    then have "(k + 1) * sector_bytes r \<le> m * sector_bytes r"
      by (rule mult_le_mono1)
    then show "length (plain_sector r k (slice (k * sector_bytes r) (sector_bytes r) vol)) = sector_bytes r"
      using m by (simp add: min_def)
  qed (simp add: m)
  with m show ?thesis by simp
qed

lemma take_slice_drop: "a \<le> b \<Longrightarrow> take a xs @ slice a (b - a) xs @ drop b xs = xs"
  by (simp add: slice_def drop_take flip: append_assoc take_add)

lemma decrypt_sectors_spec:
  assumes dec: "decrypting r"
    and bounds: "m * sector_bytes r + sector_bytes r < 2 ^ 32" "k * sector_bytes r + m * sector_bytes r < 2 ^ 64"
  shows "j \<le> m \<Longrightarrow> m * sector_bytes r \<le> length buf \<Longrightarrow>
    decrypt_sectors r (k * sector_bytes r) (m * sector_bytes r) (j * sector_bytes r) buf
    = Some (take (j * sector_bytes r) buf
        @ concat (map (\<lambda>q. plain_sector r (k + q) (slice (q * sector_bytes r) (sector_bytes r) buf)) [j..<m])
        @ drop (m * sector_bytes r) buf)"
proof (induction "m - j" arbitrary: j buf)
  case 0
  let ?ss = "sector_bytes r"
  have "j = m" using 0 by simp
  moreover have "w32 (m * ?ss + ?ss) = m * ?ss + ?ss"
    using bounds(1) by (simp add: w32_id)
  ultimately show ?case
    by (simp add: decrypt_sectors.simps [of r _ _ "m * ?ss"] Let_def add.commute)
next
  case (Suc d)
  let ?ss = "sector_bytes r"
  let ?sec = "slice (j * ?ss) ?ss buf"
  let ?p = "plain_sector r (k + j) ?sec"
  let ?buf' = "splice (j * ?ss) ?p buf"
  have jm: "j < m" using Suc.hyps(2) by simp
  then have "(j + 1) * ?ss \<le> m * ?ss"
    by (intro mult_le_mono1) simp
  then have next_le: "j * ?ss + ?ss \<le> m * ?ss" by (simp add: algebra_simps)
  have w: "w32 (j * ?ss + ?ss) = (j + 1) * ?ss" "w64 (k * ?ss + j * ?ss) = (k + j) * ?ss"
    using next_le bounds by (simp_all add: w32_id w64_id algebra_simps)
  have len: "length ?sec = ?ss" using next_le Suc.prems by simp
  have same: "splice (j * ?ss) ?sec buf = buf"
    using len next_le Suc.prems take_slice_drop [of "j * ?ss" "j * ?ss + ?ss" buf]
    by (simp add: splice_def)
  have step: "decrypt_sectors r (k * ?ss) (m * ?ss) (j * ?ss) buf
      = decrypt_sectors r (k * ?ss) (m * ?ss) ((j + 1) * ?ss) ?buf'"
    using next_le w dec Suc.prems same
    by (simp add: decrypt_sectors.simps [of r _ _ "j * ?ss"] Let_def plain_sector_def algebra_simps
        split: option.splits)
  have len': "length ?buf' = length buf"
    using len next_le Suc.prems by simp
  have IH: "decrypt_sectors r (k * ?ss) (m * ?ss) ((j + 1) * ?ss) ?buf' =
     Some (take ((j + 1) * ?ss) ?buf'
        @ concat (map (\<lambda>q. plain_sector r (k + q) (slice (q * ?ss) ?ss ?buf')) [j + 1..<m])
        @ drop (m * ?ss) ?buf')"
    using Suc.hyps(2) Suc.prems jm len' by (intro Suc.hyps(1)) simp_all
  have head: "take ((j + 1) * ?ss) ?buf' = take (j * ?ss) buf @ ?p"
    using len next_le Suc.prems by (simp add: splice_def add.commute)
  have later: "drop x ?buf' = drop x buf" if "j * ?ss + ?ss \<le> x" for x
    using that len next_le Suc.prems by (simp add: splice_def)
  have sec: "slice (q * ?ss) ?ss ?buf' = slice (q * ?ss) ?ss buf" if "q \<in> set [j + 1..<m]" for q
  proof -
    have "(j + 1) * ?ss \<le> q * ?ss" using that by (intro mult_le_mono1) simp
    then have "drop (q * ?ss) ?buf' = drop (q * ?ss) buf"
      by (intro later) (simp add: add.commute)
    then show ?thesis by (simp only: slice_def)
  qed
  have tail: "map (\<lambda>q. plain_sector r (k + q) (slice (q * ?ss) ?ss ?buf')) [j + 1..<m]
      = map (\<lambda>q. plain_sector r (k + q) (slice (q * ?ss) ?ss buf)) [j + 1..<m]"
    using sec by (intro map_cong refl) simp
  show ?case
    unfolding step IH tail head later [OF next_le] using jm by (simp add: upt_conv_Cons)
qed

lemma concat_slices:
  "concat (map (\<lambda>q. slice (q * b) b xs) [0..<m]) = take (m * b) xs"
proof (induction m)
  case 0
  then show ?case by simp
next
  case (Suc m)
  then show ?case by (simp add: slice_def take_add flip: add.commute [of "m * b" b])
qed

lemma plain_volume_plain:
  assumes "\<not> decrypting r" "length vol mod sector_bytes r = 0"
  shows "plain_volume r vol = vol"
proof -
  have "plain_volume r vol = take (length vol div sector_bytes r * sector_bytes r) vol"
    using assms(1) by (simp add: plain_volume_def plain_sector_def Let_def concat_slices)
  then show ?thesis
    using assms(2) div_mult_mod_eq [of "length vol" "sector_bytes r"] by simp
qed

lemma slice_plain_volume:
  assumes "length vol mod sector_bytes r = 0" "(k + m) * sector_bytes r \<le> length vol"
  shows "slice (k * sector_bytes r) (m * sector_bytes r) (plain_volume r vol)
    = concat (map (\<lambda>q. plain_sector r (k + q) (slice ((k + q) * sector_bytes r) (sector_bytes r) vol)) [0..<m])"
proof -
  let ?ss = "sector_bytes r"
  have bound: "k + m \<le> length vol div ?ss"
    using assms(2) by (simp add: less_eq_div_iff_mult_less_eq)
  have len: "length (plain_sector r i (slice (i * ?ss) ?ss vol)) = ?ss" if "i < length vol div ?ss" for i
  proof -
    have "(i + 1) * ?ss \<le> length vol"
      using that less_eq_div_iff_mult_less_eq [of ?ss "i + 1" "length vol"] by simp
    then show ?thesis by (simp add: min_def)
  qed
  show ?thesis
    unfolding plain_volume_def Let_def by (rule slice_concat_uniform [OF len bound])
qed

text \<open>A sector-aligned run of the volume, decrypted in place, is the same run of the decrypted view.\<close>

lemma maybe_decrypt_slice:
  assumes "off mod sector_bytes r = 0" "n mod sector_bytes r = 0" "off + n \<le> length vol"
    "length vol mod sector_bytes r = 0" "n + sector_bytes r < 2 ^ 32" "length vol < 2 ^ 64" "n \<le> length buf"
  shows "maybe_decrypt_xts r off n (splice 0 (slice off n vol) buf)
    = Some (splice 0 (slice off n (plain_volume r vol)) buf)"
proof (cases "decrypting r \<and> n \<noteq> 0")
  case False
  with assms(4) show ?thesis
    by (auto simp: maybe_decrypt_xts_def decrypting_def plain_volume_plain)
next
  case True
  let ?ss = "sector_bytes r" and ?buf = "splice 0 (slice off n vol) buf"
  obtain k m where km: "off = k * ?ss" "n = m * ?ss"
    using assms(1,2) by (metis mod_eq_0_iff_dvd dvd_def mult.commute)
  have len: "length ?buf = length buf" using assms(3,7) by simp
  have "maybe_decrypt_xts r off n ?buf = decrypt_sectors r (k * ?ss) (m * ?ss) (0 * ?ss) ?buf"
    using True km by (simp add: maybe_decrypt_xts_def decrypting_def)
  also have "\<dots> = Some (take (0 * ?ss) ?buf
        @ concat (map (\<lambda>q. plain_sector r (k + q) (slice (q * ?ss) ?ss ?buf)) [0..<m])
        @ drop (m * ?ss) ?buf)"
    using True km assms len by (intro decrypt_sectors_spec) (simp_all add: algebra_simps)
  also have "map (\<lambda>q. plain_sector r (k + q) (slice (q * ?ss) ?ss ?buf)) [0..<m]
      = map (\<lambda>q. plain_sector r (k + q) (slice ((k + q) * ?ss) ?ss vol)) [0..<m]"
  proof (intro map_cong refl)
    fix q assume q: "q \<in> set [0..<m]"
    then have "(q + 1) * ?ss \<le> m * ?ss" by (intro mult_le_mono1) simp
    then have "q * ?ss + ?ss \<le> n" using km by (simp add: algebra_simps)
    then show "plain_sector r (k + q) (slice (q * ?ss) ?ss ?buf)
        = plain_sector r (k + q) (slice ((k + q) * ?ss) ?ss vol)"
      using assms(3) km by (simp add: splice_def slice_append_left slice_slice algebra_simps)
  qed
  also have "concat \<dots> = slice off n (plain_volume r vol)"
    using assms(3,4) km by (simp add: slice_plain_volume algebra_simps)
  finally show ?thesis
    using km assms(3,4) by (simp add: splice_def length_plain_volume)
qed

section \<open>The aligned window of an unaligned read\<close>

definition win_start :: "reader \<Rightarrow> nat \<Rightarrow> nat" where
  "win_start r off = off div sector_bytes r * sector_bytes r"

definition win_skip :: "reader \<Rightarrow> nat \<Rightarrow> nat" where
  "win_skip r off = off - win_start r off"

definition win_len :: "reader \<Rightarrow> nat \<Rightarrow> nat \<Rightarrow> nat" where
  "win_len r off n = (win_skip r off + n + sector_bytes r - 1) div sector_bytes r * sector_bytes r"

lemma win_skip: "win_start r off + win_skip r off = off" "win_skip r off < sector_bytes r"
  "win_start r off mod sector_bytes r = 0" "win_start r off \<le> off"
proof -
  have eq: "win_start r off + off mod sector_bytes r = off"
    by (simp add: win_start_def)
  then show "win_start r off \<le> off" by (metis le_add1)
  have "win_skip r off = off mod sector_bytes r"
    unfolding win_skip_def using eq by (metis add_diff_cancel_left')
  with eq show "win_start r off + win_skip r off = off" "win_skip r off < sector_bytes r"
    by simp_all
qed (simp add: win_start_def)

lemma win_len: "win_skip r off + n \<le> win_len r off n" "win_len r off n < win_skip r off + n + sector_bytes r"
  "win_len r off n mod sector_bytes r = 0"
  by (simp_all only: win_len_def round_up_ge round_up_less sector_bytes_pos mod_mult_self2_is_0)

lemma win_len_fits: "n + 3 * sector_bytes r < 2 ^ 32 \<Longrightarrow> win_len r off n + sector_bytes r < 2 ^ 32"
  unfolding win_len_def by (rule round_up_fits [OF sector_bytes_pos(1) win_skip(2)])

lemma win_inside:
  assumes "off + n \<le> len" "len mod sector_bytes r = 0"
  shows "win_start r off + win_len r off n \<le> len"
proof -
  obtain q where q: "len = q * sector_bytes r"
    using assms(2) by (metis mod_eq_0_iff_dvd dvd_def mult.commute)
  have "win_start r off + win_len r off n
      = (win_start r off + (win_skip r off + n) + sector_bytes r - 1) div sector_bytes r * sector_bytes r"
    unfolding win_len_def win_start_def by (rule round_up_add) simp
  also have "win_start r off + (win_skip r off + n) = off + n"
    by (simp add: win_skip(1) flip: add.assoc)
  also have "(off + n + sector_bytes r - 1) div sector_bytes r * sector_bytes r \<le> q * sector_bytes r"
    using assms(1) unfolding q by (intro round_up_le) simp_all
  finally show ?thesis by (simp add: q)
qed

lemma read_bytes_aligned:
  "win_skip r off = 0 \<Longrightarrow> n mod sector_bytes r = 0 \<Longrightarrow> read_bytes_via rd r off n buf = rd r off n buf"
  by (simp only: read_bytes_via_def Let_def flip: win_start_def win_skip_def) simp

lemma read_bytes_unaligned:
  assumes "\<not> (win_skip r off = 0 \<and> n mod sector_bytes r = 0)" "win_len r off n < 2 ^ 32"
  shows "read_bytes_via rd r off n buf = do {
        (r', res, scratch) \<leftarrow> rd r (win_start r off) (win_len r off n) (replicate (win_len r off n) 0);
        Some (if bytes_read res > win_skip r off
              then (r', res\<lparr>bytes_read := min (bytes_read res - win_skip r off) n\<rparr>,
                    splice 0 (slice (win_skip r off) (min (bytes_read res - win_skip r off) n) scratch) buf)
              else if success res \<or> bytes_read res > 0
              then (r', res\<lparr>success := False, bytes_read := 0,
                     error := (if error res = [] then ''read ended before requested offset'' else error res)\<rparr>, buf)
              else (r', res, buf)) }"
proof -
  have "\<not> 2 ^ 32 - 1 < win_len r off n" using assms(2) by simp
  with assms(1) show ?thesis
    by (simp only: read_bytes_via_def Let_def if_False win_start_def win_skip_def win_len_def)
qed

section \<open>The interface of a sector source\<close>

text \<open>
  What a client of the reader relies on: \<open>content\<close> is the logical volume, a read that
  reports success without padding returned bytes of it, and an aligned read of a readable
  range inside it succeeds in full.
\<close>

locale sector_source =
  fixes rd :: "reader \<Rightarrow> nat \<Rightarrow> nat \<Rightarrow> buf \<Rightarrow> read_outcome"
    and ok :: "reader \<Rightarrow> bool"
    and content :: "reader \<Rightarrow> buf"
    and readable :: "reader \<Rightarrow> nat \<Rightarrow> nat \<Rightarrow> bool"
  assumes whole: "ok r \<Longrightarrow> length (content r) mod sector_bytes r = 0"
    and sound: "ok r \<Longrightarrow> rd r off n buf = Some (r', res, buf') \<Longrightarrow> success res \<Longrightarrow>
        \<not> padded_zeros res \<or> \<not> decrypting r \<Longrightarrow> n + sector_bytes r < 2 ^ 32 \<Longrightarrow> n \<le> length buf \<Longrightarrow>
        take (bytes_read res) buf' = slice off (bytes_read res) (content r)
        \<and> bytes_read res \<le> n \<and> length buf' = length buf"
    and live: "ok r \<Longrightarrow> readable r off n \<Longrightarrow> off mod sector_bytes r = 0 \<Longrightarrow> n mod sector_bytes r = 0 \<Longrightarrow>
        off + n \<le> length (content r) \<Longrightarrow> n + sector_bytes r < 2 ^ 32 \<Longrightarrow> n \<le> length buf \<Longrightarrow>
        \<exists>r'. rd r off n buf = Some (r', ok_result n, splice 0 (slice off n (content r)) buf)"
    and dead: "ok r \<Longrightarrow> \<not> readable r off n \<Longrightarrow>
        \<exists>r' res buf'. rd r off n buf = Some (r', res, buf') \<and> (\<not> success res \<or> bytes_read res = 0)"
    and shrink: "ok r \<Longrightarrow> readable r off n \<Longrightarrow> off \<le> off' \<Longrightarrow> off' + n' \<le> off + n \<Longrightarrow> 0 < n' \<Longrightarrow>
        off mod sector_bytes r = 0 \<Longrightarrow> n mod sector_bytes r = 0 \<Longrightarrow>
        off' mod sector_bytes r = 0 \<Longrightarrow> n' mod sector_bytes r = 0 \<Longrightarrow> off + n < 2 ^ 64 \<Longrightarrow> readable r off' n'"
begin

lemma bytes_sound:
  assumes "ok r" "read_bytes_via rd r off n buf = Some (r', res, buf')" "success res"
    "\<not> padded_zeros res \<or> \<not> decrypting r" "n + 3 * sector_bytes r < 2 ^ 32" "n \<le> length buf"
  shows "take (bytes_read res) buf' = slice off (bytes_read res) (content r) \<and> bytes_read res \<le> n"
proof (cases "win_skip r off = 0 \<and> n mod sector_bytes r = 0")
  case True
  with assms(2) have "rd r off n buf = Some (r', res, buf')"
    by (simp add: read_bytes_aligned)
  from sound [OF assms(1) this assms(3,4)] assms(5,6) show ?thesis by simp
next
  case False
  let ?start = "win_start r off" and ?skip = "win_skip r off" and ?al = "win_len r off n"
  have small: "?al + sector_bytes r < 2 ^ 32" using assms(5) by (rule win_len_fits)
  then have "?al < 2 ^ 32" by simp
  note read = read_bytes_unaligned [OF False this, of rd buf]
  from assms(2) obtain r1 res0 scratch where
    rd1: "rd r ?start ?al (replicate ?al 0) = Some (r1, res0, scratch)"
    unfolding read by (auto simp: bind_eq_Some_conv)
  with assms(2,3) read have rd: "rd r ?start ?al (replicate ?al 0) = Some (r', res0, scratch)"
    and res0: "bytes_read res0 > ?skip" "success res0" "padded_zeros res = padded_zeros res0"
      "bytes_read res = min (bytes_read res0 - ?skip) n"
      "buf' = splice 0 (slice ?skip (bytes_read res) scratch) buf"
    by (auto split: if_splits)
  have scratch: "take (bytes_read res0) scratch = slice ?start (bytes_read res0) (content r)"
    "bytes_read res0 \<le> length scratch"
    using sound [OF assms(1) rd res0(2)] res0(3) assms(4) small by simp_all
  have "slice ?skip (bytes_read res) scratch = slice ?skip (bytes_read res) (take (bytes_read res0) scratch)"
    using res0(1,4) by (simp add: slice_def drop_take min_def)
  also have "\<dots> = slice off (bytes_read res) (content r)"
    unfolding scratch(1) using res0(1,4) by (subst slice_slice) (simp_all add: win_skip(1))
  finally have got: "slice ?skip (bytes_read res) scratch = slice off (bytes_read res) (content r)" .
  have "length (slice ?skip (bytes_read res) scratch) = bytes_read res"
    using res0(1,4) scratch(2) by simp
  then have "take (bytes_read res) buf' = slice ?skip (bytes_read res) scratch"
    unfolding res0(5) by (simp only: splice_def) simp
  with got res0(4) show ?thesis by simp
qed

lemma bytes_live:
  assumes "ok r" "off + n \<le> length (content r)" "n + 3 * sector_bytes r < 2 ^ 32" "n \<le> length buf"
    and readable: "\<And>start m. start \<le> off \<Longrightarrow> start + m < off + n + sector_bytes r \<Longrightarrow> readable r start m"
  shows "\<exists>r'. read_bytes_via rd r off n buf
      = Some (r', ok_result n, splice 0 (slice off n (content r)) buf)"
proof (cases "win_skip r off = 0 \<and> n mod sector_bytes r = 0")
  case True
  then have "off mod sector_bytes r = 0" using win_skip [of r off] by simp
  moreover have "readable r off n" using readable by simp
  ultimately show ?thesis
    using True live [OF assms(1), of off n buf] assms(2-4) by (simp add: read_bytes_aligned)
next
  case False
  let ?start = "win_start r off" and ?skip = "win_skip r off" and ?al = "win_len r off n"
  have inside: "?start + ?al \<le> length (content r)"
    using assms(2) whole [OF assms(1)] by (rule win_inside)
  have small: "?al + sector_bytes r < 2 ^ 32" using assms(3) by (rule win_len_fits)
  have "readable r ?start ?al"
    using win_len(2) [of r off n] win_skip [of r off] by (intro readable) linarith+
  then obtain r' where rd: "rd r ?start ?al (replicate ?al 0)
      = Some (r', ok_result ?al, splice 0 (slice ?start ?al (content r)) (replicate ?al 0))"
    using live [OF assms(1) _ win_skip(3) win_len(3) inside small, of "replicate ?al 0"] by auto
  have "splice 0 (slice ?start ?al (content r)) (replicate ?al 0) = slice ?start ?al (content r)"
    using inside by (simp add: splice_def)
  then have bytes: "slice ?skip n (splice 0 (slice ?start ?al (content r)) (replicate ?al 0)) = slice off n (content r)"
    using win_len(1) [of r off n] by (simp only: slice_slice win_skip(1))
  have "0 < ?al" using False win_len(1) [of r off n] by (cases n) auto
  then have "sector_bytes r \<le> ?al" using win_len(3) by (metis dvd_imp_le mod_eq_0_iff_dvd)
  then have "?skip < ?al" "min (?al - ?skip) n = n"
    using win_skip(2) [of r off] win_len(1) [of r off n] by simp_all
  then show ?thesis
    using rd bytes small read_bytes_unaligned [OF False, of rd buf] by (simp add: ok_result_def)
qed

end

section \<open>Memory volumes are sector sources\<close>

definition memory_ok :: "heap \<Rightarrow> reader \<Rightarrow> bool" where
  "memory_ok h r \<longleftrightarrow> memory_mode r
     \<and> (case mem_ref r of None \<Rightarrow> False
        | Some a \<Rightarrow> a < length h \<and> length (vol_data (h ! a)) mod sector_bytes r = 0
            \<and> length (vol_data (h ! a)) + 2 ^ 32 \<le> 2 ^ 64)"

definition memory_volume :: "heap \<Rightarrow> reader \<Rightarrow> mem_volume" where
  "memory_volume h r = h ! the (mem_ref r)"

definition memory_content :: "heap \<Rightarrow> reader \<Rightarrow> buf" where
  "memory_content h r = plain_volume r (vol_data (memory_volume h r))"

definition memory_readable :: "heap \<Rightarrow> reader \<Rightarrow> nat \<Rightarrow> nat \<Rightarrow> bool" where
  "memory_readable h r off n \<longleftrightarrow>
     (let mv = memory_volume h r in
      \<not> range_hit (sector_bytes r) off n (fault_start mv) (fault_count mv)
      \<and> \<not> range_hit (sector_bytes r) off n (short_start mv) (short_count mv))"

lemma sector_bytes_norm [simp]:
  "sector_bytes (r\<lparr>sector_size := sector_bytes r\<rparr>) = sector_bytes r"
  by (simp add: sector_bytes_def)

lemma decrypting_norm [simp]: "decrypting (r\<lparr>sector_size := sector_bytes r\<rparr>) = decrypting r"
  by (simp add: decrypting_def has_xts_fvek_def)

lemma plain_volume_norm [simp]:
  "plain_volume (r\<lparr>sector_size := sector_bytes r\<rparr>) vol = plain_volume r vol"
  by (simp add: plain_volume_def plain_sector_def xts_crypt_sector_def Let_def cong: if_cong)

lemma read_sectors_memory:
  "memory_mode r \<Longrightarrow> read_sectors win h r off n buf
    = read_memory h (r\<lparr>sector_size := sector_bytes r\<rparr>) off n buf"
  by (simp add: read_sectors_def)

lemma memory_aligned_read:
  assumes "memory_ok h r" "memory_readable h r off n" "off mod sector_bytes r = 0" "n mod sector_bytes r = 0"
    "off + n \<le> length (vol_data (memory_volume h r))" "n + sector_bytes r < 2 ^ 32" "n \<le> length buf"
  shows "read_sectors win h r off n buf
    = Some (r\<lparr>sector_size := sector_bytes r\<rparr>, ok_result n, splice 0 (slice off n (memory_content h r)) buf)"
proof -
  let ?r = "r\<lparr>sector_size := sector_bytes r\<rparr>" and ?vol = "vol_data (memory_volume h r)"
  obtain a where a: "mem_ref r = Some a" "memory_mode r" "memory_volume h r = h ! a"
    "length ?vol mod sector_bytes r = 0" "length ?vol < 2 ^ 64"
    using assms(1) by (auto simp: memory_ok_def memory_volume_def split: option.splits)
  have "w64 (off + n) = off + n" using a(5) assms(5) by (intro w64_id) simp
  then have "read_sectors win h r off n buf = finish_read ?r off n (splice 0 (slice off n ?vol) buf)"
    using a assms by (simp add: read_sectors_memory read_memory_def memory_readable_def misaligned_def Let_def)
  also have "\<dots> = Some (?r, ok_result n, splice 0 (slice off n (plain_volume ?r ?vol)) buf)"
    using assms a unfolding finish_read_def
    by (subst maybe_decrypt_slice) simp_all
  finally show ?thesis by (simp add: memory_content_def)
qed

lemma read_memory_sound:
  assumes "memory_ok h r" "read_sectors win h r off n buf = Some (r', res, buf')" "success res"
    "\<not> padded_zeros res \<or> \<not> decrypting r" "n + sector_bytes r < 2 ^ 32" "n \<le> length buf"
  shows "take (bytes_read res) buf' = slice off (bytes_read res) (memory_content h r)
    \<and> bytes_read res \<le> n \<and> length buf' = length buf"
proof -
  let ?r = "r\<lparr>sector_size := sector_bytes r\<rparr>" and ?vol = "vol_data (memory_volume h r)"
  obtain a where a: "mem_ref r = Some a" "memory_mode r" "memory_volume h r = h ! a"
    "length ?vol mod sector_bytes r = 0" "length ?vol < 2 ^ 64"
    using assms(1) by (auto simp: memory_ok_def memory_volume_def split: option.splits)
  have plain: "memory_content h r = ?vol" if "\<not> decrypting r"
    using that a(4) by (simp add: memory_content_def plain_volume_plain)
  have "read_memory h ?r off n buf = Some (r', res, buf')"
    using assms(2) a(2) by (simp add: read_sectors_memory)
  then consider
      (short) "bytes_read res = 0" "buf' = buf"
    | (padded) "\<not> decrypting r" "bytes_read res = (if off < length ?vol then min n (length ?vol - off) else 0)"
        "buf' = splice 0 (slice off (bytes_read res) ?vol @ replicate (n - bytes_read res) 0) buf"
    | (full) "off mod sector_bytes r = 0" "n mod sector_bytes r = 0" "off + n \<le> length ?vol"
        "finish_read ?r off n (splice 0 (slice off n ?vol) buf) = Some (r', res, buf')"
    using assms(3,4) a(1,3)
    by (auto simp: read_memory_def Let_def err_result_def no_result_def ok_result_def misaligned_def
        split: if_splits)
  then show ?thesis
  proof cases
    case short
    then show ?thesis by simp
  next
    case padded
    then show ?thesis
      using assms(6) by (auto simp: plain splice_def slice_def)
  next
    case full
    then have "maybe_decrypt_xts ?r off n (splice 0 (slice off n ?vol) buf)
        = Some (splice 0 (slice off n (plain_volume ?r ?vol)) buf)"
      using a assms(5,6) by (intro maybe_decrypt_slice) simp_all
    with full have "res = ok_result n" "buf' = splice 0 (slice off n (memory_content h r)) buf"
      by (auto simp: finish_read_def memory_content_def)
    then show ?thesis
      using full(3) a(4) assms(6)
      by (simp add: ok_result_def no_result_def splice_def memory_content_def length_plain_volume)
  qed
qed

lemma range_hit_mono:
  assumes "range_hit ss off' n' start count" "off div ss \<le> off' div ss" "off' div ss + n' div ss \<le> off div ss + n div ss"
    "0 < n' div ss" "off div ss + n div ss < 2 ^ 64"
  shows "range_hit ss off n start count"
  using assms by (auto simp: range_hit_def Let_def w64_id sub64_no_wrap)

lemma memory_dead:
  assumes "memory_ok h r" "\<not> memory_readable h r off n"
  shows "\<exists>r' res buf'. read_sectors win h r off n buf = Some (r', res, buf') \<and> (\<not> success res \<or> bytes_read res = 0)"
  using assms
  by (auto simp: memory_ok_def memory_volume_def memory_readable_def read_sectors_memory read_memory_def
      misaligned_def err_result_def no_result_def ok_result_def Let_def split: option.splits)

lemma memory_shrink:
  assumes "memory_readable h r off n" "off \<le> off'" "off' + n' \<le> off + n" "0 < n'"
    and al: "off mod sector_bytes r = 0" "n mod sector_bytes r = 0"
      "off' mod sector_bytes r = 0" "n' mod sector_bytes r = 0" "off + n < 2 ^ 64"
  shows "memory_readable h r off' n'"
proof -
  let ?ss = "sector_bytes r"
  obtain a b a' b' where eq: "off = a * ?ss" "n = b * ?ss" "off' = a' * ?ss" "n' = b' * ?ss"
    using al by (metis mod_eq_0_iff_dvd dvd_def mult.commute)
  have "a * ?ss \<le> a' * ?ss" "(a' + b') * ?ss \<le> (a + b) * ?ss"
    using assms(2,3) by (simp_all add: eq add_mult_distrib)
  then have le: "a \<le> a'" "a' + b' \<le> a + b"
    using mult_le_cancel2 sector_bytes_pos(1) by blast+
  have "a + b \<le> (a + b) * ?ss" using sector_bytes_pos(1) [of r] by (simp add: Suc_leI)
  then have fits: "a + b < 2 ^ 64" using al(5) by (simp add: eq add_mult_distrib)
  have "range_hit ?ss off n s c" if "range_hit ?ss off' n' s c" for s c
    using that by (rule range_hit_mono) (use le fits assms(4) in \<open>simp_all add: eq\<close>)
  then show ?thesis
    using assms(1) unfolding memory_readable_def Let_def by blast
qed

interpretation mem_source: sector_source "read_sectors win h" "memory_ok h" "memory_content h" "memory_readable h"
  for win h
proof
  fix r assume "memory_ok h r"
  then show "length (memory_content h r) mod sector_bytes r = 0"
    by (auto simp: memory_ok_def memory_content_def memory_volume_def length_plain_volume split: option.splits)
next
  fix r off n buf r' res buf'
  assume "memory_ok h r" "read_sectors win h r off n buf = Some (r', res, buf')" "success res"
    "\<not> padded_zeros res \<or> \<not> decrypting r" "n + sector_bytes r < 2 ^ 32" "n \<le> length buf"
  then show "take (bytes_read res) buf' = slice off (bytes_read res) (memory_content h r)
      \<and> bytes_read res \<le> n \<and> length buf' = length buf"
    by (rule read_memory_sound)
next
  fix r off n and buf :: buf
  assume r: "memory_ok h r" "memory_readable h r off n" "off mod sector_bytes r = 0" "n mod sector_bytes r = 0"
    "off + n \<le> length (memory_content h r)" "n + sector_bytes r < 2 ^ 32" "n \<le> length buf"
  then have inside: "off + n \<le> length (vol_data (memory_volume h r))"
    by (auto simp: memory_ok_def memory_content_def memory_volume_def length_plain_volume split: option.splits)
  from memory_aligned_read [OF r(1-4) inside r(6,7)]
  show "\<exists>r'. read_sectors win h r off n buf
      = Some (r', ok_result n, splice 0 (slice off n (memory_content h r)) buf)"
    by blast
qed (erule (1) memory_dead, rule memory_shrink, assumption+)

section \<open>Fault ranges\<close>

lemma range_hit_iff:
  assumes "0 < n div ss" "off div ss + n div ss < 2 ^ 64" "start + count < 2 ^ 64"
  shows "range_hit ss off n start count
    \<longleftrightarrow> off div ss < start + count \<and> start < off div ss + n div ss \<and> 0 < count"
  using assms by (auto simp: range_hit_def Let_def w64_id sub64_def)

lemma read_fault_hit:
  assumes "memory_ok h r" "off mod sector_bytes r = 0" "n mod sector_bytes r = 0"
    "range_hit (sector_bytes r) off n (fault_start (memory_volume h r)) (fault_count (memory_volume h r))"
  shows "read_sectors win h r off n buf
    = Some (note_bad_read (r\<lparr>sector_size := sector_bytes r\<rparr>) off n,
            err_result ''injected memory fault range'', buf)"
  using assms
  by (auto simp: memory_ok_def memory_volume_def read_sectors_memory read_memory_def misaligned_def Let_def
      split: option.splits)

section \<open>Telemetry\<close>

lemma length_sample_loop:
  "length acc \<le> k_max_bad_samples \<Longrightarrow> length (sample_loop k i start count acc) \<le> k_max_bad_samples"
  by (induction k arbitrary: i acc) auto

lemma sample_loop_prefix: "\<exists>new. sample_loop k i start count acc = acc @ new \<and>
    set new \<subseteq> (\<lambda>j. w64 (start + j)) ` {i..<i + k}"
proof (induction k arbitrary: i acc)
  case 0
  then show ?case by simp
next
  case (Suc k)
  show ?case
  proof (cases "length acc < k_max_bad_samples")
    case False
    then show ?thesis by simp
  next
    case True
    let ?acc = "if count > k_max_bad_samples \<and> i mod (count div k_max_bad_samples + 1) \<noteq> 0
        then acc else acc @ [w64 (start + i)]"
    from Suc.IH [of "i + 1" ?acc] obtain new where
      new: "sample_loop k (i + 1) start count ?acc = ?acc @ new"
        "set new \<subseteq> (\<lambda>j. w64 (start + j)) ` {i + 1..<i + 1 + k}" by blast
    have sub: "(\<lambda>j. w64 (start + j)) ` {i + 1..<i + 1 + k} \<subseteq> (\<lambda>j. w64 (start + j)) ` {i..<i + Suc k}"
      by (intro image_mono) auto
    have head: "w64 (start + i) \<in> (\<lambda>j. w64 (start + j)) ` {i..<i + Suc k}"
      by (intro imageI) simp
    have "sample_loop (Suc k) i start count acc = ?acc @ new"
      using True new(1) by simp
    then show ?thesis
      using new(2) sub head by (cases "?acc = acc") (auto split: if_splits)
  qed
qed

text \<open>The samples a failed read adds are sectors of that read, and the list stays bounded.\<close>

definition telemetry_ok :: "reader \<Rightarrow> bool" where
  "telemetry_ok r \<longleftrightarrow> length (bad_list r) \<le> k_max_bad_samples"

lemma telemetry_note: "telemetry_ok r \<Longrightarrow> telemetry_ok (note_bad_read r off n)"
  by (simp add: telemetry_ok_def note_bad_read_def Let_def length_sample_loop)

lemma telemetry_merge: "telemetry_ok r \<Longrightarrow> telemetry_ok (merge_telemetry r src)"
  by (auto simp: telemetry_ok_def merge_telemetry_def)

lemma telemetry_new: "telemetry_ok new_reader"
  by (simp add: telemetry_ok_def new_reader_def)

lemma telemetry_norm [simp]: "telemetry_ok (r\<lparr>sector_size := ss\<rparr>) = telemetry_ok r"
  by (simp add: telemetry_ok_def)

lemma telemetry_memory:
  "telemetry_ok r \<Longrightarrow> read_memory h r off n buf = Some (r', res, buf') \<Longrightarrow> telemetry_ok r'"
  by (auto simp: read_memory_def finish_read_def Let_def bind_eq_Some_conv telemetry_note
      split: if_splits option.splits)

lemma telemetry_backends:
  "telemetry_ok r \<Longrightarrow> read_ewf b r off n buf = Some (r', res, buf') \<Longrightarrow> telemetry_ok r'"
  "telemetry_ok r \<Longrightarrow> read_raw c r off n buf = Some (r', res, buf') \<Longrightarrow> telemetry_ok r'"
  "telemetry_ok r \<Longrightarrow> read_raid d r off n buf = Some (r', res, buf') \<Longrightarrow> telemetry_ok r'"
  "telemetry_ok r \<Longrightarrow> read_physical win r off n buf = Some (r', res, buf') \<Longrightarrow> telemetry_ok r'"
  by (auto simp: read_ewf_def read_raw_def read_raid_def read_physical_def finish_read_def Let_def
      bind_eq_Some_conv telemetry_note split: if_splits option.splits prod.splits sum.splits)

section \<open>Encrypted volumes\<close>

text \<open>The writer's side: every sector from \<open>xts_from\<close> on encrypted under its tweak.\<close>

definition encrypt_sector :: "reader \<Rightarrow> nat \<Rightarrow> buf \<Rightarrow> buf" where
  "encrypt_sector r k s =
     (let ss = sector_bytes r in
      if xts_from r \<le> k * ss
      then (case xts_crypt_sector r (xts_tweak ((k * ss - xts_from r) div ss)) s True of
              Some p \<Rightarrow> p | None \<Rightarrow> s)
      else s)"

definition encrypt_volume :: "reader \<Rightarrow> buf \<Rightarrow> buf" where
  "encrypt_volume r vol =
     (let ss = sector_bytes r in
      concat (map (\<lambda>k. encrypt_sector r k (slice (k * ss) ss vol)) [0..<length vol div ss]))"

lemma length_encrypt_sector [simp]: "length (encrypt_sector r k s) = length s"
  by (auto simp: encrypt_sector_def Let_def length_xts_crypt_sector split: option.splits)

lemma xts_impl_None:
  "xts_aes_crypt_impl k enc dec key tweak p b = None \<longleftrightarrow> length p mod 16 \<noteq> 0"
  by (auto simp: xts_aes_crypt_impl_def Let_def)

lemma plain_encrypt_sector:
  assumes "decrypting r" "length (xts_key r) = 64" "length s = sector_bytes r"
  shows "plain_sector r k (encrypt_sector r k s) = s"
proof (cases "xts_from r \<le> k * sector_bytes r")
  case False
  then show ?thesis by (simp add: plain_sector_def encrypt_sector_def)
next
  case True
  let ?t = "xts_tweak ((k * sector_bytes r - xts_from r) div sector_bytes r)"
  have t: "length ?t = 16" by (simp add: xts_tweak_def)
  obtain c where c: "xts_crypt_sector r ?t s True = Some c"
    using assms(1,3) by (cases "xts_crypt_sector r ?t s True")
      (auto simp: xts_crypt_sector_def xts_aes128_crypt_def xts_aes256_crypt_def xts_impl_None
        decrypting_def split: if_splits)
  have "xts_crypt_sector r ?t c False = Some s"
    using c t assms(1,2) aes128.xts_roundtrip [of "take 32 (xts_key r)" ?t s c]
      aes256.xts_roundtrip [of "xts_key r" ?t s c]
    by (auto simp: xts_crypt_sector_def xts_aes128_crypt_def xts_aes256_crypt_def
        decrypting_def has_xts_fvek_def split: if_splits)
  with c True assms(1) show ?thesis
    by (simp add: plain_sector_def encrypt_sector_def Let_def)
qed

lemma length_encrypt_volume:
  assumes "length vol mod sector_bytes r = 0"
  shows "length (encrypt_volume r vol) = length vol"
proof -
  obtain m where m: "length vol = m * sector_bytes r"
    using assms by (metis mod_eq_0_iff_dvd dvd_def mult.commute)
  have "length (encrypt_sector r k (slice (k * sector_bytes r) (sector_bytes r) vol)) = sector_bytes r"
    if "k \<in> set [0..<m]" for k
  proof -
    have "(k + 1) * sector_bytes r \<le> m * sector_bytes r"
      using that by (intro mult_le_mono1) simp
    with m show ?thesis by (simp add: min_def)
  qed
  then show ?thesis
    unfolding encrypt_volume_def Let_def m
    by (subst length_concat_uniform [where b = "sector_bytes r"]) simp_all
qed

lemma plain_encrypt_volume:
  assumes "decrypting r" "length (xts_key r) = 64" "length vol mod sector_bytes r = 0"
  shows "plain_volume r (encrypt_volume r vol) = vol"
proof -
  let ?ss = "sector_bytes r" and ?sec = "\<lambda>k. encrypt_sector r k (slice (k * sector_bytes r) (sector_bytes r) vol)"
  obtain m where m: "length vol = m * ?ss"
    using assms(3) by (metis mod_eq_0_iff_dvd dvd_def mult.commute)
  have len: "length (slice (k * ?ss) ?ss vol) = ?ss" if "k < m" for k
  proof -
    have "(k + 1) * ?ss \<le> m * ?ss" using that by (intro mult_le_mono1) simp
    with m show ?thesis by (simp add: min_def)
  qed
  have enc: "encrypt_volume r vol = concat (map ?sec [0..<m])"
    using m by (simp add: encrypt_volume_def Let_def)
  have "slice (k * ?ss) ?ss (encrypt_volume r vol) = ?sec k" if "k < m" for k
    using that slice_concat_uniform [of m ?sec ?ss k 1] len by (simp add: enc)
  then have sectors: "map (\<lambda>k. plain_sector r k (slice (k * ?ss) ?ss (encrypt_volume r vol))) [0..<m]
      = map (\<lambda>k. slice (k * ?ss) ?ss vol) [0..<m]"
    using len assms by (intro map_cong refl) (simp add: plain_encrypt_sector)
  have "length (encrypt_volume r vol) div ?ss = m"
    using m length_encrypt_volume [OF assms(3)] by simp
  then show ?thesis
    unfolding plain_volume_def Let_def by (simp only: sectors concat_slices) (simp add: m)
qed

section \<open>Properties\<close>

text \<open>C1. Whatever fault or short range is injected, every byte a read of a memory volume
  reports as read without padding is the byte of the (decrypted) volume at that offset, for
  unaligned offsets and sizes too.\<close>

theorem read_bytes_never_wrong:
  assumes "memory_ok h r" "read_bytes win h r off n buf = Some (r', res, buf')"
    "success res" "\<not> padded_zeros res" "n + 3 * sector_bytes r < 2 ^ 32" "n \<le> length buf"
  shows "take (bytes_read res) buf' = slice off (bytes_read res) (plain_volume r (vol_data (memory_volume h r)))
    \<and> bytes_read res \<le> n"
  using mem_source.bytes_sound [of h r win off n buf r' res buf'] assms
  by (simp add: read_bytes_def memory_content_def)

definition demo_reader :: reader where
  "demo_reader = new_reader\<lparr>sector_size := 4, memory_mode := True, mem_ref := Some 0, disk_size := 8\<rparr>"

definition no_win :: "nat \<Rightarrow> nat \<Rightarrow> win_io" where
  "no_win off n = \<lparr>event_ok = False, readfile_ok = False, readfile_err = 0, wait_code = 0,
     overlapped_ok = False, overlapped_err = 0, overlapped_bytes = 0, last_error = 0, io_buffer = []\<rparr>"

definition demo_heap :: heap where
  "demo_heap = [(new_volume [1, 2, 3, 4, 5, 6, 7, 8])\<lparr>fault_start := 7, fault_count := 2\<rparr>]"

lemma demo_ok: "memory_ok demo_heap demo_reader"
  by (simp add: memory_ok_def demo_heap_def demo_reader_def new_reader_def new_volume_def sector_bytes_def)

lemma demo_read: "read_bytes win demo_heap demo_reader 3 4 [0, 0, 0, 0]
    = Some (demo_reader, ok_result 4, [4, 5, 6, 7])"
  by (simp add: read_bytes_def read_bytes_via_def read_sectors_def read_memory_def finish_read_def
      maybe_decrypt_xts_def demo_heap_def demo_reader_def new_reader_def new_volume_def sector_bytes_def
      misaligned_def range_hit_def has_xts_fvek_def Let_def ok_result_def no_result_def splice_def slice_def
      w64_def sub64_def)

theorem read_bytes_never_wrong_witness:
  "slice 3 4 (plain_volume demo_reader (vol_data (memory_volume demo_heap demo_reader))) = [4, 5, 6, 7]"
proof -
  have "take (bytes_read (ok_result 4)) [4, 5, 6, 7]
      = slice 3 (bytes_read (ok_result 4)) (plain_volume demo_reader (vol_data (memory_volume demo_heap demo_reader)))"
    using read_bytes_never_wrong [OF demo_ok demo_read]
    by (simp add: ok_result_def no_result_def sector_bytes_def demo_reader_def new_reader_def)
  then show ?thesis by (simp add: ok_result_def no_result_def)
qed

text \<open>C2. Reading an encrypted memory image with its volume key gives the plaintext: after
  \<open>attachMemoryVolume\<close> of the sector-wise XTS encryption of a volume, \<open>readBytes\<close>
  succeeds for every range inside it, aligned or not, and returns exactly the plaintext range.\<close>

theorem read_encrypted_volume:
  assumes attach: "attach_memory_volume h r (encrypt_volume r vol) ss = (h', r1)"
    and key: "has_xts_fvek r" "length (xts_key r) = 64" "ss = sector_bytes r" "ss mod 16 = 0"
    and vol: "length vol mod ss = 0" "length vol + 2 ^ 32 \<le> 2 ^ 64"
    and range: "off + n \<le> length vol" "n + 3 * ss < 2 ^ 32" "n \<le> length buf"
  shows "\<exists>r'. read_bytes win h' r1 off n buf = Some (r', ok_result n, splice 0 (slice off n vol) buf)"
proof -
  have r1: "sector_bytes r1 = sector_bytes r" "decrypting r1" "memory_volume h' r1 = new_volume (encrypt_volume r vol)"
    "xts_key r1 = xts_key r" "xts_key_len r1 = xts_key_len r" "xts_from r1 = xts_from r"
    using attach key
    by (auto simp: attach_memory_volume_def close_drive_def sector_bytes_def memory_volume_def
        decrypting_def has_xts_fvek_def)
  have same: "encrypt_volume r1 vol = encrypt_volume r vol"
    by (simp add: encrypt_volume_def encrypt_sector_def xts_crypt_sector_def r1 Let_def cong: if_cong)
  have ok: "memory_ok h' r1"
    using attach vol key(3) length_encrypt_volume [of vol r]
    by (auto simp: memory_ok_def attach_memory_volume_def close_drive_def new_volume_def sector_bytes_def)
  have content: "memory_content h' r1 = vol"
    using plain_encrypt_volume [OF r1(2), of vol] r1(1,3,4) key vol
    by (simp add: memory_content_def new_volume_def same [symmetric])
  have "memory_readable h' r1 a m" for a m
    by (simp add: memory_readable_def r1 new_volume_def range_hit_def Let_def)
  from mem_source.bytes_live [OF ok _ _ range(3) this, of off win] range content r1(1) key(3)
  show ?thesis by (simp add: read_bytes_def)
qed

definition demo_keyed :: reader where
  "demo_keyed = new_reader\<lparr>sector_size := 16, xts_key_len := 32\<rparr>"

theorem read_encrypted_volume_witness:
  "\<exists>r'. read_bytes no_win (fst (attach_memory_volume [] demo_keyed (encrypt_volume demo_keyed (replicate 32 5)) 16))
      (snd (attach_memory_volume [] demo_keyed (encrypt_volume demo_keyed (replicate 32 5)) 16)) 3 20 (replicate 20 0)
    = Some (r', ok_result 20, replicate 20 5)"
proof -
  have plain: "splice 0 (slice 3 20 (replicate 32 5)) (replicate 20 0) = replicate 20 (5 :: byte)"
    by (simp add: splice_def slice_def)
  show ?thesis
    unfolding plain [symmetric]
    by (rule read_encrypted_volume [OF surjective_pairing])
      (simp_all add: demo_keyed_def new_reader_def has_xts_fvek_def sector_bytes_def)
qed

text \<open>A fault range injected through one reader is seen by every clone of it, because
  clones share the volume: a sector-aligned read of the clone that overlaps the range fails
  and leaves the buffer alone.\<close>

lemma fault_range_reaches_clones:
  assumes "memory_ok h r" "clone_reader od ov opf oe h r = Some c"
    and "set_memory_fault_range h r start count = h'"
    and "raid r = None" "\<not> raw_http r" "0 < count" "start + count < 2 ^ 64"
    and "off mod sector_bytes r = 0" "n mod sector_bytes r = 0" "off + n < 2 ^ 64"
    and "off < (start + count) * sector_bytes r" "start * sector_bytes r < off + n" "0 < n"
  shows "\<exists>c'. read_sectors win h' c off n buf = Some (c', err_result ''injected memory fault range'', buf)"
proof -
  let ?ss = "sector_bytes r"
  obtain a where a: "mem_ref r = Some a" "memory_mode r" "a < length h"
    "length (vol_data (h ! a)) mod ?ss = 0" "length (vol_data (h ! a)) + 2 ^ 32 \<le> 2 ^ 64"
    using assms(1) by (auto simp: memory_ok_def split: option.splits)
  have c: "mem_ref c = Some a" "memory_mode c" "sector_bytes c = ?ss"
    using assms(2,4,5) a(1,2)
    by (auto simp: clone_reader_def copy_xts_fvek_from_def set_xts_decrypt_from_def set_xts_fvek_def
        clear_xts_fvek_def sector_bytes_def Let_def split: if_splits option.splits)
  have h': "h' = h[a := (h ! a)\<lparr>fault_start := start, fault_count := count\<rparr>]"
    using assms(3) a(1) by (simp add: set_memory_fault_range_def)
  have ok: "memory_ok h' c" using a c h' by (simp add: memory_ok_def)
  have vol: "memory_volume h' c = (h ! a)\<lparr>fault_start := start, fault_count := count\<rparr>"
    using a c h' by (simp add: memory_volume_def)
  obtain k m where km: "off = k * ?ss" "n = m * ?ss"
    using assms(8,9) by (metis mod_eq_0_iff_dvd dvd_def mult.commute)
  have "k \<le> k * ?ss" "m \<le> m * ?ss" by (simp_all add: Suc_leI)
  then have "k + m < 2 ^ 64" using assms(10) unfolding km by linarith
  moreover have "k < start + count" using assms(11) km by simp
  moreover have "start < k + m" using assms(12) km by (simp flip: add_mult_distrib)
  ultimately have "range_hit ?ss off n start count"
    using km assms(6,7,13) by (subst range_hit_iff) simp_all
  then show ?thesis
    using read_fault_hit [OF ok, of off n win buf] assms(8,9) c(3) vol by simp
qed

lemma fault_range_reaches_clones_witness:
  "\<exists>c'. read_sectors no_win (set_memory_fault_range demo_heap demo_reader 1 1)
       (the (clone_reader (\<lambda>_ _. None) (\<lambda>_ _. None) (\<lambda>_. Inl []) (\<lambda>_. Inl []) demo_heap demo_reader)) 0 8 (replicate 8 9)
     = Some (c', err_result ''injected memory fault range'', replicate 8 9)"
  by (rule fault_range_reaches_clones [OF demo_ok, of "\<lambda>_ _. None" "\<lambda>_ _. None" "\<lambda>_. Inl []" "\<lambda>_. Inl []" _ 1 1])
    (simp_all add: demo_reader_def new_reader_def clone_reader_def sector_bytes_def)

text \<open>Every read, whatever the source and whatever happens, keeps the bad-sector sample
  bounded by 4096 entries.\<close>

lemma read_keeps_telemetry_bounded:
  assumes "length (bad_list r) \<le> 4096" "read_sectors win h r off n buf = Some (r', res, buf')"
  shows "length (bad_list r') \<le> 4096"
proof -
  let ?r = "r\<lparr>sector_size := sector_bytes r\<rparr>"
  have ok: "telemetry_ok ?r"
    using assms(1) by (simp add: telemetry_ok_def k_max_bad_samples_def)
  consider "read_memory h ?r off n buf = Some (r', res, buf')"
    | b where "read_ewf b ?r off n buf = Some (r', res, buf')"
    | b where "read_raw b ?r off n buf = Some (r', res, buf')"
    | b where "read_raid b ?r off n buf = Some (r', res, buf')"
    | "read_physical win ?r off n buf = Some (r', res, buf')"
    using assms(2) unfolding read_sectors_def Let_def by (simp split: if_splits option.splits)
  then have "telemetry_ok r'"
    using ok by cases (blast intro: telemetry_memory telemetry_backends)+
  then show ?thesis by (simp add: telemetry_ok_def k_max_bad_samples_def)
qed

lemma demo_read_fails:
  "read_sectors no_win [(new_volume [])\<lparr>fault_start := 1, fault_count := 1\<rparr>] demo_reader 4 4 []
   = Some (note_bad_read demo_reader 4 4, err_result ''injected memory fault range'', [])"
  by (subst read_fault_hit)
    (simp_all add: demo_reader_def new_reader_def new_volume_def memory_ok_def
      memory_volume_def sector_bytes_def range_hit_def Let_def w64_def sub64_def)

lemma read_keeps_telemetry_bounded_witness:
  "length (bad_list (note_bad_read demo_reader 4 4)) \<le> 4096"
  by (rule read_keeps_telemetry_bounded [OF _ demo_read_fails]) (simp add: demo_reader_def new_reader_def)

text \<open>An unaligned read that crosses the end of a memory volume reports success with
  \<open>paddedZeros\<close> set, but only the bytes inside the volume are written: the rest of the
  caller's buffer keeps its old content, although the aligned path fills it with zeros.\<close>

lemma padded_read_leaves_stale_tail:
  assumes "memory_ok h r" "\<not> decrypting r" "memory_readable h r (win_start r off) (win_len r off n)"
    and "vol = vol_data (memory_volume h r)" "off < length vol" "length vol < off + n"
    and "win_skip r off \<noteq> 0" "n + 3 * sector_bytes r < 2 ^ 32" "n = length buf"
  shows "\<exists>r' res. read_bytes win h r off n buf = Some (r', res, drop off vol @ drop (length vol - off) buf)
    \<and> success res \<and> padded_zeros res \<and> bytes_read res = length vol - off"
proof -
  let ?start = "win_start r off" and ?skip = "win_skip r off" and ?al = "win_len r off n"
  let ?r = "r\<lparr>sector_size := sector_bytes r\<rparr>" and ?avail = "length vol - win_start r off"
  let ?scratch = "slice (win_start r off) ?avail vol @ replicate (?al - ?avail) 0"
  obtain a where a: "mem_ref r = Some a" "memory_mode r" "memory_volume h r = h ! a" "length vol + 2 ^ 32 \<le> 2 ^ 64"
    using assms(1,4) by (auto simp: memory_ok_def memory_volume_def split: option.splits)
  have w: "?start + ?skip = off" "?skip + n \<le> ?al" "?al + sector_bytes r < 2 ^ 32"
    using win_skip(1) win_len(1) win_len_fits [OF assms(8)] by simp_all
  then have past: "length vol < ?start + ?al" using assms(6) by linarith
  have small: "?al < 2 ^ 32" "?start < length vol" "?avail \<le> ?al"
    using w past assms(5) by simp_all
  have wrap: "w64 (?start + ?al) = ?start + ?al"
    using small a(4) by (intro w64_id) simp
  have "read_sectors win h r ?start ?al (replicate ?al 0)
      = Some (note_bad_read ?r ?start ?al, no_result\<lparr>success := True, bytes_read := ?avail, padded_zeros := True\<rparr>, ?scratch)"
    using a assms(3,4) wrap past small win_skip(3) [of r off] win_len(3) [of r off n]
    by (simp add: read_sectors_memory read_memory_def misaligned_def memory_readable_def Let_def splice_def)
  moreover have "?skip < ?avail" "min (?avail - ?skip) n = length vol - off"
    using w(1) assms(5,6) by simp_all
  moreover have "slice ?skip (length vol - off) ?scratch = drop off vol"
  proof -
    have "slice ?skip (length vol - off) ?scratch = slice ?skip (length vol - off) (slice ?start ?avail vol)"
      using w(1) small(2) assms(5) by (intro slice_append_left) simp
    also have "\<dots> = slice off (length vol - off) vol"
      using w(1) small(2) assms(5) by (subst slice_slice) simp_all
    finally show ?thesis by (simp add: slice_def)
  qed
  ultimately show ?thesis
    using read_bytes_unaligned [of r off n "read_sectors win h" buf] assms(7) small(1)
    by (simp add: read_bytes_def splice_def)
qed

lemma padded_read_leaves_stale_tail_witness:
  "\<exists>r' res. read_bytes no_win [new_volume [1, 2, 3, 4, 5, 6, 7, 8]] demo_reader 6 4 [9, 9, 9, 9]
     = Some (r', res, [7, 8, 9, 9]) \<and> success res \<and> padded_zeros res \<and> bytes_read res = 2"
proof -
  let ?vol = "[1, 2, 3, 4, 5, 6, 7, 8] :: buf"
  have tail: "drop 6 ?vol @ drop (length ?vol - 6) [9, 9, 9, 9] = [7, 8, 9, 9]" "length ?vol - 6 = 2"
    by simp_all
  show ?thesis
    unfolding tail [symmetric]
    by (rule padded_read_leaves_stale_tail)
      (simp_all add: memory_ok_def demo_reader_def new_reader_def new_volume_def sector_bytes_def decrypting_def
        has_xts_fvek_def memory_readable_def range_hit_def memory_volume_def win_skip_def win_start_def)
qed

text \<open>A sector-aligned read that crosses the end of a memory volume returns the stored
  bytes as they are: the sectors inside the volume are not decrypted even when a volume key
  is set, and the result still reports success.\<close>

lemma padded_read_is_not_decrypted:
  assumes "memory_ok h r" "memory_readable h r off n" "vol = vol_data (memory_volume h r)"
    and "off mod sector_bytes r = 0" "n mod sector_bytes r = 0" "off < length vol" "length vol < off + n"
    and "n < 2 ^ 32" "n = length buf"
  shows "\<exists>r' res. read_sectors win h r off n buf
      = Some (r', res, drop off vol @ replicate (off + n - length vol) 0)
    \<and> success res \<and> padded_zeros res \<and> bytes_read res = length vol - off"
proof -
  obtain a where a: "mem_ref r = Some a" "memory_mode r" "memory_volume h r = h ! a" "length vol + 2 ^ 32 \<le> 2 ^ 64"
    using assms(1,3) by (auto simp: memory_ok_def memory_volume_def split: option.splits)
  have "w64 (off + n) = off + n" using a(4) assms(6,8) by (intro w64_id) simp
  moreover have "slice off (length vol - off) vol = drop off vol" "min n (length vol - off) = length vol - off"
    "n - (length vol - off) = off + n - length vol"
    using assms(6,7) by (simp_all add: slice_def)
  ultimately show ?thesis
    using a assms by (simp add: read_sectors_memory read_memory_def misaligned_def memory_readable_def Let_def
      splice_def no_result_def)
qed

lemma padded_read_is_not_decrypted_witness:
  "\<exists>r' res. read_sectors no_win [new_volume (replicate 16 3)] (demo_keyed\<lparr>memory_mode := True, mem_ref := Some 0\<rparr>)
       0 32 (replicate 32 9)
     = Some (r', res, replicate 16 3 @ replicate 16 0) \<and> success res \<and> padded_zeros res \<and> bytes_read res = 16"
proof -
  let ?r = "demo_keyed\<lparr>memory_mode := True, mem_ref := Some 0\<rparr>"
  have tail: "drop 0 (replicate 16 3) @ replicate (0 + 32 - length (replicate 16 (3 :: byte))) 0
      = replicate 16 (3 :: byte) @ replicate 16 0"
    by simp
  have avail: "length (replicate 16 (3 :: byte)) - 0 = 16" by simp
  have "\<exists>r' res. read_sectors no_win [new_volume (replicate 16 3)] ?r 0 32 (replicate 32 9)
      = Some (r', res, drop 0 (replicate 16 3) @ replicate (0 + 32 - length (replicate 16 (3 :: byte))) 0)
    \<and> success res \<and> padded_zeros res \<and> bytes_read res = length (replicate 16 (3 :: byte)) - 0"
    by (rule padded_read_is_not_decrypted)
      (simp_all add: memory_ok_def demo_keyed_def new_reader_def new_volume_def sector_bytes_def
        memory_readable_def range_hit_def memory_volume_def)
  then show ?thesis
    by (simp only: tail avail)
qed

end
