(* ===== verification/Virtual_Raid.thy ===== *)
theory Virtual_Raid
  imports Prelude Raid_Layout Gf256 Disk_IO
begin

text \<open>
  The software RAID reader (fs/virtual\_raid.cpp, include/fs/virtual\_raid.h).  An array is
  a record of its geometry, its member readers and the flags of the disks marked failed;
  it reads every member through the \<open>readSectors\<close> of Disk\_IO, which is the argument
  \<open>rd\<close> of the operations.  Exceptions are values of \<open>raid_error\<close>;
  \<open>Undefined\<close> marks a division by zero or an access outside a buffer.  The telemetry the
  members collect during a read is not threaded through: \<open>read\<close> is a const operation
  and no result of a read depends on it.
\<close>

datatype raid_error =
    InvalidArgument string
  | RuntimeError string
  | OutOfRange string
  | Undefined

definition and_then :: "'e + 'a \<Rightarrow> ('a \<Rightarrow> 'e + 'b) \<Rightarrow> 'e + 'b" where
  "and_then x f = (case x of Inl e \<Rightarrow> Inl e | Inr a \<Rightarrow> f a)"

lemma and_then_simps [simp]: "and_then (Inl e) f = Inl e" "and_then (Inr a) f = f a"
  by (simp_all add: and_then_def)

lemma and_then_Inr_iff: "and_then x f = Inr b \<longleftrightarrow> (\<exists>a. x = Inr a \<and> f a = Inr b)"
  by (cases x) simp_all

datatype raid_level = RAID0 | RAID1 | RAID5 | RAID6 | RAID10 | JBOD | RAID1E

definition is_raid_stripe_size :: "nat \<Rightarrow> bool" where
  "is_raid_stripe_size n \<longleftrightarrow> 512 \<le> n \<and> n \<le> 1024 * 1024
     \<and> (word_of_nat n :: u64) AND (word_of_nat n - 1) = 0"

record vraid =
  level :: raid_level
  vdisk_size :: nat
  block_size :: nat
  data_offset :: nat
  member_offsets :: "nat list"
  member_lengths :: "nat list"
  algorithm :: raid5_algorithm
  members :: "reader list"
  active :: "bool list"

type_synonym sector_reader = "reader \<Rightarrow> nat \<Rightarrow> nat \<Rightarrow> buf \<Rightarrow> read_outcome"

definition num_disks :: "vraid \<Rightarrow> nat" where
  "num_disks v = length (members v)"

section \<open>Construction\<close>

fun smallest_member :: "reader list \<Rightarrow> nat \<Rightarrow> raid_error + nat" where
  "smallest_member [] acc = Inr acc"
| "smallest_member (r # rs) acc =
     (if \<not> is_open r then Inl (RuntimeError ''RAID member reader is not open.'')
      else if get_disk_size r = 0 then Inl (RuntimeError ''RAID member disk has zero size.'')
      else smallest_member rs (if acc = 0 then get_disk_size r else min acc (get_disk_size r)))"

fun check_extents :: "reader list \<Rightarrow> nat list \<Rightarrow> nat list \<Rightarrow> raid_error option" where
  "check_extents (r # rs) (off # offs) lens =
     (if get_disk_size r \<le> off then Some (InvalidArgument ''RAID data offset exceeds member size.'')
      else if lens \<noteq> [] \<and> hd lens > 0 \<and> w64 (off + hd lens) > get_disk_size r
      then Some (InvalidArgument ''RAID member extent exceeds member size.'')
      else check_extents rs offs (tl lens))"
| "check_extents _ _ _ = None"

definition init_from_members :: "vraid \<Rightarrow> reader list \<Rightarrow> raid_error + vraid" where
  "init_from_members v0 ms =
     and_then (smallest_member ms 0) (\<lambda>sz.
       let v = v0\<lparr>members := ms, active := replicate (length ms) True, vdisk_size := sz\<rparr>;
           n = length ms
       in if member_offsets v \<noteq> [] \<and> length (member_offsets v) \<noteq> n
          then Inl (InvalidArgument ''RAID member data offsets must match disk count.'')
          else if member_lengths v \<noteq> [] \<and> length (member_lengths v) \<noteq> n
          then Inl (InvalidArgument ''RAID member data lengths must match disk count.'')
          else case (if length (member_offsets v) = n
                     then check_extents ms (member_offsets v) (member_lengths v)
                     else if sz \<le> data_offset v
                     then Some (InvalidArgument ''RAID data offset exceeds member size.'') else None) of
            Some e \<Rightarrow> Inl e
          | None \<Rightarrow>
              if block_size v = 0 \<and> level v \<noteq> RAID1 \<and> level v \<noteq> JBOD
              then Inl (InvalidArgument ''RAID stripe size required'')
              else Inr v)"

definition blank_raid :: "raid_level \<Rightarrow> nat \<Rightarrow> nat \<Rightarrow> raid5_algorithm \<Rightarrow> nat list \<Rightarrow> nat list \<Rightarrow> vraid" where
  "blank_raid lv bs off algo offs lens =
     \<lparr>level = lv, vdisk_size = 0, block_size = bs, data_offset = off, member_offsets = offs,
      member_lengths = lens, algorithm = algo, members = [], active = []\<rparr>"

definition raid_of_members ::
  "raid_level \<Rightarrow> reader list \<Rightarrow> nat \<Rightarrow> nat \<Rightarrow> raid5_algorithm \<Rightarrow> nat list \<Rightarrow> nat list \<Rightarrow> raid_error + vraid" where
  "raid_of_members lv ms bs off algo offs lens =
     (if length ms < 2 then Inl (InvalidArgument ''RAID requires at least 2 disks.'')
      else init_from_members (blank_raid lv bs off algo offs lens) ms)"

definition level_minimum :: "raid_level \<Rightarrow> nat \<Rightarrow> raid_error option" where
  "level_minimum lv n =
     (if lv = RAID5 \<and> n < 3 then Some (InvalidArgument ''RAID 5 requires at least 3 disks.'')
      else if lv = RAID6 \<and> n < 4 then Some (InvalidArgument ''RAID 6 requires at least 4 disks.'')
      else if lv = RAID10 \<and> n mod 2 \<noteq> 0 then Some (InvalidArgument ''RAID 10 requires an even number of disks.'')
      else if lv = RAID1E \<and> n < 3 then Some (InvalidArgument ''RAID 1E requires at least 3 disks.'')
      else None)"

fun open_all :: "raid_error \<Rightarrow> (int \<Rightarrow> reader option) \<Rightarrow> int list \<Rightarrow> raid_error + reader list" where
  "open_all e open_drive [] = Inr []"
| "open_all e open_drive (i # is) =
     (case open_drive i of
        None \<Rightarrow> Inl e
      | Some r \<Rightarrow> and_then (open_all e open_drive is) (\<lambda>rs. Inr (r # rs)))"

definition raid_of_drives ::
  "(int \<Rightarrow> reader option) \<Rightarrow> raid_level \<Rightarrow> int list \<Rightarrow> nat \<Rightarrow> nat \<Rightarrow> raid5_algorithm \<Rightarrow> raid_error + vraid" where
  "raid_of_drives open_drive lv idxs bs off algo =
     (if length idxs < 2 then Inl (InvalidArgument ''RAID requires at least 2 disks.'')
      else case level_minimum lv (length idxs) of
        Some e \<Rightarrow> Inl e
      | None \<Rightarrow>
          and_then (open_all (RuntimeError ''Failed to open physical drive for RAID.'') open_drive idxs)
            (init_from_members (blank_raid lv bs off algo [] [])))"

fun attach_images :: "heap \<Rightarrow> buf list \<Rightarrow> heap \<times> reader list" where
  "attach_images h [] = (h, [])"
| "attach_images h (img # imgs) =
     (let (h1, r) = attach_memory_volume h new_reader img 512; (h2, rs) = attach_images h1 imgs
      in (h2, r # rs))"

definition raid_of_images ::
  "heap \<Rightarrow> raid_level \<Rightarrow> buf list \<Rightarrow> nat \<Rightarrow> nat \<Rightarrow> raid5_algorithm \<Rightarrow> heap \<times> (raid_error + vraid)" where
  "raid_of_images h lv imgs bs off algo =
     (let (h', ms) = attach_images h imgs in (h', raid_of_members lv ms bs off algo [] []))"

definition lower_ascii :: "char \<Rightarrow> char" where
  "lower_ascii c = (if 65 \<le> (of_char c :: nat) \<and> (of_char c :: nat) \<le> 90 then char_of ((of_char c :: nat) + 32) else c)"

definition starts_no_case :: "string \<Rightarrow> string \<Rightarrow> bool" where
  "starts_no_case s pre \<longleftrightarrow> map lower_ascii (take (length pre) s) = pre"

definition is_evidence_image_path :: "string \<Rightarrow> bool" where
  "is_evidence_image_path p \<longleftrightarrow>
     p \<noteq> [] \<and> take 4 p \<noteq> [CHR 92, CHR 92, CHR ''.'', CHR 92]
     \<and> \<not> starts_no_case p ''http://'' \<and> \<not> starts_no_case p ''https://''
     \<and> take 5 p \<noteq> ''/dev/''"

fun open_evidence :: "(string \<Rightarrow> string + reader) \<Rightarrow> string list \<Rightarrow> raid_error + reader list" where
  "open_evidence attach [] = Inr []"
| "open_evidence attach (p # ps) =
     (if \<not> is_evidence_image_path p then Inl (InvalidArgument ''invalid RAID member image path'')
      else case attach p of
        Inl err \<Rightarrow> Inl (RuntimeError (if err = [] then ''Failed to open RAID member image'' else err))
      | Inr r \<Rightarrow> and_then (open_evidence attach ps) (\<lambda>rs. Inr (r # rs)))"

definition raid_of_evidence ::
  "(string \<Rightarrow> string + reader) \<Rightarrow> raid_level \<Rightarrow> string list \<Rightarrow> nat \<Rightarrow> nat \<Rightarrow> raid5_algorithm \<Rightarrow> raid_error + vraid" where
  "raid_of_evidence attach lv paths bs off algo =
     (if length paths < 2 \<or> 16 < length paths then Inl (InvalidArgument ''RAID requires 2..16 member images.'')
      else case level_minimum lv (length paths) of
        Some e \<Rightarrow> Inl e
      | None \<Rightarrow> and_then (open_evidence attach paths) (\<lambda>ms. raid_of_members lv ms bs off algo [] []))"

section \<open>Geometry\<close>

definition member_base :: "vraid \<Rightarrow> nat \<Rightarrow> nat" where
  "member_base v i =
     (if length (member_offsets v) = num_disks v \<and> i < num_disks v then member_offsets v ! i
      else data_offset v)"

definition member_payload_bytes :: "vraid \<Rightarrow> nat" where
  "member_payload_bytes v =
     (if length (member_offsets v) = num_disks v
      then let payload = foldl min u64_max
                 (map2 (\<lambda>r off. get_disk_size r - off) (members v) (member_offsets v))
           in if payload = u64_max then 0 else payload
      else vdisk_size v - data_offset v)"

definition member_extent_bytes :: "vraid \<Rightarrow> nat \<Rightarrow> nat" where
  "member_extent_bytes v i =
     (if num_disks v \<le> i then 0
      else let n = get_disk_size (members v ! i) - member_base v i
           in if i < length (member_lengths v) \<and> member_lengths v ! i > 0
              then min n (member_lengths v ! i) else n)"

definition capacity :: "vraid \<Rightarrow> nat" where
  "capacity v =
     (if level v = JBOD
      then foldl (\<lambda>cap i. w64 (cap + member_extent_bytes v i)) 0 [0..<num_disks v]
      else let payload = member_payload_bytes v in
      if level v = RAID1 then payload
      else if block_size v = 0 then 0
      else let usable = payload div block_size v * block_size v; n = num_disks v in
      case level v of
        RAID0 \<Rightarrow> w64 (usable * n)
      | RAID1 \<Rightarrow> payload
      | RAID5 \<Rightarrow> w64 (usable * (n - 1))
      | RAID6 \<Rightarrow> w64 (usable * (n - 2))
      | RAID10 \<Rightarrow> w64 (usable * (n div 2))
      | JBOD \<Rightarrow> 0
      | RAID1E \<Rightarrow> w64 (usable * n) div 2)"

section \<open>Reading one member\<close>

text \<open>
  \<open>readMemberAligned\<close>: \<open>Inr None\<close> is the result false.  What the code leaves in the
  output buffer then is never used: every caller throws or overwrites it.
\<close>

definition read_member_aligned :: "sector_reader \<Rightarrow> vraid \<Rightarrow> nat \<Rightarrow> nat \<Rightarrow> nat \<Rightarrow> raid_error + buf option" where
  "read_member_aligned rd v i off len =
     (if num_disks v \<le> i \<or> \<not> is_open (members v ! i) then Inr None
      else if data_offset v > u64_max - off then Inr None
      else let base = member_base v i in
      if base > u64_max - off then Inr None
      else let o1 = off + base;
               m = members v ! i;
               ss = sector_bytes m;
               start = o1 div ss * ss;
               stop = w64 (w64 (w64 (o1 + len) + ss - 1) div ss * ss);
               n = w32 (sub64 stop start)
      in case rd m start n (replicate n 0) of
           None \<Rightarrow> Inl Undefined
         | Some (_, res, scratch) \<Rightarrow>
             if \<not> success res \<or> bytes_read res < w64 (len + (o1 - start)) then Inr None
             else if (o1 - start) + len \<le> length scratch
             then Inr (Some (slice (o1 - start) len scratch))
             else Inl Undefined)"

text \<open>The pair of tests \<open>disk_active_[i] && readMemberAligned(i, ...)\<close>.\<close>

definition read_active :: "sector_reader \<Rightarrow> vraid \<Rightarrow> nat \<Rightarrow> nat \<Rightarrow> nat \<Rightarrow> raid_error + buf option" where
  "read_active rd v i off len =
     (if length (active v) \<le> i then Inl Undefined
      else if active v ! i then read_member_aligned rd v i off len else Inr None)"

section \<open>The striped levels\<close>

text \<open>
  The striped levels share one loop over the blocks that the request touches; \<open>chunk\<close>
  reads the part of one block.  A block size of zero is a division by zero.
\<close>

function stripe_loop :: "nat \<Rightarrow> (nat \<Rightarrow> nat \<Rightarrow> raid_error + buf) \<Rightarrow> nat \<Rightarrow> nat \<Rightarrow> raid_error + buf" where
  "stripe_loop bs chunk off len =
     (if len = 0 then Inr []
      else if bs = 0 then Inl Undefined
      else let n = min len (bs - off mod bs) in
           case chunk off n of
             Inl e \<Rightarrow> Inl e
           | Inr b \<Rightarrow> (case stripe_loop bs chunk (off + n) (len - n) of
                        Inl e \<Rightarrow> Inl e
                      | Inr rest \<Rightarrow> Inr (b @ rest)))"
  by pat_completeness auto
termination
  by (relation "measure (\<lambda>(bs, chunk, off, len). len)") auto

declare stripe_loop.simps [simp del]

definition raid0_chunk :: "sector_reader \<Rightarrow> vraid \<Rightarrow> nat \<Rightarrow> nat \<Rightarrow> raid_error + buf" where
  "raid0_chunk rd v off len =
     (let bs = block_size v;
          index = off div bs;
          disk = index mod num_disks v;
          disk_off = index div num_disks v * bs + off mod bs
      in if disk_off + len > member_payload_bytes v
         then Inl (OutOfRange ''Read exceeds RAID capacity'')
         else case read_active rd v disk disk_off len of
           Inl e \<Rightarrow> Inl e
         | Inr None \<Rightarrow> Inl (RuntimeError ''RAID 0 read failed: member unreadable'')
         | Inr (Some b) \<Rightarrow> Inr b)"

fun first_mirror :: "sector_reader \<Rightarrow> vraid \<Rightarrow> nat list \<Rightarrow> nat \<Rightarrow> nat \<Rightarrow> raid_error + buf" where
  "first_mirror rd v [] off len = Inl (RuntimeError ''No readable mirror available in RAID 1'')"
| "first_mirror rd v (i # is) off len =
     (case read_active rd v i off len of
        Inl e \<Rightarrow> Inl e
      | Inr (Some b) \<Rightarrow> Inr b
      | Inr None \<Rightarrow> first_mirror rd v is off len)"

definition read_raid1 :: "sector_reader \<Rightarrow> vraid \<Rightarrow> nat \<Rightarrow> nat \<Rightarrow> raid_error + buf" where
  "read_raid1 rd v off len =
     (let payload = member_payload_bytes v in
      if off > payload \<or> len > payload - off then Inl (OutOfRange ''Read exceeds RAID capacity'')
      else first_mirror rd v [0..<num_disks v] off len)"

text \<open>The exclusive or of whole blocks of a list of members; a member that cannot be read is \<open>err\<close>.\<close>

fun xor_members :: "sector_reader \<Rightarrow> vraid \<Rightarrow> raid_error \<Rightarrow> nat \<Rightarrow> (nat \<Rightarrow> buf \<Rightarrow> buf) \<Rightarrow> nat list \<Rightarrow> buf \<Rightarrow> raid_error + buf" where
  "xor_members rd v err base scale [] acc = Inr acc"
| "xor_members rd v err base scale (i # is) acc =
     (case read_active rd v i base (block_size v) of
        Inl e \<Rightarrow> Inl e
      | Inr None \<Rightarrow> Inl err
      | Inr (Some t) \<Rightarrow> xor_members rd v err base scale is (xor_bytes acc (scale i t)))"

definition raid5_chunk :: "sector_reader \<Rightarrow> vraid \<Rightarrow> nat \<Rightarrow> nat \<Rightarrow> raid_error + buf" where
  "raid5_chunk rd v off len =
     (let bs = block_size v; n = num_disks v;
          index = off div bs; in_block = off mod bs in
      if n - 1 = 0 then Inl Undefined
      else let stripe = index div (n - 1); block = index mod (n - 1);
          data = raid5_data_disk stripe block n (algorithm v)
      in case read_active rd v data (stripe * bs + in_block) len of
           Inl e \<Rightarrow> Inl e
         | Inr (Some b) \<Rightarrow> Inr b
         | Inr None \<Rightarrow>
             and_then (xor_members rd v (RuntimeError ''RAID 5 read failed: multiple disks unreadable'')
                         (stripe * bs) (\<lambda>_ t. t) (filter (\<lambda>i. i \<noteq> data) [0..<n]) (replicate bs 0))
               (\<lambda>acc. Inr (slice in_block len acc)))"

text \<open>\<open>slotOf\<close>: the number of data disks before \<open>disk\<close>, or -1.\<close>

fun slot_walk :: "nat \<Rightarrow> nat \<Rightarrow> nat \<Rightarrow> nat list \<Rightarrow> int \<Rightarrow> int" where
  "slot_walk p q disk [] slot = -1"
| "slot_walk p q disk (i # is) slot =
     (if i = p \<or> i = q then slot_walk p q disk is slot
      else if i = disk then slot else slot_walk p q disk is (slot + 1))"

definition slot_of :: "nat \<Rightarrow> nat \<Rightarrow> nat \<Rightarrow> nat \<Rightarrow> int" where
  "slot_of n p q disk = slot_walk p q disk [0..<n] 0"

definition scale_buf :: "byte \<Rightarrow> buf \<Rightarrow> buf" where
  "scale_buf g t = map (\<lambda>x. gf_mul x g) t"

fun div_buf :: "byte \<Rightarrow> buf \<Rightarrow> raid_error + buf" where
  "div_buf g [] = Inr []"
| "div_buf g (x # xs) =
     (case gf_div x g of
        Inl e \<Rightarrow> Inl (InvalidArgument e)
      | Inr y \<Rightarrow> and_then (div_buf g xs) (\<lambda>ys. Inr (y # ys)))"

definition raid6_during :: raid_error where
  "raid6_during = RuntimeError ''RAID 6 read failed: member unreadable during reconstruction''"

definition raid6_one_lost :: "sector_reader \<Rightarrow> vraid \<Rightarrow> nat \<Rightarrow> nat \<Rightarrow> nat \<Rightarrow> nat \<Rightarrow> raid_error + buf" where
  "raid6_one_lost rd v p q lost base =
     (let n = num_disks v; bs = block_size v;
          others = filter (\<lambda>i. i \<noteq> p \<and> i \<noteq> q \<and> i \<noteq> lost \<and> active v ! i) [0..<n]
      in case read_active rd v p base bs of
           Inl e \<Rightarrow> Inl e
         | Inr (Some acc) \<Rightarrow> xor_members rd v raid6_during base (\<lambda>_ t. t) others acc
         | Inr None \<Rightarrow>
             (case read_active rd v q base bs of
                Inl e \<Rightarrow> Inl e
              | Inr None \<Rightarrow> Inl (RuntimeError ''RAID 6: data block and both parities failed'')
              | Inr (Some acc) \<Rightarrow>
                  and_then (xor_members rd v raid6_during base
                              (\<lambda>i t. scale_buf (gf_pow (slot_of n p q i)) t) others acc)
                    (div_buf (gf_pow (slot_of n p q lost)))))"

definition raid6_solve :: "byte \<Rightarrow> byte \<Rightarrow> buf \<Rightarrow> buf \<Rightarrow> raid_error + buf \<times> buf" where
  "raid6_solve gi gj pacc qacc =
     (let denom = gi XOR gj in
      if denom = 0 then Inl (RuntimeError ''RAID 6: degenerate GF system'')
      else and_then (div_buf denom (map2 (\<lambda>x y. gf_mul gj x XOR y) pacc qacc))
             (\<lambda>xi. Inr (xi, xor_bytes pacc xi)))"

definition raid6_two_lost :: "sector_reader \<Rightarrow> vraid \<Rightarrow> nat \<Rightarrow> nat \<Rightarrow> nat \<Rightarrow> nat \<Rightarrow> nat \<Rightarrow> nat \<Rightarrow> raid_error + buf" where
  "raid6_two_lost rd v p q lost1 lost2 wanted base =
     (let n = num_disks v; bs = block_size v;
          healthy = filter (\<lambda>i. i \<noteq> p \<and> i \<noteq> q \<and> active v ! i) [0..<n]
      in if \<not> active v ! p \<or> \<not> active v ! q
         then Inl (RuntimeError ''RAID 6: too many failures (P or Q also lost)'')
         else case read_active rd v p base bs of
           Inl e \<Rightarrow> Inl e
         | Inr None \<Rightarrow> Inl (RuntimeError ''RAID 6 read failed: parity unreadable during reconstruction'')
         | Inr (Some p0) \<Rightarrow>
             (case read_active rd v q base bs of
                Inl e \<Rightarrow> Inl e
              | Inr None \<Rightarrow> Inl (RuntimeError ''RAID 6 read failed: parity unreadable during reconstruction'')
              | Inr (Some q0) \<Rightarrow>
                  and_then (xor_members rd v raid6_during base (\<lambda>_ t. t) healthy p0) (\<lambda>pacc.
                  and_then (xor_members rd v raid6_during base
                              (\<lambda>i t. scale_buf (gf_pow (slot_of n p q i)) t) healthy q0) (\<lambda>qacc.
                  and_then (raid6_solve (gf_pow (slot_of n p q lost1)) (gf_pow (slot_of n p q lost2)) pacc qacc)
                    (\<lambda>(xi, xj). Inr (if lost1 = wanted then xi else xj))))))"

definition raid6_chunk :: "sector_reader \<Rightarrow> vraid \<Rightarrow> nat \<Rightarrow> nat \<Rightarrow> raid_error + buf" where
  "raid6_chunk rd v off len =
     (let bs = block_size v; n = num_disks v;
          index = off div bs; in_block = off mod bs in
      if n - 2 = 0 then Inl Undefined
      else let stripe = index div (n - 2); block = index mod (n - 2);
          pq = raid6_disks stripe n; p = pDisk pq; q = qDisk pq;
          data = raid6_data_disk stripe block n;
          base = stripe * bs
      in case read_active rd v data (base + in_block) len of
           Inl e \<Rightarrow> Inl e
         | Inr (Some b) \<Rightarrow> Inr b
         | Inr None \<Rightarrow>
             (let failed = filter (\<lambda>i. i \<noteq> p \<and> i \<noteq> q \<and> (\<not> active v ! i \<or> i = data)) [0..<n]
              in and_then
                   (case failed of
                      [a] \<Rightarrow> raid6_one_lost rd v p q a base
                    | [a, b] \<Rightarrow> raid6_two_lost rd v p q a b data base
                    | _ \<Rightarrow> Inl (RuntimeError ''RAID 6 read failed: >2 data disks failed''))
                   (\<lambda>acc. Inr (slice in_block len acc))))"

definition raid10_chunk :: "sector_reader \<Rightarrow> vraid \<Rightarrow> nat \<Rightarrow> nat \<Rightarrow> raid_error + buf" where
  "raid10_chunk rd v off len =
     (let bs = block_size v; n = num_disks v;
          index = off div bs; pairs = n div 2 in
      if pairs = 0 then Inl Undefined
      else let disk_off = index div pairs * bs + off mod bs
      in case read_active rd v (raid10_member_a index n) disk_off len of
           Inl e \<Rightarrow> Inl e
         | Inr (Some b) \<Rightarrow> Inr b
         | Inr None \<Rightarrow>
             (case read_active rd v (raid10_member_b index n) disk_off len of
                Inl e \<Rightarrow> Inl e
              | Inr (Some b) \<Rightarrow> Inr b
              | Inr None \<Rightarrow> Inl (RuntimeError ''RAID 10 read failed: both members of a mirror pair failed'')))"

fun raid1e_try :: "sector_reader \<Rightarrow> vraid \<Rightarrow> nat \<Rightarrow> nat \<Rightarrow> nat \<Rightarrow> nat list \<Rightarrow> raid_error + buf" where
  "raid1e_try rd v index in_block len [] = Inl (RuntimeError ''RAID 1E read failed: both copies unreadable'')"
| "raid1e_try rd v index in_block len (c # cs) =
     (let loc = raid1e_copy index c (num_disks v) in
      if num_disks v \<le> loc_disk loc then raid1e_try rd v index in_block len cs
      else case read_active rd v (loc_disk loc) (loc_row loc * block_size v + in_block) len of
             Inl e \<Rightarrow> Inl e
           | Inr (Some b) \<Rightarrow> Inr b
           | Inr None \<Rightarrow> raid1e_try rd v index in_block len cs)"

definition raid1e_chunk :: "sector_reader \<Rightarrow> vraid \<Rightarrow> nat \<Rightarrow> nat \<Rightarrow> raid_error + buf" where
  "raid1e_chunk rd v off len =
     raid1e_try rd v (off div block_size v) (off mod block_size v) len [0, 1]"

fun jbod_loop :: "sector_reader \<Rightarrow> vraid \<Rightarrow> nat list \<Rightarrow> nat \<Rightarrow> nat \<Rightarrow> raid_error + buf" where
  "jbod_loop rd v [] pos len = (if len = 0 then Inr [] else Inl (OutOfRange ''Read exceeds RAID capacity''))"
| "jbod_loop rd v (i # is) pos len =
     (if len = 0 then Inr []
      else let plen = member_extent_bytes v i in
      if plen \<le> pos then jbod_loop rd v is (pos - plen) len
      else let n = min len (plen - pos) in
      case read_active rd v i pos n of
        Inl e \<Rightarrow> Inl e
      | Inr None \<Rightarrow> Inl (RuntimeError ''JBOD read failed: member unreadable'')
      | Inr (Some b) \<Rightarrow> and_then (jbod_loop rd v is 0 (len - n)) (\<lambda>rest. Inr (b @ rest)))"

section \<open>The array's operations\<close>

definition raid_read_bytes :: "sector_reader \<Rightarrow> vraid \<Rightarrow> nat \<Rightarrow> nat \<Rightarrow> raid_error + buf" where
  "raid_read_bytes rd v off len =
     (if len = 0 then Inr []
      else let cap = capacity v in
      if off > cap \<or> len > cap - off then Inl (OutOfRange ''Read exceeds RAID capacity'')
      else case level v of
        RAID0 \<Rightarrow> stripe_loop (block_size v) (raid0_chunk rd v) off len
      | RAID1 \<Rightarrow> read_raid1 rd v off len
      | RAID5 \<Rightarrow> stripe_loop (block_size v) (raid5_chunk rd v) off len
      | RAID6 \<Rightarrow> stripe_loop (block_size v) (raid6_chunk rd v) off len
      | RAID10 \<Rightarrow> stripe_loop (block_size v) (raid10_chunk rd v) off len
      | JBOD \<Rightarrow> jbod_loop rd v [0..<num_disks v] off len
      | RAID1E \<Rightarrow> stripe_loop (block_size v) (raid1e_chunk rd v) off len)"

definition raid_write :: "vraid \<Rightarrow> nat \<Rightarrow> buf \<Rightarrow> raid_error + vraid" where
  "raid_write v off data =
     Inl (RuntimeError ''Write unsupported on physical RAID mode (forensic read-only).'')"

definition fail_disk :: "vraid \<Rightarrow> nat \<Rightarrow> raid_error + vraid" where
  "fail_disk v i =
     (if num_disks v \<le> i then Inl (OutOfRange ''Invalid disk index'')
      else Inr (v\<lparr>active := (active v)[i := False]\<rparr>))"

definition is_disk_active :: "vraid \<Rightarrow> nat \<Rightarrow> bool" where
  "is_disk_active v i \<longleftrightarrow> i < length (active v) \<and> active v ! i"

definition reconstruct_disk :: "vraid \<Rightarrow> nat \<Rightarrow> raid_error + vraid" where
  "reconstruct_disk v i =
     (if num_disks v \<le> i then Inl (OutOfRange ''Invalid disk index'')
      else if active v ! i then Inr v
      else Inl (RuntimeError ''In-place reconstruction disabled (forensic read-only mode); redundancy is applied on read''))"

text \<open>The array as the RAID back end of a disk reader: \<open>e.what()\<close> is the message.\<close>

definition error_text :: "raid_error \<Rightarrow> string" where
  "error_text e = (case e of InvalidArgument s \<Rightarrow> s | RuntimeError s \<Rightarrow> s | OutOfRange s \<Rightarrow> s | Undefined \<Rightarrow> [])"

definition raid_as_backend :: "sector_reader \<Rightarrow> vraid \<Rightarrow> raid_backend" where
  "raid_as_backend rd v = \<lparr>raid_capacity = capacity v,
     raid_read = (\<lambda>off len. case raid_read_bytes rd v off len of Inl e \<Rightarrow> Inl (error_text e) | Inr b \<Rightarrow> Inr b)\<rparr>"

section \<open>The resume key\<close>

definition int_string :: "int \<Rightarrow> string" where
  "int_string k = (if k < 0 then CHR ''-'' # dec_string (nat (- k)) else dec_string (nat k))"

definition level_number :: "raid_level \<Rightarrow> nat" where
  "level_number lv = (case lv of RAID0 \<Rightarrow> 0 | RAID1 \<Rightarrow> 1 | RAID5 \<Rightarrow> 2 | RAID6 \<Rightarrow> 3 | RAID10 \<Rightarrow> 4 | JBOD \<Rightarrow> 5 | RAID1E \<Rightarrow> 6)"

definition algorithm_number :: "raid5_algorithm \<Rightarrow> nat" where
  "algorithm_number a = (case a of LeftAsymmetric \<Rightarrow> 0 | LeftSymmetric \<Rightarrow> 1 | RightAsymmetric \<Rightarrow> 2 | RightSymmetric \<Rightarrow> 3)"

definition member_head :: "sector_reader \<Rightarrow> reader \<Rightarrow> buf" where
  "member_head rd r =
     (if is_open r
      then case read_bytes_via rd r 0 16 (replicate 16 0) of None \<Rightarrow> replicate 16 0 | Some (_, _, head) \<Rightarrow> head
      else replicate 16 0)"

definition resume_key :: "sector_reader \<Rightarrow> vraid \<Rightarrow> string" where
  "resume_key rd v =
     ''raid:lv='' @ dec_string (level_number (level v))
     @ '':n='' @ dec_string (num_disks v)
     @ '':st='' @ dec_string (block_size v)
     @ '':off='' @ dec_string (data_offset v)
     @ '':a='' @ dec_string (algorithm_number (algorithm v))
     @ '':sz='' @ dec_string (capacity v)
     @ '':f='' @ map (\<lambda>b. if b then CHR ''1'' else CHR ''0'') (active v)
     @ concat (map (\<lambda>r. '':m'' @ int_string (drive_index r) @ ''h'' @ concat (map hex_byte (member_head rd r)))
         (members v))"

end
