(* ===== verification/Raid_Recovery.thy ===== *)
theory Raid_Recovery
  imports Virtual_Raid
begin

text \<open>
  What a read of the software RAID returns.  \<open>array_ok\<close> and the predicates
  \<open>raid5_array\<close>, \<open>raid6_array\<close>, \<open>striped_array\<close>, \<open>raid1e_array\<close>
  say what the members hold for a logical volume; the lemmas, proved once for every
  sector source, say that a read returns the requested slice of that volume or fails, and
  which failures it survives.  The properties instantiate them with in-memory members.
\<close>

section \<open>The loop over blocks\<close>

lemma stripe_loop_step:
  "0 < len \<Longrightarrow> 0 < bs \<Longrightarrow> stripe_loop bs chunk off len =
     (let n = min len (bs - off mod bs) in
        case chunk off n of
          Inl e \<Rightarrow> Inl e
        | Inr b \<Rightarrow> (case stripe_loop bs chunk (off + n) (len - n) of
                     Inl e \<Rightarrow> Inl e
                   | Inr rest \<Rightarrow> Inr (b @ rest)))"
  by (subst stripe_loop.simps) simp

lemma stripe_loop_sound:
  assumes "0 < bs"
    and chunk: "\<And>off n b. 0 < n \<Longrightarrow> off mod bs + n \<le> bs \<Longrightarrow> off + n \<le> length L \<Longrightarrow> chunk off n = Inr b \<Longrightarrow> b = slice off n L"
  shows "off + len \<le> length L \<Longrightarrow> stripe_loop bs chunk off len = Inr r \<Longrightarrow> r = slice off len L"
proof (induction len arbitrary: off r rule: less_induct)
  case (less len)
  show ?case
  proof (cases "len = 0")
    case True
    with less.prems show ?thesis by (simp add: stripe_loop.simps [of bs chunk])
  next
    case False
    let ?n = "min len (bs - off mod bs)"
    have n: "0 < ?n" "?n \<le> len" "off mod bs + ?n \<le> bs"
      using False assms(1) by (auto simp: min_def)
    from less.prems(2) obtain b rest where
      b: "chunk off ?n = Inr b" "stripe_loop bs chunk (off + ?n) (len - ?n) = Inr rest" "r = b @ rest"
      using False assms(1) by (auto simp: stripe_loop_step Let_def split: sum.splits)
    have "b = slice off ?n L"
      using b(1) n less.prems(1) by (intro chunk) simp_all
    moreover have "rest = slice (off + ?n) (len - ?n) L"
      using less.prems(1) n b(2) by (intro less.IH) simp_all
    ultimately show ?thesis
      using b(3) n(2) slice_append_slice [of off ?n L "len - ?n"] by simp
  qed
qed

text \<open>A failing loop fails in one of its chunks.\<close>

lemma stripe_loop_error:
  assumes "0 < bs"
  shows "stripe_loop bs chunk off len = Inl e \<Longrightarrow>
    \<exists>off' n. 0 < n \<and> off' mod bs + n \<le> bs \<and> off' + n \<le> off + len \<and> chunk off' n = Inl e"
proof (induction len arbitrary: off rule: less_induct)
  case (less len)
  have len: "len \<noteq> 0"
    using less.prems stripe_loop.simps [of bs chunk off len] by (cases "len = 0") simp_all
  let ?n = "min len (bs - off mod bs)"
  have n: "0 < ?n" "?n \<le> len" "off mod bs + ?n \<le> bs"
    using len assms by (auto simp: min_def)
  from less.prems consider "chunk off ?n = Inl e" | "stripe_loop bs chunk (off + ?n) (len - ?n) = Inl e"
    using len assms by (auto simp: stripe_loop_step Let_def split: sum.splits)
  then show ?case
  proof cases
    case 1
    then show ?thesis using n by (intro exI [of _ off] exI [of _ ?n]) simp
  next
    case 2
    then obtain off' m where "0 < m" "off' mod bs + m \<le> bs" "off' + m \<le> off + ?n + (len - ?n)" "chunk off' m = Inl e"
      using less.IH [of "len - ?n" "off + ?n"] n by auto
    then show ?thesis using n(2) by (intro exI [of _ off'] exI [of _ m]) simp
  qed
qed

section \<open>Members\<close>

definition member_data :: "(reader \<Rightarrow> buf) \<Rightarrow> vraid \<Rightarrow> nat \<Rightarrow> buf" where
  "member_data content v i = drop (member_base v i) (content (members v ! i))"

definition raid_rows :: "vraid \<Rightarrow> nat" where
  "raid_rows v = member_payload_bytes v div block_size v"

text \<open>
  The arrays the properties speak of: every member is a sound source big enough for all the
  rows, and the sizes stay clear of the 64-bit limit.
\<close>

definition array_ok :: "(reader \<Rightarrow> bool) \<Rightarrow> (reader \<Rightarrow> buf) \<Rightarrow> vraid \<Rightarrow> bool" where
  "array_ok ok content v \<longleftrightarrow>
     0 < block_size v \<and> length (active v) = num_disks v \<and> num_disks v \<le> 2 ^ 31
     \<and> raid_rows v * block_size v * num_disks v < 2 ^ 64
     \<and> (\<forall>i < num_disks v.
          let m = members v ! i in
          ok m \<and> is_open m \<and> block_size v + 3 * sector_bytes m < 2 ^ 32
          \<and> member_base v i + raid_rows v * block_size v \<le> length (content m)
          \<and> data_offset v + raid_rows v * block_size v \<le> length (content m)
          \<and> length (content m) + 2 ^ 32 \<le> 2 ^ 64)"

context sector_source
begin

definition member_alive :: "vraid \<Rightarrow> nat \<Rightarrow> nat \<Rightarrow> nat \<Rightarrow> bool" where
  "member_alive v i off len =
     (let m = members v ! i; o1 = off + member_base v i in
      active v ! i \<and> readable m (win_start m o1) (win_len m o1 len))"

text \<open>Inside the payload a member read is exact: the bytes, or a reported failure.\<close>

lemma read_active_at:
  assumes i: "i < num_disks v" "i < length (active v)" and len: "0 < len"
    and member: "ok (members v ! i)" "is_open (members v ! i)" "len + 3 * sector_bytes (members v ! i) < 2 ^ 32"
      "off + member_base v i + len \<le> length (content (members v ! i))"
      "data_offset v + off < 2 ^ 64" "length (content (members v ! i)) + 2 ^ 32 \<le> 2 ^ 64"
  shows "read_active rd v i off len
    = Inr (if member_alive v i off len then Some (slice off len (member_data content v i)) else None)"
proof -
  let ?m = "members v ! i" and ?o = "off + member_base v i"
  let ?start = "win_start ?m ?o" and ?al = "win_len ?m ?o len" and ?ss = "sector_bytes ?m"
  note m = member and act = i(2) and range = len
  have al: "?al + ?ss < 2 ^ 32" using m(3) by (rule win_len_fits)
  have inside: "?start + ?al \<le> length (content ?m)"
    using m(4) whole [OF m(1)] by (rule win_inside)
  have wraps: "w64 (?o + len) = ?o + len" "w64 (?o + len + ?ss) = ?o + len + ?ss"
    using m(3,4,6) by (simp_all add: w64_id)
  have eq_start: "?o div ?ss * ?ss = ?start" by (simp add: win_start_def)
  have "(?o + len + ?ss - 1) div ?ss * ?ss = ?start + ?al"
    using round_up_add [OF sector_bytes_pos(1) [of ?m], of "?o div ?ss" "win_skip ?m ?o + len"] win_skip(1) [of ?m ?o]
    by (simp only: win_len_def add.assoc [symmetric] eq_start)
  then have eq_stop: "w64 (w64 (w64 (?o + len) + ?ss - 1) div ?ss * ?ss) = ?start + ?al"
    using inside m(3,4,6) by (simp add: wraps w64_id)
  have eq_n: "w32 (sub64 (?start + ?al) ?start) = ?al"
    using al by (simp add: w32_id sub64_no_wrap)
  have eq_skip: "?o - ?start = win_skip ?m ?o" by (simp add: win_skip_def)
  have eq_need: "w64 (len + win_skip ?m ?o) = win_skip ?m ?o + len"
    using m(3) win_skip(2) [of ?m ?o] by (simp add: w64_id add.commute)
  have guards: "\<not> (num_disks v \<le> i \<or> \<not> is_open ?m)" "\<not> data_offset v > u64_max - off"
    "\<not> member_base v i > u64_max - off"
    using m i(1) by (auto simp: u64_max_def)
  have step: "read_member_aligned rd v i off len =
     (case rd ?m ?start ?al (replicate ?al 0) of
           None \<Rightarrow> Inl Undefined
         | Some (_, res, scratch) \<Rightarrow>
             if \<not> success res \<or> bytes_read res < win_skip ?m ?o + len then Inr None
             else if win_skip ?m ?o + len \<le> length scratch
             then Inr (Some (slice (win_skip ?m ?o) len scratch))
             else Inl Undefined)"
    unfolding read_member_aligned_def Let_def
    by (simp only: guards if_False eq_start eq_stop eq_n eq_skip eq_need)
  show ?thesis
  proof (cases "readable ?m ?start ?al")
    case True
    then obtain r' where read: "rd ?m ?start ?al (replicate ?al 0)
        = Some (r', ok_result ?al, splice 0 (slice ?start ?al (content ?m)) (replicate ?al 0))"
      using live [OF m(1) _ win_skip(3) win_len(3) inside al, of "replicate ?al 0"] by auto
    have "splice 0 (slice ?start ?al (content ?m)) (replicate ?al 0) = slice ?start ?al (content ?m)"
      using inside by (simp add: splice_def)
    moreover have "slice (win_skip ?m ?o) len (slice ?start ?al (content ?m)) = slice ?o len (content ?m)"
      using win_len(1) [of ?m ?o len] by (simp only: slice_slice win_skip(1))
    moreover have "slice ?o len (content ?m) = slice off len (member_data content v i)"
      by (simp add: slice_def member_data_def add.commute)
    ultimately show ?thesis
      using True read inside win_len(1) [of ?m ?o len] act
      by (simp add: read_active_def step member_alive_def Let_def ok_result_def no_result_def)
  next
    case False
    then obtain r' res buf' where "rd ?m ?start ?al (replicate ?al 0) = Some (r', res, buf')"
      "\<not> success res \<or> bytes_read res = 0"
      using dead [OF m(1)] by blast
    then show ?thesis
      using False act range by (auto simp: read_active_def step member_alive_def Let_def)
  qed
qed

lemma read_active_exact:
  assumes arr: "array_ok ok content v" and i: "i < num_disks v"
    and range: "off + len \<le> raid_rows v * block_size v" "len \<le> block_size v" "0 < len"
  shows "read_active rd v i off len
    = Inr (if member_alive v i off len then Some (slice off len (member_data content v i)) else None)"
  using arr i range by (intro read_active_at) (auto simp: array_ok_def Let_def)

end

section \<open>Exclusive or over sets of disks\<close>

interpretation xors: comm_monoid_set "\<lambda>a b :: byte. a XOR b" 0
  by standard (simp_all add: xor.assoc xor.commute xor.left_commute)

lemma xors_self_cancel: "a XOR (a XOR b) = (b :: byte)"
  by simp

lemma length_foldl_xor:
  "(\<And>i. i \<in> set is \<Longrightarrow> length (f i) = n) \<Longrightarrow> length acc = n \<Longrightarrow>
    length (foldl (\<lambda>a i. xor_bytes a (f i)) acc is) = n"
  by (induction "is" arbitrary: acc) simp_all

lemma foldl_xor_nth:
  "(\<And>i. i \<in> set is \<Longrightarrow> length (f i) = n) \<Longrightarrow> length acc = n \<Longrightarrow> distinct is \<Longrightarrow> j < n \<Longrightarrow>
    foldl (\<lambda>a i. xor_bytes a (f i)) acc is ! j = acc ! j XOR xors.F (\<lambda>i. f i ! j) (set is)"
  by (induction "is" arbitrary: acc) (simp_all add: xor.assoc)

text \<open>The parity of a list of blocks, as the writer of an array computes it.\<close>

definition parity_of :: "nat \<Rightarrow> buf list \<Rightarrow> buf" where
  "parity_of n blocks = foldl xor_bytes (replicate n 0) blocks"

lemma parity_of_nth:
  assumes "\<And>b. b < k \<Longrightarrow> length (f b) = n" "j < n"
  shows "parity_of n (map f [0..<k]) ! j = xors.F (\<lambda>b. f b ! j) {..<k}"
proof -
  have "parity_of n (map f [0..<k]) = foldl (\<lambda>a i. xor_bytes a (f i)) (replicate n 0) [0..<k]"
    by (simp add: parity_of_def foldl_map)
  also have "\<dots> ! j = xors.F (\<lambda>b. f b ! j) {..<k}"
    using assms by (subst foldl_xor_nth [where n = n]) (simp_all add: atLeast0LessThan)
  finally show ?thesis .
qed

lemma length_parity_of:
  assumes "\<And>b. b < k \<Longrightarrow> length (f b) = n"
  shows "length (parity_of n (map f [0..<k])) = n"
proof -
  have "parity_of n (map f [0..<k]) = foldl (\<lambda>a i. xor_bytes a (f i)) (replicate n 0) [0..<k]"
    by (simp add: parity_of_def foldl_map)
  also have "length \<dots> = n"
    using assms by (intro length_foldl_xor) simp_all
  finally show ?thesis .
qed

section \<open>Blocks of the logical volume and of the members\<close>

definition row_block :: "(reader \<Rightarrow> buf) \<Rightarrow> vraid \<Rightarrow> nat \<Rightarrow> nat \<Rightarrow> buf" where
  "row_block content v s i = slice (s * block_size v) (block_size v) (member_data content v i)"

definition logical_block :: "vraid \<Rightarrow> buf \<Rightarrow> nat \<Rightarrow> buf" where
  "logical_block v L b = slice (b * block_size v) (block_size v) L"

lemma logical_block_slice:
  "off mod block_size v + len \<le> block_size v \<Longrightarrow>
    slice (off mod block_size v) len (logical_block v L (off div block_size v)) = slice off len L"
  unfolding logical_block_def by (simp add: slice_slice)

lemma row_block_slice:
  "k + len \<le> block_size v \<Longrightarrow>
    slice k len (row_block content v s i) = slice (s * block_size v + k) len (member_data content v i)"
  unfolding row_block_def by (simp add: slice_slice)

lemma block_geometry:
  fixes bs k rows off len :: nat
  assumes "0 < k" "off + len \<le> rows * k * bs" "0 < len" "off mod bs + len \<le> bs"
  shows "off div bs div k < rows" "off div bs div k * bs + off mod bs + len \<le> rows * bs"
    "off div bs div k * bs + bs \<le> rows * bs" "off div bs < rows * k"
proof -
  have bs: "0 < bs" using assms(3,4) by simp
  have "off < rows * k * bs" using assms(2,3) by simp
  then show *: "off div bs < rows * k" using bs by (simp add: less_mult_imp_div_less)
  then show "off div bs div k < rows" using assms(1) by (simp add: less_mult_imp_div_less)
  then have "(off div bs div k + 1) * bs \<le> rows * bs" by (intro mult_le_mono1) simp
  then show "off div bs div k * bs + bs \<le> rows * bs" by simp
  then show "off div bs div k * bs + off mod bs + len \<le> rows * bs" using assms(4) by simp
qed

lemma length_logical_block:
  "length L = rows * block_size v \<Longrightarrow> b < rows \<Longrightarrow> length (logical_block v L b) = block_size v"
proof -
  assume L: "length L = rows * block_size v" and "b < rows"
  then have "(b + 1) * block_size v \<le> rows * block_size v" by (intro mult_le_mono1) simp
  with L show ?thesis by (simp add: logical_block_def)
qed

lemma stripe_block_less: "s < rows \<Longrightarrow> b < k \<Longrightarrow> s * k + b < rows * (k :: nat)"
proof -
  assume "s < rows" "b < k"
  then have "(s + 1) * k \<le> rows * k" by (intro mult_le_mono1) simp
  with \<open>b < k\<close> show ?thesis by simp
qed

text \<open>What the members of a RAID 5 array over the logical volume \<open>L\<close> hold.\<close>

definition raid5_array :: "(reader \<Rightarrow> buf) \<Rightarrow> vraid \<Rightarrow> buf \<Rightarrow> bool" where
  "raid5_array content v L \<longleftrightarrow>
     (let n = num_disks v; k = n - 1 in
      2 \<le> n \<and> length L = raid_rows v * k * block_size v
      \<and> (\<forall>s < raid_rows v.
           (\<forall>b < k. row_block content v s (raid5_data_disk s b n (algorithm v)) = logical_block v L (s * k + b))
           \<and> row_block content v s (raid5_parity_disk s n (algorithm v))
             = parity_of (block_size v) (map (\<lambda>b. logical_block v L (s * k + b)) [0..<k])))"

lemma raid5_row_cancels:
  assumes "raid5_array content v L" "num_disks v \<le> 2 ^ 31" "s < raid_rows v" "j < block_size v"
  shows "xors.F (\<lambda>i. row_block content v s i ! j) {..<num_disks v} = 0"
proof -
  let ?n = "num_disks v" and ?p = "raid5_parity_disk s (num_disks v) (algorithm v)"
  let ?d = "\<lambda>b. raid5_data_disk s b ?n (algorithm v)" and ?l = "\<lambda>b. logical_block v L (s * (?n - 1) + b)"
  have n: "2 \<le> ?n" and row: "\<And>b. b < ?n - 1 \<Longrightarrow> row_block content v s (?d b) = ?l b"
    "row_block content v s ?p = parity_of (block_size v) (map ?l [0..<?n - 1])"
    and L: "length L = raid_rows v * (?n - 1) * block_size v"
    using assms(1,3) by (auto simp: raid5_array_def Let_def)
  have len: "length (?l b) = block_size v" if "b < ?n - 1" for b
    using L stripe_block_less [OF assms(3) that] by (rule length_logical_block)
  have bij: "bij_betw ?d {..<?n - 1} ({..<?n} - {?p})"
    using raid5.data_bij [of ?n s "algorithm v"] n assms(2) by simp
  have "xors.F (\<lambda>i. row_block content v s i ! j) ({..<?n} - {?p}) = xors.F (\<lambda>b. row_block content v s (?d b) ! j) {..<?n - 1}"
    using xors.reindex_bij_betw [OF bij, of "\<lambda>i. row_block content v s i ! j"] by simp
  also have "\<dots> = xors.F (\<lambda>b. ?l b ! j) {..<?n - 1}"
    using row(1) by (intro xors.cong) simp_all
  also have "\<dots> = row_block content v s ?p ! j"
    using len assms(4) by (simp add: row(2) parity_of_nth)
  finally show ?thesis
    using xors.remove [of "{..<?n}" ?p "\<lambda>i. row_block content v s i ! j"] raid5_parity_less [of ?n] n
    by simp
qed

text \<open>Exclusive or of all the other disks of a row is the block of the missing one.\<close>

lemma raid5_rebuild:
  assumes "raid5_array content v L" "num_disks v \<le> 2 ^ 31" "s < raid_rows v" "d < num_disks v"
    and len: "\<And>i. i < num_disks v \<Longrightarrow> length (row_block content v s i) = block_size v"
  shows "foldl (\<lambda>a i. xor_bytes a (row_block content v s i)) (replicate (block_size v) 0)
      (filter (\<lambda>i. i \<noteq> d) [0..<num_disks v]) = row_block content v s d"
proof (rule nth_equalityI)
  let ?is = "filter (\<lambda>i. i \<noteq> d) [0..<num_disks v]"
  show eq: "length (foldl (\<lambda>a i. xor_bytes a (row_block content v s i)) (replicate (block_size v) 0) ?is)
      = length (row_block content v s d)"
    using len assms(4) by (subst length_foldl_xor [where n = "block_size v"]) simp_all
  fix j assume "j < length (foldl (\<lambda>a i. xor_bytes a (row_block content v s i)) (replicate (block_size v) 0) ?is)"
  then have j: "j < block_size v" using eq len assms(4) by simp
  have "set ?is = {..<num_disks v} - {d}" by auto
  then have "foldl (\<lambda>a i. xor_bytes a (row_block content v s i)) (replicate (block_size v) 0) ?is ! j
      = xors.F (\<lambda>i. row_block content v s i ! j) ({..<num_disks v} - {d})"
    using len j by (subst foldl_xor_nth [where n = "block_size v"]) simp_all
  also have "\<dots> = row_block content v s d ! j XOR xors.F (\<lambda>i. row_block content v s i ! j) {..<num_disks v}"
    using xors.remove [of "{..<num_disks v}" d "\<lambda>i. row_block content v s i ! j"] assms(4) by simp
  also have "\<dots> = row_block content v s d ! j"
    using raid5_row_cancels [OF assms(1,2,3) j] by simp
  finally show "foldl (\<lambda>a i. xor_bytes a (row_block content v s i)) (replicate (block_size v) 0) ?is ! j
      = row_block content v s d ! j" .
qed

context sector_source
begin

lemma row_bounds: "s < raid_rows v \<Longrightarrow> s * block_size v + block_size v \<le> raid_rows v * block_size v"
proof -
  assume "s < raid_rows v"
  then have "(s + 1) * block_size v \<le> raid_rows v * block_size v" by (intro mult_le_mono1) simp
  then show ?thesis by simp
qed

lemma length_row_block:
  assumes "array_ok ok content v" "i < num_disks v" "s < raid_rows v"
  shows "length (row_block content v s i) = block_size v"
  using assms row_bounds [OF assms(3)]
  by (auto simp: row_block_def member_data_def array_ok_def Let_def min_def)

text \<open>The part of row \<open>s\<close> that a member returns, or \<open>None\<close>.\<close>

lemma read_row:
  assumes "array_ok ok content v" "i < num_disks v" "s < raid_rows v" "k + len \<le> block_size v" "0 < len"
  shows "read_active rd v i (s * block_size v + k) len
    = Inr (if member_alive v i (s * block_size v + k) len then Some (slice k len (row_block content v s i)) else None)"
proof -
  have "s * block_size v + k + len \<le> raid_rows v * block_size v"
    using row_bounds [OF assms(3)] assms(4) by simp
  moreover have "len \<le> block_size v" using assms(4) by simp
  ultimately show ?thesis
    using assms by (simp add: read_active_exact row_block_slice)
qed

lemma read_whole_row:
  assumes "array_ok ok content v" "i < num_disks v" "s < raid_rows v"
  shows "read_active rd v i (s * block_size v) (block_size v)
    = Inr (if member_alive v i (s * block_size v) (block_size v) then Some (row_block content v s i) else None)"
proof -
  have "0 < block_size v" using assms(1) by (simp add: array_ok_def)
  moreover have "slice 0 (block_size v) (row_block content v s i) = row_block content v s i"
    using length_row_block [OF assms] by (metis slice_all)
  ultimately show ?thesis
    using read_row [OF assms, of 0 "block_size v"] by simp
qed

lemma xor_members_exact:
  assumes "array_ok ok content v" "s < raid_rows v"
  shows "(\<And>i. i \<in> set is \<Longrightarrow> i < num_disks v) \<Longrightarrow>
    xor_members rd v err (s * block_size v) scale is acc =
     (if \<forall>i \<in> set is. member_alive v i (s * block_size v) (block_size v)
      then Inr (foldl (\<lambda>a i. xor_bytes a (scale i (row_block content v s i))) acc is)
      else Inl err)"
proof (induction "is" arbitrary: acc)
  case Nil
  then show ?case by simp
next
  case (Cons i "is")
  then show ?case using assms by (simp add: read_whole_row)
qed

text \<open>One RAID 5 block: exact in terms of which members answer.\<close>

lemma raid5_chunk_exact:
  assumes arr: "array_ok ok content v" "raid5_array content v L"
    and range: "0 < len" "off mod block_size v + len \<le> block_size v" "off + len \<le> length L"
  defines "s \<equiv> off div block_size v div (num_disks v - 1)"
    and "d \<equiv> raid5_data_disk (off div block_size v div (num_disks v - 1)) (off div block_size v mod (num_disks v - 1))
               (num_disks v) (algorithm v)"
  shows "raid5_chunk rd v off len =
     (if member_alive v d (s * block_size v + off mod block_size v) len
        \<or> (\<forall>i < num_disks v. i \<noteq> d \<longrightarrow> member_alive v i (s * block_size v) (block_size v))
      then Inr (slice off len L)
      else Inl (RuntimeError ''RAID 5 read failed: multiple disks unreadable''))"
proof -
  let ?bs = "block_size v" and ?n = "num_disks v" and ?k = "num_disks v - 1"
  let ?idx = "off div block_size v"
  have n: "2 \<le> ?n" "?n \<le> 2 ^ 31" "length L = raid_rows v * ?k * ?bs"
    using arr by (auto simp: raid5_array_def array_ok_def Let_def)
  have geo: "s < raid_rows v" "?idx mod ?k < ?k"
    using block_geometry(1) [of ?k off len "raid_rows v" ?bs] n range by (simp_all add: s_def)
  have idx: "s * ?k + ?idx mod ?k = ?idx" unfolding s_def by (rule div_mult_mod_eq)
  have d: "d < ?n"
    using raid5.avoids [of ?n "?idx mod ?k" s "algorithm v"] n geo(2) by (simp add: d_def s_def)
  have block: "row_block content v s d = logical_block v L ?idx"
    using arr(2) geo idx by (auto simp: raid5_array_def Let_def d_def s_def)
  have part: "slice (off mod ?bs) len (row_block content v s d) = slice off len L"
    unfolding block by (rule logical_block_slice [OF range(2)])
  have rebuilt: "foldl (\<lambda>a i. xor_bytes a (row_block content v s i)) (replicate ?bs 0)
      (filter (\<lambda>i. i \<noteq> d) [0..<?n]) = row_block content v s d"
    using raid5_rebuild [OF arr(2) n(2) geo(1) d] length_row_block [OF arr(1) _ geo(1)] by simp
  have direct: "read_active rd v d (s * ?bs + off mod ?bs) len
      = Inr (if member_alive v d (s * ?bs + off mod ?bs) len then Some (slice off len L) else None)"
    using read_row [OF arr(1) d geo(1) range(2,1)] by (simp add: part)
  have others: "xor_members rd v (RuntimeError ''RAID 5 read failed: multiple disks unreadable'') (s * ?bs)
      (\<lambda>_ t. t) (filter (\<lambda>i. i \<noteq> d) [0..<?n]) (replicate ?bs 0)
    = (if \<forall>i < ?n. i \<noteq> d \<longrightarrow> member_alive v i (s * ?bs) ?bs then Inr (row_block content v s d)
       else Inl (RuntimeError ''RAID 5 read failed: multiple disks unreadable''))"
    by (subst xor_members_exact [OF arr(1) geo(1)]) (auto simp: rebuilt)
  have k: "\<not> ?k = 0" using n(1) by simp
  have "raid5_chunk rd v off len =
     (case read_active rd v d (s * ?bs + off mod ?bs) len of
           Inl e \<Rightarrow> Inl e
         | Inr (Some b) \<Rightarrow> Inr b
         | Inr None \<Rightarrow>
             and_then (xor_members rd v (RuntimeError ''RAID 5 read failed: multiple disks unreadable'')
                         (s * ?bs) (\<lambda>_ t. t) (filter (\<lambda>i. i \<noteq> d) [0..<?n]) (replicate ?bs 0))
               (\<lambda>acc. Inr (slice (off mod ?bs) len acc)))"
    unfolding raid5_chunk_def Let_def s_def d_def by (simp only: k if_False)
  then show ?thesis
    unfolding direct others by (auto simp: part)
qed

text \<open>The capacity guard admits exactly the ranges of the logical volume.\<close>

lemma capacity_striped:
  assumes "array_ok ok content v"
  shows "level v = RAID0 \<Longrightarrow> capacity v = raid_rows v * num_disks v * block_size v"
    "level v = RAID5 \<Longrightarrow> capacity v = raid_rows v * (num_disks v - 1) * block_size v"
    "level v = RAID6 \<Longrightarrow> capacity v = raid_rows v * (num_disks v - 2) * block_size v"
    "level v = RAID10 \<Longrightarrow> capacity v = raid_rows v * (num_disks v div 2) * block_size v"
proof -
  let ?u = "raid_rows v * block_size v"
  have fit: "?u * k < 2 ^ 64" if "k \<le> num_disks v" for k
  proof -
    have "?u * k \<le> ?u * num_disks v" using that by (rule mult_le_mono2)
    also have "\<dots> < 2 ^ 64" using assms by (simp add: array_ok_def)
    finally show ?thesis .
  qed
  have "0 < block_size v" using assms by (simp add: array_ok_def)
  then show "level v = RAID0 \<Longrightarrow> capacity v = raid_rows v * num_disks v * block_size v"
    "level v = RAID5 \<Longrightarrow> capacity v = raid_rows v * (num_disks v - 1) * block_size v"
    "level v = RAID6 \<Longrightarrow> capacity v = raid_rows v * (num_disks v - 2) * block_size v"
    "level v = RAID10 \<Longrightarrow> capacity v = raid_rows v * (num_disks v div 2) * block_size v"
    using fit [of "num_disks v"] fit [of "num_disks v - 1"] fit [of "num_disks v - 2"] fit [of "num_disks v div 2"]
    by (simp_all add: capacity_def Let_def w64_id mult.commute mult.left_commute flip: raid_rows_def)
qed

definition weak_member :: "vraid \<Rightarrow> nat \<Rightarrow> bool" where
  "weak_member v i \<longleftrightarrow> i < num_disks v \<and> (\<exists>off len. \<not> member_alive v i off len)"

lemma raid5_read:
  assumes arr: "array_ok ok content v" "raid5_array content v L" "level v = RAID5" and len: "0 < len"
  shows "case raid_read_bytes rd v off len of
      Inr r \<Rightarrow> r = slice off len L \<and> off + len \<le> length L
    | Inl e \<Rightarrow> length L < off + len \<and> e = OutOfRange ''Read exceeds RAID capacity''
        \<or> (\<exists>i j. i \<noteq> j \<and> weak_member v i \<and> weak_member v j)
          \<and> e = RuntimeError ''RAID 5 read failed: multiple disks unreadable''"
proof (cases "off + len \<le> length L")
  case False
  have "capacity v = length L"
    using capacity_striped(2) [OF arr(1,3)] arr(2) by (simp add: raid5_array_def Let_def)
  with False len show ?thesis by (auto simp: raid_read_bytes_def Let_def)
next
  case True
  let ?bs = "block_size v"
  have bs: "0 < ?bs" using arr(1) by (simp add: array_ok_def)
  have "capacity v = length L"
    using capacity_striped(2) [OF arr(1,3)] arr(2) by (simp add: raid5_array_def Let_def)
  with True len arr(3) have read: "raid_read_bytes rd v off len = stripe_loop ?bs (raid5_chunk rd v) off len"
    by (auto simp: raid_read_bytes_def Let_def)
  note chunk = raid5_chunk_exact [OF arr(1,2)]
  show ?thesis
  proof (cases "stripe_loop ?bs (raid5_chunk rd v) off len")
    case (Inr r)
    have "r = slice off len L"
      by (rule stripe_loop_sound [OF bs _ True Inr]) (simp add: chunk split: if_splits)
    with Inr True read show ?thesis by simp
  next
    case (Inl e)
    from stripe_loop_error [OF bs this] obtain o1 n where
      o1: "0 < n" "o1 mod ?bs + n \<le> ?bs" "o1 + n \<le> off + len" "raid5_chunk rd v o1 n = Inl e" by blast
    let ?s = "o1 div ?bs div (num_disks v - 1)"
    let ?d = "raid5_data_disk ?s (o1 div ?bs mod (num_disks v - 1)) (num_disks v) (algorithm v)"
    have nd: "2 \<le> num_disks v" "num_disks v \<le> 2 ^ 31" using arr by (auto simp: raid5_array_def array_ok_def Let_def)
    then have "?d < num_disks v"
      using raid5.avoids [of "num_disks v" "o1 div ?bs mod (num_disks v - 1)" ?s "algorithm v"] by simp
    moreover obtain i where "i < num_disks v" "i \<noteq> ?d" "\<not> member_alive v i (?s * ?bs) ?bs"
      "\<not> member_alive v ?d (?s * ?bs + o1 mod ?bs) n" "e = RuntimeError ''RAID 5 read failed: multiple disks unreadable''"
      using o1 True chunk [OF o1(1,2)] by (auto split: if_splits)
    ultimately show ?thesis
      using read Inl by (auto simp: weak_member_def)
  qed
qed

end

section \<open>RAID 6: syndromes\<close>

lemma slot_walk_rank:
  "i \<le> disk \<Longrightarrow> disk < n \<Longrightarrow> disk \<noteq> p \<Longrightarrow> disk \<noteq> q \<Longrightarrow>
    slot_walk p q disk [i..<n] slot = slot + int (card ({i..<disk} - {p, q}))"
proof (induction "disk - i" arbitrary: i slot)
  case 0
  then show ?case by (simp add: upt_conv_Cons)
next
  case (Suc d)
  then have lt: "i < disk" by simp
  then have split: "{i..<disk} - {p, q} = (if i = p \<or> i = q then {} else {i}) \<union> ({i + 1..<disk} - {p, q})"
    by auto
  have "card ({i..<disk} - {p, q}) = (if i = p \<or> i = q then 0 else 1) + card ({i + 1..<disk} - {p, q})"
    unfolding split by (subst card_Un_disjoint) auto
  moreover have "[i..<n] = i # [i + 1..<n]" using lt Suc.prems by (simp add: upt_conv_Cons)
  ultimately show ?case using Suc.hyps(1) [of "i + 1"] Suc.hyps(2) Suc.prems lt by auto
qed

lemma slot_of_data_disk:
  assumes "2 \<le> n" "b < n - 2"
  shows "slot_of n (pDisk (raid6_disks s n)) (qDisk (raid6_disks s n)) (raid6_data_disk s b n) = int b"
proof -
  have "raid6_data_disk s b n < n \<and> raid6_data_disk s b n \<notin> {pDisk (raid6_disks s n), qDisk (raid6_disks s n)} \<and>
    card ({..<raid6_data_disk s b n} - {pDisk (raid6_disks s n), qDisk (raid6_disks s n)}) = b"
    using assms by (rule raid6_data_disk_rank)
  then show ?thesis
    by (simp add: slot_of_def slot_walk_rank atLeast0LessThan)
qed

text \<open>What the members of a RAID 6 array over \<open>L\<close> hold: data, P and the Reed-Solomon Q.\<close>

definition raid6_array :: "(reader \<Rightarrow> buf) \<Rightarrow> vraid \<Rightarrow> buf \<Rightarrow> bool" where
  "raid6_array content v L \<longleftrightarrow>
     (let n = num_disks v; k = n - 2; bs = block_size v in
      3 \<le> n \<and> length L = raid_rows v * k * bs
      \<and> (\<forall>s < raid_rows v.
           (\<forall>b < k. row_block content v s (raid6_data_disk s b n) = logical_block v L (s * k + b))
           \<and> row_block content v s (pDisk (raid6_disks s n))
             = parity_of bs (map (\<lambda>b. logical_block v L (s * k + b)) [0..<k])
           \<and> row_block content v s (qDisk (raid6_disks s n))
             = parity_of bs (map (\<lambda>b. scale_buf (gf_pow (int b)) (logical_block v L (s * k + b))) [0..<k])))"

lemma length_scale_buf [simp]: "length (scale_buf g t) = length t"
  by (simp add: scale_buf_def)

lemma nth_scale_buf [simp]: "j < length t \<Longrightarrow> scale_buf g t ! j = gf_mul (t ! j) g"
  by (simp add: scale_buf_def)

abbreviation raid6_data_disks :: "vraid \<Rightarrow> nat \<Rightarrow> nat set" where
  "raid6_data_disks v s \<equiv> {..<num_disks v} - {pDisk (raid6_disks s (num_disks v)), qDisk (raid6_disks s (num_disks v))}"

abbreviation raid6_coef :: "vraid \<Rightarrow> nat \<Rightarrow> nat \<Rightarrow> byte" where
  "raid6_coef v s i \<equiv> gf_pow (slot_of (num_disks v) (pDisk (raid6_disks s (num_disks v))) (qDisk (raid6_disks s (num_disks v))) i)"

lemma raid6_syndromes:
  assumes "raid6_array content v L" "s < raid_rows v" "j < block_size v"
  shows "row_block content v s (pDisk (raid6_disks s (num_disks v))) ! j
      = xors.F (\<lambda>i. row_block content v s i ! j) (raid6_data_disks v s)" (is ?P)
    and "row_block content v s (qDisk (raid6_disks s (num_disks v))) ! j
      = xors.F (\<lambda>i. gf_mul (row_block content v s i ! j) (raid6_coef v s i)) (raid6_data_disks v s)" (is ?Q)
proof -
  let ?n = "num_disks v" and ?k = "num_disks v - 2"
  let ?d = "\<lambda>b. raid6_data_disk s b ?n" and ?l = "\<lambda>b. logical_block v L (s * (num_disks v - 2) + b)"
  have n: "3 \<le> ?n" and L: "length L = raid_rows v * ?k * block_size v"
    and row: "\<And>b. b < ?k \<Longrightarrow> row_block content v s (?d b) = ?l b"
      "row_block content v s (pDisk (raid6_disks s ?n)) = parity_of (block_size v) (map ?l [0..<?k])"
      "row_block content v s (qDisk (raid6_disks s ?n))
        = parity_of (block_size v) (map (\<lambda>b. scale_buf (gf_pow (int b)) (?l b)) [0..<?k])"
    using assms(1,2) by (auto simp: raid6_array_def Let_def)
  have len: "length (?l b) = block_size v" if "b < ?k" for b
    using L stripe_block_less [OF assms(2) that] by (rule length_logical_block)
  have bij: "bij_betw ?d {..<?k} (raid6_data_disks v s)"
    using raid6.data_bij [of ?n s] n by simp
  have "xors.F (\<lambda>i. row_block content v s i ! j) (raid6_data_disks v s) = xors.F (\<lambda>b. row_block content v s (?d b) ! j) {..<?k}"
    using xors.reindex_bij_betw [OF bij, of "\<lambda>i. row_block content v s i ! j"] by simp
  also have "\<dots> = xors.F (\<lambda>b. ?l b ! j) {..<?k}"
    using row(1) by (intro xors.cong) simp_all
  also have "\<dots> = parity_of (block_size v) (map ?l [0..<?k]) ! j"
    using len assms(3) by (intro parity_of_nth [symmetric]) simp_all
  finally show ?P using row(2) by simp
  have "xors.F (\<lambda>i. gf_mul (row_block content v s i ! j) (raid6_coef v s i)) (raid6_data_disks v s)
      = xors.F (\<lambda>b. gf_mul (row_block content v s (?d b) ! j) (raid6_coef v s (?d b))) {..<?k}"
    using xors.reindex_bij_betw [OF bij, of "\<lambda>i. gf_mul (row_block content v s i ! j) (raid6_coef v s i)"] by simp
  also have "\<dots> = xors.F (\<lambda>b. scale_buf (gf_pow (int b)) (?l b) ! j) {..<?k}"
    using row(1) n len assms(3) by (intro xors.cong) (simp_all add: slot_of_data_disk)
  also have "\<dots> = parity_of (block_size v) (map (\<lambda>b. scale_buf (gf_pow (int b)) (?l b)) [0..<?k]) ! j"
    using len assms(3) by (intro parity_of_nth [symmetric]) simp_all
  finally show ?Q using row(3) by simp
qed

lemma coef_nonzero:
  assumes "3 \<le> num_disks v" "i \<in> raid6_data_disks v s"
  shows "raid6_coef v s i \<noteq> 0"
proof -
  obtain b where "b < num_disks v - 2" "raid6_data_disk s b (num_disks v) = i"
    using raid6.every_data_disk_used [of "num_disks v" i s] assms by auto
  then show ?thesis
    using slot_of_data_disk [of "num_disks v" b s] assms(1) by (auto simp: gf_pow_nat)
qed

lemma coef_distinct:
  assumes "3 \<le> num_disks v" "num_disks v \<le> 257" "i \<in> raid6_data_disks v s" "i' \<in> raid6_data_disks v s" "i \<noteq> i'"
  shows "raid6_coef v s i \<noteq> raid6_coef v s i'"
proof -
  obtain b where b: "b < num_disks v - 2" "raid6_data_disk s b (num_disks v) = i"
    using raid6.every_data_disk_used [of "num_disks v" i s] assms by auto
  obtain b' where b': "b' < num_disks v - 2" "raid6_data_disk s b' (num_disks v) = i'"
    using raid6.every_data_disk_used [of "num_disks v" i' s] assms by auto
  have "b \<noteq> b'" using b(2) b'(2) assms(5) by auto
  then show ?thesis
    using slot_of_data_disk [of "num_disks v" b s] slot_of_data_disk [of "num_disks v" b' s] b b' assms(1,2)
    by (auto simp: gf_pow_nat gen_pow_eq_iff)
qed

lemma div_buf_Inr:
  "list_all2 (\<lambda>x y. gf_div x g = Inr y) xs ys \<Longrightarrow> div_buf g xs = Inr ys"
  by (induction xs ys rule: list_all2_induct) simp_all

text \<open>Folding a set of rows into an accumulator, byte by byte.\<close>

lemma fold_rows_nth:
  assumes "\<And>i. i < num_disks v \<Longrightarrow> length (row_block content v s i) = block_size v"
    and "length acc = block_size v" "j < block_size v"
    and "\<And>i t. length (scale i t) = length t" "\<And>i t. j < length t \<Longrightarrow> scale i t ! j = g i (t ! j)"
  shows "foldl (\<lambda>a i. xor_bytes a (scale i (row_block content v s i))) acc (filter P [0..<num_disks v]) ! j
    = acc ! j XOR xors.F (\<lambda>i. g i (row_block content v s i ! j)) {i \<in> {..<num_disks v}. P i}"
proof -
  have set: "set (filter P [0..<num_disks v]) = {i \<in> {..<num_disks v}. P i}" by auto
  have "foldl (\<lambda>a i. xor_bytes a (scale i (row_block content v s i))) acc (filter P [0..<num_disks v]) ! j
      = acc ! j XOR xors.F (\<lambda>i. scale i (row_block content v s i) ! j) (set (filter P [0..<num_disks v]))"
    using assms by (subst foldl_xor_nth [where n = "block_size v"]) simp_all
  also have "xors.F (\<lambda>i. scale i (row_block content v s i) ! j) (set (filter P [0..<num_disks v]))
      = xors.F (\<lambda>i. g i (row_block content v s i ! j)) {i \<in> {..<num_disks v}. P i}"
    unfolding set using assms by (intro xors.cong) simp_all
  finally show ?thesis .
qed

lemma length_fold_rows:
  assumes "\<And>i. i < num_disks v \<Longrightarrow> length (row_block content v s i) = block_size v"
    and "length acc = block_size v" "\<And>i t. length (scale i t) = length t"
  shows "length (foldl (\<lambda>a i. xor_bytes a (scale i (row_block content v s i))) acc (filter P [0..<num_disks v])) = block_size v"
  using assms by (intro length_foldl_xor) simp_all

lemma raid6_rebuild_p:
  assumes arr: "raid6_array content v L" "s < raid_rows v"
    and len: "\<And>i. i < num_disks v \<Longrightarrow> length (row_block content v s i) = block_size v"
    and d: "d \<in> raid6_data_disks v s" and P: "{i \<in> {..<num_disks v}. P i} = raid6_data_disks v s - {d}"
    and p: "p = pDisk (raid6_disks s (num_disks v))"
  shows "foldl (\<lambda>a i. xor_bytes a (row_block content v s i)) (row_block content v s p) (filter P [0..<num_disks v])
    = row_block content v s d"
proof -
  have n: "3 \<le> num_disks v" using arr(1) by (simp add: raid6_array_def Let_def)
  have pl: "length (row_block content v s p) = block_size v"
    using len raid6_pq(1) [of "num_disks v" s] n p by simp
  have l: "length (foldl (\<lambda>a i. xor_bytes a (row_block content v s i)) (row_block content v s p) (filter P [0..<num_disks v])) = block_size v"
    using length_fold_rows [of v content s "row_block content v s p" "\<lambda>_ t. t"] len pl by simp
  show ?thesis
  proof (rule nth_equalityI)
    show "length (foldl (\<lambda>a i. xor_bytes a (row_block content v s i)) (row_block content v s p) (filter P [0..<num_disks v]))
        = length (row_block content v s d)"
      using l len d by simp
    fix j assume "j < length (foldl (\<lambda>a i. xor_bytes a (row_block content v s i)) (row_block content v s p) (filter P [0..<num_disks v]))"
    then have j: "j < block_size v" using l by simp
    have "foldl (\<lambda>a i. xor_bytes a (row_block content v s i)) (row_block content v s p) (filter P [0..<num_disks v]) ! j
        = row_block content v s p ! j XOR xors.F (\<lambda>i. row_block content v s i ! j) (raid6_data_disks v s - {d})"
      unfolding P [symmetric]
      by (rule fold_rows_nth [where scale = "\<lambda>_ t. t" and g = "\<lambda>_ x. x"]) (simp_all add: len pl j)
    also have "row_block content v s p ! j
        = row_block content v s d ! j XOR xors.F (\<lambda>i. row_block content v s i ! j) (raid6_data_disks v s - {d})"
      unfolding p raid6_syndromes(1) [OF arr j] using d by (intro xors.remove) simp_all
    finally show "foldl (\<lambda>a i. xor_bytes a (row_block content v s i)) (row_block content v s p) (filter P [0..<num_disks v]) ! j
        = row_block content v s d ! j"
      by simp
  qed
qed

lemma raid6_rebuild_q:
  assumes arr: "raid6_array content v L" "s < raid_rows v"
    and len: "\<And>i. i < num_disks v \<Longrightarrow> length (row_block content v s i) = block_size v"
    and d: "d \<in> raid6_data_disks v s" and P: "{i \<in> {..<num_disks v}. P i} = raid6_data_disks v s - {d}"
    and q: "q = qDisk (raid6_disks s (num_disks v))"
  shows "div_buf (raid6_coef v s d)
      (foldl (\<lambda>a i. xor_bytes a (scale_buf (raid6_coef v s i) (row_block content v s i)))
         (row_block content v s q) (filter P [0..<num_disks v]))
    = Inr (row_block content v s d)" (is "div_buf ?g ?acc = _")
proof (rule div_buf_Inr)
  have n: "3 \<le> num_disks v" using arr(1) by (simp add: raid6_array_def Let_def)
  have ql: "length (row_block content v s q) = block_size v"
    using len raid6_pq(2) [of "num_disks v" s] n q by simp
  have l: "length ?acc = block_size v"
    by (rule length_fold_rows [of v content s _ "\<lambda>i. scale_buf (raid6_coef v s i)"]) (simp_all add: len ql)
  show "list_all2 (\<lambda>x y. gf_div x ?g = Inr y) ?acc (row_block content v s d)"
  proof (rule list_all2_all_nthI)
    show "length ?acc = length (row_block content v s d)" using l len d by simp
    fix j assume "j < length ?acc"
    then have j: "j < block_size v" using l by simp
    have "?acc ! j = row_block content v s q ! j
        XOR xors.F (\<lambda>i. gf_mul (row_block content v s i ! j) (raid6_coef v s i)) (raid6_data_disks v s - {d})"
      unfolding P [symmetric]
      by (rule fold_rows_nth [where g = "\<lambda>i x. gf_mul x (raid6_coef v s i)"]) (simp_all add: len ql j)
    also have "row_block content v s q ! j = gf_mul (row_block content v s d ! j) ?g
        XOR xors.F (\<lambda>i. gf_mul (row_block content v s i ! j) (raid6_coef v s i)) (raid6_data_disks v s - {d})"
      unfolding q raid6_syndromes(2) [OF arr j] using d by (intro xors.remove) simp_all
    finally have "?acc ! j = gf_mul (row_block content v s d ! j) ?g" by simp
    then show "gf_div (?acc ! j) ?g = Inr (row_block content v s d ! j)"
      using coef_nonzero [OF n d] by (simp add: gf.solve_one)
  qed
qed

lemma raid6_rebuild_two:
  assumes arr: "raid6_array content v L" "s < raid_rows v"
    and len: "\<And>i. i < num_disks v \<Longrightarrow> length (row_block content v s i) = block_size v"
    and ab: "a \<in> raid6_data_disks v s" "b \<in> raid6_data_disks v s" "a \<noteq> b"
    and P: "{i \<in> {..<num_disks v}. P i} = raid6_data_disks v s - {a, b}"
    and pq: "p = pDisk (raid6_disks s (num_disks v))" "q = qDisk (raid6_disks s (num_disks v))"
    and g: "raid6_coef v s a XOR raid6_coef v s b \<noteq> 0"
  shows "raid6_solve (raid6_coef v s a) (raid6_coef v s b)
      (foldl (\<lambda>a i. xor_bytes a (row_block content v s i)) (row_block content v s p) (filter P [0..<num_disks v]))
      (foldl (\<lambda>a i. xor_bytes a (scale_buf (raid6_coef v s i) (row_block content v s i)))
         (row_block content v s q) (filter P [0..<num_disks v]))
    = Inr (row_block content v s a, row_block content v s b)" (is "raid6_solve ?ga ?gb ?pa ?qa = _")
proof -
  let ?D = "raid6_data_disks v s"
  have n: "3 \<le> num_disks v" using arr(1) by (simp add: raid6_array_def Let_def)
  have pql: "length (row_block content v s p) = block_size v" "length (row_block content v s q) = block_size v"
    using len raid6_pq [of "num_disks v" s] n pq by simp_all
  have l: "length ?pa = block_size v" "length ?qa = block_size v"
    using length_fold_rows [of v content s "row_block content v s p" "\<lambda>_ t. t"]
      length_fold_rows [of v content s "row_block content v s q" "\<lambda>i. scale_buf (raid6_coef v s i)"] len pql by simp_all
  have pa: "?pa ! j = row_block content v s a ! j XOR row_block content v s b ! j" if j: "j < block_size v" for j
  proof -
    have "?pa ! j = row_block content v s p ! j XOR xors.F (\<lambda>i. row_block content v s i ! j) (?D - {a, b})"
      unfolding P [symmetric]
      by (rule fold_rows_nth [where scale = "\<lambda>_ t. t" and g = "\<lambda>_ x. x"]) (simp_all add: len pql j)
    also have "row_block content v s p ! j = row_block content v s a ! j
        XOR (row_block content v s b ! j XOR xors.F (\<lambda>i. row_block content v s i ! j) (?D - {a} - {b}))"
      unfolding pq(1) raid6_syndromes(1) [OF arr j] using ab xors.remove [of ?D a] xors.remove [of "?D - {a}" b] by simp
    also have "?D - {a} - {b} = ?D - {a, b}" by auto
    finally show ?thesis by (simp flip: xor.assoc)
  qed
  have qa: "?qa ! j = gf_mul (row_block content v s a ! j) ?ga XOR gf_mul (row_block content v s b ! j) ?gb"
    if j: "j < block_size v" for j
  proof -
    let ?f = "\<lambda>i. gf_mul (row_block content v s i ! j) (raid6_coef v s i)"
    have "?qa ! j = row_block content v s q ! j XOR xors.F ?f (?D - {a, b})"
      unfolding P [symmetric]
      by (rule fold_rows_nth [where g = "\<lambda>i x. gf_mul x (raid6_coef v s i)"]) (simp_all add: len pql j)
    also have "row_block content v s q ! j = ?f a XOR (?f b XOR xors.F ?f (?D - {a} - {b}))"
      unfolding pq(2) raid6_syndromes(2) [OF arr j] using ab xors.remove [of ?D a ?f] xors.remove [of "?D - {a}" b ?f] by simp
    also have "?D - {a} - {b} = ?D - {a, b}" by auto
    finally show ?thesis by (simp flip: xor.assoc)
  qed
  have xi: "div_buf (?ga XOR ?gb) (map2 (\<lambda>x y. gf_mul ?gb x XOR y) ?pa ?qa) = Inr (row_block content v s a)"
  proof (rule div_buf_Inr, rule list_all2_all_nthI)
    show "length (map2 (\<lambda>x y. gf_mul ?gb x XOR y) ?pa ?qa) = length (row_block content v s a)"
      using l len ab by simp
    fix j assume "j < length (map2 (\<lambda>x y. gf_mul ?gb x XOR y) ?pa ?qa)"
    then have j: "j < block_size v" using l by simp
    then show "gf_div (map2 (\<lambda>x y. gf_mul ?gb x XOR y) ?pa ?qa ! j) (?ga XOR ?gb) = Inr (row_block content v s a ! j)"
      using gf.solve_two(1) [OF g pa [OF j] qa [OF j]] l by simp
  qed
  have "xor_bytes ?pa (row_block content v s a) = row_block content v s b"
  proof (rule nth_equalityI)
    show "length (xor_bytes ?pa (row_block content v s a)) = length (row_block content v s b)"
      using l len ab by simp
    fix j assume "j < length (xor_bytes ?pa (row_block content v s a))"
    then have j: "j < block_size v" using l by simp
    then show "xor_bytes ?pa (row_block content v s a) ! j = row_block content v s b ! j"
      using gf.solve_two(2) [OF g pa [OF j] qa [OF j]] l len ab by simp
  qed
  with xi g show ?thesis by (simp add: raid6_solve_def Let_def)
qed

lemma win_end: "win_start r off + win_len r off n = (off + n + sector_bytes r - 1) div sector_bytes r * sector_bytes r"
proof -
  have "win_start r off + win_len r off n
      = (win_start r off + (win_skip r off + n) + sector_bytes r - 1) div sector_bytes r * sector_bytes r"
    unfolding win_len_def win_start_def by (rule round_up_add) simp
  then show ?thesis by (simp add: win_skip(1) flip: add.assoc)
qed

lemma raid6_bounds:
  assumes "3 \<le> num_disks v"
  shows "pDisk (raid6_disks s (num_disks v)) < num_disks v" "qDisk (raid6_disks s (num_disks v)) < num_disks v"
  using raid6_pq [of "num_disks v" s] assms by simp_all

context sector_source
begin

lemma alive_part:
  assumes "array_ok ok content v" "i < num_disks v" "s < raid_rows v" "k + len \<le> block_size v" "0 < len"
    and alive: "member_alive v i (s * block_size v) (block_size v)"
  shows "member_alive v i (s * block_size v + k) len"
proof -
  let ?m = "members v ! i" and ?o = "s * block_size v + member_base v i"
  have "ok ?m" and fits: "?o + block_size v \<le> length (content ?m)" "length (content ?m) < 2 ^ 64"
    using assms(1,2) row_bounds [OF assms(3)] by (auto simp: array_ok_def Let_def)
  have inside: "win_start ?m ?o + win_len ?m ?o (block_size v) \<le> length (content ?m)"
    using fits(1) whole [OF \<open>ok ?m\<close>] by (rule win_inside)
  have "win_start ?m ?o \<le> win_start ?m (?o + k)"
    unfolding win_start_def by (intro mult_le_mono1 div_le_mono) simp
  moreover have "win_start ?m (?o + k) + win_len ?m (?o + k) len \<le> win_start ?m ?o + win_len ?m ?o (block_size v)"
    unfolding win_end using assms(4) by (intro mult_le_mono1 div_le_mono) simp
  moreover have "0 < win_len ?m (?o + k) len"
    using win_len(1) [of ?m "?o + k" len] assms(5) by simp
  ultimately have "readable ?m (win_start ?m (?o + k)) (win_len ?m (?o + k) len)"
    using shrink [OF \<open>ok ?m\<close>, of "win_start ?m ?o" "win_len ?m ?o (block_size v)"] alive inside fits(2)
      win_skip(3) win_len(3) by (simp add: member_alive_def Let_def)
  then show ?thesis
    using alive by (simp add: member_alive_def Let_def add.commute add.left_commute)
qed

lemma raid6_one_lost_exact:
  assumes arr: "array_ok ok content v" "raid6_array content v L" "s < raid_rows v"
    and d: "d \<in> raid6_data_disks v s" and only: "\<forall>i \<in> raid6_data_disks v s - {d}. active v ! i"
    and pq: "p = pDisk (raid6_disks s (num_disks v))" "q = qDisk (raid6_disks s (num_disks v))"
  shows "raid6_one_lost rd v p q d (s * block_size v) =
     (if member_alive v p (s * block_size v) (block_size v) \<or> member_alive v q (s * block_size v) (block_size v)
      then if \<forall>i \<in> raid6_data_disks v s - {d}. member_alive v i (s * block_size v) (block_size v)
           then Inr (row_block content v s d) else Inl raid6_during
      else Inl (RuntimeError ''RAID 6: data block and both parities failed''))"
proof -
  let ?others = "filter (\<lambda>i. i \<noteq> p \<and> i \<noteq> q \<and> i \<noteq> d \<and> active v ! i) [0..<num_disks v]"
  have n: "3 \<le> num_disks v" using arr(2) by (simp add: raid6_array_def Let_def)
  have sets: "{i \<in> {..<num_disks v}. i \<noteq> p \<and> i \<noteq> q \<and> i \<noteq> d \<and> active v ! i} = raid6_data_disks v s - {d}"
    using only pq by auto
  then have set: "set ?others = raid6_data_disks v s - {d}" by auto
  have mem: "\<And>i. i \<in> set ?others \<Longrightarrow> i < num_disks v" by simp
  have coef: "gf_pow (slot_of (num_disks v) p q i) = raid6_coef v s i" for i by (simp only: pq)
  have bounds: "p < num_disks v" "q < num_disks v" using raid6_bounds [OF n] by (simp_all only: pq)
  note rows = length_row_block [OF arr(1) _ arr(3)]
  note rebuilt = raid6_rebuild_p [OF arr(2,3) rows d sets pq(1)] raid6_rebuild_q [OF arr(2,3) rows d sets pq(2)]
  have xp: "xor_members rd v raid6_during (s * block_size v) (\<lambda>_ t. t) ?others (row_block content v s p) =
      (if \<forall>i \<in> raid6_data_disks v s - {d}. member_alive v i (s * block_size v) (block_size v)
       then Inr (row_block content v s d) else Inl raid6_during)"
    by (subst xor_members_exact [OF arr(1,3)], erule mem) (simp only: set rebuilt(1))
  have xq: "and_then (xor_members rd v raid6_during (s * block_size v)
        (\<lambda>i t. scale_buf (gf_pow (slot_of (num_disks v) p q i)) t) ?others (row_block content v s q))
        (div_buf (gf_pow (slot_of (num_disks v) p q d))) =
      (if \<forall>i \<in> raid6_data_disks v s - {d}. member_alive v i (s * block_size v) (block_size v)
       then Inr (row_block content v s d) else Inl raid6_during)"
    by (subst xor_members_exact [OF arr(1,3)], erule mem) (simp add: set coef rebuilt(2) del: set_filter)
  show ?thesis
    unfolding raid6_one_lost_def Let_def
    using xp xq by (simp add: read_whole_row [OF arr(1) bounds(1) arr(3)] read_whole_row [OF arr(1) bounds(2) arr(3)])
qed

text \<open>Two lost blocks: whatever the code returns is the wanted block, and it returns it when
  both parities and all the other data disks answer and the two coefficients differ.\<close>

lemma raid6_two_lost:
  assumes arr: "array_ok ok content v" "raid6_array content v L" "s < raid_rows v"
    and ab: "{a, b} = {i \<in> raid6_data_disks v s. \<not> active v ! i \<or> i = d}" "a \<noteq> b"
    and d: "d \<in> raid6_data_disks v s"
      "active v ! d \<Longrightarrow> \<not> member_alive v d (s * block_size v) (block_size v)"
    and pq: "p = pDisk (raid6_disks s (num_disks v))" "q = qDisk (raid6_disks s (num_disks v))"
  shows "raid6_two_lost rd v p q a b d (s * block_size v) = Inr x \<Longrightarrow> x = row_block content v s d \<and> \<not> active v ! d"
    and "\<not> active v ! d \<Longrightarrow> raid6_coef v s a \<noteq> raid6_coef v s b \<Longrightarrow>
      (\<And>i. i \<in> {p, q} \<union> (raid6_data_disks v s - {a, b}) \<Longrightarrow> member_alive v i (s * block_size v) (block_size v)) \<Longrightarrow>
      raid6_two_lost rd v p q a b d (s * block_size v) = Inr (row_block content v s d)"
proof -
  let ?alive = "\<lambda>i. member_alive v i (s * block_size v) (block_size v)"
  let ?P = "\<lambda>i. i \<noteq> p \<and> i \<noteq> q \<and> active v ! i"
  let ?healthy = "filter ?P [0..<num_disks v]"
  let ?pa = "foldl (\<lambda>a i. xor_bytes a (row_block content v s i)) (row_block content v s p) ?healthy"
  let ?qa = "foldl (\<lambda>a i. xor_bytes a (scale_buf (raid6_coef v s i) (row_block content v s i))) (row_block content v s q) ?healthy"
  have n: "3 \<le> num_disks v" using arr(2) by (simp add: raid6_array_def Let_def)
  have ab_in: "a \<in> raid6_data_disks v s" "b \<in> raid6_data_disks v s" "d = a \<or> d = b"
    using ab d(1) by blast+
  have set: "set ?healthy = {i \<in> raid6_data_disks v s. active v ! i}" using pq by auto
  note rows = length_row_block [OF arr(1) _ arr(3)]
  have coef: "gf_pow (slot_of (num_disks v) p q i) = raid6_coef v s i" for i by (simp only: pq)
  have bounds: "p < num_disks v" "q < num_disks v" using raid6_bounds [OF n] by (simp_all only: pq)
  have xp: "xor_members rd v raid6_during (s * block_size v) (\<lambda>_ t. t) ?healthy (row_block content v s p) =
      (if \<forall>i \<in> set ?healthy. ?alive i then Inr ?pa else Inl raid6_during)"
    by (rule xor_members_exact [OF arr(1,3)]) simp
  have xq: "xor_members rd v raid6_during (s * block_size v) (\<lambda>i t. scale_buf (gf_pow (slot_of (num_disks v) p q i)) t)
        ?healthy (row_block content v s q) =
      (if \<forall>i \<in> set ?healthy. ?alive i then Inr ?qa else Inl raid6_during)"
    unfolding coef by (rule xor_members_exact [OF arr(1,3)]) simp
  have solve: "raid6_solve (raid6_coef v s a) (raid6_coef v s b) ?pa ?qa
      = (if raid6_coef v s a XOR raid6_coef v s b = 0 then Inl (RuntimeError ''RAID 6: degenerate GF system'')
         else Inr (row_block content v s a, row_block content v s b))" if "\<not> active v ! d"
  proof (cases "raid6_coef v s a XOR raid6_coef v s b = 0")
    case True
    then show ?thesis by (simp add: raid6_solve_def Let_def)
  next
    case False
    have P: "{i \<in> {..<num_disks v}. ?P i} = raid6_data_disks v s - {a, b}"
      unfolding ab(1) using that pq by auto
    from False raid6_rebuild_two [OF arr(2,3) rows ab_in(1,2) ab(2) P pq False] show ?thesis by simp
  qed
  have step: "raid6_two_lost rd v p q a b d (s * block_size v) =
     (if \<not> active v ! p \<or> \<not> active v ! q
      then Inl (RuntimeError ''RAID 6: too many failures (P or Q also lost)'')
      else if \<not> ?alive p \<or> \<not> ?alive q
      then Inl (RuntimeError ''RAID 6 read failed: parity unreadable during reconstruction'')
      else if \<forall>i \<in> set ?healthy. ?alive i
      then and_then (raid6_solve (raid6_coef v s a) (raid6_coef v s b) ?pa ?qa)
             (\<lambda>(xi, xj). Inr (if a = d then xi else xj))
      else Inl raid6_during)"
    unfolding raid6_two_lost_def Let_def
    using xp xq by (auto simp add: coef read_whole_row [OF arr(1) bounds(1) arr(3)] read_whole_row [OF arr(1) bounds(2) arr(3)])
  show "x = row_block content v s d \<and> \<not> active v ! d" if "raid6_two_lost rd v p q a b d (s * block_size v) = Inr x"
  proof -
    from that have "\<forall>i \<in> set ?healthy. ?alive i" by (simp add: step split: if_splits)
    then have "\<not> active v ! d" using d set by auto
    with that show ?thesis using ab_in(3) by (auto simp: step solve split: if_splits)
  qed
  show "raid6_two_lost rd v p q a b d (s * block_size v) = Inr (row_block content v s d)"
    if "\<not> active v ! d" "raid6_coef v s a \<noteq> raid6_coef v s b"
      "\<And>i. i \<in> {p, q} \<union> (raid6_data_disks v s - {a, b}) \<Longrightarrow> ?alive i"
  proof -
    have "set ?healthy = raid6_data_disks v s - {a, b}" unfolding set ab(1) using that(1) by auto
    then have "\<forall>i \<in> set ?healthy. ?alive i" "?alive p" "?alive q" using that(3) by auto
    moreover then have "active v ! p" "active v ! q" by (simp_all add: member_alive_def Let_def)
    moreover have "raid6_coef v s a XOR raid6_coef v s b \<noteq> 0"
      using that(2) by (metis xor_cancel_right xor.left_neutral)
    ultimately show ?thesis using ab_in(3) that(1) by (auto simp: step solve)
  qed
qed

definition tolerable :: "vraid \<Rightarrow> bool" where
  "tolerable v \<longleftrightarrow> card {i. i < num_disks v \<and> \<not> active v ! i} \<le> 2
     \<and> (\<forall>i < num_disks v. active v ! i \<longrightarrow> (\<forall>off len. member_alive v i off len))"

lemma raid6_chunk_cases:
  assumes arr: "array_ok ok content v" "raid6_array content v L"
    and range: "0 < len" "off mod block_size v + len \<le> block_size v" "off + len \<le> length L"
  shows "raid6_chunk rd v off len = Inr b \<Longrightarrow> b = slice off len L"
    and "tolerable v \<Longrightarrow> num_disks v \<le> 257 \<Longrightarrow> raid6_chunk rd v off len = Inr (slice off len L)"
    and "s0 = off div block_size v div (num_disks v - 2) \<Longrightarrow>
      d0 = raid6_data_disk s0 (off div block_size v mod (num_disks v - 2)) (num_disks v) \<Longrightarrow>
      \<not> member_alive v d0 (s0 * block_size v + off mod block_size v) len \<Longrightarrow> active v ! d0 \<Longrightarrow>
      a0 \<in> raid6_data_disks v s0 \<Longrightarrow> \<not> active v ! a0 \<Longrightarrow> \<exists>e. raid6_chunk rd v off len = Inl e"
proof -
  let ?bs = "block_size v" and ?n = "num_disks v" and ?k = "num_disks v - 2"
  let ?idx = "off div block_size v"
  define s where "s = ?idx div ?k"
  define d where "d = raid6_data_disk s (?idx mod ?k) ?n"
  define p where "p = pDisk (raid6_disks s ?n)"
  define q where "q = qDisk (raid6_disks s ?n)"
  let ?D = "raid6_data_disks v s" and ?k_in = "off mod block_size v"
  let ?failed = "filter (\<lambda>i. i \<noteq> p \<and> i \<noteq> q \<and> (\<not> active v ! i \<or> i = d)) [0..<?n]"
  let ?alive = "\<lambda>i. member_alive v i (s * ?bs) ?bs"
  have n: "3 \<le> ?n" and L: "length L = raid_rows v * ?k * ?bs"
    using arr by (auto simp: raid6_array_def Let_def)
  have k: "?k \<noteq> 0" "0 < ?k" using n by simp_all
  have geo: "s < raid_rows v" "?idx mod ?k < ?k"
    using block_geometry(1) [of ?k off len "raid_rows v" ?bs] L k range by (simp_all add: s_def)
  have idx: "s * ?k + ?idx mod ?k = ?idx" unfolding s_def by (rule div_mult_mod_eq)
  have D: "d \<in> ?D"
    using raid6.avoids [of ?n "?idx mod ?k" s] n geo(2) by (simp add: d_def)
  then have dn: "d < ?n" by simp
  have "row_block content v s d = logical_block v L ?idx"
    using arr(2) geo unfolding raid6_array_def Let_def d_def by (metis idx)
  then have part: "slice ?k_in len (row_block content v s d) = slice off len L"
    using logical_block_slice [OF range(2)] by simp
  have direct: "read_active rd v d (s * ?bs + ?k_in) len
      = Inr (if member_alive v d (s * ?bs + ?k_in) len then Some (slice off len L) else None)"
    using read_row [OF arr(1) dn geo(1) range(2,1)] by (simp add: part)
  have set: "set ?failed = {i \<in> ?D. \<not> active v ! i \<or> i = d}" by (auto simp: p_def q_def)
  have dist: "distinct ?failed" by simp
  have step: "raid6_chunk rd v off len =
     (case read_active rd v d (s * ?bs + ?k_in) len of
           Inl e \<Rightarrow> Inl e
         | Inr (Some b) \<Rightarrow> Inr b
         | Inr None \<Rightarrow>
             and_then
                   (case ?failed of
                      [a] \<Rightarrow> raid6_one_lost rd v p q a (s * ?bs)
                    | [a, b] \<Rightarrow> raid6_two_lost rd v p q a b d (s * ?bs)
                    | _ \<Rightarrow> Inl (RuntimeError ''RAID 6 read failed: >2 data disks failed''))
                   (\<lambda>acc. Inr (slice ?k_in len acc)))"
    unfolding raid6_chunk_def Let_def s_def d_def p_def q_def by (simp only: k if_False)
  have dead: "active v ! d \<Longrightarrow> \<not> ?alive d" if "\<not> member_alive v d (s * ?bs + ?k_in) len"
    using alive_part [OF arr(1) dn geo(1) range(2,1)] that by blast
  have member: "i \<in> set ?failed \<longleftrightarrow> i \<in> ?D \<and> (\<not> active v ! i \<or> i = d)" for i
    unfolding set by (rule mem_Collect_eq)
  have one: "a = d" "\<forall>i \<in> ?D - {d}. active v ! i" if "?failed = [a]" for a
  proof -
    have m: "i = a \<longleftrightarrow> i \<in> ?D \<and> (\<not> active v ! i \<or> i = d)" for i
      using member [of i] unfolding that by (simp only: list.set set_simps singleton_iff)
    show "a = d" using m [of d] D by blast
    then show "\<forall>i \<in> ?D - {d}. active v ! i" using m by blast
  qed
  have two: "{a, b} = {i \<in> ?D. \<not> active v ! i \<or> i = d}" "a \<noteq> b" if "?failed = [a, b]" for a b
  proof -
    show "{a, b} = {i \<in> ?D. \<not> active v ! i \<or> i = d}" using set unfolding that by (simp only: list.set)
    show "a \<noteq> b" using dist unfolding that by simp
  qed
  show "b = slice off len L" if chunk: "raid6_chunk rd v off len = Inr b"
  proof (cases "member_alive v d (s * ?bs + ?k_in) len")
    case True
    with chunk show ?thesis by (simp add: step direct)
  next
    case False
    with chunk obtain acc where acc: "b = slice ?k_in len acc"
      "(case ?failed of [a] \<Rightarrow> raid6_one_lost rd v p q a (s * ?bs)
          | [a, b] \<Rightarrow> raid6_two_lost rd v p q a b d (s * ?bs)
          | _ \<Rightarrow> Inl (RuntimeError ''RAID 6 read failed: >2 data disks failed'')) = Inr acc"
      by (auto simp: step direct and_then_Inr_iff)
    consider a where "?failed = [a]" "raid6_one_lost rd v p q a (s * ?bs) = Inr acc"
      | a b where "?failed = [a, b]" "raid6_two_lost rd v p q a b d (s * ?bs) = Inr acc"
      using acc(2) by (simp split: list.splits)
    then have "acc = row_block content v s d"
    proof cases
      case 1
      have "raid6_one_lost rd v p q d (s * ?bs) = Inr acc" using 1(2) one(1) [OF 1(1)] by simp
      then show ?thesis
        unfolding raid6_one_lost_exact [OF arr geo(1) D one(2) [OF 1(1)] p_def q_def] by (simp split: if_splits)
    next
      case 2
      show ?thesis
        by (rule conjunct1 [OF raid6_two_lost(1) [OF arr geo(1) two [OF 2(1)] D dead [OF False] p_def q_def 2(2)]])
    qed
    then show ?thesis using acc(1) part by simp
  qed
  show "\<exists>e. raid6_chunk rd v off len = Inl e"
    if "s0 = ?idx div ?k" "d0 = raid6_data_disk s0 (?idx mod ?k) ?n"
      "\<not> member_alive v d0 (s0 * ?bs + ?k_in) len" "active v ! d0" "a0 \<in> raid6_data_disks v s0" "\<not> active v ! a0"
  proof -
    have s0: "s0 = s" "d0 = d" using that(1,2) by (simp_all only: s_def d_def)
    have dark: "\<not> member_alive v d (s * ?bs + ?k_in) len" using that(3) s0 by simp
    have both: "d \<in> set ?failed" "a0 \<in> set ?failed" "a0 \<noteq> d"
      unfolding member using D that(4-6) s0 by auto
    have none: "(case ?failed of [a] \<Rightarrow> raid6_one_lost rd v p q a (s * ?bs)
          | [a, b] \<Rightarrow> raid6_two_lost rd v p q a b d (s * ?bs)
          | _ \<Rightarrow> Inl (RuntimeError ''RAID 6 read failed: >2 data disks failed'')) \<noteq> Inr acc" for acc
    proof
      assume "(case ?failed of [a] \<Rightarrow> raid6_one_lost rd v p q a (s * ?bs)
          | [a, b] \<Rightarrow> raid6_two_lost rd v p q a b d (s * ?bs)
          | _ \<Rightarrow> Inl (RuntimeError ''RAID 6 read failed: >2 data disks failed'')) = Inr acc"
      then consider a where "?failed = [a]"
        | a b where "?failed = [a, b]" "raid6_two_lost rd v p q a b d (s * ?bs) = Inr acc"
        by (simp split: list.splits)
      then show False
      proof cases
        case 1
        with both show ?thesis by (metis empty_iff insert_iff list.set)
      next
        case 2
        then show ?thesis
          using raid6_two_lost(1) [OF arr geo(1) two [OF 2(1)] D dead [OF dark] p_def q_def 2(2)] that(4) s0 by simp
      qed
    qed
    show ?thesis
      using none dark by (cases "raid6_chunk rd v off len") (auto simp: step direct and_then_Inr_iff)
  qed
  show "raid6_chunk rd v off len = Inr (slice off len L)" if tol: "tolerable v" and n257: "?n \<le> 257"
  proof (cases "member_alive v d (s * ?bs + ?k_in) len")
    case True
    then show ?thesis by (simp add: step direct)
  next
    case False
    let ?I = "{i. i < ?n \<and> \<not> active v ! i}"
    have alive: "?alive i" if "i < ?n" "active v ! i" for i
      using tol that by (simp add: tolerable_def)
    have card: "card ?I \<le> 2" "finite ?I" using tol by (simp_all add: tolerable_def)
    have d_off: "\<not> active v ! d" using tol False dn by (auto simp: tolerable_def)
    have pq: "p \<noteq> q" "p < ?n" "q < ?n" "p \<noteq> d" "q \<noteq> d" using raid6_pq [of ?n s] n D by (auto simp: p_def q_def)
    have "card (set ?failed) \<le> card ?I"
      using set d_off by (intro card_mono) auto
    then have "length ?failed \<le> 2" using distinct_card [OF dist] card(1) by simp
    moreover have "?failed \<noteq> []" using set D by (metis (mono_tags, lifting) empty_iff list.set(1) mem_Collect_eq)
    ultimately consider a where "?failed = [a]" | a b where "?failed = [a, b]"
      by (cases ?failed; cases "tl ?failed") auto
    then have "(case ?failed of [a] \<Rightarrow> raid6_one_lost rd v p q a (s * ?bs)
          | [a, b] \<Rightarrow> raid6_two_lost rd v p q a b d (s * ?bs)
          | _ \<Rightarrow> Inl (RuntimeError ''RAID 6 read failed: >2 data disks failed'')) = Inr (row_block content v s d)"
    proof cases
      case 1
      have "?alive p \<or> ?alive q"
      proof (rule ccontr)
        assume "\<not> (?alive p \<or> ?alive q)"
        then have "{d, p, q} \<subseteq> ?I" using alive pq dn d_off by auto
        then have "card {d, p, q} \<le> card ?I" using card(2) by (rule card_mono [rotated])
        then show False using card(1) pq by simp
      qed
      moreover have "\<forall>i \<in> ?D - {d}. ?alive i" using one(2) [OF 1] alive by blast
      ultimately have "raid6_one_lost rd v p q d (s * ?bs) = Inr (row_block content v s d)"
        unfolding raid6_one_lost_exact [OF arr geo(1) D one(2) [OF 1] p_def q_def] by simp
      then show ?thesis unfolding 1 one(1) [OF 1] by simp
    next
      case 2
      note ab = two [OF 2]
      have "{a, b} \<subseteq> ?I" using ab(1) d_off by auto
      then have "?I = {a, b}" using card ab(2) card_seteq [of ?I "{a, b}"] by auto
      then have "active v ! p" "active v ! q" "\<And>i. i \<in> ?D - {a, b} \<Longrightarrow> active v ! i"
        using ab(1) pq by (auto simp: p_def q_def)
      then have "\<And>i. i \<in> {p, q} \<union> (?D - {a, b}) \<Longrightarrow> ?alive i" using alive pq by auto
      moreover have "a \<in> ?D" "b \<in> ?D" using ab(1) by blast+
      then have "raid6_coef v s a \<noteq> raid6_coef v s b" using coef_distinct [OF n n257] ab(2) by blast
      ultimately have "raid6_two_lost rd v p q a b d (s * ?bs) = Inr (row_block content v s d)"
        by (intro raid6_two_lost(2) [OF arr geo(1) ab D _ p_def q_def d_off]) (simp_all add: d_off)
      then show ?thesis unfolding 2 by simp
    qed
    then show ?thesis using False part by (simp add: step direct)
  qed
qed

lemma read_guard:
  "0 < len \<Longrightarrow> capacity v < off + len \<Longrightarrow>
    raid_read_bytes rd v off len = Inl (OutOfRange ''Read exceeds RAID capacity'')"
  by (auto simp: raid_read_bytes_def Let_def)

text \<open>Every striped level: in range the loop runs, and it is exact when its chunks are.\<close>

lemma striped_read:
  assumes "0 < block_size v" "0 < len" "capacity v = length L"
    and lv: "\<And>o1 n. 0 < n \<Longrightarrow> o1 + n \<le> capacity v \<Longrightarrow> raid_read_bytes rd v o1 n = stripe_loop (block_size v) chunk o1 n"
    and chunk: "\<And>o1 n b. 0 < n \<Longrightarrow> o1 mod block_size v + n \<le> block_size v \<Longrightarrow> o1 + n \<le> length L \<Longrightarrow>
        chunk o1 n = Inr b \<Longrightarrow> b = slice o1 n L"
    and err: "\<And>o1 n e. 0 < n \<Longrightarrow> o1 mod block_size v + n \<le> block_size v \<Longrightarrow> o1 + n \<le> length L \<Longrightarrow>
        chunk o1 n = Inl e \<Longrightarrow> E e"
  shows "case raid_read_bytes rd v off len of
      Inr r \<Rightarrow> r = slice off len L \<and> off + len \<le> length L
    | Inl e \<Rightarrow> length L < off + len \<and> e = OutOfRange ''Read exceeds RAID capacity'' \<or> off + len \<le> length L \<and> E e"
proof (cases "off + len \<le> length L")
  case False
  then show ?thesis using assms(2,3) by (simp add: read_guard)
next
  case True
  then have read: "raid_read_bytes rd v off len = stripe_loop (block_size v) chunk off len"
    using assms(2,3) by (intro lv) simp_all
  show ?thesis
  proof (cases "stripe_loop (block_size v) chunk off len")
    case (Inr r)
    have "r = slice off len L" by (rule stripe_loop_sound [OF assms(1) chunk True Inr])
    with Inr True read show ?thesis by simp
  next
    case (Inl e)
    from stripe_loop_error [OF assms(1) this] obtain o1 n where
      "0 < n" "o1 mod block_size v + n \<le> block_size v" "o1 + n \<le> off + len" "chunk o1 n = Inl e" by blast
    then have "E e" using True by (intro err) simp_all
    with Inl True read show ?thesis by simp
  qed
qed

lemma raid6_read:
  assumes arr: "array_ok ok content v" "raid6_array content v L" "level v = RAID6" and len: "0 < len"
  shows "case raid_read_bytes rd v off len of
      Inr r \<Rightarrow> r = slice off len L \<and> off + len \<le> length L
    | Inl e \<Rightarrow> length L < off + len \<and> e = OutOfRange ''Read exceeds RAID capacity''
        \<or> off + len \<le> length L \<and> \<not> (tolerable v \<and> num_disks v \<le> 257)"
proof (rule striped_read [OF _ len])
  show "0 < block_size v" using arr(1) by (simp add: array_ok_def)
  show "capacity v = length L"
    using capacity_striped(3) [OF arr(1,3)] arr(2) by (simp add: raid6_array_def Let_def)
  show "raid_read_bytes rd v o1 n = stripe_loop (block_size v) (raid6_chunk rd v) o1 n"
    if "0 < n" "o1 + n \<le> capacity v" for o1 n
    using that arr(3) by (auto simp: raid_read_bytes_def Let_def)
  fix o1 n e b
  assume range: "0 < n" "o1 mod block_size v + n \<le> block_size v" "o1 + n \<le> length L"
  note chunk = raid6_chunk_cases [OF arr(1,2) range]
  show "raid6_chunk rd v o1 n = Inr b \<Longrightarrow> b = slice o1 n L" by (rule chunk(1))
  show "raid6_chunk rd v o1 n = Inl e \<Longrightarrow> \<not> (tolerable v \<and> num_disks v \<le> 257)" using chunk(2) by auto
qed

section \<open>RAID 0 and RAID 10\<close>

text \<open>Both place block \<open>idx\<close> in row \<open>idx div k\<close>, on the disks \<open>where (idx mod k)\<close>.\<close>

definition striped_array :: "nat \<Rightarrow> (nat \<Rightarrow> nat set) \<Rightarrow> vraid \<Rightarrow> buf \<Rightarrow> bool" where
  "striped_array k disks v L \<longleftrightarrow>
     0 < k \<and> length L = raid_rows v * k * block_size v
     \<and> (\<forall>s < raid_rows v. \<forall>b < k. \<forall>i \<in> disks b.
          i < num_disks v \<and> row_block content v s i = logical_block v L (s * k + b))"

lemma striped_direct:
  assumes arr: "array_ok ok content v" "striped_array k disks v L"
    and range: "0 < len" "off mod block_size v + len \<le> block_size v" "off + len \<le> length L"
    and i: "i \<in> disks (off div block_size v mod k)"
  defines "o1 \<equiv> off div block_size v div k * block_size v + off mod block_size v"
  shows "read_active rd v i o1 len = Inr (if member_alive v i o1 len then Some (slice off len L) else None)"
    "i < num_disks v" "o1 + len \<le> raid_rows v * block_size v"
proof -
  let ?idx = "off div block_size v"
  have k: "0 < k" "length L = raid_rows v * k * block_size v" using arr(2) by (simp_all add: striped_array_def)
  note geo = block_geometry [OF k(1) range(3) [unfolded k(2)] range(1,2)]
  have idx: "?idx div k * k + ?idx mod k = ?idx" by (rule div_mult_mod_eq)
  have row: "i < num_disks v" "row_block content v (?idx div k) i = logical_block v L (?idx div k * k + ?idx mod k)"
    using arr(2) geo(1) i mod_less_divisor [OF k(1), of ?idx] unfolding striped_array_def by blast+
  then have "slice (off mod block_size v) len (row_block content v (?idx div k) i) = slice off len L"
    unfolding idx using logical_block_slice [OF range(2)] by simp
  with row(1) show "read_active rd v i o1 len = Inr (if member_alive v i o1 len then Some (slice off len L) else None)"
    "i < num_disks v" "o1 + len \<le> raid_rows v * block_size v"
    using read_row [OF arr(1) row(1) geo(1) range(2,1)] geo(2) by (simp_all add: o1_def)
qed

lemma payload_rows: "raid_rows v * block_size v \<le> member_payload_bytes v"
  by (simp add: raid_rows_def)

lemma raid0_read:
  assumes arr: "array_ok ok content v" "striped_array (num_disks v) (\<lambda>b. {b}) v L" "level v = RAID0" and len: "0 < len"
  shows "case raid_read_bytes rd v off len of
      Inr r \<Rightarrow> r = slice off len L \<and> off + len \<le> length L
    | Inl e \<Rightarrow> length L < off + len \<and> e = OutOfRange ''Read exceeds RAID capacity''
        \<or> off + len \<le> length L \<and> (\<exists>i. weak_member v i) \<and> e = RuntimeError ''RAID 0 read failed: member unreadable''"
proof (rule striped_read [OF _ len])
  show "0 < block_size v" using arr(1) by (simp add: array_ok_def)
  show "capacity v = length L"
    using capacity_striped(1) [OF arr(1,3)] arr(2) by (simp add: striped_array_def)
  show "raid_read_bytes rd v o1 n = stripe_loop (block_size v) (raid0_chunk rd v) o1 n"
    if "0 < n" "o1 + n \<le> capacity v" for o1 n
    using that arr(3) by (auto simp: raid_read_bytes_def Let_def)
  fix o1 n e b
  assume range: "0 < n" "o1 mod block_size v + n \<le> block_size v" "o1 + n \<le> length L"
  note direct = striped_direct [OF arr(1,2) range, of "o1 div block_size v mod num_disks v"]
  then have "\<not> o1 div block_size v div num_disks v * block_size v + o1 mod block_size v + n > member_payload_bytes v"
    using payload_rows [of v] by simp
  then show "raid0_chunk rd v o1 n = Inr b \<Longrightarrow> b = slice o1 n L"
    "raid0_chunk rd v o1 n = Inl e \<Longrightarrow> (\<exists>i. weak_member v i) \<and> e = RuntimeError ''RAID 0 read failed: member unreadable''"
    using direct by (auto simp: raid0_chunk_def Let_def weak_member_def split: if_splits)
qed

lemma raid10_read:
  assumes arr: "array_ok ok content v" "striped_array (num_disks v div 2) (\<lambda>b. {2 * b, 2 * b + 1}) v L" "level v = RAID10"
    and len: "0 < len"
  shows "case raid_read_bytes rd v off len of
      Inr r \<Rightarrow> r = slice off len L \<and> off + len \<le> length L
    | Inl e \<Rightarrow> length L < off + len \<and> e = OutOfRange ''Read exceeds RAID capacity''
        \<or> off + len \<le> length L \<and> (\<exists>b. weak_member v (2 * b) \<and> weak_member v (2 * b + 1))
          \<and> e = RuntimeError ''RAID 10 read failed: both members of a mirror pair failed''"
proof (rule striped_read [OF _ len])
  show "0 < block_size v" using arr(1) by (simp add: array_ok_def)
  show "capacity v = length L"
    using capacity_striped(4) [OF arr(1,3)] arr(2) by (simp add: striped_array_def)
  show "raid_read_bytes rd v o1 n = stripe_loop (block_size v) (raid10_chunk rd v) o1 n"
    if "0 < n" "o1 + n \<le> capacity v" for o1 n
    using that arr(3) by (auto simp: raid_read_bytes_def Let_def)
  fix o1 n e b
  assume range: "0 < n" "o1 mod block_size v + n \<le> block_size v" "o1 + n \<le> length L"
  let ?pair = "o1 div block_size v mod (num_disks v div 2)"
  have pairs: "num_disks v div 2 \<noteq> 0" using arr(2) by (simp add: striped_array_def)
  then have ab: "raid10_member_a (o1 div block_size v) (num_disks v) = 2 * ?pair"
    "raid10_member_b (o1 div block_size v) (num_disks v) = 2 * ?pair + 1"
    by (simp_all add: raid10_member_a_def raid10_member_b_def raid10_pair_def Let_def)
  note direct = striped_direct [OF arr(1,2) range, of "2 * ?pair"] striped_direct [OF arr(1,2) range, of "2 * ?pair + 1"]
  show "raid10_chunk rd v o1 n = Inr b \<Longrightarrow> b = slice o1 n L"
    using direct pairs by (auto simp: raid10_chunk_def Let_def ab split: if_splits)
  assume failed: "raid10_chunk rd v o1 n = Inl e"
  let ?row = "o1 div block_size v div (num_disks v div 2) * block_size v + o1 mod block_size v"
  have "\<not> member_alive v (2 * ?pair) ?row n \<and> \<not> member_alive v (2 * ?pair + 1) ?row n
      \<and> e = RuntimeError ''RAID 10 read failed: both members of a mirror pair failed''"
    using failed direct(1) [OF insertI1] direct(4) [OF insertI2, OF insertI1] pairs
    by (simp add: raid10_chunk_def Let_def ab split: if_splits)
  then show "(\<exists>b. weak_member v (2 * b) \<and> weak_member v (2 * b + 1))
      \<and> e = RuntimeError ''RAID 10 read failed: both members of a mirror pair failed''"
    using direct(2) [OF insertI1] direct(5) [OF insertI2, OF insertI1] unfolding weak_member_def by blast
qed

section \<open>RAID 1, RAID 1E and JBOD\<close>

text \<open>Members big enough for a request of up to \<open>len\<close> bytes at once.\<close>

definition members_ok :: "vraid \<Rightarrow> nat \<Rightarrow> bool" where
  "members_ok v len \<longleftrightarrow> length (active v) = num_disks v
     \<and> (\<forall>i < num_disks v. let m = members v ! i in
          ok m \<and> is_open m \<and> len + 3 * sector_bytes m < 2 ^ 32
          \<and> get_disk_size m = length (content m) \<and> data_offset v + length (content m) < 2 ^ 64
          \<and> length (content m) + 2 ^ 32 \<le> 2 ^ 64)"

lemma read_member_range:
  assumes "members_ok v len" "i < num_disks v" "0 < n" "n \<le> len"
    "off + n \<le> length (content (members v ! i)) - member_base v i"
  shows "read_active rd v i off n = Inr (if member_alive v i off n then Some (slice off n (member_data content v i)) else None)"
  using assms by (intro read_active_at) (auto simp: members_ok_def Let_def)

lemma first_mirror_exact:
  assumes "members_ok v len" "0 < len" "\<And>i. i < num_disks v \<Longrightarrow> slice off len (member_data content v i) = x"
    "\<And>i. i < num_disks v \<Longrightarrow> off + len \<le> length (content (members v ! i)) - member_base v i"
  shows "(\<And>i. i \<in> set is \<Longrightarrow> i < num_disks v) \<Longrightarrow> first_mirror rd v is off len
    = (if \<exists>i \<in> set is. member_alive v i off len then Inr x
       else Inl (RuntimeError ''No readable mirror available in RAID 1''))"
  by (induction "is") (simp_all add: read_member_range [OF assms(1) _ assms(2)] assms)

lemma raid1_read:
  assumes "members_ok v len" "level v = RAID1" "0 < len" "length L = member_payload_bytes v" "off + len \<le> length L"
    and mirrors: "\<And>i. i < num_disks v \<Longrightarrow> take (length L) (member_data content v i) = L"
  shows "raid_read_bytes rd v off len
    = (if \<exists>i < num_disks v. member_alive v i off len then Inr (slice off len L)
       else Inl (RuntimeError ''No readable mirror available in RAID 1''))"
proof -
  have "capacity v = length L" using assms(2,4) by (simp add: capacity_def)
  then have "raid_read_bytes rd v off len = first_mirror rd v [0..<num_disks v] off len"
    using assms by (auto simp: raid_read_bytes_def read_raid1_def Let_def)
  also have "\<dots> = (if \<exists>i \<in> set [0..<num_disks v]. member_alive v i off len then Inr (slice off len L)
       else Inl (RuntimeError ''No readable mirror available in RAID 1''))"
  proof (rule first_mirror_exact [OF assms(1,3)])
    fix i assume "i < num_disks v"
    then have L: "take (length L) (member_data content v i) = L" by (rule mirrors)
    have "slice off len (take (length L) (member_data content v i)) = slice off len (member_data content v i)"
      using assms(5) by (simp add: slice_def drop_take min_def)
    then show "slice off len (member_data content v i) = slice off len L" by (simp add: L)
    have "length L \<le> length (member_data content v i)" using L by (metis length_take min.cobounded1)
    then show "off + len \<le> length (content (members v ! i)) - member_base v i"
      using assms(5) by (simp add: member_data_def)
  qed simp
  finally show ?thesis by auto
qed

lemma half_blocks: "a div 2 * b \<le> a * b div (2 :: nat)"
proof -
  have "a div 2 * 2 * b \<le> a * b" by (intro mult_le_mono1) simp
  moreover have "a div 2 * 2 * b = a div 2 * b * 2" by simp
  ultimately show ?thesis by (simp add: less_eq_div_iff_mult_less_eq)
qed

text \<open>The concatenation of the member extents is the logical volume of a JBOD.\<close>

definition extent_data :: "vraid \<Rightarrow> nat \<Rightarrow> buf" where
  "extent_data v i = take (member_extent_bytes v i) (member_data content v i)"

lemma length_extent:
  "members_ok v len \<Longrightarrow> i < num_disks v \<Longrightarrow> length (extent_data v i) = member_extent_bytes v i"
  "members_ok v len \<Longrightarrow> i < num_disks v \<Longrightarrow> member_extent_bytes v i \<le> length (content (members v ! i)) - member_base v i"
  by (auto simp: extent_data_def member_data_def member_extent_bytes_def members_ok_def Let_def)

lemma jbod_loop_sound:
  assumes "members_ok v len"
  shows "(\<And>i. i \<in> set is \<Longrightarrow> i < num_disks v) \<Longrightarrow> n \<le> len \<Longrightarrow>
    jbod_loop rd v is pos n = Inr r \<Longrightarrow> r = slice pos n (concat (map (extent_data v) is))"
proof (induction "is" arbitrary: pos n r)
  case Nil
  then show ?case by (simp add: slice_def split: if_splits)
next
  case (Cons i "is")
  have i: "i < num_disks v" using Cons.prems(1) by simp
  note ext = length_extent [OF assms i]
  let ?e = "member_extent_bytes v i" and ?rest = "concat (map (extent_data v) is)"
  show ?case
  proof (cases "n = 0")
    case True
    with Cons.prems show ?thesis by simp
  next
    case False
    show ?thesis
    proof (cases "?e \<le> pos")
      case True
      then have "r = slice (pos - ?e) n ?rest"
        using Cons.prems False by (intro Cons.IH) simp_all
      with True ext(1) show ?thesis by (simp add: slice_append_right)
    next
      case inside: False
      let ?n = "min n (?e - pos)"
      have n: "0 < ?n" "?n \<le> len" "pos + ?n \<le> ?e" using False inside Cons.prems(2) by auto
      then have read: "read_active rd v i pos ?n = Inr (if member_alive v i pos ?n then Some (slice pos ?n (member_data content v i)) else None)"
        using ext(2) by (intro read_member_range [OF assms i]) simp_all
      with Cons.prems(3) False inside obtain rest where
        rest: "jbod_loop rd v is 0 (n - ?n) = Inr rest" "r = slice pos ?n (member_data content v i) @ rest"
        by (auto simp: Let_def and_then_Inr_iff split: if_splits)
      have "rest = slice 0 (n - ?n) ?rest"
        using Cons.prems rest(1) by (intro Cons.IH) simp_all
      moreover have "slice pos ?n (member_data content v i) = slice pos ?n (extent_data v i)"
        using n(3) by (simp add: extent_data_def slice_def drop_take min_def)
      moreover have "slice pos n (extent_data v i @ ?rest) = slice pos ?n (extent_data v i) @ slice 0 (n - ?n) ?rest"
        using inside ext(1) by (auto simp: slice_def min_def)
      ultimately show ?thesis using rest(2) by simp
    qed
  qed
qed

lemma jbod_loop_total:
  assumes "members_ok v len"
  shows "(\<And>i. i \<in> set is \<Longrightarrow> i < num_disks v) \<Longrightarrow> n \<le> len \<Longrightarrow>
    pos + n \<le> length (concat (map (extent_data v) is)) \<Longrightarrow> jbod_loop rd v is pos n = Inl e \<Longrightarrow>
    (\<exists>i \<in> set is. weak_member v i) \<and> e = RuntimeError ''JBOD read failed: member unreadable''"
proof (induction "is" arbitrary: pos n)
  case Nil
  then show ?case by simp
next
  case (Cons i "is")
  have i: "i < num_disks v" using Cons.prems(1) by simp
  note ext = length_extent [OF assms i]
  let ?e = "member_extent_bytes v i"
  have n0: "n \<noteq> 0" using Cons.prems(4) by (cases "n = 0") simp_all
  show ?case
  proof (cases "?e \<le> pos")
    case True
    then show ?thesis
      using Cons.IH [of n "pos - ?e"] Cons.prems n0 ext(1) by auto
  next
    case inside: False
    let ?n = "min n (?e - pos)"
    have n: "0 < ?n" "?n \<le> len" "pos + ?n \<le> ?e" using n0 inside Cons.prems(2) by auto
    then have read: "read_active rd v i pos ?n = Inr (if member_alive v i pos ?n then Some (slice pos ?n (member_data content v i)) else None)"
      using ext(2) by (intro read_member_range [OF assms i]) simp_all
    show ?thesis
    proof (cases "member_alive v i pos ?n")
      case False
      then show ?thesis using read Cons.prems(4) n0 inside i by (auto simp: Let_def weak_member_def)
    next
      case True
      then have "jbod_loop rd v is 0 (n - ?n) = Inl e"
        using read Cons.prems(4) n0 inside by (cases "jbod_loop rd v is 0 (n - ?n)") (auto simp: Let_def)
      then show ?thesis
        using Cons.IH [of "n - ?n" 0] Cons.prems inside ext(1) by (auto simp: min_def split: if_splits)
    qed
  qed
qed

lemma length_concat_extents:
  "members_ok v len \<Longrightarrow> (\<And>i. i \<in> set is \<Longrightarrow> i < num_disks v) \<Longrightarrow>
    length (concat (map (extent_data v) is)) = sum_list (map (member_extent_bytes v) is)"
  by (induction "is") (simp_all add: length_extent(1))

lemma foldl_w64_sum:
  "sum_list (map f xs) + acc < 2 ^ 64 \<Longrightarrow> foldl (\<lambda>cap i. w64 (cap + f i)) acc xs = acc + sum_list (map f xs)"
proof (induction xs arbitrary: acc)
  case Nil
  then show ?case by simp
next
  case (Cons x xs)
  then have "w64 (acc + f x) = acc + f x" by (intro w64_id) simp
  with Cons show ?case by (simp add: add.assoc add.left_commute)
qed

lemma jbod_read:
  assumes "members_ok v len" "level v = JBOD" "0 < len"
    and L: "L = concat (map (extent_data v) [0..<num_disks v])" "length L < 2 ^ 64"
  shows "case raid_read_bytes rd v off len of
      Inr r \<Rightarrow> r = slice off len L \<and> off + len \<le> length L
    | Inl e \<Rightarrow> length L < off + len \<and> e = OutOfRange ''Read exceeds RAID capacity''
        \<or> off + len \<le> length L \<and> (\<exists>i. weak_member v i) \<and> e = RuntimeError ''JBOD read failed: member unreadable''"
proof -
  have sum: "length L = sum_list (map (member_extent_bytes v) [0..<num_disks v])"
    unfolding L(1) by (rule length_concat_extents [OF assms(1)]) simp
  have cap: "capacity v = length L"
    using foldl_w64_sum [of "member_extent_bytes v" "[0..<num_disks v]" 0] L(2) assms(2)
    by (simp add: capacity_def sum)
  show ?thesis
  proof (cases "off + len \<le> length L")
    case False
    then show ?thesis using assms(3) cap by (simp add: read_guard)
  next
    case True
    then have read: "raid_read_bytes rd v off len = jbod_loop rd v [0..<num_disks v] off len"
      using assms(2,3) cap by (auto simp: raid_read_bytes_def Let_def)
    show ?thesis
    proof (cases "jbod_loop rd v [0..<num_disks v] off len")
      case (Inr r)
      then have "r = slice off len L"
        unfolding L(1) by (intro jbod_loop_sound [OF assms(1)]) simp_all
      with Inr True read show ?thesis by simp
    next
      case (Inl e)
      have "(\<exists>i \<in> set [0..<num_disks v]. weak_member v i) \<and> e = RuntimeError ''JBOD read failed: member unreadable''"
        using True L(1) by (intro jbod_loop_total [OF assms(1) _ order_refl _ Inl]) simp_all
      with Inl True read show ?thesis by auto
    qed
  qed
qed

text \<open>RAID 1E: both slots of every whole block hold it.\<close>

definition raid1e_array :: "vraid \<Rightarrow> buf \<Rightarrow> bool" where
  "raid1e_array v L \<longleftrightarrow>
     3 \<le> num_disks v \<and> length L = raid_rows v * num_disks v div 2 * block_size v
     \<and> raid_rows v * num_disks v < 2 ^ 64
     \<and> (\<forall>b < raid_rows v * num_disks v div 2. \<forall>c \<le> 1.
          row_block content v (loc_row (raid1e_copy b c (num_disks v))) (loc_disk (raid1e_copy b c (num_disks v)))
          = logical_block v L b)"

lemma raid1e_read:
  assumes arr: "array_ok ok content v" "raid1e_array v L" "level v = RAID1E" and len: "0 < len" "off + len \<le> length L"
  shows "case raid_read_bytes rd v off len of
      Inr r \<Rightarrow> r = slice off len L
    | Inl e \<Rightarrow> (\<exists>i j. i \<noteq> j \<and> weak_member v i \<and> weak_member v j)
        \<and> e = RuntimeError ''RAID 1E read failed: both copies unreadable''"
proof -
  let ?bs = "block_size v" and ?n = "num_disks v"
  let ?loc = "\<lambda>o1 c. raid1e_copy (o1 div ?bs) c ?n"
  have bs: "0 < ?bs" using arr(1) by (simp add: array_ok_def)
  have n: "3 \<le> ?n" and L: "length L = raid_rows v * ?n div 2 * ?bs" and slots: "raid_rows v * ?n < 2 ^ 64"
    using arr(2) by (simp_all add: raid1e_array_def)
  have "raid_rows v * ?n div 2 * ?bs \<le> raid_rows v * ?n * ?bs div 2"
    by (rule half_blocks)
  moreover have "capacity v = raid_rows v * ?n * ?bs div 2"
  proof -
    have fit: "raid_rows v * ?bs * ?n < 2 ^ 64" using arr(1) by (simp add: array_ok_def)
    have "capacity v = w64 (raid_rows v * ?bs * ?n) div 2"
      using arr(3) bs by (simp add: capacity_def Let_def flip: raid_rows_def)
    also have "\<dots> = raid_rows v * ?n * ?bs div 2"
      unfolding w64_id [OF fit] by (simp only: mult.assoc mult.commute [of ?bs ?n])
    finally show ?thesis .
  qed
  ultimately have cap: "length L \<le> capacity v" using L by simp
  have chunk: "raid1e_chunk rd v o1 m =
      (if \<exists>c \<le> 1. member_alive v (loc_disk (?loc o1 c)) (loc_row (?loc o1 c) * ?bs + o1 mod ?bs) m
       then Inr (slice o1 m L) else Inl (RuntimeError ''RAID 1E read failed: both copies unreadable''))
    \<and> loc_disk (?loc o1 0) \<noteq> loc_disk (?loc o1 1) \<and> (\<forall>c \<le> 1. loc_disk (?loc o1 c) < ?n)"
    if range: "0 < m" "o1 mod ?bs + m \<le> ?bs" "o1 + m \<le> length L" for o1 m
  proof -
    have "o1 < raid_rows v * ?n div 2 * ?bs" using range L by simp
    then have idx: "o1 div ?bs < raid_rows v * ?n div 2" using bs by (simp add: less_mult_imp_div_less)
    have copy: "loc_disk (?loc o1 c) < ?n" "loc_row (?loc o1 c) < raid_rows v"
      "loc_row (?loc o1 c) * ?n + loc_disk (?loc o1 c) = o1 div ?bs * 2 + c" if "c \<le> 1" for c
    proof -
      have "o1 div ?bs * 2 + c < raid_rows v * ?n" using idx that by simp
      then show "loc_disk (?loc o1 c) < ?n" "loc_row (?loc o1 c) < raid_rows v"
        "loc_row (?loc o1 c) * ?n + loc_disk (?loc o1 c) = o1 div ?bs * 2 + c"
        using n that slots by (simp_all add: raid1e_copy_def w64_id less_mult_imp_div_less Let_def)
    qed
    have read: "read_active rd v (loc_disk (?loc o1 c)) (loc_row (?loc o1 c) * ?bs + o1 mod ?bs) m
        = Inr (if member_alive v (loc_disk (?loc o1 c)) (loc_row (?loc o1 c) * ?bs + o1 mod ?bs) m
               then Some (slice o1 m L) else None)" if "c \<le> 1" for c
    proof -
      have "row_block content v (loc_row (?loc o1 c)) (loc_disk (?loc o1 c)) = logical_block v L (o1 div ?bs)"
        using arr(2) idx that unfolding raid1e_array_def by blast
      then show ?thesis
        using read_row [OF arr(1) copy(1,2) [OF that] range(2,1)] logical_block_slice [OF range(2)] by simp
    qed
    have "loc_disk (?loc o1 0) \<noteq> loc_disk (?loc o1 1)"
    proof
      assume eq: "loc_disk (?loc o1 0) = loc_disk (?loc o1 1)"
      have "loc_row (?loc o1 1) * ?n = loc_row (?loc o1 0) * ?n + 1"
        using copy(3) [of 0] copy(3) [of 1] eq by simp
      then have "?n dvd 1" by (metis dvd_add_right_iff dvd_triv_right)
      then show False using n by simp
    qed
    moreover have "raid1e_chunk rd v o1 m =
      (if \<exists>c \<le> 1. member_alive v (loc_disk (?loc o1 c)) (loc_row (?loc o1 c) * ?bs + o1 mod ?bs) m
       then Inr (slice o1 m L) else Inl (RuntimeError ''RAID 1E read failed: both copies unreadable''))"
    proof -
      have two: "(\<exists>c \<le> 1. P c) \<longleftrightarrow> P 0 \<or> P (1 :: nat)" for P by (auto simp: le_Suc_eq)
      have "\<not> ?n \<le> loc_disk (?loc o1 0)" "\<not> ?n \<le> loc_disk (?loc o1 1)" using copy(1) [of 0] copy(1) [of 1] by simp_all
      then show ?thesis
        unfolding two raid1e_chunk_def raid1e_try.simps Let_def
        by (simp only: read [of 0] read [of 1] le_numeral_extra zero_le order_refl if_False) simp
    qed
    ultimately show ?thesis using copy(1) by blast
  qed
  have loop: "raid_read_bytes rd v off len = stripe_loop ?bs (raid1e_chunk rd v) off len"
    using arr(3) len cap by (auto simp: raid_read_bytes_def Let_def)
  show ?thesis
  proof (cases "stripe_loop ?bs (raid1e_chunk rd v) off len")
    case (Inr r)
    have "r = slice off len L"
    proof (rule stripe_loop_sound [OF bs _ len(2) Inr])
      fix o1 m b
      assume range: "0 < m" "o1 mod ?bs + m \<le> ?bs" "o1 + m \<le> length L" and b: "raid1e_chunk rd v o1 m = Inr b"
      show "b = slice o1 m L"
        using b conjunct1 [OF chunk [OF range]] by (simp split: if_splits)
    qed
    with Inr loop show ?thesis by simp
  next
    case (Inl e)
    from stripe_loop_error [OF bs this] obtain o1 m where
      o1: "0 < m" "o1 mod ?bs + m \<le> ?bs" "o1 + m \<le> off + len" "raid1e_chunk rd v o1 m = Inl e" by blast
    have c: "loc_disk (?loc o1 0) \<noteq> loc_disk (?loc o1 1)" "\<forall>c \<le> 1. loc_disk (?loc o1 c) < ?n"
      "\<forall>c \<le> 1. \<not> member_alive v (loc_disk (?loc o1 c)) (loc_row (?loc o1 c) * ?bs + o1 mod ?bs) m"
      "e = RuntimeError ''RAID 1E read failed: both copies unreadable''"
      using chunk [OF o1(1,2)] o1(3,4) len(2) by (auto split: if_splits)
    have "weak_member v (loc_disk (?loc o1 0))" "weak_member v (loc_disk (?loc o1 1))"
      using c(2,3) unfolding weak_member_def by (blast intro: le_numeral_extra(3) le_numeral_extra(1) order_refl zero_le)+
    then show ?thesis using Inl loop c(1,4) by auto
  qed
qed

end

section \<open>Properties\<close>

text \<open>A member of an in-memory array is healthy when it is not marked failed and no fault is injected into it.\<close>

definition healthy :: "heap \<Rightarrow> vraid \<Rightarrow> nat \<Rightarrow> bool" where
  "healthy h v i \<longleftrightarrow> active v ! i
     \<and> fault_count (memory_volume h (members v ! i)) = 0 \<and> short_count (memory_volume h (members v ! i)) = 0"

lemma healthy_alive: "healthy h v i \<Longrightarrow> mem_source.member_alive h v i off len"
  by (simp add: healthy_def mem_source.member_alive_def memory_readable_def range_hit_def Let_def)

lemma weak_unhealthy: "mem_source.weak_member h v i \<Longrightarrow> i < num_disks v \<and> \<not> healthy h v i"
  by (auto simp: mem_source.weak_member_def healthy_alive)

text \<open>C7. A RAID 5 read over in-memory members never returns a wrong byte: whatever disks are
  marked failed and whatever ranges are unreadable, the result is the requested part of the
  logical volume or an error, and an in-range read fails only when two different members are
  damaged, so that any single loss is reconstructed.\<close>

theorem raid5_tolerates_one_loss:
  assumes "array_ok (memory_ok h) (memory_content h) v" "raid5_array (memory_content h) v L" "level v = RAID5" "0 < len"
  shows "case raid_read_bytes (read_sectors win h) v off len of
      Inr r \<Rightarrow> r = slice off len L \<and> off + len \<le> length L
    | Inl e \<Rightarrow> length L < off + len \<and> e = OutOfRange ''Read exceeds RAID capacity''
        \<or> (\<exists>i j. i \<noteq> j \<and> i < num_disks v \<and> j < num_disks v \<and> \<not> healthy h v i \<and> \<not> healthy h v j)"
  using mem_source.raid5_read [where win = win and off = off, OF assms]
  by (auto split: sum.splits dest!: weak_unhealthy)

definition demo_member :: "nat \<Rightarrow> reader" where
  "demo_member i = new_reader\<lparr>sector_size := 2, memory_mode := True, mem_ref := Some i, disk_size := 2\<rparr>"

definition demo_raid :: "raid_level \<Rightarrow> bool list \<Rightarrow> vraid" where
  "demo_raid lv act = (blank_raid lv 2 0 LeftAsymmetric [] [])\<lparr>vdisk_size := 2,
     members := map demo_member [0..<length act], active := act\<rparr>"

definition demo_images :: "buf list \<Rightarrow> heap" where
  "demo_images imgs = map new_volume imgs"

lemma demo_member_simps:
  "is_open (demo_member i)" "sector_bytes (demo_member i) = 2" "\<not> decrypting (demo_member i)"
  "memory_mode (demo_member i)" "mem_ref (demo_member i) = Some i" "get_disk_size (demo_member i) = 2"
  by (simp_all add: demo_member_def new_reader_def is_open_def sector_bytes_def decrypting_def
      has_xts_fvek_def get_disk_size_def)

lemma demo_raid_simps:
  "num_disks (demo_raid lv act) = length act" "block_size (demo_raid lv act) = 2" "level (demo_raid lv act) = lv"
  "active (demo_raid lv act) = act" "algorithm (demo_raid lv act) = LeftAsymmetric" "data_offset (demo_raid lv act) = 0"
  "act \<noteq> [] \<Longrightarrow> raid_rows (demo_raid lv act) = 1" "act \<noteq> [] \<Longrightarrow> member_base (demo_raid lv act) i = 0"
  "i < length act \<Longrightarrow> members (demo_raid lv act) ! i = demo_member i"
  by (simp_all add: demo_raid_def blank_raid_def num_disks_def raid_rows_def member_payload_bytes_def member_base_def)

lemma demo_volume: "i < length imgs \<Longrightarrow> memory_volume (demo_images imgs) (demo_member i) = new_volume (imgs ! i)"
  by (simp add: memory_volume_def demo_member_simps demo_images_def)

lemma demo_content:
  "i < length imgs \<Longrightarrow> length (imgs ! i) = 2 \<Longrightarrow> memory_content (demo_images imgs) (demo_member i) = imgs ! i"
  by (simp add: memory_content_def demo_volume new_volume_def plain_volume_plain demo_member_simps)

lemma demo_memory_ok:
  "i < length imgs \<Longrightarrow> length (imgs ! i) = 2 \<Longrightarrow> memory_ok (demo_images imgs) (demo_member i)"
  by (simp add: memory_ok_def demo_member_simps demo_images_def new_volume_def)

lemma must_be_Inr:
  "(case x of Inl e \<Rightarrow> Q e | Inr r \<Rightarrow> P r) \<Longrightarrow> (\<And>e. \<not> Q e) \<Longrightarrow> (\<And>r. P r \<Longrightarrow> r = y) \<Longrightarrow> x = Inr y"
  by (cases x) auto

lemma demo_array_ok:
  assumes "length act = length imgs" "0 < length imgs" "length imgs < 100" "\<forall>img \<in> set imgs. length img = 2"
  shows "array_ok (memory_ok (demo_images imgs)) (memory_content (demo_images imgs)) (demo_raid lv act)"
proof -
  have "act \<noteq> []" using assms by auto
  moreover have "length (imgs ! i) = 2" if "i < length imgs" for i using assms(4) that by simp
  moreover have "memory_ok (demo_images imgs) (demo_member i)" if "i < length imgs" for i
    using assms(4) that by (intro demo_memory_ok) simp_all
  ultimately show ?thesis
    using assms(1,3) by (simp add: array_ok_def Let_def demo_raid_simps demo_content demo_member_simps)
qed

lemma demo_row:
  assumes "i < length imgs" "length act = length imgs" "length (imgs ! i) = 2"
  shows "row_block (memory_content (demo_images imgs)) (demo_raid lv act) 0 i = imgs ! i"
  using assms by (cases act) (simp_all add: row_block_def member_data_def demo_raid_simps demo_content slice_def)

lemma demo_healthy:
  "i < length imgs \<Longrightarrow> length act = length imgs \<Longrightarrow> healthy (demo_images imgs) (demo_raid lv act) i = act ! i"
  by (simp add: healthy_def demo_raid_simps demo_volume new_volume_def)

theorem raid5_tolerates_one_loss_witness:
  "raid_read_bytes (read_sectors no_win (demo_images [[1, 2], [3, 4], [2, 6]])) (demo_raid RAID5 [False, True, True]) 0 2
    = Inr [1, 2]"
proof -
  let ?imgs = "[[1, 2], [3, 4], [2, 6]] :: buf list" and ?v = "demo_raid RAID5 [False, True, True]"
  let ?L = "[1, 2, 3, 4] :: buf"
  have ok: "array_ok (memory_ok (demo_images ?imgs)) (memory_content (demo_images ?imgs)) ?v"
    by (rule demo_array_ok) simp_all
  have row: "row_block (memory_content (demo_images ?imgs)) ?v 0 i = ?imgs ! i" if "i < 3" for i
    using that by (intro demo_row) (auto simp: less_Suc_eq numeral_eq_Suc)
  have n: "num_disks ?v = 3" "raid_rows ?v = 1" "block_size ?v = 2" "algorithm ?v = LeftAsymmetric" "level ?v = RAID5"
    by (simp_all add: demo_raid_simps)
  have blocks: "logical_block ?v ?L 0 = [1, 2]" "logical_block ?v ?L (Suc 0) = [3, 4]"
    by (simp_all add: logical_block_def demo_raid_simps slice_def)
  have disks: "raid5_parity_disk 0 3 LeftAsymmetric = 2" "raid5_data_disk 0 0 3 LeftAsymmetric = 0"
    "raid5_data_disk 0 (Suc 0) 3 LeftAsymmetric = Suc 0"
    by (simp_all add: raid5_parity_disk_def raid5_data_disk_def w32_def)
  have two: "(\<forall>b < 2. P b) \<longleftrightarrow> P 0 \<and> P (Suc 0)" for P by (auto simp: less_Suc_eq numeral_2_eq_2)
  have parity: "parity_of 2 (map (logical_block ?v ?L) [0..<2]) = [2, 6]"
    by (simp add: numeral_2_eq_2 blocks parity_of_def xor_bytes_def)
  have arr: "raid5_array (memory_content (demo_images ?imgs)) ?v ?L"
    unfolding raid5_array_def Let_def n
    using row [of 0] row [of 1] row [of 2] by (simp add: two disks blocks parity)
  have "\<not> (i \<noteq> j \<and> i < 3 \<and> j < 3 \<and> \<not> healthy (demo_images ?imgs) ?v i \<and> \<not> healthy (demo_images ?imgs) ?v j)" for i j
    by (auto simp: less_Suc_eq numeral_eq_Suc demo_healthy)
  then show ?thesis
    using raid5_tolerates_one_loss [where win = no_win and off = 0 and len = 2, OF ok arr n(5)]
    by (auto simp: slice_def n split: sum.splits)
qed

text \<open>C6. A RAID 6 read over in-memory members is exact: it returns the requested part of the
  logical volume or an error, under any pattern of damage, and with up to 257 members it
  succeeds for every in-range request while at most two members are marked failed and the
  others are readable, whichever two they are (data, P or Q).\<close>

theorem raid6_tolerates_two_losses:
  assumes "array_ok (memory_ok h) (memory_content h) v" "raid6_array (memory_content h) v L" "level v = RAID6" "0 < len"
  shows "case raid_read_bytes (read_sectors win h) v off len of
      Inr r \<Rightarrow> r = slice off len L \<and> off + len \<le> length L
    | Inl e \<Rightarrow> length L < off + len \<and> e = OutOfRange ''Read exceeds RAID capacity''
        \<or> num_disks v > 257 \<or> card {i. i < num_disks v \<and> \<not> active v ! i} > 2
        \<or> (\<exists>i < num_disks v. active v ! i \<and> \<not> healthy h v i)"
proof -
  have "mem_source.tolerable h v" if "card {i. i < num_disks v \<and> \<not> active v ! i} \<le> 2"
    "\<And>i. i < num_disks v \<Longrightarrow> active v ! i \<Longrightarrow> healthy h v i"
    using that healthy_alive by (simp add: mem_source.tolerable_def)
  then show ?thesis
    using mem_source.raid6_read [where win = win and off = off, OF assms]
    by (fastforce split: sum.splits simp: not_le)
qed

theorem raid6_tolerates_two_losses_witness:
  "raid_read_bytes (read_sectors no_win (demo_images [[1, 2], [3, 4], [7, 10], [2, 6]]))
     (demo_raid RAID6 [False, False, True, True]) 0 4 = Inr [1, 2, 3, 4]"
proof -
  let ?imgs = "[[1, 2], [3, 4], [7, 10], [2, 6]] :: buf list" and ?v = "demo_raid RAID6 [False, False, True, True]"
  let ?L = "[1, 2, 3, 4] :: buf"
  have ok: "array_ok (memory_ok (demo_images ?imgs)) (memory_content (demo_images ?imgs)) ?v"
    by (rule demo_array_ok) simp_all
  have row: "row_block (memory_content (demo_images ?imgs)) ?v 0 i = ?imgs ! i" if "i < 4" for i
    using that by (intro demo_row) (auto simp: less_Suc_eq numeral_eq_Suc)
  have n: "num_disks ?v = 4" "raid_rows ?v = 1" "block_size ?v = 2" "level ?v = RAID6" "active ?v = [False, False, True, True]"
    by (simp_all add: demo_raid_simps)
  have blocks: "logical_block ?v ?L 0 = [1, 2]" "logical_block ?v ?L (Suc 0) = [3, 4]"
    by (simp_all add: logical_block_def demo_raid_simps slice_def)
  have disks: "pDisk (raid6_disks 0 4) = 3" "qDisk (raid6_disks 0 4) = 2"
    by (simp_all add: raid6_disks_def)
  have data: "raid6_data_disk 0 0 4 = 0" "raid6_data_disk 0 (Suc 0) 4 = Suc 0"
    by (simp_all add: raid6_data_disk_def raid6_walk.simps [of _ _ 4] disks)
  have two: "(\<forall>b < 2. P b) \<longleftrightarrow> P 0 \<and> P (Suc 0)" for P by (auto simp: less_Suc_eq numeral_2_eq_2)
  have "gf_mul 3 2 = 6 \<and> gf_mul 4 2 = 8 \<and> gf_mul 1 1 = 1 \<and> gf_mul 2 1 = 2"
    unfolding gf_mul_poly by code_simp
  moreover have "gf_pow (int 0) = 1" "gf_pow (int (Suc 0)) = 2"
    unfolding gf_pow_nat by (simp_all add: gen_pow_def xtimes_def)
  ultimately have parity: "parity_of 2 (map (logical_block ?v ?L) [0..<2]) = [2, 6]"
    "parity_of 2 (map (\<lambda>b. scale_buf (gf_pow (int b)) (logical_block ?v ?L b)) [0..<2]) = [7, 10]"
    by (simp_all add: numeral_2_eq_2 blocks parity_of_def xor_bytes_def scale_buf_def)
  have arr: "raid6_array (memory_content (demo_images ?imgs)) ?v ?L"
    unfolding raid6_array_def Let_def n
    using row [of 0] row [of 1] row [of 2] row [of 3] by (simp add: two disks data blocks parity)
  have healthy: "healthy (demo_images ?imgs) ?v i \<longleftrightarrow> [False, False, True, True] ! i" if "i < 4" for i
    using that by (intro demo_healthy) simp_all
  have "{i. i < 4 \<and> \<not> [False, False, True, True] ! i} = {0, 1}"
    by (auto simp: less_Suc_eq numeral_eq_Suc)
  then have "card {i. i < 4 \<and> \<not> [False, False, True, True] ! i} = 2" by simp
  then show ?thesis
    using raid6_tolerates_two_losses [where win = no_win and off = 0 and len = 4, OF ok arr n(4)] healthy
    by (auto simp: slice_def n split: sum.splits)
qed

text \<open>RAID 0 and RAID 10 reads never invent data: an in-range RAID 0 read either returns
  the requested slice or throws because a member is damaged (never zeros), and an in-range
  RAID 10 read throws only when both members of one mirror pair are damaged.\<close>

lemma mirrored_stripes_read:
  assumes "array_ok (memory_ok h) (memory_content h) v" "0 < len"
    and "level v = RAID0 \<and> pairs = num_disks v \<and> disks = (\<lambda>b. {b})
      \<or> level v = RAID10 \<and> pairs = num_disks v div 2 \<and> disks = (\<lambda>b. {2 * b, 2 * b + 1})"
    and "mem_source.striped_array h pairs disks v L"
  shows "case raid_read_bytes (read_sectors win h) v off len of
      Inr r \<Rightarrow> r = slice off len L \<and> off + len \<le> length L
    | Inl e \<Rightarrow> length L < off + len \<and> e = OutOfRange ''Read exceeds RAID capacity''
        \<or> off + len \<le> length L \<and> (\<exists>b. \<forall>i \<in> disks b. i < num_disks v \<and> \<not> healthy h v i)"
  using assms(3)
proof
  assume lv: "level v = RAID0 \<and> pairs = num_disks v \<and> disks = (\<lambda>b. {b})"
  then have "case raid_read_bytes (read_sectors win h) v off len of
      Inr r \<Rightarrow> r = slice off len L \<and> off + len \<le> length L
    | Inl e \<Rightarrow> length L < off + len \<and> e = OutOfRange ''Read exceeds RAID capacity''
        \<or> off + len \<le> length L \<and> (\<exists>i. mem_source.weak_member h v i)
          \<and> e = RuntimeError ''RAID 0 read failed: member unreadable''"
    using assms(1,2,4) by (intro mem_source.raid0_read) simp_all
  with lv show ?thesis
    by (auto split: sum.splits dest!: weak_unhealthy)
next
  assume lv: "level v = RAID10 \<and> pairs = num_disks v div 2 \<and> disks = (\<lambda>b. {2 * b, 2 * b + 1})"
  then have "case raid_read_bytes (read_sectors win h) v off len of
      Inr r \<Rightarrow> r = slice off len L \<and> off + len \<le> length L
    | Inl e \<Rightarrow> length L < off + len \<and> e = OutOfRange ''Read exceeds RAID capacity''
        \<or> off + len \<le> length L \<and> (\<exists>b. mem_source.weak_member h v (2 * b) \<and> mem_source.weak_member h v (2 * b + 1))
          \<and> e = RuntimeError ''RAID 10 read failed: both members of a mirror pair failed''"
    using assms(1,2,4) by (intro mem_source.raid10_read) simp_all
  with lv show ?thesis
    by (auto split: sum.splits dest!: weak_unhealthy)
qed

lemma mirrored_stripes_read_witness:
  "raid_read_bytes (read_sectors no_win (demo_images [[1, 2], [1, 2], [3, 4], [3, 4]]))
     (demo_raid RAID10 [False, True, True, False]) 1 3 = Inr [2, 3, 4]"
proof -
  let ?imgs = "[[1, 2], [1, 2], [3, 4], [3, 4]] :: buf list" and ?v = "demo_raid RAID10 [False, True, True, False]"
  let ?L = "[1, 2, 3, 4] :: buf" and ?disks = "\<lambda>b :: nat. {2 * b, 2 * b + 1}"
  have ok: "array_ok (memory_ok (demo_images ?imgs)) (memory_content (demo_images ?imgs)) ?v"
    by (rule demo_array_ok) simp_all
  have row: "row_block (memory_content (demo_images ?imgs)) ?v 0 i = ?imgs ! i" if "i < 4" for i
    using that by (intro demo_row) (auto simp: less_Suc_eq numeral_eq_Suc)
  have n: "num_disks ?v = 4" "raid_rows ?v = 1" "block_size ?v = 2" "level ?v = RAID10"
    by (simp_all add: demo_raid_simps)
  have blocks: "logical_block ?v ?L 0 = [1, 2]" "logical_block ?v ?L (Suc 0) = [3, 4]"
    by (simp_all add: logical_block_def demo_raid_simps slice_def)
  have two: "(\<forall>b < 2. P b) \<longleftrightarrow> P 0 \<and> P (Suc 0)" for P by (auto simp: less_Suc_eq numeral_2_eq_2)
  have arr: "mem_source.striped_array (demo_images ?imgs) 2 ?disks ?v ?L"
    unfolding mem_source.striped_array_def n
    using row [of 0] row [of 1] row [of 2] row [of 3] by (simp add: two blocks)
  have healthy: "healthy (demo_images ?imgs) ?v i \<longleftrightarrow> [False, True, True, False] ! i" if "i < 4" for i
    using that by (intro demo_healthy) simp_all
  have no: "\<not> (\<forall>i \<in> ?disks b. i < num_disks ?v \<and> \<not> healthy (demo_images ?imgs) ?v i)" for b
    unfolding n using healthy [of 1] healthy [of 2] by (cases "b = 0"; cases "b = 1") auto
  have "case raid_read_bytes (read_sectors no_win (demo_images ?imgs)) ?v 1 3 of
      Inr r \<Rightarrow> r = slice 1 3 ?L \<and> 1 + 3 \<le> length ?L
    | Inl e \<Rightarrow> length ?L < 1 + 3 \<and> e = OutOfRange ''Read exceeds RAID capacity''
        \<or> 1 + 3 \<le> length ?L \<and> (\<exists>b. \<forall>i \<in> ?disks b. i < num_disks ?v \<and> \<not> healthy (demo_images ?imgs) ?v i)"
    by (rule mirrored_stripes_read [OF ok _ _ arr]) (simp_all add: n)
  then show ?thesis
  proof (rule must_be_Inr)
    show "\<not> (length ?L < 1 + 3 \<and> e = OutOfRange ''Read exceeds RAID capacity''
        \<or> 1 + 3 \<le> length ?L \<and> (\<exists>b. \<forall>i \<in> ?disks b. i < num_disks ?v \<and> \<not> healthy (demo_images ?imgs) ?v i))" for e
      using no by (simp del: ball_simps)
  qed (simp add: slice_def)
qed

text \<open>A JBOD read returns the requested slice of the concatenated member extents (per-member
  offsets and lengths applied), across any number of member boundaries, or fails because
  some member is damaged or the range ends beyond the capacity.\<close>

lemma jbod_reads_concatenation:
  assumes "mem_source.members_ok h v len" "level v = JBOD" "0 < len"
    and "L = concat (map (mem_source.extent_data h v) [0..<num_disks v])" "length L < 2 ^ 64"
  shows "case raid_read_bytes (read_sectors win h) v off len of
      Inr r \<Rightarrow> r = slice off len L \<and> off + len \<le> length L
    | Inl e \<Rightarrow> length L < off + len \<and> e = OutOfRange ''Read exceeds RAID capacity''
        \<or> off + len \<le> length L \<and> (\<exists>i < num_disks v. \<not> healthy h v i)"
  using mem_source.jbod_read [where win = win and off = off, OF assms]
  by (auto split: sum.splits dest!: weak_unhealthy)

lemma jbod_reads_concatenation_witness:
  "raid_read_bytes (read_sectors no_win (demo_images [[1, 2], [3, 4]])) (demo_raid JBOD [True, True]) 1 2 = Inr [2, 3]"
proof -
  let ?imgs = "[[1, 2], [3, 4]] :: buf list" and ?v = "demo_raid JBOD [True, True]"
  have n: "num_disks ?v = 2" "level ?v = JBOD" "active ?v = [True, True]" "data_offset ?v = 0" "member_lengths ?v = []"
    "\<And>i. member_base ?v i = 0"
    by (simp_all add: demo_raid_simps) (simp add: demo_raid_def blank_raid_def)
  have m: "members ?v ! i = demo_member i" if "i < 2" for i using that by (simp add: demo_raid_simps)
  have ok: "memory_ok (demo_images ?imgs) (demo_member i)" if "i < 2" for i
    using that by (intro demo_memory_ok) (auto simp: less_Suc_eq numeral_2_eq_2)
  have content: "memory_content (demo_images ?imgs) (demo_member i) = ?imgs ! i" if "i < 2" for i
    using that by (intro demo_content) (auto simp: less_Suc_eq numeral_2_eq_2)
  have len: "length (?imgs ! i) = 2" if "i < 2" for i using that by (auto simp: less_Suc_eq numeral_2_eq_2)
  have mok: "mem_source.members_ok (demo_images ?imgs) ?v 2"
    unfolding mem_source.members_ok_def n Let_def using len by (simp add: m ok content demo_member_simps)
  have ext: "mem_source.extent_data (demo_images ?imgs) ?v i = ?imgs ! i" if "i < 2" for i
    using that by (simp add: mem_source.extent_data_def member_extent_bytes_def member_data_def n m content len demo_member_simps)
  have L: "concat (map (mem_source.extent_data (demo_images ?imgs) ?v) [0..<num_disks ?v]) = [1, 2, 3, 4]"
    unfolding n using ext [of 0] ext [of 1] by (simp add: numeral_2_eq_2)
  have "healthy (demo_images ?imgs) ?v i" if "i < 2" for i
    using that demo_healthy [of i ?imgs "[True, True]" JBOD] by (auto simp: less_Suc_eq numeral_2_eq_2)
  then show ?thesis
    using jbod_reads_concatenation [where win = no_win and off = 1, OF mok n(2) _ L [symmetric]]
    by (auto simp: slice_def n split: sum.splits)
qed

end
