(* ===== verification/Fat_Chain.thy ===== *)
theory Fat_Chain
  imports Prelude
begin

text \<open>
  FAT timestamps and cluster chains (fs/fat\_chain.cpp, include/fs/fat\_chain.h): the DOS
  date/time conversion, compared with the Gregorian calendar written out year by year and
  month by month, and the walk over a cluster chain, whose table reader is an argument of
  the model.  Sector numbers are 64-bit words, so \<open>dataStartSector + (clus - 2) * spc\<close>
  wraps as it does in the code.
\<close>

section \<open>Timestamps\<close>

text \<open>Days since 1970-01-01 by era, year of era and day of the shifted year.\<close>

definition days_from_civil :: "int \<Rightarrow> int \<Rightarrow> int \<Rightarrow> int" where
  "days_from_civil year month day =
     (let y = (if month \<le> 2 then year - 1 else year);
          era = (if y \<ge> 0 then y else y - 399) div 400;
          yoe = y - era * 400;
          doy = (153 * (month + (if month > 2 then -3 else 9)) + 2) div 5 + day - 1;
          doe = yoe * 365 + yoe div 4 - yoe div 100 + doy
      in era * 146097 + doe - 719468)"

definition dos_timestamp_to_unix :: "16 word \<Rightarrow> 16 word \<Rightarrow> int" where
  "dos_timestamp_to_unix dos_date dos_time =
     (let year = uint (drop_bit 9 dos_date AND 0x7F) + 1980;
          month = uint (drop_bit 5 dos_date AND 0x0F);
          day = uint (dos_date AND 0x1F);
          hour = uint (drop_bit 11 dos_time AND 0x1F);
          minute = uint (drop_bit 5 dos_time AND 0x3F);
          second = uint (dos_time AND 0x1F) * 2
      in if month < 1 \<or> month > 12 \<or> day < 1 \<or> day > 31 then 0
         else days_from_civil year month day * 86400 + hour * 3600 + minute * 60 + second)"

section \<open>Cluster chains\<close>

record chain_run =
  start_sector :: u64
  sector_count :: u64

definition fat_unread :: u32 where
  "fat_unread = 0xFFFFFFF1"

definition is_eoc :: "int \<Rightarrow> u32 \<Rightarrow> bool" where
  "is_eoc fat_bits v =
     (if fat_bits = 12 then v \<ge> 0xFF8 else if fat_bits = 16 then v \<ge> 0xFFF8 else v \<ge> 0x0FFFFFF8)"

definition is_bad :: "int \<Rightarrow> u32 \<Rightarrow> bool" where
  "is_bad fat_bits v =
     (if fat_bits = 12 then v = 0xFF7 else if fat_bits = 16 then v = 0xFFF7 else v = 0x0FFFFFF7)"

definition cluster_run :: "u64 \<Rightarrow> u32 \<Rightarrow> u32 \<Rightarrow> chain_run" where
  "cluster_run data_start spc clus =
     \<lparr>start_sector = data_start + ucast (clus - 2) * ucast spc, sector_count = ucast spc\<rparr>"

text \<open>
  The loop of \<open>chainRuns\<close>; \<open>seen\<close> is the vector the cycle guard searches.  Every
  iteration adds a run, so the room left under \<open>max_clusters\<close> is a measure.
\<close>

function chain_loop :: "(u32 \<Rightarrow> u32) \<Rightarrow> int \<Rightarrow> u32 \<Rightarrow> u64 \<Rightarrow> nat \<Rightarrow> u32 \<Rightarrow> u32 list \<Rightarrow> chain_run list
    \<Rightarrow> chain_run list \<times> bool" where
  "chain_loop read_entry fat_bits spc data_start max_clusters clus seen runs =
     (if clus \<ge> 2 \<and> \<not> is_eoc fat_bits clus \<and> length runs < max_clusters
      then if clus \<in> set seen then (runs, False)
           else let runs1 = runs @ [cluster_run data_start spc clus];
                    nxt = read_entry clus
                in if nxt = fat_unread then (runs1, True)
                   else if nxt < 2 \<or> is_bad fat_bits nxt then (runs1, False)
                   else chain_loop read_entry fat_bits spc data_start max_clusters nxt (seen @ [clus]) runs1
      else (runs, False))"
  by pat_completeness auto
termination
  by (relation "measure (\<lambda>(rd, bits, spc, ds, m, c, seen, runs). m - length runs)") auto

declare chain_loop.simps [simp del]

definition chain_runs :: "(u32 \<Rightarrow> u32) option \<Rightarrow> int \<Rightarrow> u32 \<Rightarrow> u32 \<Rightarrow> u64 \<Rightarrow> nat \<Rightarrow> chain_run list \<times> bool" where
  "chain_runs read_entry fat_bits first spc data_start max_clusters =
     (case read_entry of
        None \<Rightarrow> ([], False)
      | Some rd \<Rightarrow>
          if first < 2 \<or> spc = 0 then ([], False)
          else chain_loop rd fat_bits spc data_start max_clusters first [] [])"

section \<open>The calendar\<close>

definition leap_year :: "int \<Rightarrow> bool" where
  "leap_year y \<longleftrightarrow> 4 dvd y \<and> (100 dvd y \<longrightarrow> 400 dvd y)"

definition year_length :: "int \<Rightarrow> int" where
  "year_length y = (if leap_year y then 366 else 365)"

definition month_length :: "int \<Rightarrow> int \<Rightarrow> int" where
  "month_length y m = (if m = 2 then if leap_year y then 29 else 28
     else if m = 4 \<or> m = 6 \<or> m = 9 \<or> m = 11 then 30 else 31)"

definition calendar_days :: "int \<Rightarrow> int \<Rightarrow> int \<Rightarrow> int" where
  "calendar_days y m d = (\<Sum>k \<in> {1970..<y}. year_length k) + (\<Sum>k \<in> {1..<m}. month_length y k) + (d - 1)"

definition leaps_before :: "int \<Rightarrow> int" where
  "leaps_before y = (y - 1) div 4 - (y - 1) div 100 + (y - 1) div 400"

lemma div_step:
  assumes "0 < (b :: int)"
  shows "y div b = (y - 1) div b + (if b dvd y then 1 else 0)"
proof -
  define q r where "q = (y - 1) div b" and "r = (y - 1) mod b"
  have y: "y = b * q + (r + 1)" and r: "0 \<le> r" "r < b"
    using assms mult_div_mod_eq [of b "y - 1"] by (auto simp: q_def r_def)
  show ?thesis
  proof (cases "r + 1 = b")
    case True
    then have "y = b * (q + 1)" using y by (simp add: algebra_simps)
    then have "b dvd y" "y div b = q + 1" using assms by (auto simp: nonzero_mult_div_cancel_left)
    then show ?thesis unfolding q_def by simp
  next
    case False
    then have "y div b = q" "y mod b = r + 1"
      using y r by (auto intro: int_div_pos_eq int_mod_pos_eq)
    then show ?thesis using r q_def by (auto simp: dvd_eq_mod_eq_0)
  qed
qed

lemma leaps_before_step: "leaps_before (y + 1) = leaps_before y + (if leap_year y then 1 else 0)"
proof -
  have "400 dvd y \<Longrightarrow> 100 dvd y" "100 dvd y \<Longrightarrow> 4 dvd y"
    by (auto elim!: dvd_trans [rotated])
  then have "(if 4 dvd y then 1 else 0) - (if 100 dvd y then 1 else 0) + (if 400 dvd y then 1 else 0)
      = (if leap_year y then 1 else 0 :: int)"
    by (auto simp only: leap_year_def split: if_splits)
  moreover have "leaps_before (y + 1) = y div 4 - y div 100 + y div 400"
    by (simp only: leaps_before_def add_diff_cancel_right')
  ultimately show ?thesis
    using div_step [of 4 y] div_step [of 100 y] div_step [of 400 y] leaps_before_def [of y]
    by linarith
qed

lemma years_sum: "(\<Sum>k \<in> {1970..<1970 + int n}. year_length k) = 365 * int n + leaps_before (1970 + int n) - 477"
proof (induction n)
  case 0
  then show ?case by (simp add: leaps_before_def)
next
  case (Suc n)
  have "{1970..<1970 + int (Suc n)} = insert (1970 + int n) {1970..<1970 + int n}" by auto
  moreover have "leaps_before (1970 + int (Suc n)) = leaps_before (1970 + int n) + (if leap_year (1970 + int n) then 1 else 0)"
    using leaps_before_step [of "1970 + int n"] by (simp add: add.commute add.left_commute)
  ultimately show ?case
    using Suc.IH by (simp add: year_length_def)
qed

lemma months_sum:
  assumes "1 \<le> m" "m \<le> 12"
  shows "(\<Sum>k \<in> {1..<m}. month_length y k) =
    (if m \<le> 2 then 31 * (m - 1) else (153 * (m - 3) + 2) div 5 + 59 + (if leap_year y then 1 else 0))"
proof -
  have step: "(\<Sum>k \<in> {1..<j + 1}. month_length y k) = (\<Sum>k \<in> {1..<j}. month_length y k) + month_length y j"
    if "1 \<le> j" for j :: int
  proof -
    have "{1..<j + 1} = insert j {1..<j}" using that by auto
    then show ?thesis by simp
  qed
  have "m = 1 \<or> m = 2 \<or> m = 3 \<or> m = 4 \<or> m = 5 \<or> m = 6 \<or> m = 7 \<or> m = 8 \<or> m = 9 \<or> m = 10 \<or> m = 11 \<or> m = 12"
    using assms by presburger
  moreover have "(\<Sum>k \<in> {1..<1 :: int}. month_length y k) = 0" by simp
  moreover note step [of 1, simplified] step [of 2, simplified] step [of 3, simplified] step [of 4, simplified]
    step [of 5, simplified] step [of 6, simplified] step [of 7, simplified] step [of 8, simplified]
    step [of 9, simplified] step [of 10, simplified] step [of 11, simplified]
  ultimately show ?thesis
    by (elim disjE) (simp_all add: month_length_def)
qed

lemma days_from_civil_calendar:
  assumes "1970 \<le> y" "1 \<le> m" "m \<le> 12"
  shows "days_from_civil y m d = calendar_days y m d"
proof -
  have years: "(\<Sum>k \<in> {1970..<y}. year_length k) = 365 * (y - 1970) + leaps_before y - 477"
    using years_sum [of "nat (y - 1970)"] assms(1) by simp
  define z where "z = (if m \<le> 2 then y - 1 else y)"
  have "days_from_civil y m d = 365 * z + z div 4 - z div 100 + z div 400
      + (153 * (m + (if m > 2 then -3 else 9)) + 2) div 5 + d - 1 - 719468"
  proof -
    have z: "0 \<le> z" using assms(1) by (simp add: z_def)
    have "(z - z div 400 * 400) div 4 = z div 4 - 100 * (z div 400)"
      "(z - z div 400 * 400) div 100 = z div 100 - 4 * (z div 400)"
      using div_mult_self1 [of 4 z "- (100 * (z div 400))"] div_mult_self1 [of 100 z "- (4 * (z div 400))"]
      by (simp_all add: mult.commute)
    with z show ?thesis
      unfolding days_from_civil_def Let_def z_def [symmetric] by simp
  qed
  moreover have "leaps_before y = (y - 1) div 4 - (y - 1) div 100 + (y - 1) div 400" by (rule leaps_before_def)
  moreover have "y div 4 - y div 100 + y div 400 = leaps_before y + (if leap_year y then 1 else 0)"
    using leaps_before_step [of y] by (simp add: leaps_before_def)
  moreover have "(153 * (m + 9) + 2) div 5 = 31 * (m - 1) + 306" if "m \<le> 2"
  proof -
    have "m = 1 \<or> m = 2" using that assms(2) by auto
    then show ?thesis by auto
  qed
  ultimately show ?thesis
    unfolding calendar_days_def months_sum [OF assms(2,3)] years
    by (cases "m \<le> 2") (auto simp: z_def)
qed

lemma mask_bound: "uint (x AND 0x7F :: 16 word) \<le> 127" "uint (x AND 0x0F :: 16 word) \<le> 15"
  "uint (x AND 0x1F :: 16 word) \<le> 31" "0 \<le> uint (x AND m :: 16 word)"
  by (auto simp: uint_and AND_upper2')

text \<open>The DOS timestamp conversion agrees with the Gregorian calendar: for a month in 1..12
  and a day in 1..31 the result is the number of seconds obtained by adding up the lengths of
  the years since 1970 and of the months of the year (including the century rule for 2000 and
  2100), and every other date gives 0.\<close>

lemma dos_timestamp_is_calendar_time:
  "dos_timestamp_to_unix date time =
    (let y = 1980 + uint (drop_bit 9 date AND 0x7F);
         m = uint (drop_bit 5 date AND 0x0F); d = uint (date AND 0x1F)
     in if 1 \<le> m \<and> m \<le> 12 \<and> 1 \<le> d
        then 86400 * calendar_days y m d + 3600 * uint (drop_bit 11 time AND 0x1F)
          + 60 * uint (drop_bit 5 time AND 0x3F) + 2 * uint (time AND 0x1F)
        else 0)"
proof -
  have "uint (date AND 0x1F) \<le> 31" "0 \<le> uint (drop_bit 9 date AND 0x7F)"
    by (rule mask_bound)+
  then show ?thesis
    unfolding dos_timestamp_to_unix_def Let_def
    by (auto simp: days_from_civil_calendar not_le not_less add.commute)
qed

section \<open>The chain walk\<close>

text \<open>The clusters the walk follows: \<open>n\<close> table lookups from \<open>c\<close>.\<close>

definition cluster_at :: "(u32 \<Rightarrow> u32) \<Rightarrow> u32 \<Rightarrow> nat \<Rightarrow> u32" where
  "cluster_at rd c n = (rd ^^ n) c"

definition usable :: "int \<Rightarrow> u32 \<Rightarrow> bool" where
  "usable bits c \<longleftrightarrow> 2 \<le> c \<and> \<not> is_eoc bits c"

text \<open>The reasons for which the walk of \<open>chainRuns\<close> may stop after \<open>k\<close> clusters.\<close>

definition chain_ends :: "(u32 \<Rightarrow> u32) \<Rightarrow> int \<Rightarrow> u32 \<Rightarrow> nat \<Rightarrow> nat \<Rightarrow> bool" where
  "chain_ends rd bits c max_clusters k \<longleftrightarrow>
     k = max_clusters \<or> \<not> usable bits (cluster_at rd c k)
     \<or> 0 < k \<and> (cluster_at rd c k = fat_unread \<or> is_bad bits (cluster_at rd c k))
     \<or> (\<exists>i < k. cluster_at rd c i = cluster_at rd c k)"

lemma chain_loop_spec:
  assumes "seen = map (cluster_at rd c) [0..<n]" "runs = map (cluster_run ds spc) seen"
    and "distinct seen" "list_all (usable bits) seen" "n \<le> m"
    and "clus = cluster_at rd c n" "0 < n \<Longrightarrow> clus \<noteq> fat_unread"
  shows "\<exists>k. k \<le> m \<and> chain_loop rd bits spc ds m clus seen runs
      = (map (\<lambda>i. cluster_run ds spc (cluster_at rd c i)) [0..<k], 0 < k \<and> cluster_at rd c k = fat_unread)
    \<and> distinct (map (cluster_at rd c) [0..<k]) \<and> list_all (usable bits) (map (cluster_at rd c) [0..<k])
    \<and> chain_ends rd bits c m k"
  using assms
proof (induction "m - n" arbitrary: n clus seen runs rule: less_induct)
  case less
  note step = chain_loop.simps [of rd bits spc ds m clus seen runs]
  have len: "length runs = n" and runs: "runs = map (\<lambda>i. cluster_run ds spc (cluster_at rd c i)) [0..<n]"
    using less.prems by simp_all
  have stop: ?case
    if "chain_loop rd bits spc ds m clus seen runs = (runs, False)" "chain_ends rd bits c m n"
    using that less.prems runs by (intro exI [of _ n]) (auto simp: o_def)
  show ?case
  proof (cases "2 \<le> clus \<and> \<not> is_eoc bits clus \<and> n < m")
    case False
    then show ?thesis
      using less.prems step len by (intro stop) (auto simp: chain_ends_def usable_def)
  next
    case go: True
    show ?thesis
    proof (cases "clus \<in> set seen")
      case True
      then show ?thesis
        using go less.prems step len by (intro stop) (auto simp: chain_ends_def image_iff)
    next
      case new: False
      let ?n = "Suc n" and ?seen = "seen @ [clus]" and ?runs = "runs @ [cluster_run ds spc clus]"
      let ?next = "rd clus"
      have next': "cluster_at rd c ?n = ?next" using less.prems(6) by (simp add: cluster_at_def)
      have inv: "?seen = map (cluster_at rd c) [0..<?n]" "?runs = map (cluster_run ds spc) ?seen"
        "distinct ?seen" "list_all (usable bits) ?seen" "?n \<le> m"
        using less.prems go new by (auto simp: usable_def)
      have runs': "?runs = map (\<lambda>i. cluster_run ds spc (cluster_at rd c i)) [0..<?n]"
        using inv(1,2) by (simp add: o_def)
      have unfold: "chain_loop rd bits spc ds m clus seen runs =
          (if ?next = fat_unread then (?runs, True)
           else if ?next < 2 \<or> is_bad bits ?next then (?runs, False)
           else chain_loop rd bits spc ds m ?next ?seen ?runs)"
        using step go new len by (simp add: Let_def)
      show ?thesis
      proof (cases "?next = fat_unread \<or> ?next < 2 \<or> is_bad bits ?next")
        case True
        then have "chain_ends rd bits c m ?n"
          using next' by (auto simp: chain_ends_def usable_def not_le)
        moreover have "chain_loop rd bits spc ds m clus seen runs = (?runs, ?next = fat_unread)"
          using True unfold by auto
        ultimately show ?thesis
          using inv next' runs' by (intro exI [of _ ?n]) (simp del: upt_Suc)
      next
        case False
        then have "chain_loop rd bits spc ds m clus seen runs = chain_loop rd bits spc ds m ?next ?seen ?runs"
          using unfold by simp
        moreover have "m - ?n < m - n" using go by (intro diff_less_mono2) simp_all
        ultimately show ?thesis
          using less.hyps [of ?n ?seen ?runs ?next] inv next' False by simp
      qed
    qed
  qed
qed

text \<open>C8. The chain walk always returns, with exactly the runs of the first k clusters of the
  chain for some k within the limit: the clusters are pairwise different data clusters, the walk
  stops there only for one of the documented reasons (limit, end-of-chain or reserved value,
  bad-cluster marker, unreadable table entry, repeated cluster), and the unread flag is set
  exactly when the entry after the last run could not be read.\<close>

theorem chain_runs_follow_the_chain:
  assumes "2 \<le> first" "spc \<noteq> 0"
  shows "\<exists>k \<le> max_clusters.
    chain_runs (Some rd) bits first spc ds max_clusters
      = (map (\<lambda>i. cluster_run ds spc (cluster_at rd first i)) [0..<k], 0 < k \<and> cluster_at rd first k = fat_unread)
    \<and> distinct (map (cluster_at rd first) [0..<k])
    \<and> (\<forall>i < k. 2 \<le> cluster_at rd first i \<and> \<not> is_eoc bits (cluster_at rd first i))
    \<and> chain_ends rd bits first max_clusters k"
proof -
  have "chain_runs (Some rd) bits first spc ds max_clusters = chain_loop rd bits spc ds max_clusters first [] []"
    using assms by (simp add: chain_runs_def not_le [symmetric])
  then show ?thesis
    using chain_loop_spec [of "[]" rd first 0 "[]" ds spc bits max_clusters first]
    by (auto simp: cluster_at_def list_all_iff usable_def)
qed

theorem chain_runs_follow_the_chain_witness:
  "length (fst (chain_runs (Some (\<lambda>c. if c = 5 then 6 else 5)) 16 5 8 100 10)) \<le> 10
   \<and> distinct (fst (chain_runs (Some (\<lambda>c. if c = 5 then 6 else 5)) 16 5 8 100 10))
   \<and> fst (chain_runs (Some (\<lambda>c. if c = 5 then 6 else 5)) 16 5 8 100 10)
       = [cluster_run 100 8 5, cluster_run 100 8 6]"
proof -
  let ?rd = "\<lambda>c :: u32. if c = 5 then 6 else 5 :: u32"
  obtain k where k: "k \<le> 10"
    "chain_runs (Some ?rd) 16 5 8 100 10 = (map (\<lambda>i. cluster_run 100 8 (cluster_at ?rd 5 i)) [0..<k],
       0 < k \<and> cluster_at ?rd 5 k = fat_unread)"
    using chain_runs_follow_the_chain [of 5 8 10 ?rd 16 100] by auto
  moreover have "chain_runs (Some ?rd) 16 5 8 100 10 = ([cluster_run 100 8 5, cluster_run 100 8 6], False)"
    by (simp add: chain_runs_def chain_loop.simps is_eoc_def is_bad_def fat_unread_def)
  ultimately show ?thesis
    by (auto simp: cluster_run_def)
qed

end
