(* ===== verification/Runs_Codec.thy ===== *)
theory Runs_Codec
  imports Prelude
begin

text \<open>
  The text form in which the metadata store keeps the data runs of a file
  (db/runs\_codec.cpp): the serializer, the parser with its positions into the string, and
  the proof of what a round trip returns.
\<close>

record data_run =
  run_start :: u64
  run_count :: u64
  run_bytes :: u64

section \<open>The serializer\<close>

definition u64_string :: "u64 \<Rightarrow> string" where
  "u64_string v = dec_string (unat v)"

definition run_text :: "data_run \<Rightarrow> string" where
  "run_text r = ''['' @ u64_string (run_start r) @ '','' @ u64_string (run_count r)
     @ (if run_bytes r > 0 then '','' @ u64_string (run_bytes r) else []) @ '']''"

fun runs_text :: "bool \<Rightarrow> data_run list \<Rightarrow> string" where
  "runs_text first [] = []"
| "runs_text first (r # rs) = (if first then [] else '','') @ run_text r @ runs_text False rs"

definition serialize_runs :: "data_run list \<Rightarrow> string" where
  "serialize_runs runs = (if runs = [] then [] else ''['' @ runs_text True runs @ '']'')"

section \<open>The parser\<close>

definition is_digit :: "char \<Rightarrow> bool" where
  "is_digit c \<longleftrightarrow> 48 \<le> (of_char c :: nat) \<and> (of_char c :: nat) \<le> 57"

definition is_space :: "char \<Rightarrow> bool" where
  "is_space c \<longleftrightarrow> (of_char c :: nat) = 32 \<or> 9 \<le> (of_char c :: nat) \<and> (of_char c :: nat) \<le> 13"

fun parse_digits :: "string \<Rightarrow> nat \<Rightarrow> nat option" where
  "parse_digits [] v = Some v"
| "parse_digits (c # cs) v =
     (if \<not> is_digit c then None
      else let digit = of_char c - 48 in
           if v > (u64_max - digit) div 10 then None else parse_digits cs (v * 10 + digit))"

definition parse_u64 :: "string \<Rightarrow> nat \<Rightarrow> nat \<Rightarrow> u64 option" where
  "parse_u64 s pos len =
     (if len = 0 \<or> pos + len > length s then None
      else map_option word_of_nat (parse_digits (slice pos len s) 0))"

text \<open>\<open>std::string::find\<close> of a character from a position, and the skipping loops.\<close>

definition find_from :: "char \<Rightarrow> string \<Rightarrow> nat \<Rightarrow> nat option" where
  "find_from c s i =
     (let k = i + length (takeWhile (\<lambda>x. x \<noteq> c) (drop i s)) in if k < length s then Some k else None)"

definition skip_while :: "(char \<Rightarrow> bool) \<Rightarrow> string \<Rightarrow> nat \<Rightarrow> nat" where
  "skip_while P s i = i + length (takeWhile P (drop i s))"

definition parse_run :: "string \<Rightarrow> nat \<Rightarrow> nat \<Rightarrow> data_run option" where
  "parse_run s i close =
     (case find_from (CHR '','') s i of
        None \<Rightarrow> None
      | Some c1 \<Rightarrow>
          if close \<le> c1 then None
          else case parse_u64 s i (c1 - i) of
            None \<Rightarrow> None
          | Some start \<Rightarrow>
              let tail = (case find_from (CHR '','') s (c1 + 1) of
                    None \<Rightarrow> None | Some c2 \<Rightarrow> if c2 < close then Some c2 else None)
              in case (case tail of
                    Some c2 \<Rightarrow>
                      (case parse_u64 s (c1 + 1) (c2 - c1 - 1) of
                         None \<Rightarrow> None
                       | Some cnt \<Rightarrow> map_option (\<lambda>n. (cnt, n)) (parse_u64 s (c2 + 1) (close - c2 - 1)))
                  | None \<Rightarrow> map_option (\<lambda>cnt. (cnt, 0)) (parse_u64 s (c1 + 1) (close - c1 - 1))) of
                None \<Rightarrow> None
              | Some (cnt, n) \<Rightarrow>
                  if cnt = 0 then None else Some \<lparr>run_start = start, run_count = cnt, run_bytes = n\<rparr>)"

lemma skip_while_ge: "i \<le> skip_while P s i"
  by (simp add: skip_while_def)

lemma find_from_ge: "find_from c s i = Some k \<Longrightarrow> i \<le> k \<and> k < length s"
  by (auto simp: find_from_def Let_def split: if_splits)

function runs_loop :: "string \<Rightarrow> nat \<Rightarrow> data_run list \<Rightarrow> nat \<times> data_run list" where
  "runs_loop s i runs =
     (if length s \<le> i then (i, runs)
      else let j = skip_while (\<lambda>c. c = CHR '' '' \<or> c = CHR '','') s i in
      if length s \<le> j \<or> s ! j \<noteq> CHR ''['' then (j, runs)
      else case find_from (CHR '']'') s (j + 1) of
        None \<Rightarrow> (j + 1, runs)
      | Some close \<Rightarrow>
          (case parse_run s (j + 1) close of
             None \<Rightarrow> (j + 1, runs)
           | Some r \<Rightarrow> runs_loop s (close + 1) (runs @ [r])))"
  by pat_completeness auto
termination
proof (relation "measure (\<lambda>(s, i, runs). length s - i)", simp_all add: not_le, goal_cases)
  case (1 s i close r)
  then show ?case
    using skip_while_ge [of i "\<lambda>c. c = CHR '' '' \<or> c = CHR '',''" s]
    by (intro diff_less_mono2) (auto dest!: find_from_ge)
qed

declare runs_loop.simps [simp del]

definition deserialize_runs :: "string \<Rightarrow> data_run list" where
  "deserialize_runs json =
     (if json = [] \<or> hd json \<noteq> CHR ''['' then []
      else let (i, runs) = runs_loop json 1 []; j = skip_while is_space json i
           in if j < length json \<and> json ! j \<noteq> CHR '']'' then [] else runs)"

section \<open>Decimal strings\<close>

lemma digit_char [simp]: "d < 10 \<Longrightarrow> of_char (dec_digit d) = (48 + d :: nat)"
  by (simp add: dec_digit_def)

lemma is_digit_dec [simp]: "d < 10 \<Longrightarrow> is_digit (dec_digit d)"
  by (simp add: is_digit_def)

lemma dec_string_digits: "c \<in> set (dec_string n) \<Longrightarrow> is_digit c"
proof (induction n rule: dec_string.induct)
  case (1 n)
  then show ?case
    by (subst (asm) (2) dec_string.simps) (auto split: if_splits)
qed

lemma dec_string_nonempty [simp]: "dec_string n \<noteq> []"
  by (subst dec_string.simps) simp

lemma parse_digits_append: "parse_digits (xs @ ys) v = Option.bind (parse_digits xs v) (parse_digits ys)"
  by (induction xs arbitrary: v) (simp_all add: Let_def)

lemma parse_digits_dec: "n \<le> u64_max \<Longrightarrow> parse_digits (dec_string n) 0 = Some n"
proof (induction n rule: dec_string.induct)
  case (1 n)
  show ?case
  proof (cases "n < 10")
    case True
    then show ?thesis by (subst dec_string.simps) simp
  next
    case False
    then have "parse_digits (dec_string (n div 10)) 0 = Some (n div 10)"
      using 1 by simp
    moreover have "\<not> (u64_max - n mod 10) div 10 < n div 10"
    proof -
      have "n div 10 * 10 = n - n mod 10" by (metis minus_mod_eq_div_mult)
      then have "n div 10 * 10 \<le> u64_max - n mod 10" using 1(2) by (simp add: diff_le_mono)
      then have "n div 10 * 10 div 10 \<le> (u64_max - n mod 10) div 10" by (rule div_le_mono)
      then show ?thesis by simp
    qed
    ultimately show ?thesis
      using False by (subst dec_string.simps) (simp add: parse_digits_append)
  qed
qed

lemma unat_u64_le: "unat (v :: u64) \<le> 18446744073709551615"
proof -
  have "unat v < 2 ^ LENGTH(64)" by (rule unsigned_less)
  then show ?thesis by simp
qed

lemma u64_string_parse: "map_option word_of_nat (parse_digits (u64_string v) 0) = Some v"
  unfolding u64_string_def
  by (subst parse_digits_dec) (simp_all add: u64_max_def unat_u64_le)

section \<open>Positions in a string\<close>

lemma find_from_hit: "c \<notin> set u \<Longrightarrow> find_from c (pre @ u @ c # rest) (length pre) = Some (length pre + length u)"
proof -
  assume "c \<notin> set u"
  then have "takeWhile (\<lambda>x. x \<noteq> c) (u @ c # rest) = u"
    by (subst takeWhile_append2) auto
  then show ?thesis by (simp add: find_from_def Let_def)
qed

lemma slice_middle: "slice (length pre) (length u) (pre @ u @ rest) = u"
  by (simp add: slice_def)

lemma parse_u64_middle:
  "parse_u64 (pre @ u64_string v @ rest) (length pre) (length (u64_string v)) = Some v"
  unfolding parse_u64_def slice_middle u64_string_parse by (simp add: u64_string_def)

lemma at_middle: "i = length pre \<Longrightarrow> drop i (pre @ rest) = rest" "(pre @ c # rest) ! length pre = c"
  by simp_all

lemma not_in_u64_string [simp]: "\<not> is_digit c \<Longrightarrow> c \<notin> set (u64_string v)"
  unfolding u64_string_def using dec_string_digits by blast

lemma punctuation [simp]: "\<not> is_digit (CHR '','')" "\<not> is_digit (CHR '']'')" "\<not> is_digit (CHR ''['')"
  by (simp_all add: is_digit_def)

definition run_body :: "data_run \<Rightarrow> string" where
  "run_body r = u64_string (run_start r) @ '','' @ u64_string (run_count r)
     @ (if run_bytes r > 0 then '','' @ u64_string (run_bytes r) else [])"

lemma run_text_body: "run_text r = ''['' @ run_body r @ '']''"
  by (simp add: run_text_def run_body_def)

lemma run_body_no_bracket: "CHR '']'' \<notin> set (run_body r)"
  by (simp add: run_body_def)

lemma parse_run_body:
  assumes "i = length pre" "close = length pre + length (run_body r)"
  shows "parse_run (pre @ run_body r @ CHR '']'' # rest) i close = (if run_count r = 0 then None else Some r)"
proof -
  let ?a = "u64_string (run_start r)" and ?b = "u64_string (run_count r)" and ?c = "u64_string (run_bytes r)"
  let ?s = "pre @ run_body r @ CHR '']'' # rest"
  define pre1 where "pre1 = pre @ ?a @ '',''"
  show ?thesis
  proof (cases "run_bytes r > 0")
    case True
    define pre2 where "pre2 = pre1 @ ?b @ '',''"
    have s0: "?s = pre @ ?a @ CHR '','' # ?b @ '','' @ ?c @ CHR '']'' # rest"
      and s1: "?s = pre1 @ ?b @ CHR '','' # ?c @ CHR '']'' # rest"
      and s2: "?s = pre2 @ ?c @ CHR '']'' # rest"
      using True by (simp_all add: run_body_def pre1_def pre2_def)
    have "find_from (CHR '','') ?s i = Some (length pre + length ?a)"
      unfolding s0 assms(1) by (rule find_from_hit) simp
    moreover have "find_from (CHR '','') ?s (length pre1) = Some (length pre1 + length ?b)"
      unfolding s1 by (rule find_from_hit) simp
    moreover have "parse_u64 ?s i (length ?a) = Some (run_start r)"
      unfolding s0 assms(1) by (rule parse_u64_middle)
    moreover have "parse_u64 ?s (length pre1) (length ?b) = Some (run_count r)"
      unfolding s1 by (rule parse_u64_middle)
    moreover have "parse_u64 ?s (length pre2) (length ?c) = Some (run_bytes r)"
      unfolding s2 by (rule parse_u64_middle)
    moreover have "length pre1 = length pre + length ?a + 1" "length pre2 = length pre1 + length ?b + 1"
      "close = length pre2 + length ?c"
      using True by (simp_all add: pre1_def pre2_def assms(2) run_body_def)
    ultimately show ?thesis
      using assms(1) by (simp add: parse_run_def)
  next
    case False
    then have zero: "run_bytes r = 0" by (simp add: word_neq_0_conv [symmetric])
    have s0: "?s = pre @ ?a @ CHR '','' # ?b @ CHR '']'' # rest"
      and s1: "?s = pre1 @ ?b @ CHR '']'' # rest"
      using False by (simp_all add: run_body_def pre1_def)
    have "find_from (CHR '','') ?s i = Some (length pre + length ?a)"
      unfolding s0 assms(1) by (rule find_from_hit) simp
    moreover have "case find_from (CHR '','') ?s (length pre1) of None \<Rightarrow> True | Some c2 \<Rightarrow> close \<le> c2"
    proof -
      have "takeWhile (\<lambda>x. x \<noteq> CHR '','') (?b @ CHR '']'' # rest)
          = ?b @ takeWhile (\<lambda>x. x \<noteq> CHR '','') (CHR '']'' # rest)"
        by (rule takeWhile_append2) (auto dest: dec_string_digits simp: u64_string_def)
      then show ?thesis
        unfolding s1 using False by (simp add: find_from_def Let_def assms(2) run_body_def pre1_def)
    qed
    moreover have "parse_u64 ?s i (length ?a) = Some (run_start r)"
      unfolding s0 assms(1) by (rule parse_u64_middle)
    moreover have "parse_u64 ?s (length pre1) (length ?b) = Some (run_count r)"
      unfolding s1 by (rule parse_u64_middle)
    moreover have "length pre1 = length pre + length ?a + 1" "close = length pre1 + length ?b"
      using False by (simp_all add: pre1_def assms(2) run_body_def)
    ultimately show ?thesis
      using assms(1) zero by (auto simp: parse_run_def split: option.splits)
  qed
qed

lemma u64_string_head: "\<exists>c cs. u64_string v = c # cs \<and> is_digit c"
  using dec_string_digits [of _ "unat v"] dec_string_nonempty [of "unat v"]
  by (cases "dec_string (unat v)") (auto simp: u64_string_def)

text \<open>
  The loop on a serialized list: it either appends every run and stops at the closing
  bracket, or stops at the first digit of a run whose sector count is 0.
\<close>

lemma runs_loop_text:
  assumes "s = pre @ runs_text first rs @ '']''" "i = length pre"
  shows "if list_all (\<lambda>r. run_count r \<noteq> 0) rs
    then runs_loop s i acc = (length s - 1, acc @ rs)
    else \<exists>j out. runs_loop s i acc = (j, out) \<and> j < length s \<and> is_digit (s ! j)"
  using assms
proof (induction rs arbitrary: pre first acc i)
  case Nil
  then show ?case
    by (simp add: runs_loop.simps [of "pre @ '']''"] skip_while_def)
next
  case (Cons r rs)
  let ?sep = "if first then [] else '',''"
  let ?rest = "runs_text False rs @ '']''"
  let ?pre = "pre @ ?sep @ ''[''" and ?pre' = "pre @ ?sep @ run_text r"
  let ?close = "length ?pre + length (run_body r)"
  have s: "s = ?pre @ run_body r @ CHR '']'' # ?rest" and s': "s = ?pre' @ runs_text False rs @ '']''"
    using Cons.prems by (simp_all add: run_text_body)
  have skip: "skip_while (\<lambda>c. c = CHR '' '' \<or> c = CHR '','') s i = length pre + length ?sep"
    using Cons.prems by (simp add: skip_while_def run_text_body)
  have bracket: "s ! (length pre + length ?sep) = CHR ''[''" "length pre + length ?sep < length s"
    unfolding s by (simp_all add: nth_append)
  have close: "find_from (CHR '']'') s (length pre + length ?sep + 1) = Some ?close"
    using find_from_hit [OF run_body_no_bracket, of ?pre r ?rest] s by simp
  have run: "parse_run s (length pre + length ?sep + 1) ?close = (if run_count r = 0 then None else Some r)"
    using parse_run_body [of "length ?pre" ?pre ?close r ?rest] s by simp
  have i: "i < length s" using Cons.prems by simp
  have one: "length ?pre = Suc (length pre + length ?sep)" by simp
  have unfold: "runs_loop s i acc = (if run_count r = 0 then (length ?pre, acc)
      else runs_loop s (?close + 1) (acc @ [r]))"
  proof (cases "run_count r = 0")
    case True
    then show ?thesis
      using skip bracket close run i one
      by (simp add: runs_loop.simps [of s i] del: length_append split del: if_split)
  next
    case False
    then show ?thesis
      using skip bracket close run i one
      by (simp add: runs_loop.simps [of s i] del: length_append split del: if_split)
  qed
  show ?case
  proof (cases "run_count r = 0")
    case True
    obtain c cs where "u64_string (run_start r) = c # cs" "is_digit c"
      using u64_string_head by blast
    then have "is_digit (s ! length ?pre)" "length ?pre < length s"
      unfolding s by (simp_all add: nth_append run_body_def)
    then show ?thesis
      using True unfold by simp
  next
    case False
    have "?close + 1 = length ?pre'" by (simp add: run_text_body)
    with Cons.IH [OF s', of "?close + 1" "acc @ [r]"] unfold show ?thesis
      using False by (cases "list_all (\<lambda>r. run_count r \<noteq> 0) rs") (simp_all split del: if_split)
  qed
qed

text \<open>C9. Reading back a serialized list of runs returns the list, for all 64-bit start sectors,
  counts and byte counts, if no run has a sector count of 0; a single run with count 0 makes
  the parser drop every run of the file.\<close>

theorem runs_round_trip:
  "deserialize_runs (serialize_runs runs) = (if list_all (\<lambda>r. run_count r \<noteq> 0) runs then runs else [])"
proof (cases "runs = []")
  case True
  then show ?thesis by (simp add: serialize_runs_def deserialize_runs_def)
next
  case False
  let ?s = "serialize_runs runs"
  have s: "?s = ''['' @ runs_text True runs @ '']''"
    using False by (simp add: serialize_runs_def)
  then have top: "?s \<noteq> []" "hd ?s = CHR ''[''" by simp_all
  have last: "?s ! (length ?s - 1) = CHR '']''" "length ?s > 0"
    unfolding s by (simp_all add: nth_append)
  show ?thesis
  proof (cases "list_all (\<lambda>r. run_count r \<noteq> 0) runs")
    case True
    then have "runs_loop ?s 1 [] = (length ?s - 1, runs)"
      using runs_loop_text [OF s, of 1 "[]"] by simp
    moreover have "skip_while is_space ?s (length ?s - 1) = length ?s - 1"
      using last Cons_nth_drop_Suc [of "length ?s - 1" ?s, symmetric]
      by (simp add: skip_while_def is_space_def)
    ultimately show ?thesis
      using True top last by (simp add: deserialize_runs_def)
  next
    case False
    then obtain j out where j: "runs_loop ?s 1 [] = (j, out)" "j < length ?s" "is_digit (?s ! j)"
      using runs_loop_text [OF s, of 1 "[]"] by auto
    then have "skip_while is_space ?s j = j"
      using Cons_nth_drop_Suc [of j ?s, symmetric] by (simp add: skip_while_def is_space_def is_digit_def)
    moreover have "?s ! j \<noteq> CHR '']''" using j(3) by auto
    ultimately show ?thesis
      using False j top by (simp add: deserialize_runs_def)
  qed
qed

end
