(* ===== verification/Digests.thy ===== *)
theory Digests
  imports Prelude
begin

text \<open>
  The hash functions of the evidence chain: SHA-256 with HMAC and PBKDF2
  (crypto/sha256.cpp) and the streaming MD5 context of the imager (crypto/md5.cpp).  Both are
  compared with the construction of their standards: the compression function applied to
  the 64-byte blocks of the padded message.
\<close>

section \<open>The Merkle-Damgard construction\<close>

text \<open>\<open>absorb f s m\<close> applies the compression function to the whole blocks of \<open>m\<close>.\<close>

function absorb :: "('s \<Rightarrow> buf \<Rightarrow> 's) \<Rightarrow> 's \<Rightarrow> buf \<Rightarrow> 's" where
  "absorb f s m = (if length m < 64 then s else absorb f (f s (take 64 m)) (drop 64 m))"
  by pat_completeness auto
termination
  by (relation "measure (\<lambda>(f, s, m). length m)") auto

declare absorb.simps [simp del]

lemma absorb_short [simp]: "length m < 64 \<Longrightarrow> absorb f s m = s"
  by (subst absorb.simps) simp

lemma absorb_block: "length b = 64 \<Longrightarrow> absorb f s (b @ m) = absorb f (f s b) m"
  by (subst absorb.simps) simp

lemma absorb_one: "length b = 64 \<Longrightarrow> absorb f s b = f s b"
  using absorb_block [of b f s "[]"] by simp

lemma absorb_append:
  "length a mod 64 = 0 \<Longrightarrow> absorb f s (a @ m) = absorb f (absorb f s a) m"
proof (induction f s a rule: absorb.induct)
  case (1 f s a)
  show ?case
  proof (cases "length a < 64")
    case True
    then have "a = []" using "1.prems" by simp
    then show ?thesis by simp
  next
    case False
    have "length (drop 64 a) mod 64 = 0"
      using "1.prems" False le_mod_geq [of 64 "length a"] by simp
    then show ?thesis
      using "1.IH" False absorb.simps [of f s a] absorb.simps [of f s "a @ m"] by simp
  qed
qed

lemma absorb_tail:
  assumes "length a mod 64 = 0" "length t < 64"
  shows "absorb f s (a @ t) = absorb f s a"
  using absorb_append [OF assms(1), where f = f and s = s and m = t] assms(2) by simp

text \<open>
  The block loop both functions have: whole blocks of \<open>data\<close> from position \<open>off\<close>, with the
  position it stops at.
\<close>

function block_loop :: "('s \<Rightarrow> buf \<Rightarrow> 's) \<Rightarrow> 's \<Rightarrow> buf \<Rightarrow> nat \<Rightarrow> 's \<times> nat" where
  "block_loop f s data off =
     (if off + 64 \<le> length data then block_loop f (f s (slice off 64 data)) data (off + 64) else (s, off))"
  by pat_completeness auto
termination
  by (relation "measure (\<lambda>(f, s, d, off). length d - off)") auto

declare block_loop.simps [simp del]

lemma block_loop_absorb:
  "off \<le> length data \<Longrightarrow> block_loop f s data off = (absorb f s (drop off data), length data - (length data - off) mod 64)"
proof (induction f s data off rule: block_loop.induct)
  case (1 f s data off)
  show ?case
  proof (cases "off + 64 \<le> length data")
    case True
    have "(length data - off) mod 64 = (length data - (off + 64)) mod 64" "\<not> length data - off < 64"
      using True le_mod_geq [of 64 "length data - off"] by simp_all
    then show ?thesis
      using 1 True absorb.simps [of f s "drop off data"]
      by (simp add: block_loop.simps [of f s data off] slice_def add.commute)
  next
    case False
    then show ?thesis
      using 1 by (simp add: block_loop.simps [of f s data off])
  qed
qed

definition be_bytes :: "nat \<Rightarrow> nat \<Rightarrow> buf" where
  "be_bytes n v = rev (nat_le n v)"

lemma length_be_bytes [simp]: "length (be_bytes n v) = n"
  by (simp add: be_bytes_def)

text \<open>The zeros between the 0x80 byte and the length field of the last block.\<close>

definition pad_zeros :: "nat \<Rightarrow> nat" where
  "pad_zeros len = (if len mod 64 < 56 then 55 - len mod 64 else 119 - len mod 64)"

definition padded :: "(nat \<Rightarrow> buf) \<Rightarrow> buf \<Rightarrow> buf" where
  "padded length_field m = m @ 0x80 # replicate (pad_zeros (length m)) 0 @ length_field (length m)"

lemma split_blocks: "length (take (length m - length m mod 64) m) mod 64 = 0"
  "length (drop (length m - length m mod 64) m) = length m mod (64 :: nat)"
proof -
  have "length m - length m mod 64 = length m div 64 * 64" by (simp add: minus_mod_eq_div_mult)
  then show "length (take (length m - length m mod 64) m) mod 64 = 0" by (simp add: min_absorb2)
  show "length (drop (length m - length m mod 64) m) = length m mod 64" by simp
qed

section \<open>SHA-256\<close>

definition k_sha :: "u32 list" where
  "k_sha = [0x428A2F98, 0x71374491, 0xB5C0FBCF, 0xE9B5DBA5, 0x3956C25B, 0x59F111F1, 0x923F82A4, 0xAB1C5ED5,
    0xD807AA98, 0x12835B01, 0x243185BE, 0x550C7DC3, 0x72BE5D74, 0x80DEB1FE, 0x9BDC06A7, 0xC19BF174,
    0xE49B69C1, 0xEFBE4786, 0x0FC19DC6, 0x240CA1CC, 0x2DE92C6F, 0x4A7484AA, 0x5CB0A9DC, 0x76F988DA,
    0x983E5152, 0xA831C66D, 0xB00327C8, 0xBF597FC7, 0xC6E00BF3, 0xD5A79147, 0x06CA6351, 0x14292967,
    0x27B70A85, 0x2E1B2138, 0x4D2C6DFC, 0x53380D13, 0x650A7354, 0x766A0ABB, 0x81C2C92E, 0x92722C85,
    0xA2BFE8A1, 0xA81A664B, 0xC24B8B70, 0xC76C51A3, 0xD192E819, 0xD6990624, 0xF40E3585, 0x106AA070,
    0x19A4C116, 0x1E376C08, 0x2748774C, 0x34B0BCB5, 0x391C0CB3, 0x4ED8AA4A, 0x5B9CCA4F, 0x682E6FF3,
    0x748F82EE, 0x78A5636F, 0x84C87814, 0x8CC70208, 0x90BEFFFA, 0xA4506CEB, 0xBEF9A3F7, 0xC67178F2]"

definition rotr :: "u32 \<Rightarrow> nat \<Rightarrow> u32" where
  "rotr x n = drop_bit n x OR push_bit (32 - n) x"

definition ch :: "u32 \<Rightarrow> u32 \<Rightarrow> u32 \<Rightarrow> u32" where
  "ch x y z = (x AND y) XOR (NOT x AND z)"

definition maj :: "u32 \<Rightarrow> u32 \<Rightarrow> u32 \<Rightarrow> u32" where
  "maj x y z = (x AND y) XOR (x AND z) XOR (y AND z)"

definition sigma0 :: "u32 \<Rightarrow> u32" where "sigma0 x = rotr x 2 XOR rotr x 13 XOR rotr x 22"
definition sigma1 :: "u32 \<Rightarrow> u32" where "sigma1 x = rotr x 6 XOR rotr x 11 XOR rotr x 25"
definition gamma0 :: "u32 \<Rightarrow> u32" where "gamma0 x = rotr x 7 XOR rotr x 18 XOR drop_bit 3 x"
definition gamma1 :: "u32 \<Rightarrow> u32" where "gamma1 x = rotr x 17 XOR rotr x 19 XOR drop_bit 10 x"

definition be_word :: "buf \<Rightarrow> nat \<Rightarrow> u32" where
  "be_word p i = push_bit 24 (ucast (p ! i)) OR push_bit 16 (ucast (p ! (i + 1)))
     OR push_bit 8 (ucast (p ! (i + 2))) OR ucast (p ! (i + 3))"

fun sha_schedule :: "nat \<Rightarrow> u32 list \<Rightarrow> u32 list" where
  "sha_schedule 0 w = w"
| "sha_schedule (Suc n) w =
     (let i = length w in
      sha_schedule n (w @ [gamma1 (w ! (i - 2)) + w ! (i - 7) + gamma0 (w ! (i - 15)) + w ! (i - 16)]))"

type_synonym sha_regs = "u32 \<times> u32 \<times> u32 \<times> u32 \<times> u32 \<times> u32 \<times> u32 \<times> u32"

definition sha_round :: "u32 \<times> u32 \<Rightarrow> sha_regs \<Rightarrow> sha_regs" where
  "sha_round kw regs =
     (let (k, w) = kw; (a, b, c, d, e, f, g, h) = regs;
          t1 = h + sigma1 e + ch e f g + k + w;
          t2 = sigma0 a + maj a b c
      in (t1 + t2, a, b, c, d + t1, e, f, g))"

definition sha_transform :: "sha_regs \<Rightarrow> buf \<Rightarrow> sha_regs" where
  "sha_transform state block =
     (let w = sha_schedule 48 (map (\<lambda>i. be_word block (4 * i)) [0..<16]);
          (a, b, c, d, e, f, g, h) = state;
          (a', b', c', d', e', f', g', h') = fold sha_round (zip k_sha w) state
      in (a + a', b + b', c + c', d + d', e + e', f + f', g + g', h + h'))"

definition sha_init :: sha_regs where
  "sha_init = (0x6a09e667, 0xbb67ae85, 0x3c6ef372, 0xa54ff53a, 0x510e527f, 0x9b05688c, 0x1f83d9ab, 0x5be0cd19)"

definition sha_out :: "sha_regs \<Rightarrow> buf" where
  "sha_out regs = (let (a, b, c, d, e, f, g, h) = regs in
     concat (map (\<lambda>s. [ucast (drop_bit 24 s), ucast (drop_bit 16 s), ucast (drop_bit 8 s), ucast s]) [a, b, c, d, e, f, g, h]))"

definition sha256 :: "buf \<Rightarrow> buf" where
  "sha256 data =
     (let (state, off) = block_loop sha_transform sha_init data 0;
          rem = length data - off;
          block = splice rem [0x80] (splice 0 (slice off rem data) (replicate 64 0));
          (state, block) = (if rem \<ge> 56 then (sha_transform state block, replicate 64 0) else (state, block));
          block = splice 56 (be_bytes 8 (w64 (length data * 8))) block
      in sha_out (sha_transform state block))"

definition hmac_sha256 :: "buf \<Rightarrow> buf \<Rightarrow> buf" where
  "hmac_sha256 key data =
     (let k = (if length key > 64 then sha256 key else key);
          ipad = map2 (\<lambda>p x. p XOR x) (replicate 64 0x36) (k @ replicate (64 - length k) 0);
          opad = map2 (\<lambda>p x. p XOR x) (replicate 64 0x5c) (k @ replicate (64 - length k) 0)
      in sha256 (opad @ sha256 (ipad @ data)))"

text \<open>The inner loop of \<open>pbkdf2HmacSha256\<close>: \<open>t\<close> accumulates the exclusive or of the \<open>u\<close>.\<close>

fun pbkdf2_iter :: "buf \<Rightarrow> nat \<Rightarrow> buf \<Rightarrow> buf \<Rightarrow> buf" where
  "pbkdf2_iter pass 0 u t = t"
| "pbkdf2_iter pass (Suc n) u t = (let u1 = hmac_sha256 pass u in pbkdf2_iter pass n u1 (xor_bytes t u1))"

function pbkdf2_blocks :: "buf \<Rightarrow> buf \<Rightarrow> nat \<Rightarrow> u32 \<Rightarrow> nat \<Rightarrow> buf" where
  "pbkdf2_blocks pass salt iter block left =
     (if left = 0 then []
      else let u = hmac_sha256 pass (salt @ be_bytes 4 (unat block));
               t = pbkdf2_iter pass (iter - 1) u u;
               n = min left 32
           in take n t @ pbkdf2_blocks pass salt iter (block + 1) (left - n))"
  by pat_completeness auto
termination
  by (relation "measure (\<lambda>(p, s, i, b, left). left)") auto

declare pbkdf2_blocks.simps [simp del]

text \<open>\<open>None\<close>: the call returns without writing to the output buffer.\<close>

definition pbkdf2_hmac_sha256 :: "buf \<Rightarrow> buf \<Rightarrow> nat \<Rightarrow> nat \<Rightarrow> buf option" where
  "pbkdf2_hmac_sha256 pass salt iter out_len =
     (if out_len = 0 \<or> iter = 0 then None else Some (pbkdf2_blocks pass salt iter 1 out_len))"

section \<open>MD5\<close>

definition md5_s :: "nat list" where
  "md5_s = [7, 12, 17, 22, 7, 12, 17, 22, 7, 12, 17, 22, 7, 12, 17, 22,
    5, 9, 14, 20, 5, 9, 14, 20, 5, 9, 14, 20, 5, 9, 14, 20,
    4, 11, 16, 23, 4, 11, 16, 23, 4, 11, 16, 23, 4, 11, 16, 23,
    6, 10, 15, 21, 6, 10, 15, 21, 6, 10, 15, 21, 6, 10, 15, 21]"

definition md5_k :: "u32 list" where
  "md5_k = [0xd76aa478, 0xe8c7b756, 0x242070db, 0xc1bdceee, 0xf57c0faf, 0x4787c62a, 0xa8304613, 0xfd469501,
    0x698098d8, 0x8b44f7af, 0xffff5bb1, 0x895cd7be, 0x6b901122, 0xfd987193, 0xa679438e, 0x49b40821,
    0xf61e2562, 0xc040b340, 0x265e5a51, 0xe9b6c7aa, 0xd62f105d, 0x02441453, 0xd8a1e681, 0xe7d3fbc8,
    0x21e1cde6, 0xc33707d6, 0xf4d50d87, 0x455a14ed, 0xa9e3e905, 0xfcefa3f8, 0x676f02d9, 0x8d2a4c8a,
    0xfffa3942, 0x8771f681, 0x6d9d6122, 0xfde5380c, 0xa4beea44, 0x4bdecfa9, 0xf6bb4b60, 0xbebfbc70,
    0x289b7ec6, 0xeaa127fa, 0xd4ef3085, 0x04881d05, 0xd9d4d039, 0xe6db99e5, 0x1fa27cf8, 0xc4ac5665,
    0xf4292244, 0x432aff97, 0xab9423a7, 0xfc93a039, 0x655b59c3, 0x8f0ccc92, 0xffeff47d, 0x85845dd1,
    0x6fa87e4f, 0xfe2ce6e0, 0xa3014314, 0x4e0811a1, 0xf7537e82, 0xbd3af235, 0x2ad7d2bb, 0xeb86d391]"

definition left_rotate :: "u32 \<Rightarrow> nat \<Rightarrow> u32" where
  "left_rotate x c = push_bit c x OR drop_bit (32 - c) x"

type_synonym md5_regs = "u32 \<times> u32 \<times> u32 \<times> u32"

record md5_ctx =
  md5_state :: md5_regs
  md5_count :: nat
  md5_buffer :: buf
  md5_digest :: buf
  md5_finalized :: bool

record md5_snapshot =
  snap_state :: md5_regs
  snap_count :: nat
  snap_buffer :: buf
  snap_len :: nat

definition md5_init_regs :: md5_regs where
  "md5_init_regs = (0x67452301, 0xefcdab89, 0x98badcfe, 0x10325476)"

definition md5_new :: md5_ctx where
  "md5_new = \<lparr>md5_state = md5_init_regs, md5_count = 0, md5_buffer = replicate 64 0,
     md5_digest = replicate 16 0, md5_finalized = False\<rparr>"

definition le_word :: "buf \<Rightarrow> nat \<Rightarrow> u32" where
  "le_word p i = ucast (p ! i) OR push_bit 8 (ucast (p ! (i + 1)))
     OR push_bit 16 (ucast (p ! (i + 2))) OR push_bit 24 (ucast (p ! (i + 3)))"

definition md5_round :: "u32 list \<Rightarrow> nat \<Rightarrow> md5_regs \<Rightarrow> md5_regs" where
  "md5_round M i regs =
     (let (a, b, c, d) = regs;
          (f, g) = (if i < 16 then ((b AND c) OR (NOT b AND d), i)
                    else if i < 32 then ((d AND b) OR (NOT d AND c), (5 * i + 1) mod 16)
                    else if i < 48 then (b XOR c XOR d, (3 * i + 5) mod 16)
                    else (c XOR (b OR NOT d), (7 * i) mod 16))
      in (d, b + left_rotate (a + f + md5_k ! i + M ! g) (md5_s ! i), b, c))"

definition md5_transform :: "md5_regs \<Rightarrow> buf \<Rightarrow> md5_regs" where
  "md5_transform state block =
     (let M = map (\<lambda>i. le_word block (4 * i)) [0..<16];
          (a, b, c, d) = state;
          (a', b', c', d') = fold (md5_round M) [0..<64] state
      in (a + a', b + b', c + c', d + d'))"

definition md5_rest :: "md5_ctx \<Rightarrow> buf \<Rightarrow> nat \<Rightarrow> md5_ctx" where
  "md5_rest c data i =
     (let (state, j) = block_loop md5_transform (md5_state c) data i;
          c1 = c\<lparr>md5_state := state\<rparr>
      in if j < length data then c1\<lparr>md5_buffer := splice 0 (drop j data) (md5_buffer c1)\<rparr> else c1)"

definition md5_update :: "md5_ctx \<Rightarrow> buf \<Rightarrow> md5_ctx" where
  "md5_update c data =
     (if md5_finalized c then c
      else let index = md5_count c mod 64;
               c1 = c\<lparr>md5_count := w64 (md5_count c + length data)\<rparr>
      in if index \<noteq> 0
         then let part = 64 - index in
              if length data \<ge> part
              then let full = splice index (take part data) (md5_buffer c1)
                   in md5_rest (c1\<lparr>md5_buffer := full, md5_state := md5_transform (md5_state c1) full\<rparr>) data part
              else c1\<lparr>md5_buffer := splice index data (md5_buffer c1)\<rparr>
         else md5_rest c1 data 0)"

definition md5_out :: "md5_regs \<Rightarrow> buf" where
  "md5_out regs = (let (a, b, c, d) = regs in
     concat (map (\<lambda>s. [ucast s, ucast (drop_bit 8 s), ucast (drop_bit 16 s), ucast (drop_bit 24 s)]) [a, b, c, d]))"

definition md5_final_raw :: "md5_ctx \<Rightarrow> md5_ctx \<times> buf" where
  "md5_final_raw c =
     (if md5_finalized c then (c, md5_digest c)
      else let bits = w64 (md5_count c * 8);
               index = md5_count c mod 64;
               pad_len = (if index < 56 then 56 - index else 120 - index);
               c1 = md5_update c (take pad_len (0x80 # replicate 127 0));
               full = splice 56 (nat_le 8 bits) (md5_buffer c1);
               state = md5_transform (md5_state c1) full;
               digest = md5_out state
           in (c1\<lparr>md5_buffer := full, md5_state := state, md5_digest := digest, md5_finalized := True\<rparr>, digest))"

definition md5_final_hex :: "md5_ctx \<Rightarrow> md5_ctx \<times> string" where
  "md5_final_hex c = (let (c1, raw) = md5_final_raw c in (c1, concat (map hex_byte raw)))"

definition md5_hex :: "buf \<Rightarrow> string" where
  "md5_hex data = snd (md5_final_hex (md5_update md5_new data))"

definition md5_save :: "md5_ctx \<Rightarrow> md5_snapshot option" where
  "md5_save c =
     (if md5_finalized c then None
      else let n = md5_count c mod 64 in
        Some \<lparr>snap_state = md5_state c, snap_count = md5_count c,
              snap_buffer = take n (md5_buffer c) @ replicate (64 - n) 0, snap_len = n\<rparr>)"

text \<open>\<open>loadState\<close>: the flag is its result; a refused snapshot leaves the context alone.\<close>

definition md5_load :: "md5_ctx \<Rightarrow> md5_snapshot \<Rightarrow> md5_ctx \<times> bool" where
  "md5_load c s =
     (if snap_len s > 64 \<or> snap_len s \<noteq> snap_count s mod 64 then (c, False)
      else (c\<lparr>md5_state := snap_state s, md5_count := snap_count s, md5_buffer := snap_buffer s,
              md5_finalized := False\<rparr>, True))"


section \<open>The standard construction\<close>

lemma absorb_padded:
  assumes "\<And>n. length (lf n) = 8"
  shows "absorb f s (padded lf m) =
    (let r = length m mod 64; blk = drop (length m - r) m @ 0x80 # replicate (63 - r) 0; s0 = absorb f s m
     in if r < 56 then f s0 (take 56 blk @ lf (length m)) else f (f s0 blk) (replicate 56 0 @ lf (length m)))"
proof -
  let ?r = "length m mod 64" and ?n = "length m"
  let ?a = "take (?n - ?r) m" and ?t = "drop (?n - ?r) m"
  let ?blk = "?t @ 0x80 # replicate (63 - ?r) 0"
  have len: "length ?a mod 64 = 0" "length ?t = ?r" by (rule split_blocks)+
  have r: "?r < 64" by simp
  have s0: "absorb f s m = absorb f s ?a"
    using absorb_tail [OF len(1), of ?t f s] len(2) r by simp
  have blk: "length ?blk = 64" using len(2) r by simp
  have "padded lf m = ?a @ ?t @ 0x80 # replicate (pad_zeros ?n) 0 @ lf ?n"
    by (simp add: padded_def)
  then have whole: "absorb f s (padded lf m) = absorb f (absorb f s m) (?t @ 0x80 # replicate (pad_zeros ?n) 0 @ lf ?n)"
    by (simp add: absorb_append [OF len(1)] s0)
  show ?thesis
  proof (cases "?r < 56")
    case True
    have "replicate (63 - ?r) (0 :: byte) = replicate (55 - ?r) 0 @ replicate 8 0"
      using True by (simp add: replicate_add [symmetric])
    then have "?t @ 0x80 # replicate (pad_zeros ?n) 0 = take 56 ?blk"
      using len(2) True Suc_diff_Suc [of ?r 56, symmetric] by (simp add: pad_zeros_def)
    moreover have one: "length (take 56 ?blk @ lf ?n) = 64" using blk assms by simp
    ultimately show ?thesis
      unfolding whole Let_def if_P [OF True]
      using absorb_one [OF one, of f "absorb f s m"] by (metis append_assoc append_Cons)
  next
    case False
    have "replicate (119 - ?r) (0 :: byte) = replicate (63 - ?r) 0 @ replicate 56 0"
      using r by (simp add: replicate_add [symmetric])
    then have "?t @ 0x80 # replicate (pad_zeros ?n) 0 @ lf ?n = ?blk @ replicate 56 0 @ lf ?n"
      using False by (simp add: pad_zeros_def)
    moreover have "length (replicate 56 0 @ lf ?n) = 64" using assms by simp
    ultimately show ?thesis
      using False whole absorb_block [OF blk, of f] absorb_one [of "replicate 56 0 @ lf ?n" f] by (simp add: Let_def)
  qed
qed

lemma last_block:
  assumes "length t < 64"
  shows "splice (length t) [x] (splice 0 t (replicate 64 0)) = t @ x # replicate (63 - length t) 0"
  using assms by (simp add: splice_def)

lemma splice_tail: "length L = 8 \<Longrightarrow> length b = 64 \<Longrightarrow> splice 56 L b = take 56 b @ L"
  by (simp add: splice_def)

lemma sha256_hashes_padded:
  "sha256 m = sha_out (absorb sha_transform sha_init (padded (\<lambda>n. be_bytes 8 (w64 (n * 8))) m))"
proof -
  let ?r = "length m mod 64"
  let ?t = "drop (length m - ?r) m"
  have blocks: "block_loop sha_transform sha_init m 0 = (absorb sha_transform sha_init m, length m - ?r)"
    using block_loop_absorb [of 0 m sha_transform sha_init] by simp
  have tail: "slice (length m - ?r) ?r m = ?t" "length ?t = ?r"
    by (simp_all add: slice_def)
  have block: "splice ?r [0x80] (splice 0 ?t (replicate 64 0)) = ?t @ 0x80 # replicate (63 - ?r) 0"
    using last_block [of ?t "0x80"] tail(2) by simp
  have len: "length (?t @ 0x80 # replicate (63 - ?r) (0 :: byte)) = 64" by simp
  have rem: "length m - (length m - ?r) = ?r" by simp
  have taken: "take 56 (replicate 64 (0 :: byte)) = replicate 56 0" by simp
  have split: "(56 \<le> ?r) = (\<not> ?r < 56)" by auto
  show ?thesis
    unfolding sha256_def blocks absorb_padded [of "\<lambda>n. be_bytes 8 (w64 (n * 8))", OF length_be_bytes] prod.case rem
      Let_def tail(1) block split
    by (cases "?r < 56") (simp_all only: if_True if_False prod.case simp_thms
        splice_tail [OF length_be_bytes len] splice_tail [OF length_be_bytes length_replicate] taken)
qed


text \<open>C11. SHA-256 computes the hash of the standard for every input: the compression function
  over the blocks of the message padded with 0x80, zeros and the 64-bit big-endian bit length,
  whichever of the two final-block cases the length falls into.\<close>

theorem sha256_hashes_padded_message:
  "sha256 m = sha_out (absorb sha_transform sha_init (padded (\<lambda>n. be_bytes 8 (w64 (n * 8))) m))"
  by (rule sha256_hashes_padded)

section \<open>The MD5 context\<close>

text \<open>The standard hash, and the context as a state that has absorbed the stream \<open>m\<close>.\<close>

definition md5_spec :: "buf \<Rightarrow> buf" where
  "md5_spec m = md5_out (absorb md5_transform md5_init_regs (padded (\<lambda>n. nat_le 8 (w64 (n * 8))) m))"

definition md5_rel :: "md5_ctx \<Rightarrow> buf \<Rightarrow> bool" where
  "md5_rel c m \<longleftrightarrow> md5_state c = absorb md5_transform md5_init_regs m \<and> md5_count c = w64 (length m)
     \<and> length (md5_buffer c) = 64
     \<and> take (length m mod 64) (md5_buffer c) = drop (length m - length m mod 64) m
     \<and> \<not> md5_finalized c"

lemma w64_mod_64 [simp]: "w64 n mod 64 = n mod 64"
  unfolding w64_def by (rule mod_mod_cancel) simp

lemma w64_add_w64: "w64 (w64 a + b) = w64 (a + b)"
  by (simp add: w64_def mod_simps)

lemma w64_mult_w64: "w64 (w64 a * b) = w64 (a * b)"
  by (simp add: w64_def mod_simps)

lemma md5_rel_new: "md5_rel md5_new []"
  by (simp add: md5_rel_def md5_new_def w64_def)

lemma md5_rest_rel:
  assumes "md5_state c = absorb md5_transform md5_init_regs m" "length m mod 64 = 0" "length (md5_buffer c) = 64"
    and "i \<le> length d" "md5_count c = w64 (length m + (length d - i))" "\<not> md5_finalized c"
  shows "md5_rel (md5_rest c d i) (m @ drop i d)"
proof -
  define r where "r = (length d - i) mod 64"
  have r: "(length m + (length d - i)) mod 64 = r" "r \<le> length d - i"
    using assms(2) mod_add_left_eq [of "length m" 64 "length d - i"] by (simp_all add: r_def)
  have r64: "r < 64" by (simp add: r_def)
  have blocks: "block_loop md5_transform (md5_state c) d i
      = (absorb md5_transform md5_init_regs (m @ drop i d), length d - r)"
    using block_loop_absorb [OF assms(4)] absorb_append [OF assms(2), where f = md5_transform] assms(1)
    by (simp add: r_def)
  have tail: "drop (length m + (length d - i) - r) (m @ drop i d) = drop (length d - r) d"
    using r(2) assms(4) by simp
  have len: "length (m @ drop i d) = length m + (length d - i)" by simp
  show ?thesis
  proof (cases "r = 0")
    case True
    then show ?thesis
      using assms blocks r(1) unfolding md5_rest_def md5_rel_def len by simp
  next
    case False
    have "take r (splice 0 (drop (length d - r) d) (md5_buffer c)) = drop (length d - r) d"
      using r(2) by (simp add: splice_def)
    moreover have "length (splice 0 (drop (length d - r) d) (md5_buffer c)) = 64"
      using r64 assms(3) r(2) by simp
    moreover have "md5_rest c d i = c\<lparr>md5_state := absorb md5_transform md5_init_regs (m @ drop i d),
        md5_buffer := splice 0 (drop (length d - r) d) (md5_buffer c)\<rparr>"
    proof -
      have "length d - r < length d" using False r(2) by linarith
      then show ?thesis unfolding md5_rest_def blocks by simp
    qed
    ultimately show ?thesis
      using assms(5,6) unfolding md5_rel_def len r(1) tail by simp
  qed
qed

lemma md5_update_rel:
  assumes "md5_rel c m"
  shows "md5_rel (md5_update c d) (m @ d)"
proof -
  let ?i = "length m mod 64" and ?head = "take (length m - length m mod 64) m"
  let ?tail = "drop (length m - length m mod 64) m"
  let ?c = "c\<lparr>md5_count := w64 (md5_count c + length d)\<rparr>"
  note rel = assms [unfolded md5_rel_def]
  have index: "md5_count c mod 64 = ?i" and count: "w64 (md5_count c + length d) = w64 (length m + length d)"
    using rel by (simp_all add: w64_add_w64)
  have head: "length ?head mod 64 = 0" and tail: "length ?tail = ?i" by (rule split_blocks)+
  have head_state: "md5_state c = absorb md5_transform md5_init_regs ?head"
    using rel tail absorb_tail [OF head, of ?tail md5_transform md5_init_regs] by simp
  consider "?i = 0" | "?i \<noteq> 0" "64 - ?i \<le> length d" | "?i \<noteq> 0" "\<not> 64 - ?i \<le> length d" by blast
  then show ?thesis
  proof cases
    case 1
    have "md5_update c d = md5_rest ?c d 0"
      using 1 index rel by (simp add: md5_update_def Let_def)
    moreover have "md5_rel (md5_rest ?c d 0) (m @ drop 0 d)"
      using rel 1 count by (intro md5_rest_rel) simp_all
    ultimately show ?thesis by simp
  next
    case 2
    let ?p = "64 - ?i"
    let ?full = "?tail @ take ?p d"
    let ?c' = "?c\<lparr>md5_buffer := ?full, md5_state := md5_transform (md5_state c) ?full\<rparr>"
    have full: "splice ?i (take ?p d) (md5_buffer c) = ?full" "length ?full = 64"
      using rel 2 tail by (simp_all add: splice_def)
    have upd: "md5_update c d = md5_rest ?c' d ?p"
      using 2 index rel full by (simp add: md5_update_def Let_def)
    have len: "length (m @ take ?p d) mod 64 = 0"
    proof -
      have "length (m @ take ?p d) = length m - ?i + 64" using 2 mod_le_divisor [of 64 "length m"] by simp
      moreover have "(length m - ?i + 64) mod 64 = 0" using head by (simp only: mod_add_self2) simp
      ultimately show ?thesis by simp
    qed
    have "md5_transform (md5_state c) ?full = absorb md5_transform md5_init_regs (?head @ ?full)"
      unfolding head_state absorb_append [OF head] by (rule absorb_one [OF full(2), symmetric])
    then have state: "md5_transform (md5_state c) ?full = absorb md5_transform md5_init_regs (m @ take ?p d)"
      by (simp only: append_assoc [symmetric] append_take_drop_id)
    have len2: "length (m @ take ?p d) + (length d - ?p) = length m + length d" using 2 by simp
    have "md5_rel (md5_rest ?c' d ?p) ((m @ take ?p d) @ drop ?p d)"
    proof (rule md5_rest_rel)
      show "md5_state ?c' = absorb md5_transform md5_init_regs (m @ take ?p d)" unfolding state [symmetric] by simp
      have "md5_buffer ?c' = ?full" by simp
      then show "length (md5_buffer ?c') = 64" using full(2) by (simp only:)
      show "md5_count ?c' = w64 (length (m @ take ?p d) + (length d - ?p))" unfolding len2 using count by simp
      show "\<not> md5_finalized ?c'" using rel by simp
    qed (fact len 2(2))+
    then show ?thesis using upd by simp
  next
    case 3
    have upd: "md5_update c d = ?c\<lparr>md5_buffer := splice ?i d (md5_buffer c)\<rparr>"
      using 3 index rel by (simp add: md5_update_def Let_def)
    have len: "(length m + length d) mod 64 = ?i + length d"
      using 3 mod_less [of "?i + length d" 64] by (simp add: mod_add_left_eq [symmetric, of "length m"])
    have short: "length (?tail @ d) < 64" using 3 tail by simp
    have "m @ d = ?head @ ?tail @ d" by (simp only: append_assoc [symmetric] append_take_drop_id)
    then have "absorb md5_transform md5_init_regs (m @ d) = md5_state c"
      by (simp only: absorb_tail [OF head short] head_state)
    moreover have "take (?i + length d) (splice ?i d (md5_buffer c)) = ?tail @ d"
      using rel 3 by (simp add: splice_def min_def)
    moreover have "length m + length d - (?i + length d) = length m - ?i" by simp
    ultimately show ?thesis
      unfolding md5_rel_def upd using rel count len 3 by simp
  qed
qed

lemma md5_feed_rel: "md5_rel c m \<Longrightarrow> md5_rel (fold (\<lambda>d c. md5_update c d) ds c) (m @ concat ds)"
proof (induction ds arbitrary: c m)
  case (Cons d ds)
  then show ?case using Cons.IH [OF md5_update_rel [OF Cons.prems, of d]] by simp
qed simp

lemma md5_final_rel:
  assumes "md5_rel c m"
  shows "snd (md5_final_raw c) = md5_spec m"
    and "md5_final_raw (fst (md5_final_raw c)) = (fst (md5_final_raw c), md5_spec m)"
proof -
  let ?i = "length m mod 64"
  define pad where "pad = (0x80 :: byte) # replicate (pad_zeros (length m)) 0"
  define c1 where "c1 = md5_update c pad"
  let ?L = "nat_le 8 (w64 (length m * 8))"
  note rel = assms [unfolded md5_rel_def]
  have index: "md5_count c mod 64 = ?i" and bits: "w64 (md5_count c * 8) = w64 (length m * 8)"
    using rel by (simp_all add: w64_mult_w64)
  have padding: "take (if ?i < 56 then 56 - ?i else 120 - ?i) (0x80 # replicate 127 0) = pad"
    using mod_less_divisor [of 64 "length m"] by (auto simp: pad_def pad_zeros_def take_Cons' min_def)
  have rel1: "md5_rel c1 (m @ pad)"
    unfolding c1_def by (rule md5_update_rel [OF assms])
  have at56: "length (m @ pad) mod 64 = 56"
  proof -
    have "length (m @ pad) = length m - ?i + (if ?i < 56 then 56 else 120)"
      using mod_le_divisor [of 64 "length m"] mod_less_eq_dividend [of "length m" 64]
      by (auto simp: pad_def pad_zeros_def)
    moreover have "(length m - ?i) mod 64 = 0" by simp
    ultimately show ?thesis
      using mod_add_left_eq [of "length m - ?i" 64 56] mod_add_left_eq [of "length m - ?i" 64 120] by (simp split: if_splits)
  qed
  have full: "splice 56 ?L (md5_buffer c1) = drop (length (m @ pad) - 56) (m @ pad) @ ?L"
    using rel1 at56 unfolding md5_rel_def by (subst splice_tail) simp_all
  have blocks: "length (take (length (m @ pad) - 56) (m @ pad)) mod 64 = 0"
    "length (drop (length (m @ pad) - 56) (m @ pad)) = 56"
    by (rule split_blocks [of "m @ pad", unfolded at56])+
  have state: "md5_state c1 = absorb md5_transform md5_init_regs (take (length (m @ pad) - 56) (m @ pad))"
    using rel1 absorb_tail [OF blocks(1), of "drop (length (m @ pad) - 56) (m @ pad)" md5_transform md5_init_regs]
    unfolding md5_rel_def append_take_drop_id blocks(2) by simp
  have "padded (\<lambda>n. nat_le 8 (w64 (n * 8))) m = take (length (m @ pad) - 56) (m @ pad)
      @ (drop (length (m @ pad) - 56) (m @ pad) @ ?L)"
    unfolding append_assoc [symmetric] append_take_drop_id by (simp add: padded_def pad_def)
  moreover have one: "length (drop (length (m @ pad) - 56) (m @ pad) @ ?L) = 64"
    using blocks(2) length_append [of "drop (length (m @ pad) - 56) (m @ pad)" ?L] length_nat_le [of 8 "w64 (length m * 8)"]
    by linarith
  ultimately have digest: "md5_out (md5_transform (md5_state c1) (splice 56 ?L (md5_buffer c1))) = md5_spec m"
    unfolding md5_spec_def full state
    by (simp only: absorb_append [OF blocks(1)] absorb_one [OF one])
  have final: "md5_final_raw c = (c1\<lparr>md5_buffer := splice 56 ?L (md5_buffer c1),
      md5_state := md5_transform (md5_state c1) (splice 56 ?L (md5_buffer c1)), md5_digest := md5_spec m,
      md5_finalized := True\<rparr>, md5_spec m)"
    using rel unfolding md5_final_raw_def index bits padding Let_def digest [symmetric] c1_def by simp
  show "snd (md5_final_raw c) = md5_spec m"
    unfolding final by simp
  show "md5_final_raw (fst (md5_final_raw c)) = (fst (md5_final_raw c), md5_spec m)"
    unfolding final by (simp add: md5_final_raw_def)
qed

text \<open>C10. The streaming MD5 context computes the standard's digest of the concatenated input
  however it is cut into updates (lengths counted modulo 2^64 as the context does), and
  finalizing again returns the same digest.\<close>

theorem md5_streams_the_standard:
  "let c = fold (\<lambda>d c. md5_update c d) chunks md5_new
   in snd (md5_final_raw c) = md5_spec (concat chunks)
    \<and> md5_final_raw (fst (md5_final_raw c)) = (fst (md5_final_raw c), md5_spec (concat chunks))"
  using md5_final_rel [OF md5_feed_rel [OF md5_rel_new, of chunks]] by (simp add: Let_def)

lemma md5_save_rel:
  assumes "md5_rel c m"
  shows "md5_save c = Some \<lparr>snap_state = absorb md5_transform md5_init_regs m, snap_count = w64 (length m),
    snap_buffer = drop (length m - length m mod 64) m @ replicate (64 - length m mod 64) 0,
    snap_len = length m mod 64\<rparr>"
  using assms by (simp add: md5_rel_def md5_save_def Let_def)

text \<open>A context saved between updates and loaded into any other context (even a finalized
  one) continues the stream: the final digest is that of all the bytes.  The snapshot depends
  on the bytes only, not on how they were cut into updates.\<close>

lemma md5_resume_continues_stream:
  "\<exists>snap. (\<forall>chunks. concat chunks = m \<longrightarrow> md5_save (fold (\<lambda>d c. md5_update c d) chunks md5_new) = Some snap)
    \<and> snd (md5_load c snap)
    \<and> snd (md5_final_raw (fold (\<lambda>d c. md5_update c d) rest (fst (md5_load c snap)))) = md5_spec (m @ concat rest)"
proof -
  define snap where "snap = \<lparr>snap_state = absorb md5_transform md5_init_regs m, snap_count = w64 (length m),
    snap_buffer = drop (length m - length m mod 64) m @ replicate (64 - length m mod 64) 0,
    snap_len = length m mod 64\<rparr>"
  have len: "length (drop (length m - length m mod 64) m) = length m mod 64" by (rule split_blocks)
  have no: "\<not> 64 < length m mod 64"
    using mod_less_divisor [of 64 "length m"] by linarith
  have "snd (md5_load c snap)" "md5_rel (fst (md5_load c snap)) m"
    using len no by (simp_all add: md5_load_def md5_rel_def snap_def)
  moreover have "\<forall>chunks. concat chunks = m \<longrightarrow> md5_save (fold (\<lambda>d c. md5_update c d) chunks md5_new) = Some snap"
    using md5_save_rel [OF md5_feed_rel [OF md5_rel_new]] by (simp add: snap_def)
  ultimately show ?thesis
    using md5_final_rel(1) [OF md5_feed_rel] by blast
qed

lemma md5_resume_continues_stream_witness:
  "\<exists>snap. md5_save (md5_update md5_new [97]) = Some snap
    \<and> snd (md5_final_raw (md5_update (fst (md5_load md5_new snap)) [98])) = md5_spec [97, 98]"
  using md5_resume_continues_stream [of "[97]" md5_new "[[98]]"] by (auto dest: spec [of _ "[[97]]"])

section \<open>PBKDF2\<close>

lemma length_sha_out [simp]: "length (sha_out regs) = 32"
  by (simp add: sha_out_def split: prod.splits)

lemma length_sha256 [simp]: "length (sha256 m) = 32"
  by (simp add: sha256_hashes_padded)

lemma length_hmac [simp]: "length (hmac_sha256 k m) = 32"
  by (simp add: hmac_sha256_def Let_def)

text \<open>The blocks \<open>T_i\<close> of RFC 8018, written without the loops.\<close>

fun hmac_power :: "buf \<Rightarrow> buf \<Rightarrow> nat \<Rightarrow> buf" where
  "hmac_power pass m 0 = m"
| "hmac_power pass m (Suc n) = hmac_sha256 pass (hmac_power pass m n)"

definition pbkdf2_t :: "buf \<Rightarrow> buf \<Rightarrow> nat \<Rightarrow> u32 \<Rightarrow> buf" where
  "pbkdf2_t pass salt iter i =
     fold (\<lambda>j t. xor_bytes t (hmac_power pass (salt @ be_bytes 4 (unat i)) j)) [2..<Suc iter]
       (hmac_power pass (salt @ be_bytes 4 (unat i)) 1)"

lemma pbkdf2_iter_fold:
  "pbkdf2_iter pass n (hmac_power pass m k) t = fold (\<lambda>j t. xor_bytes t (hmac_power pass m j)) [Suc k..<Suc (k + n)] t"
proof (induction n arbitrary: k t)
  case (Suc n)
  have "[Suc k..<Suc (k + Suc n)] = Suc k # [Suc (Suc k)..<Suc (Suc k + n)]"
    by (simp only: upt_rec [of "Suc k"]) simp
  then show ?case using Suc.IH [of "Suc k"] by (simp del: upt_Suc add: Let_def)
qed simp

lemma length_pbkdf2_t [simp]: "length (pbkdf2_t pass salt iter i) = 32"
proof -
  have "length (fold (\<lambda>j t. xor_bytes t (hmac_power pass m j)) js t) = 32"
    if "length t = 32" "\<forall>j \<in> set js. 2 \<le> j" for m js t
    using that
  proof (induction js arbitrary: t)
    case (Cons j js)
    then obtain k where "j = Suc k" by (cases j) auto
    then show ?case using Cons by simp
  qed simp
  then show ?thesis unfolding pbkdf2_t_def by (simp del: upt_Suc)
qed

lemma pbkdf2_blocks_spec:
  assumes "0 < iter"
  shows "pbkdf2_blocks pass salt iter b left
    = take left (concat (map (\<lambda>j. pbkdf2_t pass salt iter (b + of_nat j)) [0..<(left + 31) div 32]))"
proof (induction left arbitrary: b rule: less_induct)
  case (less left)
  have t: "pbkdf2_iter pass (iter - 1) (hmac_sha256 pass (salt @ be_bytes 4 (unat b)))
      (hmac_sha256 pass (salt @ be_bytes 4 (unat b))) = pbkdf2_t pass salt iter b"
    using pbkdf2_iter_fold [of pass "iter - 1" "salt @ be_bytes 4 (unat b)" 1] assms
    by (simp add: pbkdf2_t_def numeral_2_eq_2)
  show ?case
  proof (cases "left = 0")
    case True
    then show ?thesis by (simp add: pbkdf2_blocks.simps [of _ _ _ _ 0])
  next
    case False
    let ?n = "min left 32"
    have blocks: "(left + 31) div 32 = Suc ((left - ?n + 31) div 32)"
    proof (cases "left \<le> 32")
      case True
      then have "(left + 31) div 32 = 1" using False by (simp add: div_nat_eqI)
      then show ?thesis using True by simp
    next
      case False
      then have "left + 31 = (left - ?n + 31) + 32" by simp
      then show ?thesis by (metis div_add_self2 add.commute plus_1_eq_Suc zero_neq_numeral)
    qed
    have "left - ?n < left" using False by simp
    from less.IH [OF this, of "b + 1"]
    have rest: "pbkdf2_blocks pass salt iter (b + 1) (left - ?n) = take (left - ?n)
        (concat (map (\<lambda>j. pbkdf2_t pass salt iter (b + of_nat (Suc j))) [0..<(left - ?n + 31) div 32]))"
      by (simp add: add.assoc)
    have "pbkdf2_blocks pass salt iter b left = take ?n (pbkdf2_t pass salt iter b)
        @ pbkdf2_blocks pass salt iter (b + 1) (left - ?n)"
      using False t by (subst pbkdf2_blocks.simps) (simp add: Let_def)
    then show ?thesis
      unfolding blocks map_upt_Suc rest by (simp add: min_def)
  qed
qed

text \<open>PBKDF2 returns exactly \<open>out_len\<close> bytes: the prefix of that length of the
  concatenated blocks T\_1, T\_2, ... of RFC 8018, each the exclusive or of the iterated
  HMAC values, and nothing is written when the length or the iteration count is 0.\<close>

lemma pbkdf2_is_rfc8018:
  "case pbkdf2_hmac_sha256 pass salt iter out_len of
     None \<Rightarrow> out_len = 0 \<or> iter = 0
   | Some out \<Rightarrow> length out = out_len \<and> 0 < iter
       \<and> out = take out_len (concat (map (\<lambda>j. pbkdf2_t pass salt iter (1 + of_nat j)) [0..<(out_len + 31) div 32]))"
proof -
  have "length (concat (map (\<lambda>j. pbkdf2_t pass salt iter (1 + of_nat j)) [0..<n])) = 32 * n" for n
    by (induction n) simp_all
  moreover have "out_len \<le> 32 * ((out_len + 31) div 32)"
    using round_up_ge [of 32 out_len] by (simp add: mult.commute)
  ultimately show ?thesis
    by (auto simp: pbkdf2_hmac_sha256_def pbkdf2_blocks_spec)
qed

end
