(* ===== verification/Aes_Ccm.thy ===== *)
theory Aes_Ccm
  imports Aes Digests
begin

text \<open>
  CCM authenticated encryption over AES-256 (crypto/aes\_ccm.cpp), which unwraps the
  BitLocker keys: the wire formats of RFC 3610, the CBC-MAC over the plaintext, the counter
  mode and the two entry points.  A rejected call is \<open>None\<close>; null pointers are not modelled.
\<close>

section \<open>Wire formats\<close>

definition ccm_format_b0 :: "buf \<Rightarrow> nat \<Rightarrow> nat \<Rightarrow> buf" where
  "ccm_format_b0 nonce tag_len pt_len =
     (let L = 15 - length nonce in
      (push_bit 3 (word_of_nat ((tag_len - 2) div 2)) OR word_of_nat (L - 1)) # nonce @ be_bytes L pt_len)"

definition ccm_format_counter :: "buf \<Rightarrow> nat \<Rightarrow> buf" where
  "ccm_format_counter nonce counter =
     (let L = 15 - length nonce in word_of_nat (L - 1) # nonce @ be_bytes L counter)"

section \<open>CBC-MAC and counter mode\<close>

definition zero_padded :: "buf \<Rightarrow> buf" where
  "zero_padded b = take 16 (b @ replicate 16 0)"

function mac_loop :: "buf \<Rightarrow> buf \<Rightarrow> buf \<Rightarrow> buf" where
  "mac_loop key mac data =
     (if data = [] then mac
      else mac_loop key (aes256_encrypt_block key (xor_bytes mac (zero_padded (take 16 data)))) (drop 16 data))"
  by pat_completeness auto
termination
  by (relation "measure (\<lambda>(k, m, d). length d)") auto

declare mac_loop.simps [simp del]

definition ccm_mac :: "buf \<Rightarrow> buf \<Rightarrow> nat \<Rightarrow> buf \<Rightarrow> buf" where
  "ccm_mac key nonce tag_len data =
     mac_loop key (aes256_encrypt_block key (ccm_format_b0 nonce tag_len (length data))) data"

text \<open>The payload loop of both directions; \<open>counter\<close> is 64 bits wide.\<close>

function ctr_loop :: "buf \<Rightarrow> buf \<Rightarrow> nat \<Rightarrow> buf \<Rightarrow> buf" where
  "ctr_loop key nonce counter data =
     (if data = [] then []
      else xor_bytes (take 16 data) (aes256_encrypt_block key (ccm_format_counter nonce counter))
        @ ctr_loop key nonce (w64 (counter + 1)) (drop 16 data))"
  by pat_completeness auto
termination
  by (relation "measure (\<lambda>(k, n, c, d). length d)") auto

declare ctr_loop.simps [simp del]

section \<open>Entry points\<close>

definition aes_ccm_ciphertext_len :: "nat \<Rightarrow> nat" where
  "aes_ccm_ciphertext_len pt_len = w64 (pt_len + 16)"

definition aes_ccm_plaintext_len :: "nat \<Rightarrow> nat" where
  "aes_ccm_plaintext_len ct_len = (if ct_len \<ge> 16 then ct_len - 16 else 0)"

definition aes_ccm_encrypt :: "buf \<Rightarrow> buf \<Rightarrow> buf \<Rightarrow> nat \<Rightarrow> buf option" where
  "aes_ccm_encrypt key nonce pt ct_len =
     (if ct_len \<noteq> w64 (length pt + 16) then None
      else let tag = ccm_mac key nonce 16 pt;
               s0 = aes256_encrypt_block key (ccm_format_counter nonce 0)
           in Some (ctr_loop key nonce 1 pt @ xor_bytes tag s0))"

text \<open>The plaintext is written to the output even when the tag does not match.\<close>

definition aes_ccm_decrypt :: "buf \<Rightarrow> buf \<Rightarrow> buf \<Rightarrow> nat \<Rightarrow> (buf \<times> bool) option" where
  "aes_ccm_decrypt key nonce ct pt_len =
     (if length ct < 16 \<or> w64 (pt_len + 16) \<noteq> length ct then None
      else let tag = slice pt_len 16 ct;
               s0 = aes256_encrypt_block key (ccm_format_counter nonce 0);
               pt = ctr_loop key nonce 1 (take pt_len ct);
               computed = ccm_mac key nonce 16 pt;
               expected = xor_bytes tag s0;
               diff = fold (\<lambda>i d. d OR (computed ! i XOR expected ! i)) [0..<16] 0
           in Some (pt, diff = 0))"

section \<open>Properties\<close>

lemma length_aes256 [simp]: "length (aes256_encrypt_block key b) = 16"
  by (simp add: aes256_encrypt_block_def)

lemma length_zero_padded [simp]: "length (zero_padded b) = 16"
  by (simp add: zero_padded_def)

lemma length_mac_loop: "length mac = 16 \<Longrightarrow> length (mac_loop key mac data) = 16"
proof (induction key mac data rule: mac_loop.induct)
  case (1 key mac data)
  then show ?case by (subst mac_loop.simps) simp
qed

lemma length_ccm_mac [simp]: "length (ccm_mac key nonce t data) = 16"
  by (simp add: ccm_mac_def length_mac_loop)

lemma length_ctr_loop [simp]: "length (ctr_loop key nonce c data) = length data"
proof (induction key nonce c data rule: ctr_loop.induct)
  case (1 key nonce c data)
  then show ?case by (subst ctr_loop.simps) auto
qed

lemma ctr_loop_involution: "ctr_loop key nonce c (ctr_loop key nonce c data) = data"
proof (induction key nonce c data rule: ctr_loop.induct)
  case (1 key nonce c data)
  show ?case
  proof (cases "data = []")
    case True
    then show ?thesis by (simp add: ctr_loop.simps [of _ _ _ "[]"])
  next
    case False
    define ks where "ks = aes256_encrypt_block key (ccm_format_counter nonce c)"
    define rest where "rest = ctr_loop key nonce (w64 (c + 1)) (drop 16 data)"
    let ?head = "xor_bytes (take 16 data) ks"
    have ks: "length ks = 16" by (simp add: ks_def)
    have step: "ctr_loop key nonce c data = ?head @ rest"
      using False by (simp add: ctr_loop.simps [of _ _ _ data] ks_def rest_def)
    have head: "take 16 (?head @ rest) = ?head \<and> drop 16 (?head @ rest) = rest"
    proof (cases "length data \<le> 16")
      case True
      then have "rest = []" by (simp add: rest_def ctr_loop.simps [of _ _ _ "[]"])
      then show ?thesis using True ks by simp
    next
      case False
      then show ?thesis using ks by simp
    qed
    have "xor_bytes ?head ks = take 16 data"
    proof -
      have "xor_bytes ?head ks = xor_bytes (xor_bytes (take 16 data) (take (length data) ks)) (take (length data) ks)"
        using ks by (intro nth_equalityI) simp_all
      also have "\<dots> = take 16 data" using ks by (intro xor_bytes_cancel) simp
      finally show ?thesis .
    qed
    moreover have "?head @ rest \<noteq> []" using step False by (metis length_ctr_loop length_0_conv)
    then have "ctr_loop key nonce c (?head @ rest) = xor_bytes (take 16 (?head @ rest)) ks
        @ ctr_loop key nonce (w64 (c + 1)) (drop 16 (?head @ rest))"
      unfolding ks_def by (subst ctr_loop.simps) (simp only: if_False)
    ultimately show ?thesis
      unfolding step using head 1 [OF False, folded rest_def] by (simp only: append_take_drop_id)
  qed
qed

lemma or_fold_zero:
  "fold (\<lambda>i d. d OR f i) xs d = (0 :: 'a :: len word) \<longleftrightarrow> d = 0 \<and> (\<forall>i \<in> set xs. f i = 0)"
proof (induction xs arbitrary: d)
  case (Cons x xs)
  have "d OR f x = 0 \<longleftrightarrow> d = 0 \<and> f x = 0"
    by (auto simp: bit_eq_iff bit_simps)
  then show ?case using Cons by auto
qed simp

lemma xor_zero_iff: "a XOR b = (0 :: 'a :: len word) \<longleftrightarrow> a = b"
  by (metis xor_cancel_right xor.left_neutral)

lemma diff_zero:
  "length a = 16 \<Longrightarrow> length b = 16 \<Longrightarrow>
    fold (\<lambda>i d. d OR (a ! i XOR b ! i)) [0..<16] (0 :: byte) = 0 \<longleftrightarrow> a = b"
  unfolding or_fold_zero xor_zero_iff by (auto intro: nth_equalityI)

lemma xor_swap: "length t = 16 \<Longrightarrow> length s = 16 \<Longrightarrow> length m = 16 \<Longrightarrow> m = xor_bytes t s \<longleftrightarrow> t = xor_bytes m s"
  using xor_bytes_cancel [of t s] xor_bytes_cancel [of m s] by auto

text \<open>C12. CCM decryption accepts a blob exactly when it is the encryption, under the same key
  and nonce, of the plaintext it returns; every other blob of valid length is reported as not
  authentic, and every encrypted message is accepted and returned unchanged.\<close>

theorem ccm_decrypt_accepts_exactly_encryptions:
  assumes "length ct < 2 ^ 64" "16 \<le> length ct"
  shows "\<exists>pt. length pt = length ct - 16
    \<and> aes_ccm_decrypt key nonce ct (aes_ccm_plaintext_len (length ct))
        = Some (pt, aes_ccm_encrypt key nonce pt (length ct) = Some ct)
    \<and> (\<forall>m. aes_ccm_encrypt key nonce m (length ct) = Some ct \<longrightarrow> m = pt)"
proof -
  let ?n = "length ct - 16"
  let ?s0 = "aes256_encrypt_block key (ccm_format_counter nonce 0)"
  define pt where "pt = ctr_loop key nonce 1 (take ?n ct)"
  define tag where "tag = drop ?n ct"
  have len: "length pt = ?n" "length tag = 16" using assms(2) by (simp_all add: pt_def tag_def)
  have fits: "w64 (?n + 16) = length ct" using assms by (simp add: w64_id)
  have tag: "slice ?n 16 ct = tag" using assms(2) by (simp add: slice_def tag_def)
  have enc: "aes_ccm_encrypt key nonce m (length ct) = Some ct \<longleftrightarrow>
      length m = ?n \<and> m = pt \<and> tag = xor_bytes (ccm_mac key nonce 16 m) ?s0"
    if "length m + 16 < 2 ^ 64 \<or> length m = ?n" for m
  proof -
    have ct: "take ?n ct @ tag = ct" unfolding tag_def by (rule append_take_drop_id)
    have w: "length ct = w64 (length m + 16) \<longleftrightarrow> length m = ?n"
      using that
    proof
      assume "length m + 16 < 2 ^ 64"
      then have "w64 (length m + 16) = length m + 16" by (rule w64_id)
      then show ?thesis using assms(2) by linarith
    next
      assume m: "length m = ?n"
      then show ?thesis by (simp only: m fits simp_thms)
    qed
    have "aes_ccm_encrypt key nonce m (length ct) = Some ct \<longleftrightarrow>
        length m = ?n \<and> ctr_loop key nonce 1 m @ xor_bytes (ccm_mac key nonce 16 m) ?s0 = take ?n ct @ tag"
      unfolding aes_ccm_encrypt_def Let_def ct w by (simp split: if_split)
    also have "\<dots> \<longleftrightarrow> length m = ?n \<and> ctr_loop key nonce 1 m = take ?n ct
        \<and> xor_bytes (ccm_mac key nonce 16 m) ?s0 = tag"
      by auto
    also have "\<dots> \<longleftrightarrow> length m = ?n \<and> m = pt \<and> tag = xor_bytes (ccm_mac key nonce 16 m) ?s0"
      unfolding pt_def by (metis ctr_loop_involution)
    finally show ?thesis .
  qed
  have dec: "aes_ccm_decrypt key nonce ct (aes_ccm_plaintext_len (length ct))
      = Some (pt, ccm_mac key nonce 16 pt = xor_bytes tag ?s0)"
  proof -
    have "\<not> (length ct < 16 \<or> w64 (?n + 16) \<noteq> length ct)"
      unfolding fits using assms(2) by (simp only: not_less de_Morgan_disj simp_thms)
    moreover have "aes_ccm_plaintext_len (length ct) = ?n"
      unfolding aes_ccm_plaintext_len_def using assms(2) by (simp only: if_True)
    moreover have "length (xor_bytes tag ?s0) = 16" using len by simp
    ultimately show ?thesis
      unfolding aes_ccm_decrypt_def Let_def tag pt_def [symmetric]
      by (simp only: if_False tag pt_def [symmetric] diff_zero [OF length_ccm_mac])
  qed
  have swap: "ccm_mac key nonce 16 pt = xor_bytes tag ?s0 \<longleftrightarrow> tag = xor_bytes (ccm_mac key nonce 16 pt) ?s0"
    using len by (intro xor_swap) simp_all
  have "m = pt" if m: "aes_ccm_encrypt key nonce m (length ct) = Some ct" for m
  proof -
    have "ct = ctr_loop key nonce 1 m @ xor_bytes (ccm_mac key nonce 16 m) ?s0"
      using m by (simp add: aes_ccm_encrypt_def Let_def split: if_splits)
    then have "length ct = length m + 16" by (metis length_append length_ctr_loop length_xor_bytes length_ccm_mac length_aes256 min.idem)
    then show ?thesis using enc [of m] m by simp
  qed
  then show ?thesis
    using dec swap enc [of pt] len by (intro exI [of _ pt]) simp
qed

theorem ccm_decrypt_accepts_exactly_encryptions_witness:
  "\<exists>ct. aes_ccm_encrypt [] [] [1, 2] 18 = Some ct \<and> aes_ccm_decrypt [] [] ct 2 = Some ([1, 2], True)"
proof -
  have "(2 :: nat) + 16 < 2 ^ 64" by simp
  then have "w64 (2 + 16) = 18" by (simp add: w64_id)
  then obtain ct where ct: "aes_ccm_encrypt [] [] [1, 2] 18 = Some ct" "length ct = 18"
    by (simp add: aes_ccm_encrypt_def Let_def)
  moreover have "(18 :: nat) < 2 ^ 64" by simp
  ultimately show ?thesis
    using ccm_decrypt_accepts_exactly_encryptions [of ct "[]" "[]"]
    by (auto simp: aes_ccm_plaintext_len_def)
qed

end
