(* ===== verification/Utf8.thy ===== *)
theory Utf8
  imports Prelude
begin

text \<open>
  The two UTF-8 repairs that names and snippets pass through before they reach JavaScript
  (include/util/utf8\_sanitize.h), over the bytes of the string.  The loop index of the code
  is the position in the list: the argument is the rest of the string.
\<close>

section \<open>utf8ForJs\<close>

text \<open>The number of continuation bytes a lead byte announces; \<open>None\<close> for no lead.\<close>

definition lead_need :: "byte \<Rightarrow> nat option" where
  "lead_need c =
     (if c AND 0xE0 = 0xC0 then Some 1
      else if c AND 0xF0 = 0xE0 then Some 2
      else if c AND 0xF8 = 0xF0 then Some 3 else None)"

definition continuation :: "byte \<Rightarrow> bool" where
  "continuation b \<longleftrightarrow> b AND 0xC0 = 0x80"

function utf8_for_js :: "buf \<Rightarrow> buf" where
  "utf8_for_js s =
     (case s of
        [] \<Rightarrow> []
      | c # cs \<Rightarrow>
          if c < 0x80 then c # utf8_for_js cs
          else case lead_need c of
            None \<Rightarrow> 0x3F # utf8_for_js cs
          | Some need \<Rightarrow>
              if need \<ge> length s then [0x3F]
              else if \<not> list_all continuation (take need cs) then 0x3F # utf8_for_js cs
              else take (need + 1) s @ utf8_for_js (drop (need + 1) s))"
  by pat_completeness auto
termination
  by (relation "measure length") auto

declare utf8_for_js.simps [simp del]

section \<open>utf8SanitizeLenientPreserving\<close>

definition lead_class :: "byte \<Rightarrow> nat \<times> byte \<times> byte" where
  "lead_class c =
     (if c \<ge> 0xC2 \<and> c \<le> 0xDF then (1, 0x80, 0xBF)
      else if c \<ge> 0xE0 \<and> c \<le> 0xEF
      then (2, if c = 0xE0 then 0xA0 else 0x80, if c = 0xE0 then 0xBF else if c = 0xED then 0x9F else 0xBF)
      else if c \<ge> 0xF0 \<and> c \<le> 0xF4
      then (3, if c = 0xF0 then 0x90 else 0x80, if c = 0xF0 then 0xBF else if c = 0xF4 then 0x8F else 0xBF)
      else (0, 0x80, 0xBF))"

definition sequence_ok :: "buf \<Rightarrow> nat \<Rightarrow> byte \<Rightarrow> byte \<Rightarrow> bool" where
  "sequence_ok s need min2 max2 \<longleftrightarrow> need \<noteq> 0 \<and> length s \<ge> need + 1
     \<and> min2 \<le> s ! 1 \<and> s ! 1 \<le> max2 \<and> list_all (\<lambda>k. continuation (s ! k)) [2..<Suc need]"

function utf8_sanitize_preserving :: "buf \<Rightarrow> buf" where
  "utf8_sanitize_preserving s =
     (case s of
        [] \<Rightarrow> []
      | c # cs \<Rightarrow>
          if c < 0x80 then c # utf8_sanitize_preserving cs
          else let (need, min2, max2) = lead_class c in
               if sequence_ok s need min2 max2
               then take (need + 1) s @ utf8_sanitize_preserving (drop (need + 1) s)
               else 0x3F # utf8_sanitize_preserving cs)"
  by pat_completeness auto
termination
  by (relation "measure length") auto

declare utf8_sanitize_preserving.simps [simp del]

section \<open>Scalar values and their encoding\<close>

definition scalar_value :: "nat \<Rightarrow> bool" where
  "scalar_value n \<longleftrightarrow> n < 0xD800 \<or> 0xDFFF < n \<and> n \<le> 0x10FFFF"

definition utf8_encode :: "nat \<Rightarrow> buf" where
  "utf8_encode n = map word_of_nat
     (if n < 0x80 then [n]
      else if n < 0x800 then [0xC0 + n div 64, 0x80 + n mod 64]
      else if n < 0x10000 then [0xE0 + n div 4096, 0x80 + n div 64 mod 64, 0x80 + n mod 64]
      else [0xF0 + n div 262144, 0x80 + n div 4096 mod 64, 0x80 + n div 64 mod 64, 0x80 + n mod 64])"

definition utf8_valid :: "buf \<Rightarrow> bool" where
  "utf8_valid s \<longleftrightarrow> (\<exists>ns. list_all scalar_value ns \<and> s = concat (map utf8_encode ns))"

lemma continuation_range: "continuation b \<longleftrightarrow> 0x80 \<le> unat b \<and> unat b < 0xC0"
proof -
  have "list_all (\<lambda>b :: byte. continuation b \<longleftrightarrow> 0x80 \<le> unat b \<and> unat b < 0xC0) (map word_of_nat [0..<256])"
    unfolding continuation_def by code_simp
  then show ?thesis by (rule byte_cases_list)
qed

lemma byte_eqI: "unat a = unat b \<Longrightarrow> a = (b :: byte)"
  by (simp add: word_unat_eq_iff)

lemma byte_le [simp]: "(a :: byte) \<le> b \<longleftrightarrow> unat a \<le> unat b" "a < b \<longleftrightarrow> unat a < unat b"
  by (simp_all add: word_le_nat_alt word_less_nat_alt)

lemma of_nat_byte: "n < 256 \<Longrightarrow> unat (word_of_nat n :: byte) = n"
  by (simp add: unat_of_nat)

lemma word_of_unat_byte: "n = unat (b :: byte) \<Longrightarrow> word_of_nat n = b"
  by simp

lemma base64: "x < 64 \<Longrightarrow> (y * 64 + x) div 64 = (y :: nat)" "x < 64 \<Longrightarrow> (y * 64 + x) mod 64 = x"
  by simp_all

text \<open>An accepted sequence is the encoding of a scalar value, and an encoding is accepted.\<close>

lemma sequence_encodes:
  assumes "lead_class (s ! 0) = (need, min2, max2)" "sequence_ok s need min2 max2"
  shows "\<exists>n. scalar_value n \<and> take (need + 1) s = utf8_encode n"
proof -
  define c b where "c = unat (s ! 0)" and "b = unat (s ! 1)"
  note lead = assms(1) [unfolded lead_class_def] and ok = assms(2) [unfolded sequence_ok_def]
  have need: "need = 1 \<or> need = 2 \<or> need = 3"
    using lead ok by (auto split: if_splits)
  then show ?thesis
  proof (elim disjE)
    assume 1: "need = 1"
    then have c: "0xC2 \<le> c" "c \<le> 0xDF" and b: "0x80 \<le> b" "b < 0xC0" and len: "2 \<le> length s"
      using lead ok by (auto simp: c_def b_def word_unat_eq_iff split: if_splits)
    define n where "n = (c - 0xC0) * 64 + (b - 0x80)"
    have n: "n div 64 = c - 0xC0" "n mod 64 = b - 0x80"
      unfolding n_def using b by (intro base64; simp)+
    have range: "0x80 \<le> n" "n < 0x800"
      using b c by (simp_all add: n_def)
    have "take (need + 1) s = [s ! 0, s ! 1]"
      using len 1 by (intro nth_equalityI) (auto simp: less_Suc_eq numeral_eq_Suc)
    then have "take (need + 1) s = utf8_encode n"
      using n range b c 1 by (simp add: utf8_encode_def) (simp add: c_def b_def)
    moreover have "scalar_value n" using range by (simp add: scalar_value_def)
    ultimately show ?thesis by blast
  next
    assume 2: "need = 2"
    define d where "d = unat (s ! 2)"
    have c: "0xE0 \<le> c" "c \<le> 0xEF" and b: "0x80 \<le> b" "b < 0xC0" "c = 0xE0 \<Longrightarrow> 0xA0 \<le> b" "c = 0xED \<Longrightarrow> b \<le> 0x9F"
      and len: "3 \<le> length s"
      using lead ok 2 by (auto simp: c_def b_def word_unat_eq_iff split: if_splits)
    have d: "0x80 \<le> d" "d < 0xC0"
      using ok 2 by (auto simp: d_def continuation_range numeral_2_eq_2)
    define n where "n = ((c - 0xE0) * 64 + (b - 0x80)) * 64 + (d - 0x80)"
    have n64: "n div 64 = (c - 0xE0) * 64 + (b - 0x80)" "n mod 64 = d - 0x80"
      unfolding n_def using d by (intro base64; simp)+
    have n: "n div 4096 = c - 0xE0" "n div 64 mod 64 = b - 0x80"
    proof -
      have "n div 4096 = n div 64 div 64" by (simp add: div_mult2_eq [symmetric])
      also have "\<dots> = c - 0xE0" unfolding n64(1) using b by (intro base64(1)) simp
      finally show "n div 4096 = c - 0xE0" .
      show "n div 64 mod 64 = b - 0x80" unfolding n64(1) using b by (intro base64(2)) simp
    qed
    have range: "0x800 \<le> n" "n < 0x10000" using b c d by (auto simp: n_def; linarith)+
    have "take (need + 1) s = [s ! 0, s ! 1, s ! 2]"
      using len 2 by (intro nth_equalityI) (auto simp: less_Suc_eq numeral_eq_Suc)
    then have "take (need + 1) s = utf8_encode n"
      using n n64 range b c d 2 by (simp add: utf8_encode_def) (simp add: c_def b_def d_def)
    moreover have "scalar_value n"
      using b c d unfolding scalar_value_def n_def by (cases "c \<le> 0xEC"; cases "c = 0xED") auto
    ultimately show ?thesis by blast
  next
    assume 3: "need = 3"
    define d e where "d = unat (s ! 2)" and "e = unat (s ! 3)"
    have c: "0xF0 \<le> c" "c \<le> 0xF4" and b: "0x80 \<le> b" "b < 0xC0" "c = 0xF0 \<Longrightarrow> 0x90 \<le> b" "c = 0xF4 \<Longrightarrow> b \<le> 0x8F"
      and len: "4 \<le> length s"
      using lead ok 3 by (auto simp: c_def b_def word_unat_eq_iff split: if_splits)
    have de: "0x80 \<le> d" "d < 0xC0" "0x80 \<le> e" "e < 0xC0"
      using ok 3 by (auto simp: d_def e_def continuation_range numeral_2_eq_2 numeral_3_eq_3)
    define n where "n = (((c - 0xF0) * 64 + (b - 0x80)) * 64 + (d - 0x80)) * 64 + (e - 0x80)"
    have n64: "n div 64 = ((c - 0xF0) * 64 + (b - 0x80)) * 64 + (d - 0x80)" "n mod 64 = e - 0x80"
      unfolding n_def using de by (intro base64; simp)+
    have n4096: "n div 4096 = (c - 0xF0) * 64 + (b - 0x80)" "n div 64 mod 64 = d - 0x80"
    proof -
      have "n div 4096 = n div 64 div 64" by (simp add: div_mult2_eq [symmetric])
      also have "\<dots> = (c - 0xF0) * 64 + (b - 0x80)" unfolding n64(1) using de by (intro base64(1)) simp
      finally show "n div 4096 = (c - 0xF0) * 64 + (b - 0x80)" .
      show "n div 64 mod 64 = d - 0x80" unfolding n64(1) using de by (intro base64(2)) simp
    qed
    have n: "n div 262144 = c - 0xF0" "n div 4096 mod 64 = b - 0x80"
    proof -
      have "n div 262144 = n div 4096 div 64" by (simp add: div_mult2_eq [symmetric])
      also have "\<dots> = c - 0xF0" unfolding n4096(1) using b by (intro base64(1)) simp
      finally show "n div 262144 = c - 0xF0" .
      show "n div 4096 mod 64 = b - 0x80" unfolding n4096(1) using b by (intro base64(2)) simp
    qed
    have range: "0x10000 \<le> n" "n \<le> 0x10FFFF" using b c de by (auto simp: n_def; linarith)+
    have "take (need + 1) s = [s ! 0, s ! 1, s ! 2, s ! 3]"
      using len 3 by (intro nth_equalityI) (auto simp: less_Suc_eq numeral_eq_Suc)
    moreover have "0xF0 + n div 262144 = c" "0x80 + n div 4096 mod 64 = b" "0x80 + n div 64 mod 64 = d" "0x80 + n mod 64 = e"
      unfolding n n64(2) n4096(2) using b c de by simp_all
    then have "utf8_encode n = map word_of_nat [c, b, d, e]"
      using range(1) unfolding utf8_encode_def by simp
    ultimately have "take (need + 1) s = utf8_encode n"
      by (simp add: c_def b_def d_def e_def)
    moreover have "scalar_value n" using range by (simp add: scalar_value_def)
    ultimately show ?thesis by blast
  qed
qed


lemma of_nat_bytes [simp]: "n < 256 \<Longrightarrow> unat (word_of_nat n :: byte) = n"
  by (rule of_nat_byte)

lemma encoding_accepted:
  assumes "scalar_value n" "0x80 \<le> n"
  shows "\<exists>need min2 max2. lead_class (utf8_encode n ! 0) = (need, min2, max2)
    \<and> sequence_ok (utf8_encode n @ rest) need min2 max2 \<and> length (utf8_encode n) = need + 1
    \<and> \<not> utf8_encode n ! 0 < 0x80"
proof -
  have small: "n mod 64 < 64" "n div 64 mod 64 < 64" "n div 4096 mod 64 < 64" by simp_all
  consider "n < 0x800" | "0x800 \<le> n" "n < 0x10000" | "0x10000 \<le> n" by linarith
  then show ?thesis
  proof cases
    case 1
    have "2 \<le> n div 64" "n div 64 < 32" using 1 assms(2) by (auto simp: less_mult_imp_div_less less_eq_div_iff_mult_less_eq)
    define w0 w1 :: byte where "w0 = word_of_nat (0xC0 + n div 64)" and "w1 = word_of_nat (0x80 + n mod 64)"
    have u: "unat w0 = 0xC0 + n div 64" "unat w1 = 0x80 + n mod 64"
      unfolding w0_def w1_def using \<open>n div 64 < 32\<close> small by (intro of_nat_byte; simp)+
    have enc: "utf8_encode n = [w0, w1]"
      using 1 assms(2) by (simp add: utf8_encode_def w0_def w1_def)
    show ?thesis
      unfolding enc using u \<open>2 \<le> n div 64\<close> \<open>n div 64 < 32\<close> small
      by (simp add: lead_class_def sequence_ok_def)
  next
    case 2
    define q where "q = n div 64"
    have q: "q div 64 = n div 4096" "32 \<le> q" "q < 1024"
      using 2 by (simp_all add: q_def div_mult2_eq [symmetric] less_mult_imp_div_less less_eq_div_iff_mult_less_eq)
    define c b where "c = n div 4096" and "b = q mod 64"
    have cb: "q = c * 64 + b" "b < 64" "c < 16"
      using q by (simp_all add: c_def b_def flip: q(1))
    have ranges: "c = 0 \<Longrightarrow> 32 \<le> b" "c = 13 \<Longrightarrow> b < 32"
    proof -
      show "c = 0 \<Longrightarrow> 32 \<le> b" using cb q by simp
      assume "c = 13"
      have "\<not> (0xD800 \<le> n \<and> n \<le> 0xDFFF)" using assms(1) by (auto simp: scalar_value_def)
      then have "q < 0x360 \<or> 0x380 \<le> q"
        unfolding q_def by (auto simp: less_eq_div_iff_mult_less_eq not_le intro: less_mult_imp_div_less)
      then show "b < 32" using cb \<open>c = 13\<close> by simp
    qed
    define w0 w1 w2 :: byte where "w0 = word_of_nat (0xE0 + c)" and "w1 = word_of_nat (0x80 + b)"
      and "w2 = word_of_nat (0x80 + n mod 64)"
    have u: "unat w0 = 0xE0 + c" "unat w1 = 0x80 + b" "unat w2 = 0x80 + n mod 64"
      unfolding w0_def w1_def w2_def using cb small by (intro of_nat_byte; simp)+
    have enc: "utf8_encode n = [w0, w1, w2]"
      using 2 by (simp add: utf8_encode_def w0_def w1_def w2_def c_def b_def q_def)
    show ?thesis
    proof -
      have e: "w0 = 0xE0 \<longleftrightarrow> c = 0" "w0 = 0xED \<longleftrightarrow> c = 13" using u by (simp_all add: word_unat_eq_iff)
      have k: "continuation w2" using u small by (simp add: continuation_range)
      show ?thesis
        unfolding enc using u ranges cb(2,3) k
        by (cases "c = 0"; cases "c = 13") (simp_all add: e lead_class_def sequence_ok_def)
    qed
  next
    case 3
    define q where "q = n div 4096"
    have q: "q div 64 = n div 262144" "16 \<le> q" "q < 272"
      using 3 assms(1) by (auto simp: q_def div_mult2_eq [symmetric] scalar_value_def less_eq_div_iff_mult_less_eq
          intro: less_mult_imp_div_less)
    define c b where "c = n div 262144" and "b = q mod 64"
    have cb: "q = c * 64 + b" "b < 64" "c < 5"
      using q by (simp_all add: c_def b_def flip: q(1))
    have ranges: "c = 0 \<Longrightarrow> 16 \<le> b" "c = 4 \<Longrightarrow> b < 16"
      using cb q by simp_all
    define w0 w1 w2 w3 :: byte where "w0 = word_of_nat (0xF0 + c)" and "w1 = word_of_nat (0x80 + b)"
      and "w2 = word_of_nat (0x80 + n div 64 mod 64)" and "w3 = word_of_nat (0x80 + n mod 64)"
    have u: "unat w0 = 0xF0 + c" "unat w1 = 0x80 + b" "unat w2 = 0x80 + n div 64 mod 64" "unat w3 = 0x80 + n mod 64"
      unfolding w0_def w1_def w2_def w3_def using cb small by (intro of_nat_byte; simp)+
    have enc: "utf8_encode n = [w0, w1, w2, w3]"
      using 3 by (simp add: utf8_encode_def w0_def w1_def w2_def w3_def c_def b_def q_def)
    show ?thesis
    proof -
      have e: "w0 = 0xF0 \<longleftrightarrow> c = 0" "w0 = 0xF4 \<longleftrightarrow> c = 4" using u by (simp_all add: word_unat_eq_iff)
      have k: "continuation w2" "continuation w3" using u small by (simp_all add: continuation_range)
      show ?thesis
        unfolding enc using u ranges cb(2,3) k
        by (cases "c = 0"; cases "c = 4") (simp_all add: e lead_class_def sequence_ok_def)
    qed
  qed
qed

lemma sanitize_encoded:
  assumes "scalar_value n"
  shows "utf8_sanitize_preserving (utf8_encode n @ rest) = utf8_encode n @ utf8_sanitize_preserving rest"
proof (cases "n < 0x80")
  case True
  then show ?thesis
    by (subst utf8_sanitize_preserving.simps) (simp add: utf8_encode_def)
next
  case False
  then obtain need min2 max2 where ok: "lead_class (utf8_encode n ! 0) = (need, min2, max2)"
    "sequence_ok (utf8_encode n @ rest) need min2 max2" "length (utf8_encode n) = need + 1"
    "\<not> utf8_encode n ! 0 < 0x80"
    using encoding_accepted [OF assms, of rest] by auto
  obtain c cs where c: "utf8_encode n = c # cs" using ok(3) by (cases "utf8_encode n") auto
  then show ?thesis
    using ok by (subst utf8_sanitize_preserving.simps) (simp del: byte_le)
qed

lemma utf8_valid_Nil [simp]: "utf8_valid []"
  by (auto simp: utf8_valid_def intro: exI [of _ "[]"])

lemma utf8_valid_encoded: "scalar_value n \<Longrightarrow> utf8_valid s \<Longrightarrow> utf8_valid (utf8_encode n @ s)"
proof -
  assume n: "scalar_value n" and "utf8_valid s"
  then obtain ns where "list_all scalar_value ns" "s = concat (map utf8_encode ns)"
    by (auto simp: utf8_valid_def)
  then show ?thesis
    using n unfolding utf8_valid_def by (intro exI [of _ "n # ns"]) simp
qed

lemma utf8_valid_ascii: "unat c < 0x80 \<Longrightarrow> utf8_valid s \<Longrightarrow> utf8_valid (c # s)"
  using utf8_valid_encoded [of "unat c" s] by (simp add: utf8_encode_def scalar_value_def)

lemma sanitize_props: "length (utf8_sanitize_preserving s) = length s \<and> utf8_valid (utf8_sanitize_preserving s)"
proof (induction s rule: utf8_sanitize_preserving.induct)
  case (1 s)
  show ?case
  proof (cases s)
    case Nil
    then show ?thesis by (simp add: utf8_sanitize_preserving.simps)
  next
    case (Cons c cs)
    obtain need min2 max2 where lead: "lead_class c = (need, min2, max2)" by (cases "lead_class c") auto
    note step = utf8_sanitize_preserving.simps [of s, unfolded Cons, simplified list.case lead prod.case]
    show ?thesis
    proof (cases "c < 0x80")
      case True
      then show ?thesis using "1.IH"(1) [OF Cons True] step Cons utf8_valid_ascii by simp
    next
      case False
      show ?thesis
      proof (cases "sequence_ok s need min2 max2")
        case True
        then have len: "need + 1 \<le> length s" by (simp add: sequence_ok_def)
        obtain n where n: "scalar_value n" "take (need + 1) s = utf8_encode n"
          using sequence_encodes [of s need min2 max2] lead True Cons by auto
        have "utf8_sanitize_preserving s = utf8_encode n @ utf8_sanitize_preserving (drop (need + 1) s)"
          using step False True Cons n(2) by simp
        moreover have "length (utf8_sanitize_preserving (drop (need + 1) s)) = length (drop (need + 1) s)
            \<and> utf8_valid (utf8_sanitize_preserving (drop (need + 1) s))"
          using "1.IH"(2) [OF Cons False lead [symmetric]] True by simp
        moreover have "length (utf8_encode n) = need + 1" using len n(2) by (metis length_take min.absorb2)
        ultimately show ?thesis using n(1) len utf8_valid_encoded by simp
      next
        case bad: False
        have "utf8_sanitize_preserving s = 0x3F # utf8_sanitize_preserving cs"
          using step False bad Cons by simp
        then show ?thesis
          using "1.IH"(3) [OF Cons False lead [symmetric]] bad Cons utf8_valid_ascii [of "0x3F"] by simp
      qed
    qed
  qed
qed

text \<open>The length-preserving repair delivers what the snippet highlighting relies on: the
  output has the length of the input and is the UTF-8 encoding of a sequence of Unicode scalar
  values (no overlong form, no surrogate, nothing above U+10FFFF), and exactly the inputs that
  are already valid are unchanged.\<close>

lemma sanitize_preserves_length_and_validates:
  "length (utf8_sanitize_preserving s) = length s \<and> utf8_valid (utf8_sanitize_preserving s)
    \<and> (utf8_sanitize_preserving s = s) = utf8_valid s"
proof -
  have "utf8_sanitize_preserving (concat (map utf8_encode ns)) = concat (map utf8_encode ns)"
    if "list_all scalar_value ns" for ns
    using that
  proof (induction ns)
    case Nil
    then show ?case by (simp add: utf8_sanitize_preserving.simps)
  qed (simp add: sanitize_encoded)
  then have "utf8_valid s \<Longrightarrow> utf8_sanitize_preserving s = s"
    by (auto simp: utf8_valid_def)
  then show ?thesis using sanitize_props [of s] by metis
qed

end
