(* ===== verification/Audit_Log.thy ===== *)
theory Audit_Log
  imports Prelude Digests Runs_Codec
begin

text \<open>
  The hash-chained forensic audit log (forensic/audit\_logger.cpp): its own byte-at-a-time
  SHA-256, the logger with its queue, its synchronous path for critical events and its
  validation of renderer events, and the verifier that walks a log file.  The file is its
  text; the clock and the arguments of the calls are arguments of the model.  A hash whose
  input is too long for the 32-bit loop counter of \<open>sha256_update\<close> never returns: such a
  call is \<open>None\<close>.
\<close>

section \<open>The SHA-256 of the logger\<close>

definition sha256_k :: "u32 list" where
  "sha256_k = [0x428A2F98, 0x71374491, 0xB5C0FBCF, 0xE9B5DBA5, 0x3956C25B, 0x59F111F1, 0x923F82A4, 0xAB1C5ED5,
    0xD807AA98, 0x12835B01, 0x243185BE, 0x550C7DC3, 0x72BE5D74, 0x80DEB1FE, 0x9BDC06A7, 0xC19BF174,
    0xE49B69C1, 0xEFBE4786, 0x0FC19DC6, 0x240CA1CC, 0x2DE92C6F, 0x4A7484AA, 0x5CB0A9DC, 0x76F988DA,
    0x983E5152, 0xA831C66D, 0xB00327C8, 0xBF597FC7, 0xC6E00BF3, 0xD5A79147, 0x06CA6351, 0x14292967,
    0x27B70A85, 0x2E1B2138, 0x4D2C6DFC, 0x53380D13, 0x650A7354, 0x766A0ABB, 0x81C2C92E, 0x92722C85,
    0xA2BFE8A1, 0xA81A664B, 0xC24B8B70, 0xC76C51A3, 0xD192E819, 0xD6990624, 0xF40E3585, 0x106AA070,
    0x19A4C116, 0x1E376C08, 0x2748774C, 0x34B0BCB5, 0x391C0CB3, 0x4ED8AA4A, 0x5B9CCA4F, 0x682E6FF3,
    0x748F82EE, 0x78A5636F, 0x84C87814, 0x8CC70208, 0x90BEFFFA, 0xA4506CEB, 0xBEF9A3F7, 0xC67178F2]"

record sha_ctx =
  ctx_data :: buf
  ctx_datalen :: nat
  ctx_bitlen :: nat
  ctx_state :: sha_regs

definition audit_round :: "u32 list \<Rightarrow> nat \<Rightarrow> sha_regs \<Rightarrow> sha_regs" where
  "audit_round m i regs =
     (let (a, b, c, d, e, f, g, h) = regs;
          t1 = h + sigma1 e + ch e f g + sha256_k ! i + m ! i;
          t2 = sigma0 a + maj a b c
      in (t1 + t2, a, b, c, d + t1, e, f, g))"

definition audit_transform :: "sha_regs \<Rightarrow> buf \<Rightarrow> sha_regs" where
  "audit_transform state block =
     (let m = sha_schedule 48 (map (\<lambda>i. be_word block (4 * i)) [0..<16]);
          (a, b, c, d, e, f, g, h) = state;
          (a', b', c', d', e', f', g', h') = fold (audit_round m) [0..<64] state
      in (a + a', b + b', c + c', d + d', e + e', f + f', g + g', h + h'))"

definition ctx_init :: "buf \<Rightarrow> sha_ctx" where
  "ctx_init memory = \<lparr>ctx_data = memory, ctx_datalen = 0, ctx_bitlen = 0,
     ctx_state = (0x6a09e667, 0xbb67ae85, 0x3c6ef372, 0xa54ff53a, 0x510e527f, 0x9b05688c, 0x1f83d9ab, 0x5be0cd19)\<rparr>"

definition ctx_push :: "sha_ctx \<Rightarrow> byte \<Rightarrow> sha_ctx" where
  "ctx_push c b =
     (let c1 = c\<lparr>ctx_data := (ctx_data c)[ctx_datalen c := b], ctx_datalen := ctx_datalen c + 1\<rparr>
      in if ctx_datalen c1 = 64
         then c1\<lparr>ctx_state := audit_transform (ctx_state c1) (ctx_data c1),
                 ctx_bitlen := w64 (ctx_bitlen c1 + 512), ctx_datalen := 0\<rparr>
         else c1)"

text \<open>The loop \<open>for (i = 0; i < len; ++i)\<close> with a 32-bit \<open>i\<close> and a 64-bit \<open>len\<close>.\<close>

partial_function (option) ctx_update :: "sha_ctx \<Rightarrow> buf \<Rightarrow> nat \<Rightarrow> sha_ctx option" where
  "ctx_update c data i =
     (if i < length data then ctx_update (ctx_push c (data ! i)) data (w32 (i + 1)) else Some c)"

definition ctx_final :: "sha_ctx \<Rightarrow> buf" where
  "ctx_final c =
     (let n = ctx_datalen c;
          (state, data) =
            (if n < 56 then (ctx_state c, splice n (0x80 # replicate (55 - n) 0) (ctx_data c))
             else let full = splice n (0x80 # replicate (63 - n) 0) (ctx_data c)
                  in (audit_transform (ctx_state c) full, splice 0 (replicate 56 0) full));
          bits = w64 (ctx_bitlen c + w32 (n * 8))
      in sha_out (audit_transform state (splice 56 (be_bytes 8 bits) data)))"

definition bytes_to_hex :: "buf \<Rightarrow> string" where
  "bytes_to_hex hash = concat (map hex_byte hash)"

text \<open>The context is a local variable: \<open>memory\<close> is what its data array holds before.\<close>

definition calculate_sha256_in :: "buf \<Rightarrow> buf \<Rightarrow> string option" where
  "calculate_sha256_in memory data =
     map_option (\<lambda>c. bytes_to_hex (ctx_final c)) (ctx_update (ctx_init memory) data 0)"

definition calculate_sha256 :: "buf \<Rightarrow> string option" where
  "calculate_sha256 = calculate_sha256_in (replicate 64 0)"

section \<open>The logger\<close>

record logger =
  log_prev :: string
  log_open :: bool
  log_text :: string
  log_queue :: "string list"
  log_stop :: bool
  bridge_tokens :: int
  bridge_refill :: int

definition zero_hash :: string where
  "zero_hash = replicate 64 (CHR ''0'')"

text \<open>
  The token bucket is a double in the code; here it counts billionths of a token, so that
  a refill over a number of nanoseconds is exact (floating-point rounding is not modelled).
\<close>

definition token :: int where "token = 1000000000"

definition new_logger :: logger where
  "new_logger = \<lparr>log_prev = zero_hash, log_open = False, log_text = [], log_queue = [], log_stop = False,
     bridge_tokens = 60 * token, bridge_refill = 0\<rparr>"

text \<open>\<open>file\<close> is the text of the file at the path, or \<open>None\<close> when it cannot be opened.\<close>

definition initialize :: "string option \<Rightarrow> logger \<Rightarrow> logger" where
  "initialize file l = (case file of
     None \<Rightarrow> l\<lparr>log_open := False\<rparr>
   | Some t \<Rightarrow> l\<lparr>log_open := True, log_text := t\<rparr>)"

definition chain_marker :: string where
  "chain_marker = '' | ChainHash: ''"

definition write_entry :: "string \<Rightarrow> logger \<Rightarrow> logger option" where
  "write_entry message l =
     map_option (\<lambda>new_hash. l\<lparr>log_prev := new_hash,
         log_text := (if log_open l then log_text l @ message @ chain_marker @ new_hash @ [CHR 0x0A] else log_text l)\<rparr>)
       (calculate_sha256 (bytes_of (log_prev l @ message)))"

definition enqueue_log :: "string \<Rightarrow> bool \<Rightarrow> logger \<Rightarrow> logger option" where
  "enqueue_log message critical l =
     (if critical then write_entry message l else Some (l\<lparr>log_queue := log_queue l @ [message]\<rparr>))"

text \<open>One turn of the worker thread, and the drain of the whole queue.\<close>

definition worker_step :: "logger \<Rightarrow> logger option" where
  "worker_step l = (case log_queue l of [] \<Rightarrow> Some l | m # ms \<Rightarrow> write_entry m (l\<lparr>log_queue := ms\<rparr>))"

fun write_all :: "string list \<Rightarrow> logger \<Rightarrow> logger option" where
  "write_all [] l = Some l"
| "write_all (m # ms) l = Option.bind (write_entry m (l\<lparr>log_queue := ms\<rparr>)) (write_all ms)"

definition flush_pending :: "logger \<Rightarrow> logger option" where
  "flush_pending l = write_all (log_queue l) l"

definition shutdown :: "logger \<Rightarrow> logger option" where
  "shutdown l = map_option (\<lambda>l1. if log_stop l1 then l1 else l1\<lparr>log_stop := True, log_open := False\<rparr>) (flush_pending l)"

definition consume_bridge_token :: "int \<Rightarrow> logger \<Rightarrow> logger \<times> bool" where
  "consume_bridge_token now l =
     (let last = (if bridge_refill l = 0 then now else bridge_refill l);
          elapsed = now - last;
          l1 = (if elapsed > 0
                then l\<lparr>bridge_tokens := min (60 * token) (bridge_tokens l + elapsed * 20), bridge_refill := now\<rparr>
                else l\<lparr>bridge_refill := last\<rparr>)
      in if bridge_tokens l1 < token then (l1, False)
         else (l1\<lparr>bridge_tokens := bridge_tokens l1 - token\<rparr>, True))"

definition has_prefix :: "string \<Rightarrow> string \<Rightarrow> bool" where
  "has_prefix p s \<longleftrightarrow> take (length p) s = p"

definition is_critical_event_token :: "string \<Rightarrow> bool" where
  "is_critical_event_token t \<longleftrightarrow> has_prefix ''RECOVER'' t \<or> has_prefix ''WIPE'' t
     \<or> has_prefix ''BITLOCKER'' t \<or> has_prefix ''FILE_RECOVERED'' t"

definition event_token_of :: "string \<Rightarrow> string" where
  "event_token_of m = takeWhile (\<lambda>c. c \<noteq> CHR '' '' \<and> c \<noteq> CHR ''|'') m"

definition token_char :: "char \<Rightarrow> bool" where
  "token_char c \<longleftrightarrow> (let v = of_char c :: nat in 65 \<le> v \<and> v \<le> 90 \<or> 48 \<le> v \<and> v \<le> 57 \<or> c = CHR ''_'')"

definition is_valid_bridge_event :: "string \<Rightarrow> bool" where
  "is_valid_bridge_event e \<longleftrightarrow> e \<noteq> [] \<and> length e \<le> 512
     \<and> list_all token_char (event_token_of e) \<and> event_token_of e \<noteq> []
     \<and> list_all (\<lambda>c. 0x20 \<le> (of_char c :: nat) \<and> (of_char c :: nat) \<le> 0x7E) (drop (length (event_token_of e)) e)"

definition stamped :: "string \<Rightarrow> string \<Rightarrow> string" where
  "stamped now rest = ''['' @ now @ ''] '' @ rest"

definition log_disk_read :: "string \<Rightarrow> string \<Rightarrow> nat \<Rightarrow> nat \<Rightarrow> logger \<Rightarrow> logger option" where
  "log_disk_read now dev off sz l =
     enqueue_log (stamped now (''DISK_READ | Device: '' @ dev @ '' | Offset: '' @ dec_string off
       @ '' | Size: '' @ dec_string sz)) False l"

definition sanitized :: "string \<Rightarrow> string" where
  "sanitized m = map (\<lambda>c. if c = CHR 0x0A \<or> c = CHR 0x0D then CHR '' '' else c) m"

definition log_event :: "string \<Rightarrow> string \<Rightarrow> logger \<Rightarrow> logger option" where
  "log_event now m l =
     enqueue_log (stamped now (''EVENT | '' @ sanitized m)) (is_critical_event_token (event_token_of (sanitized m))) l"

definition log_event_from_bridge :: "string \<Rightarrow> int \<Rightarrow> string \<Rightarrow> logger \<Rightarrow> (logger \<times> bool) option" where
  "log_event_from_bridge now steady e l =
     (if \<not> is_valid_bridge_event e then Some (l, False)
      else let (l1, ok) = consume_bridge_token steady l in
           if \<not> ok then Some (l1, False)
           else map_option (\<lambda>l2. (l2, True))
             (enqueue_log (stamped now (''EVENT | JS | '' @ e)) (is_critical_event_token (event_token_of e)) l1))"

definition log_file_recovered :: "string \<Rightarrow> string \<Rightarrow> buf \<Rightarrow> logger \<Rightarrow> logger option" where
  "log_file_recovered now path data l =
     Option.bind (calculate_sha256 data) (\<lambda>hash.
       enqueue_log (stamped now (''FILE_RECOVERED | Path: '' @ path @ '' | Size: '' @ dec_string (length data)
         @ '' | SHA256: '' @ hash)) True l)"

section \<open>The verifier\<close>

record verify_result =
  v_ok :: bool
  v_entries :: nat
  v_broken :: nat
  v_detail :: string

text \<open>The lines \<open>std::getline\<close> returns, and \<open>std::string::rfind\<close>.\<close>

fun get_lines :: "string \<Rightarrow> string list" where
  "get_lines [] = []"
| "get_lines (c # cs) =
     (if c = CHR 0x0A then [] # get_lines cs
      else case get_lines cs of [] \<Rightarrow> [[c]] | l # ls \<Rightarrow> (c # l) # ls)"

definition find_last :: "string \<Rightarrow> string \<Rightarrow> nat option" where
  "find_last p s =
     (let is = filter (\<lambda>i. has_prefix p (drop i s)) [0..<Suc (length s)]
      in if is = [] then None else Some (last is))"

definition drop_cr :: "string \<Rightarrow> string" where
  "drop_cr s = (if s \<noteq> [] \<and> last s = CHR 0x0D then butlast s else s)"

definition lower_hex :: "char \<Rightarrow> bool" where
  "lower_hex c \<longleftrightarrow> c \<in> set ''0123456789abcdef''"

definition malformed_hash :: "nat option \<Rightarrow> string \<Rightarrow> bool" where
  "malformed_hash pos stored \<longleftrightarrow> pos = None \<or> length stored \<noteq> 64 \<or> \<not> list_all lower_hex stored"

text \<open>\<open>n\<close> is the number of lines read before; \<open>entries\<close> the line of the last good entry.\<close>

fun verify_walk :: "string \<Rightarrow> nat \<Rightarrow> nat \<Rightarrow> string list \<Rightarrow> verify_result option" where
  "verify_walk prev n entries [] =
     Some \<lparr>v_ok = entries > 0, v_entries = entries, v_broken = 0, v_detail = (if entries > 0 then ''ok'' else ''empty'')\<rparr>"
| "verify_walk prev n entries (raw # rest) =
     (let line = drop_cr raw in
      if line = [] then verify_walk prev (n + 1) entries rest
      else let pos = find_last chain_marker line;
               stored = (case pos of None \<Rightarrow> [] | Some p \<Rightarrow> drop (p + length chain_marker) line)
      in Option.bind
           (case pos of
              None \<Rightarrow> Some False
            | Some p \<Rightarrow> map_option (\<lambda>expected. expected = stored) (calculate_sha256 (bytes_of (prev @ take p line))))
           (\<lambda>line_ok.
              if line_ok then verify_walk stored (n + 1) (n + 1) rest
              else if rest = []
              then if \<not> malformed_hash pos stored
                   then Some \<lparr>v_ok = False, v_entries = n + 1, v_broken = n + 1, v_detail = ''hash mismatch''\<rparr>
                   else Some \<lparr>v_ok = entries > 0, v_entries = entries, v_broken = 0,
                     v_detail = (if entries > 0 then ''incomplete tail (writer active?)'' else ''incomplete tail'')\<rparr>
              else Some \<lparr>v_ok = False, v_entries = n + 1, v_broken = n + 1,
                     v_detail = (if pos = None then ''missing ChainHash'' else ''hash mismatch'')\<rparr>))"

definition verify_audit_chain_file :: "string option \<Rightarrow> verify_result option" where
  "verify_audit_chain_file file = (case file of
     None \<Rightarrow> Some \<lparr>v_ok = False, v_entries = 0, v_broken = 0, v_detail = ''open failed''\<rparr>
   | Some t \<Rightarrow> verify_walk zero_hash 0 0 (get_lines t))"

section \<open>The two SHA-256 implementations agree\<close>

lemma tables_agree: "sha256_k = k_sha"
  by (simp add: sha256_k_def k_sha_def)

lemma length_k_sha: "length k_sha = 64"
  by (simp add: k_sha_def)

lemma length_sha_schedule [simp]: "length (sha_schedule n w) = length w + n"
  by (induction n w rule: sha_schedule.induct) (simp_all add: Let_def)

lemma audit_transform_sha: "audit_transform = sha_transform"
proof (intro ext)
  fix state block
  let ?w = "sha_schedule 48 (map (\<lambda>i. be_word block (4 * i)) [0..<16])"
  have len: "length ?w = 64" by simp
  have zip: "zip k_sha w = map (\<lambda>i. (k_sha ! i, w ! i)) [0..<64]" if "length w = 64" for w
    using that length_k_sha by (intro nth_equalityI) simp_all
  have step: "(\<lambda>i. sha_round (k_sha ! i, w ! i)) = audit_round w" for w
    by (intro ext) (simp add: sha_round_def audit_round_def tables_agree)
  have "fold sha_round (zip k_sha ?w) state = fold (audit_round ?w) [0..<64] state"
    unfolding zip [OF len] fold_map comp_def step ..
  then show "audit_transform state block = sha_transform state block"
    unfolding audit_transform_def sha_transform_def Let_def by simp
qed

definition ctx_rel :: "sha_ctx \<Rightarrow> buf \<Rightarrow> bool" where
  "ctx_rel c m \<longleftrightarrow> ctx_state c = absorb sha_transform sha_init m \<and> ctx_datalen c = length m mod 64
     \<and> ctx_bitlen c = w64 ((length m - length m mod 64) * 8) \<and> length (ctx_data c) = 64
     \<and> take (length m mod 64) (ctx_data c) = drop (length m - length m mod 64) m"

lemma ctx_rel_init: "length memory = 64 \<Longrightarrow> ctx_rel (ctx_init memory) []"
  by (simp add: ctx_rel_def ctx_init_def sha_init_def w64_def)

lemma ctx_push_rel:
  assumes "ctx_rel c m"
  shows "ctx_rel (ctx_push c b) (m @ [b])"
proof -
  let ?r = "length m mod 64"
  let ?head = "take (length m - ?r) m" and ?tail = "drop (length m - ?r) m"
  note rel = assms [unfolded ctx_rel_def]
  have r: "?r < 64" by simp
  have head: "length ?head mod 64 = 0" and tail: "length ?tail = ?r" by (rule split_blocks)+
  have state: "absorb sha_transform sha_init m = absorb sha_transform sha_init ?head"
    using absorb_tail [OF head, of ?tail sha_transform sha_init] tail r by simp
  have whole: "m @ [b] = ?head @ (?tail @ [b])"
    by (simp only: append_assoc [symmetric] append_take_drop_id)
  have data: "take (Suc ?r) ((ctx_data c)[?r := b]) = ?tail @ [b]" "length ((ctx_data c)[?r := b]) = 64"
    using rel r by (simp_all add: take_Suc_conv_app_nth)
  show ?thesis
  proof (cases "?r = 63")
    case True
    have mod: "length (m @ [b]) mod 64 = 0" using True by (simp add: mod_Suc)
    have full: "(ctx_data c)[?r := b] = ?tail @ [b]" "length (?tail @ [b]) = 64"
      using data True tail by simp_all
    have push: "ctx_push c b = c\<lparr>ctx_data := ?tail @ [b], ctx_datalen := 0,
        ctx_state := sha_transform (ctx_state c) (?tail @ [b]), ctx_bitlen := w64 (ctx_bitlen c + 512)\<rparr>"
      using rel True full(1) by (simp add: ctx_push_def Let_def audit_transform_sha)
    have "sha_transform (ctx_state c) (?tail @ [b]) = absorb sha_transform sha_init (m @ [b])"
      unfolding whole absorb_append [OF head] absorb_one [OF full(2)] using rel state by (simp only:)
    moreover have "w64 (ctx_bitlen c + 512) = w64 (length (m @ [b]) * 8)"
    proof -
      have "(length m - ?r) * 8 + 512 = length (m @ [b]) * 8"
        using True mod_less_eq_dividend [of "length m" 64] by simp
      moreover have "w64 (ctx_bitlen c + 512) = w64 ((length m - ?r) * 8 + 512)"
        using rel by (simp add: w64_add_w64)
      ultimately show ?thesis by (simp only:)
    qed
    ultimately show ?thesis
      unfolding ctx_rel_def push mod using full(2) by simp
  next
    case False
    have mod: "length (m @ [b]) mod 64 = Suc ?r" using False r by (simp add: mod_Suc)
    have push: "ctx_push c b = c\<lparr>ctx_data := (ctx_data c)[?r := b], ctx_datalen := Suc ?r\<rparr>"
      using rel False by (simp add: ctx_push_def Let_def)
    have short: "length (?tail @ [b]) < 64" using tail False r by simp
    have "absorb sha_transform sha_init (m @ [b]) = ctx_state c"
      unfolding whole absorb_tail [OF head short] using rel state by (simp only:)
    moreover have "length (m @ [b]) - Suc ?r = length m - ?r" by simp
    moreover have "drop (length m - ?r) (m @ [b]) = ?tail @ [b]" by simp
    ultimately show ?thesis
      unfolding ctx_rel_def push mod using rel data by simp
  qed
qed

lemma ctx_fold_rel: "ctx_rel c m \<Longrightarrow> ctx_rel (fold (\<lambda>b c. ctx_push c b) bs c) (m @ bs)"
proof (induction bs arbitrary: c m)
  case (Cons b bs)
  then show ?case using Cons.IH [OF ctx_push_rel [OF Cons.prems, of b]] by simp
qed simp

lemma ctx_final_rel:
  assumes "ctx_rel c m"
  shows "ctx_final c = sha256 m"
proof -
  let ?r = "length m mod 64"
  let ?tail = "drop (length m - ?r) m"
  let ?blk = "?tail @ 0x80 # replicate (63 - ?r) 0"
  let ?L = "be_bytes 8 (w64 (length m * 8))"
  note rel = assms [unfolded ctx_rel_def]
  have r: "?r < 64" by simp
  have tail: "length ?tail = ?r" by (rule split_blocks)
  have n: "ctx_datalen c = ?r" using rel by simp
  have bits: "w64 (ctx_bitlen c + w32 (?r * 8)) = w64 (length m * 8)"
  proof -
    have "w32 (?r * 8) = ?r * 8" 
    proof (rule w32_id)
      have "?r * 8 < 64 * 8" using r by (rule mult_strict_right_mono) simp
      also have "64 * 8 < (2 :: nat) ^ 32" by simp
      finally show "?r * 8 < 2 ^ 32" .
    qed
    moreover have "(length m - ?r) * 8 + ?r * 8 = length m * 8"
      using mod_less_eq_dividend [of "length m" 64] by (simp add: add_mult_distrib [symmetric])
    moreover have "w64 (ctx_bitlen c + ?r * 8) = w64 ((length m - ?r) * 8 + ?r * 8)"
      using rel w64_add_w64 by simp
    ultimately show ?thesis by (simp only:)
  qed
  have start: "take ?r (ctx_data c) = ?tail" "length (ctx_data c) = 64" using rel by simp_all
  have blk: "length ?blk = 64" using tail r by simp
  have padded: "absorb sha_transform sha_init (padded (\<lambda>n. be_bytes 8 (w64 (n * 8))) m)
    = (if ?r < 56 then sha_transform (ctx_state c) (take 56 ?blk @ ?L)
       else sha_transform (sha_transform (ctx_state c) ?blk) (replicate 56 0 @ ?L))"
    using rel unfolding absorb_padded [of "\<lambda>n. be_bytes 8 (w64 (n * 8))", OF length_be_bytes] Let_def by (simp only:)
  show ?thesis
  proof (cases "?r < 56")
    case True
    let ?d = "splice ?r (0x80 # replicate (55 - ?r) 0) (ctx_data c)"
    have "replicate (63 - ?r) (0 :: byte) = replicate (55 - ?r) 0 @ replicate 8 0"
      using True by (simp add: replicate_add [symmetric])
    then have "take 56 ?d = take 56 ?blk" "length ?d = 64"
      using True start tail Suc_diff_Suc [of ?r 56, symmetric] by (simp_all add: splice_def)
    then have "splice 56 ?L ?d = take 56 ?blk @ ?L"
      by (simp only: splice_tail [OF length_be_bytes])
    then show ?thesis
      using True unfolding sha256_hashes_padded padded ctx_final_def Let_def n bits
      by (simp add: audit_transform_sha)
  next
    case False
    have full: "splice ?r (0x80 # replicate (63 - ?r) 0) (ctx_data c) = ?blk"
      using start r by (simp add: splice_def)
    have "length (splice 0 (replicate 56 0) ?blk) = 64" using blk by simp
    then have "splice 56 ?L (splice 0 (replicate 56 0) ?blk) = take 56 (splice 0 (replicate 56 0) ?blk) @ ?L"
      by (rule splice_tail [OF length_be_bytes])
    also have "take 56 (splice 0 (replicate 56 0) ?blk) = replicate 56 0" by (simp add: splice_def)
    finally show ?thesis
      using False unfolding sha256_hashes_padded padded ctx_final_def Let_def n bits full
      by (simp add: audit_transform_sha)
  qed
qed

lemma ctx_update_returns:
  assumes "length data < 2 ^ 32" "i \<le> length data"
  shows "ctx_update c data i = Some (fold (\<lambda>b c. ctx_push c b) (drop i data) c)"
  using assms(2)
proof (induction "length data - i" arbitrary: i c)
  case 0
  then show ?case by (simp add: ctx_update.simps)
next
  case (Suc n)
  then have i: "i < length data" by simp
  moreover have "w32 (i + 1) = i + 1" using i assms(1) by (intro w32_id) linarith
  ultimately show ?case
    using Suc.hyps(1) [of "i + 1" "ctx_push c (data ! i)"] Suc.hyps(2)
    by (simp add: ctx_update.simps [of c data i] Cons_nth_drop_Suc [symmetric])
qed

lemma ctx_update_diverges:
  assumes "ctx_update c data i = Some r" "i < 2 ^ 32"
  shows "length data < 2 ^ 32"
proof -
  have "i < 2 ^ 32 \<longrightarrow> length data < 2 ^ 32"
  proof (rule ctx_update.raw_induct [where P = "\<lambda>c data i r. i < 2 ^ 32 \<longrightarrow> length data < 2 ^ 32", OF _ assms(1)])
    fix upd :: "sha_ctx \<Rightarrow> buf \<Rightarrow> nat \<Rightarrow> sha_ctx option" and c data i r
    assume IH: "\<And>c data i r. upd c data i = Some r \<Longrightarrow> i < 2 ^ 32 \<longrightarrow> length data < 2 ^ 32"
      and "(if i < length data then upd (ctx_push c (data ! i)) data (w32 (i + 1)) else Some c) = Some r"
    then show "i < 2 ^ 32 \<longrightarrow> length data < 2 ^ 32"
      using IH [of "ctx_push c (data ! i)" data "w32 (Suc i)" r] w32_less [of "Suc i"] by (auto split: if_splits)
  qed
  then show ?thesis using assms(2) by blast
qed

lemma calculate_sha256_eq:
  assumes "length memory = 64"
  shows "calculate_sha256_in memory data =
    (if length data < 2 ^ 32 then Some (bytes_to_hex (sha256 data)) else None)"
proof (cases "length data < 2 ^ 32")
  case True
  have "ctx_final (fold (\<lambda>b c. ctx_push c b) data (ctx_init memory)) = sha256 data"
    using ctx_final_rel [OF ctx_fold_rel [OF ctx_rel_init [OF assms]]] by simp
  then show ?thesis
    using True by (simp add: calculate_sha256_in_def ctx_update_returns)
next
  case False
  then have "ctx_update (ctx_init memory) data 0 = None"
    using ctx_update_diverges [of "ctx_init memory" data 0] by (cases "ctx_update (ctx_init memory) data 0") auto
  then show ?thesis using False by (simp add: calculate_sha256_in_def)
qed

text \<open>C15. The logger's own SHA-256 returns for exactly the inputs below 4 GiB, whatever its
  uninitialised buffer holds, and then its result is the hexadecimal form of the digest that
  crypto/sha256.cpp computes; on longer inputs its 32-bit loop counter wraps and it never
  returns.\<close>

theorem audit_sha256_terminates_below_4gib:
  assumes "length memory = 64"
  shows "calculate_sha256_in memory data =
    (if length data < 2 ^ 32 then Some (bytes_to_hex (sha256 data)) else None)"
  using assms by (rule calculate_sha256_eq)

theorem audit_sha256_terminates_below_4gib_witness:
  "calculate_sha256_in (replicate 64 7) [97, 98, 99] = Some (bytes_to_hex (sha256 [97, 98, 99]))"
  using audit_sha256_terminates_below_4gib [of "replicate 64 7" "[97, 98, 99]"] by simp

section \<open>The hash chain\<close>

lemma hex_digit_lower: "d < 16 \<Longrightarrow> lower_hex (hex_digit d)"
proof -
  assume d: "d < 16"
  have "list_all (\<lambda>d. lower_hex (hex_digit d)) [0..<16]" by code_simp
  then show ?thesis using d by (simp add: list_all_iff)
qed

lemma calculate_shape: "calculate_sha256 data = Some h \<Longrightarrow> length h = 64 \<and> list_all lower_hex h"
proof -
  assume "calculate_sha256 data = Some h"
  then have h: "h = bytes_to_hex (sha256 data)"
    by (simp add: calculate_sha256_def calculate_sha256_eq split: if_splits)
  have "length (concat (map hex_byte bs)) = 2 * length bs \<and> list_all lower_hex (concat (map hex_byte bs))" for bs
  proof (induction bs)
    case (Cons b bs)
    have "lower_hex (hex_digit (unat b div 16))" "lower_hex (hex_digit (unat b mod 16))"
      using unat_byte_less [of b] by (intro hex_digit_lower; simp add: less_mult_imp_div_less)+
    then show ?case using Cons by (simp add: hex_byte_def)
  qed simp
  then show ?thesis unfolding h bytes_to_hex_def by (simp add: length_sha256)
qed

definition entry_line :: "string \<times> string \<Rightarrow> string" where
  "entry_line e = fst e @ chain_marker @ snd e"

fun chained :: "string \<Rightarrow> (string \<times> string) list \<Rightarrow> bool" where
  "chained prev [] \<longleftrightarrow> True"
| "chained prev ((m, h) # es) \<longleftrightarrow> calculate_sha256 (bytes_of (prev @ m)) = Some h \<and> chained h es"

definition last_hash :: "(string \<times> string) list \<Rightarrow> string" where
  "last_hash es = (if es = [] then zero_hash else snd (last es))"

definition newline_free :: "string \<Rightarrow> bool" where
  "newline_free s \<longleftrightarrow> CHR 0x0A \<notin> set s"

lemma chained_append:
  "chained prev (es @ [(m, h)]) \<longleftrightarrow>
    chained prev es \<and> calculate_sha256 (bytes_of ((if es = [] then prev else snd (last es)) @ m)) = Some h"
  by (induction prev es rule: chained.induct) auto

lemma get_lines_line: "newline_free l \<Longrightarrow> get_lines (l @ CHR 0x0A # rest) = l # get_lines rest"
  by (induction l) (auto simp: newline_free_def)

lemma get_lines_entries:
  "\<forall>e \<in> set es. newline_free (entry_line e) \<Longrightarrow>
    get_lines (concat (map (\<lambda>e. entry_line e @ [CHR 0x0A]) es)) = map entry_line es"
  by (induction es) (simp_all add: get_lines_line)

lemma lower_hex_chars: "lower_hex c \<Longrightarrow> c \<noteq> CHR ''|'' \<and> c \<noteq> CHR 0x0A \<and> c \<noteq> CHR 0x0D"
  by (auto simp: lower_hex_def)

lemma last_filter_upt:
  assumes "P k" "k < n" "\<And>i. k < i \<Longrightarrow> i < n \<Longrightarrow> \<not> P i"
  shows "filter P [0..<n] \<noteq> [] \<and> last (filter P [0..<n]) = (k :: nat)"
proof -
  have "[0..<n] = [0..<k] @ k # [Suc k..<n]"
    using assms(2) upt_add_eq_append [of 0 k "n - k"] upt_conv_Cons [of k n] by simp
  moreover have "filter P [Suc k..<n] = []"
    using assms(3) by (auto simp: filter_empty_conv)
  ultimately show ?thesis using assms(1) by simp
qed

lemma marker_length: "length chain_marker = 14"
  by (simp add: chain_marker_def)

lemma find_last_marker:
  assumes "list_all lower_hex h"
  shows "find_last chain_marker (m @ chain_marker @ h) = Some (length m)"
proof -
  let ?s = "m @ chain_marker @ h"
  have no: "\<not> has_prefix chain_marker (drop i ?s)" if i: "length m < i" "i < Suc (length ?s)" for i
  proof
    assume pre: "has_prefix chain_marker (drop i ?s)"
    define j where "j = i - length m"
    have drop: "drop i ?s = drop j (chain_marker @ h)" using i by (simp add: j_def)
    have bar: "Suc i < length ?s \<and> drop i ?s ! 1 = CHR ''|'' \<and> drop i ?s ! 0 = CHR '' ''"
    proof -
      note len = marker_length
      have t: "take 14 (drop i ?s) = chain_marker" using pre unfolding has_prefix_def len .
      then have "length (take 14 (drop i ?s)) = 14" by (simp only: len)
      moreover have "14 \<le> length xs" if "length (take 14 xs) = 14" for xs :: string
        using that by simp
      ultimately have "14 \<le> length (drop i ?s)" by blast
      moreover have "drop i ?s ! 1 = chain_marker ! 1" "drop i ?s ! 0 = chain_marker ! 0"
        using t by (metis nth_take one_less_numeral_iff semiring_norm(76) zero_less_numeral)+
      ultimately show ?thesis by (simp add: chain_marker_def)
    qed
    have "Suc i < length ?s" using bar by blast
    moreover have "length ?s = length m + length (chain_marker @ h)" by simp
    ultimately have "j + 1 < length (chain_marker @ h)" "1 \<le> j" using i(1) unfolding j_def by linarith+
    moreover have "(chain_marker @ h) ! (j + 1) = CHR ''|''" "(chain_marker @ h) ! j = CHR '' ''"
    proof -
      have at: "drop j xs ! 1 = xs ! (j + 1)" "drop j xs ! 0 = xs ! j" if "j + 1 < length xs" for xs :: string
        using that by simp_all
      show "(chain_marker @ h) ! (j + 1) = CHR ''|''" "(chain_marker @ h) ! j = CHR '' ''"
        using bar calculation(1) unfolding drop by (simp_all only: at)
    qed
    moreover have "\<not> (14 \<le> j + 1)"
    proof
      assume "14 \<le> j + 1"
      then have "h ! (j + 1 - 14) \<in> set h" "(chain_marker @ h) ! (j + 1) = h ! (j + 1 - 14)"
        using calculation(1) by (simp_all add: nth_append marker_length)
      then show False
        using assms calculation(3) lower_hex_chars by (auto simp: list_all_iff)
    qed
    ultimately show False
      by (auto simp: nth_append chain_marker_def less_Suc_eq numeral_eq_Suc nth_Cons split: nat.splits)
  qed
  have "has_prefix chain_marker (drop (length m) ?s)" by (simp add: has_prefix_def)
  then show ?thesis
    using last_filter_upt [of "\<lambda>i. has_prefix chain_marker (drop i ?s)" "length m" "Suc (length ?s)"] no
    unfolding find_last_def Let_def by auto
qed

lemma find_last_Some:
  assumes "find_last p s = Some i"
  shows "s = take i s @ p @ drop (i + length p) s"
proof -
  define F where "F = filter (\<lambda>i. has_prefix p (drop i s)) [0..<Suc (length s)]"
  have "i = last F" "F \<noteq> []"
    using assms unfolding find_last_def Let_def F_def [symmetric] by (simp_all split: if_splits)
  then have "i \<in> set F" by simp
  then have "take (length p) (drop i s) = p" unfolding F_def set_filter has_prefix_def by blast
  then have "drop i s = p @ drop (length p) (drop i s)" by (metis append_take_drop_id)
  then show ?thesis by (metis append_take_drop_id drop_drop add.commute)
qed

text \<open>The verdict "ok", line by line.\<close>

definition entry_lines :: "string list \<Rightarrow> string list" where
  "entry_lines ls = filter (\<lambda>l. l \<noteq> []) (map drop_cr ls)"

lemma entry_line_nonempty [simp]: "entry_line e \<noteq> []" "[] \<noteq> entry_line e"
  by (simp_all add: entry_line_def chain_marker_def)

lemma verify_walk_ok:
  "(\<exists>r. verify_walk prev n k ls = Some r \<and> v_detail r = ''ok'') \<longleftrightarrow>
    (\<exists>es. entry_lines ls = map entry_line es \<and> chained prev es \<and> (k > 0 \<or> es \<noteq> []))"
proof (induction ls arbitrary: prev n k)
  case Nil
  then show ?case by (auto simp: entry_lines_def)
next
  case (Cons raw rest)
  define line where "line = drop_cr raw"
  show ?case
  proof (cases "line = []")
    case True
    then show ?thesis
      using Cons.IH [of prev "n + 1" k] by (simp add: line_def entry_lines_def)
  next
    case False
    have lines: "entry_lines (raw # rest) = line # entry_lines rest"
      using False by (simp add: entry_lines_def line_def)
    define pos where "pos = find_last chain_marker line"
    define stored where "stored = (case pos of None \<Rightarrow> [] | Some p \<Rightarrow> drop (p + length chain_marker) line)"
    define verdict where "verdict = (case pos of None \<Rightarrow> Some False
      | Some p \<Rightarrow> map_option (\<lambda>expected. expected = stored) (calculate_sha256 (bytes_of (prev @ take p line))))"
    have walk: "(\<exists>r. verify_walk prev n k (raw # rest) = Some r \<and> v_detail r = ''ok'')
      \<longleftrightarrow> verdict = Some True \<and> (\<exists>r. verify_walk stored (n + 1) (n + 1) rest = Some r \<and> v_detail r = ''ok'')"
      using False unfolding verify_walk.simps line_def [symmetric] Let_def pos_def [symmetric]
        stored_def [symmetric] verdict_def [symmetric]
      by (cases verdict) auto
    show ?thesis
    proof (cases "verdict = Some True")
      case True
      then obtain p where p: "pos = Some p" "calculate_sha256 (bytes_of (prev @ take p line)) = Some stored"
        by (auto simp: verdict_def split: option.splits)
      have line: "line = entry_line (take p line, stored)"
        using find_last_Some [of chain_marker line p] p(1) by (simp add: entry_line_def stored_def pos_def [symmetric])
      have "(\<exists>es. entry_lines rest = map entry_line es \<and> chained stored es)
        \<longleftrightarrow> (\<exists>es. line # entry_lines rest = map entry_line es \<and> chained prev es)"
      proof
        assume "\<exists>es. entry_lines rest = map entry_line es \<and> chained stored es"
        then obtain es where "entry_lines rest = map entry_line es" "chained stored es" by blast
        then show "\<exists>es. line # entry_lines rest = map entry_line es \<and> chained prev es"
          using line p(2) by (intro exI [of _ "(take p line, stored) # es"]) simp
      next
        assume "\<exists>es. line # entry_lines rest = map entry_line es \<and> chained prev es"
        then obtain m h es where es: "line = m @ chain_marker @ h" "entry_lines rest = map entry_line es"
          "calculate_sha256 (bytes_of (prev @ m)) = Some h" "chained h es"
          by (auto simp: Cons_eq_map_conv entry_line_def)
        then have "pos = Some (length m)"
          using find_last_marker [of h m] calculate_shape pos_def by simp
        then have "h = stored" using es(1) by (simp add: stored_def)
        then show "\<exists>es. entry_lines rest = map entry_line es \<and> chained stored es" using es by blast
      qed
      then show ?thesis
        unfolding walk lines using True Cons.IH [of stored "n + 1" "n + 1"] by (auto simp: Cons_eq_map_conv)
    next
      case False
      have "\<not> (\<exists>es. line # entry_lines rest = map entry_line es \<and> chained prev es)"
      proof
        assume "\<exists>es. line # entry_lines rest = map entry_line es \<and> chained prev es"
        then obtain m h where "line = m @ chain_marker @ h" "calculate_sha256 (bytes_of (prev @ m)) = Some h"
          by (auto simp: Cons_eq_map_conv entry_line_def)
        moreover from this have "pos = Some (length m)"
          using find_last_marker [of h m] calculate_shape pos_def by simp
        ultimately show False using False by (simp add: verdict_def stored_def)
      qed
      then show ?thesis unfolding walk lines
        using False by (metis (no_types, lifting))
    qed
  qed
qed

text \<open>C14. The verifier answers "ok" for exactly the files whose non-blank lines form an unbroken
  chain from the zero hash: every line is a message, the marker and the SHA-256 of the previous
  line's hash followed by the message.  No edited, dropped or reordered line is accepted unless
  the hashes are recomputed.\<close>

theorem verifier_accepts_exactly_chains:
  "(\<exists>r. verify_audit_chain_file (Some t) = Some r \<and> v_detail r = ''ok'') \<longleftrightarrow>
    (\<exists>es. es \<noteq> [] \<and> entry_lines (get_lines t) = map entry_line es \<and> chained zero_hash es)"
  using verify_walk_ok [of zero_hash 0 0 "get_lines t"] by (auto simp: verify_audit_chain_file_def)

section \<open>A session of the logger\<close>

text \<open>
  The calls of one session in any order and interleaving (the worker thread takes one entry
  under the mutex at a time).  The clock strings are produced by \<open>put_time\<close>; device and
  recovered-file names are the arguments that the code does not filter.
\<close>

inductive audit_step :: "logger \<Rightarrow> logger \<Rightarrow> bool" where
  disk_read: "newline_free now \<Longrightarrow> newline_free dev \<Longrightarrow> log_disk_read now dev off sz l = Some l' \<Longrightarrow> audit_step l l'"
| event: "newline_free now \<Longrightarrow> log_event now m l = Some l' \<Longrightarrow> audit_step l l'"
| bridge: "newline_free now \<Longrightarrow> log_event_from_bridge now t e l = Some (l', ok) \<Longrightarrow> audit_step l l'"
| recovered: "newline_free now \<Longrightarrow> newline_free path \<Longrightarrow> log_file_recovered now path data l = Some l' \<Longrightarrow> audit_step l l'"
| worker: "worker_step l = Some l' \<Longrightarrow> audit_step l l'"
| flush: "flush_pending l = Some l' \<Longrightarrow> audit_step l l'"
| stop: "shutdown l = Some l' \<Longrightarrow> audit_step l l'"

definition log_entries :: "(string \<times> string) list \<Rightarrow> string" where
  "log_entries es = concat (map (\<lambda>e. entry_line e @ [CHR 0x0A]) es)"

definition log_inv :: "logger \<Rightarrow> bool" where
  "log_inv l \<longleftrightarrow> (\<exists>es. log_text l = log_entries es \<and> chained zero_hash es
       \<and> list_all (\<lambda>e. newline_free (entry_line e)) es \<and> (log_open l \<longrightarrow> log_prev l = last_hash es))
     \<and> list_all newline_free (log_queue l)"

lemma newline_free_append [simp]: "newline_free (a @ b) \<longleftrightarrow> newline_free a \<and> newline_free b"
  by (auto simp: newline_free_def)

lemma newline_free_Cons [simp]: "newline_free (c # s) \<longleftrightarrow> c \<noteq> CHR 0x0A \<and> newline_free s"
  by (auto simp: newline_free_def)

lemma newline_free_Nil [simp]: "newline_free []"
  by (simp add: newline_free_def)

lemma newline_free_hash: "list_all lower_hex h \<Longrightarrow> newline_free h"
  using lower_hex_chars by (auto simp: newline_free_def list_all_iff)

lemma newline_free_dec [simp]: "newline_free (dec_string n)"
  using dec_string_digits [of "CHR 0x0A" n] by (auto simp: newline_free_def is_digit_def)

lemma newline_free_stamped [simp]: "newline_free (stamped now rest) \<longleftrightarrow> newline_free now \<and> newline_free rest"
  by (auto simp: stamped_def)

lemma newline_free_sanitized [simp]: "newline_free (sanitized m)"
  by (auto simp: newline_free_def sanitized_def)

lemma newline_free_bridge:
  assumes "is_valid_bridge_event e"
  shows "newline_free e"
proof -
  let ?k = "length (event_token_of e)"
  have "take ?k e = event_token_of e"
    by (simp add: event_token_of_def takeWhile_eq_take [symmetric])
  then have "set e = set (event_token_of e) \<union> set (drop ?k e)"
    by (metis append_take_drop_id set_append)
  then show ?thesis
    using assms by (auto simp: is_valid_bridge_event_def newline_free_def list_all_iff token_char_def Let_def)
qed

lemma write_entry_inv:
  assumes "log_inv l" "newline_free m" "write_entry m l = Some l'"
  shows "log_inv l'" "log_queue l' = log_queue l"
proof -
  obtain es where es: "log_text l = log_entries es" "chained zero_hash es"
    "list_all (\<lambda>e. newline_free (entry_line e)) es" "log_open l \<longrightarrow> log_prev l = last_hash es"
    and queue: "list_all newline_free (log_queue l)"
    using assms(1) by (auto simp: log_inv_def)
  obtain h where h: "calculate_sha256 (bytes_of (log_prev l @ m)) = Some h"
    and l': "l' = l\<lparr>log_prev := h, log_text := (if log_open l then log_text l @ m @ chain_marker @ h @ [CHR 0x0A] else log_text l)\<rparr>"
    using assms(3) by (auto simp: write_entry_def)
  show "log_queue l' = log_queue l" by (simp add: l')
  show "log_inv l'"
  proof (cases "log_open l")
    case False
    then show ?thesis using es queue unfolding log_inv_def l' by auto
  next
    case True
    have "newline_free (entry_line (m, h))"
      using assms(2) newline_free_hash [of h] calculate_shape [OF h] by (simp add: entry_line_def chain_marker_def)
    moreover have "log_prev l = (if es = [] then zero_hash else snd (last es))"
      using True es(4) by (simp add: last_hash_def)
    ultimately have "chained zero_hash (es @ [(m, h)])"
      "list_all (\<lambda>e. newline_free (entry_line e)) (es @ [(m, h)])" "last_hash (es @ [(m, h)]) = h"
      using es h by (simp_all add: chained_append last_hash_def)
    moreover have "log_text l' = log_entries (es @ [(m, h)])"
      using True es(1) by (simp add: l' log_entries_def entry_line_def)
    ultimately show ?thesis
      unfolding log_inv_def using queue l' by (intro conjI exI [of _ "es @ [(m, h)]"]) simp_all
  qed
qed

lemma log_inv_queue: "log_inv l \<Longrightarrow> list_all newline_free q \<Longrightarrow> log_inv (l\<lparr>log_queue := q\<rparr>)"
  by (simp add: log_inv_def)

lemma enqueue_inv: "log_inv l \<Longrightarrow> newline_free m \<Longrightarrow> enqueue_log m c l = Some l' \<Longrightarrow> log_inv l'"
proof (cases c)
  case True
  then show "log_inv l \<Longrightarrow> newline_free m \<Longrightarrow> enqueue_log m c l = Some l' \<Longrightarrow> log_inv l'"
    using write_entry_inv(1) [of l m l'] by (simp add: enqueue_log_def)
next
  case False
  then show "log_inv l \<Longrightarrow> newline_free m \<Longrightarrow> enqueue_log m c l = Some l' \<Longrightarrow> log_inv l'"
    using log_inv_queue [of l "log_queue l @ [m]"] by (auto simp: enqueue_log_def log_inv_def [of l])
qed

lemma write_all_inv: "log_inv l \<Longrightarrow> list_all newline_free ms \<Longrightarrow> write_all ms l = Some l' \<Longrightarrow> log_inv l'"
proof (induction ms arbitrary: l)
  case (Cons m ms)
  then obtain l1 where "write_entry m (l\<lparr>log_queue := ms\<rparr>) = Some l1" "write_all ms l1 = Some l'"
    by (auto simp: Option.bind_eq_Some_conv)
  moreover have "log_inv (l\<lparr>log_queue := ms\<rparr>)" using Cons.prems by (intro log_inv_queue) simp_all
  ultimately show ?case using Cons write_entry_inv(1) by auto
qed simp

lemma flush_inv: "log_inv l \<Longrightarrow> flush_pending l = Some l' \<Longrightarrow> log_inv l'"
  using write_all_inv [of l "log_queue l"] by (auto simp: flush_pending_def log_inv_def)

lemma log_inv_tokens: "log_inv l \<Longrightarrow> log_inv (fst (consume_bridge_token t l))"
  by (simp add: log_inv_def consume_bridge_token_def Let_def)

lemma audit_step_inv: "audit_step l l' \<Longrightarrow> log_inv l \<Longrightarrow> log_inv l'"
proof (induction rule: audit_step.induct)
  case (disk_read now dev off sz l l')
  then show ?case by (auto simp: log_disk_read_def elim!: enqueue_inv [rotated 2])
next
  case (event now m l l')
  then show ?case by (auto simp: log_event_def elim!: enqueue_inv [rotated 2])
next
  case (bridge now t e l l' ok)
  then show ?case
    using log_inv_tokens [of l t] newline_free_bridge [of e]
    by (auto simp: log_event_from_bridge_def split: if_splits prod.splits elim!: enqueue_inv [rotated 2])
next
  case (recovered now path data l l')
  then show ?case
    using newline_free_hash calculate_shape
    by (auto simp: log_file_recovered_def Option.bind_eq_Some_conv elim!: enqueue_inv [rotated 2])
next
  case (worker l l')
  then show ?case
  proof (cases "log_queue l")
    case Nil
    then show ?thesis using worker by (simp add: worker_step_def)
  next
    case (Cons m ms)
    then have "newline_free m" "log_inv (l\<lparr>log_queue := ms\<rparr>)"
      using worker log_inv_queue [of l ms] by (simp_all add: log_inv_def [of l])
    then show ?thesis
      using worker Cons write_entry_inv(1) [of "l\<lparr>log_queue := ms\<rparr>" m l'] by (simp add: worker_step_def)
  qed
next
  case (flush l l')
  then show ?case by (blast intro: flush_inv)
next
  case (stop l l')
  then obtain l1 where l1: "flush_pending l = Some l1" "l' = (if log_stop l1 then l1 else l1\<lparr>log_stop := True, log_open := False\<rparr>)"
    by (auto simp: shutdown_def)
  have "log_inv l1" using stop.prems l1(1) by (rule flush_inv)
  then show ?case unfolding l1(2) by (auto simp: log_inv_def)
qed

lemma marker_nonempty [simp]: "chain_marker \<noteq> []"
  by (simp add: chain_marker_def)

lemma drop_cr_entry:
  assumes "list_all lower_hex h" "h \<noteq> []"
  shows "drop_cr (entry_line (m, h)) = entry_line (m, h)"
proof -
  have "last (entry_line (m, h)) = last h" using assms(2) by (simp add: entry_line_def)
  moreover have "lower_hex (last h)" using assms by (simp add: list_all_iff)
  ultimately show ?thesis using lower_hex_chars by (auto simp: drop_cr_def)
qed

lemma verify_walk_entries:
  "chained prev es \<Longrightarrow> verify_walk prev n n (map entry_line es) =
    Some \<lparr>v_ok = n + length es > 0, v_entries = n + length es, v_broken = 0,
      v_detail = (if n + length es > 0 then ''ok'' else ''empty'')\<rparr>"
proof (induction es arbitrary: prev n)
  case (Cons e es)
  obtain m h where e: "e = (m, h)" by force
  then have calc: "calculate_sha256 (bytes_of (prev @ m)) = Some h" and rest: "chained h es"
    using Cons.prems by simp_all
  have h: "list_all lower_hex h" "h \<noteq> []" using calculate_shape [OF calc] by auto
  have "verify_walk prev n n (map entry_line (e # es)) = verify_walk h (n + 1) (n + 1) (map entry_line es)"
    using calc find_last_marker [OF h(1), of m]
    unfolding e list.map verify_walk.simps drop_cr_entry [OF h] Let_def
    by (simp add: entry_line_def)
  then show ?case using Cons.IH [OF rest, of "n + 1"] by simp
qed simp


lemma calculate_short: "length data < 2 ^ 32 \<Longrightarrow> calculate_sha256 data = Some (bytes_to_hex (sha256 data))"
  by (simp add: calculate_sha256_def calculate_sha256_eq)

lemma write_first:
  "calculate_sha256 (bytes_of (zero_hash @ m)) = Some h \<Longrightarrow>
    write_entry m (initialize (Some []) new_logger) = Some ((initialize (Some []) new_logger)
      \<lparr>log_prev := h, log_text := m @ chain_marker @ h @ [CHR 0x0A]\<rparr>)"
  by (simp add: write_entry_def, simp add: initialize_def, simp add: new_logger_def)


lemma get_lines_empty: "get_lines s = [] \<longleftrightarrow> s = []"
  by (cases s) (auto split: list.splits)

text \<open>C16. A recovered file whose name contains a line break leaves a log that the verifier
  reports as broken at line 1 with "missing ChainHash", although nothing was tampered with:
  \<open>LogFileRecovered\<close> writes the name unfiltered.\<close>

theorem newline_in_file_name_breaks_log:
  assumes "newline_free now" "newline_free p1"
    and "find_last chain_marker (drop_cr (stamped now (''FILE_RECOVERED | Path: '' @ p1))) = None"
    and "drop_cr (stamped now (''FILE_RECOVERED | Path: '' @ p1)) \<noteq> []"
    and "length data < 2 ^ 32" "length now + length p1 + length p2 + length (dec_string (length data)) < 2 ^ 31"
  shows "\<exists>l. log_file_recovered now (p1 @ CHR 0x0A # p2) data (initialize (Some []) new_logger) = Some l
    \<and> verify_audit_chain_file (Some (log_text l)) = Some \<lparr>v_ok = False, v_entries = 1, v_broken = 1, v_detail = ''missing ChainHash''\<rparr>"
proof -
  let ?start = "initialize (Some []) new_logger"
  let ?first = "stamped now (''FILE_RECOVERED | Path: '' @ p1)"
  define hash where "hash = bytes_to_hex (sha256 data)"
  define rest where "rest = p2 @ '' | Size: '' @ dec_string (length data) @ '' | SHA256: '' @ hash"
  define m where "m = ?first @ CHR 0x0A # rest"
  have calc: "calculate_sha256 data = Some hash"
    unfolding hash_def using assms(5) by (rule calculate_short)
  have m: "stamped now (''FILE_RECOVERED | Path: '' @ (p1 @ CHR 0x0A # p2) @ '' | Size: '' @ dec_string (length data)
      @ '' | SHA256: '' @ hash) = m"
    by (simp add: m_def rest_def stamped_def)
  have "length (bytes_of (zero_hash @ m)) < 2 ^ 32"
    using assms(6) calculate_shape [OF calc] by (simp add: bytes_of_def zero_hash_def m_def rest_def stamped_def)
  then obtain h where h: "calculate_sha256 (bytes_of (zero_hash @ m)) = Some h"
    using calculate_short by blast
  let ?l = "?start\<lparr>log_prev := h, log_text := m @ chain_marker @ h @ [CHR 0x0A]\<rparr>"
  have log: "log_file_recovered now (p1 @ CHR 0x0A # p2) data ?start = Some ?l"
    unfolding log_file_recovered_def calc Option.bind.bind_lunit m
    using write_first [OF h] by (simp add: enqueue_log_def)
  have "get_lines (log_text ?l) = ?first # get_lines (rest @ chain_marker @ h @ [CHR 0x0A])"
    using get_lines_line [of ?first "rest @ chain_marker @ h @ [CHR 0x0A]"] assms(1,2) by (simp add: m_def)
  moreover have "get_lines (rest @ chain_marker @ h @ [CHR 0x0A]) \<noteq> []"
    unfolding get_lines_empty by simp
  ultimately show ?thesis
    using log assms(3,4) by (intro exI [of _ ?l]) (simp add: verify_audit_chain_file_def Let_def)
qed

theorem newline_in_file_name_breaks_log_witness:
  "\<exists>l. log_file_recovered ''t'' (''a'' @ CHR 0x0A # ''b'') [] (initialize (Some []) new_logger) = Some l
    \<and> verify_audit_chain_file (Some (log_text l)) = Some \<lparr>v_ok = False, v_entries = 1, v_broken = 1, v_detail = ''missing ChainHash''\<rparr>"
proof (rule newline_in_file_name_breaks_log)
  show "find_last chain_marker (drop_cr (stamped ''t'' (''FILE_RECOVERED | Path: '' @ ''a''))) = None"
    "drop_cr (stamped ''t'' (''FILE_RECOVERED | Path: '' @ ''a'')) \<noteq> []"
    by code_simp+
qed (simp_all add: dec_string.simps)

end
