(* ===== verification/Partition_Scanner.thy ===== *)
theory Partition_Scanner
  imports Prelude Disk_IO Virtual_Raid
begin

text \<open>
  Partition tables and volume probes (fs/partition\_scanner.cpp): the boot-sector probe, the
  MBR, Apple and GPT tables, their order of precedence and the scan for lost volumes.  The
  disk is read through the \<open>readSectors\<close> of Disk\_IO, the argument \<open>rd\<close>.  The flags
  \<open>tableUnread_\<close> and \<open>scanUnread_\<close> are threaded through the operations.  \<open>None\<close> is an
  access outside a buffer, a division by zero or a loop that does not end.

  A buffer is used only after a complete read, which overwrites all of it; the model passes
  a zeroed buffer to every read.
\<close>

datatype volume_fs_kind =
    FsUnknown | Ntfs | ExFat | Fat | Ext4 | Apfs | Hfs | Refs | Xfs | Lvm | Iso9660 | Udf | Luks | Spaces | FsUnread

record partition =
  p_type :: string
  p_start :: nat
  p_size :: nat
  p_label :: string
  p_active :: bool

text \<open>\<open>readSectors\<close> followed by \<open>readComplete\<close>: the bytes, or \<open>None\<close> for a failed or padded read.\<close>

definition read_whole :: "sector_reader \<Rightarrow> reader \<Rightarrow> nat \<Rightarrow> nat \<Rightarrow> buf option option" where
  "read_whole rd r off n = (case rd r off n (replicate n 0) of
     None \<Rightarrow> None
   | Some (_, res, b) \<Rightarrow> Some (if read_complete res n then Some b else None))"

section \<open>Magics\<close>

definition looks_like_luks1 :: "buf \<Rightarrow> bool" where
  "looks_like_luks1 p \<longleftrightarrow> 8 \<le> length p \<and> take 6 p = [0x4C, 0x55, 0x4B, 0x53, 0xBA, 0xBE] \<and> be_nat 0 (slice 6 2 p) = 1"

definition looks_like_spacedb :: "buf \<Rightarrow> bool" where
  "looks_like_spacedb p \<longleftrightarrow> 8 \<le> length p \<and> take 8 p = bytes_of ''SPACEDB ''"

definition looks_like_lvm2_label :: "buf \<Rightarrow> bool" where
  "looks_like_lvm2_label s \<longleftrightarrow> 32 \<le> length s \<and> take 8 s = bytes_of ''LABELONE'' \<and> slice 24 8 s = bytes_of ''LVM2 001''"

definition kind_if :: "bool option \<Rightarrow> 'k \<Rightarrow> 'k option option \<Rightarrow> 'k option option" where
  "kind_if c k rest = (case c of None \<Rightarrow> None | Some b \<Rightarrow> if b then Some (Some k) else rest)"

definition boot_signature :: "buf \<Rightarrow> bool option" where
  "boot_signature b = and_also (byte_at 0x55 510 b) (byte_at 0xAA 511 b)"

section \<open>probeVolumeAt\<close>

text \<open>The tests on the boot sector, in order; \<open>Some None\<close> when none of them matches.\<close>

definition boot_kind :: "buf \<Rightarrow> volume_fs_kind option option" where
  "boot_kind b =
     kind_if (Some (looks_like_luks1 b)) Luks
    (kind_if (Some (looks_like_spacedb b)) Spaces
    (kind_if (and_also (Some (40 \<le> length b)) (and_also (mem_at (bytes_of ''ReFS'' @ replicate 4 0) 3 b) (mem_at (bytes_of ''FSRS'') 16 b))) Refs
    (kind_if (and_also (Some (16 \<le> length b)) (and_also (mem_at (bytes_of ''NTFS    '') 3 b) (boot_signature b))) Ntfs
    (kind_if (and_also (Some (16 \<le> length b)) (and_also (mem_at (bytes_of ''EXFAT   '') 3 b)
               (and_also (Some (512 \<le> length b)) (boot_signature b)))) ExFat
    (kind_if (and_also (Some (90 \<le> length b)) (and_also (mem_at (bytes_of ''FAT32   '') 82 b) (boot_signature b))) Fat
    (kind_if (and_also (Some (62 \<le> length b)) (and_also (mem_at (bytes_of ''FAT16   '') 54 b) (boot_signature b))) Fat
    (kind_if (and_also (Some (62 \<le> length b)) (mem_at (bytes_of ''FAT12   '') 54 b)) Fat
    (kind_if (and_also (Some (36 \<le> length b)) (mem_at (bytes_of ''NXSB'') 32 b)) Apfs
    (kind_if (and_also (Some (4 \<le> length b)) (mem_at (bytes_of ''XFSB'') 0 b)) Xfs
      (Some None))))))))))"

text \<open>The volume descriptor window: sectors 16 to 31 of 2048 bytes; \<open>n\<close> sectors are left.\<close>

fun iso_loop :: "sector_reader \<Rightarrow> reader \<Rightarrow> nat \<Rightarrow> nat \<Rightarrow> nat \<Rightarrow> bool \<Rightarrow> bool \<Rightarrow> volume_fs_kind option" where
  "iso_loop rd r base 0 s bea nsr = Some (if bea \<and> nsr then Udf else FsUnknown)"
| "iso_loop rd r base (Suc n) s bea nsr =
     (let stop = Some (if bea \<and> nsr then Udf else FsUnknown) in
      case read_whole rd r (w64 (base + s * 2048)) 2048 of
        None \<Rightarrow> None
      | Some None \<Rightarrow> iso_loop rd r base n (s + 1) bea nsr
      | Some (Some b) \<Rightarrow>
          if take 1 b = [255] \<and> slice 1 5 b = bytes_of ''CD001'' then stop
          else if take 1 b = [1] \<and> slice 1 5 b = bytes_of ''CD001'' \<and> slice 6 1 b = [1] then Some Iso9660
          else if take 1 b = [0] \<and> slice 6 1 b = [1]
          then let bea1 = (bea \<or> slice 1 5 b = bytes_of ''BEA01'');
                   nsr1 = (nsr \<or> slice 1 5 b = bytes_of ''NSR02'' \<or> slice 1 5 b = bytes_of ''NSR03'')
               in if slice 1 5 b = bytes_of ''TEA01'' then Some (if bea1 \<and> nsr1 then Udf else FsUnknown)
                  else iso_loop rd r base n (s + 1) bea1 nsr1
          else iso_loop rd r base n (s + 1) bea nsr)"

definition probe_volume_at :: "sector_reader \<Rightarrow> reader \<Rightarrow> nat \<Rightarrow> nat \<Rightarrow> volume_fs_kind option" where
  "probe_volume_at rd r off sector0 =
     (if \<not> is_open r \<and> raid r = None then Some FsUnknown
      else let ss = (if sector0 = 0 then 512 else sector0) in
      case read_whole rd r off ss of
        None \<Rightarrow> None
      | Some None \<Rightarrow> Some FsUnread
      | Some (Some boot) \<Rightarrow>
        (case boot_kind boot of
           None \<Rightarrow> None
         | Some (Some k) \<Rightarrow> Some k
         | Some None \<Rightarrow>
           (let hfs_n = w32 (w32 (1024 + 2 + ss - 1) div ss * ss) in
            case read_whole rd r off hfs_n of
              None \<Rightarrow> None
            | Some None \<Rightarrow> Some FsUnread
            | Some (Some hfs) \<Rightarrow>
                if 1026 \<le> length hfs \<and> hfs ! 1024 = 0x48 \<and> (hfs ! 1025 = 0x2B \<or> hfs ! 1025 = 0x58) then Some Hfs
                else let ext_n = w32 (w32 (2048 + ss - 1) div ss * ss) in
                case read_whole rd r off ext_n of
                  None \<Rightarrow> None
                | Some None \<Rightarrow> Some FsUnread
                | Some (Some ext) \<Rightarrow>
                    (case (if 1026 \<le> length ext then map_option (\<lambda>m. m = 0xEF53) (rd_le 2 ext (1024 + 0x38)) else Some False) of
                       None \<Rightarrow> None
                     | Some True \<Rightarrow> Some Ext4
                     | Some False \<Rightarrow>
                         if 512 + 32 \<le> length ext \<and> looks_like_lvm2_label (drop 512 ext) then Some Lvm
                         else iso_loop rd r off 16 16 False False))))"

section \<open>The tables\<close>

text \<open>The type names of an MBR entry; an unlisted system id is printed in decimal.\<close>

definition mbr_type :: "byte \<Rightarrow> string" where
  "mbr_type sys =
     (if sys = 0x07 then ''NTFS/exFAT'' else if sys = 0x0B \<or> sys = 0x0C then ''FAT32''
      else if sys = 0x83 then ''EXT'' else if sys = 0xEE then ''GPT Protective''
      else if sys = 0x42 then ''LDM'' else ''Unknown (0x'' @ dec_string (unat sys) @ '')'')"

definition mbr_entry :: "buf \<Rightarrow> partition list" where
  "mbr_entry e =
     (if e ! 4 = 0 then []
      else [\<lparr>p_type = mbr_type (e ! 4), p_start = le_nat (slice 8 4 e), p_size = le_nat (slice 12 4 e),
             p_label = [], p_active = (e ! 0 = 0x80)\<rparr>])"

text \<open>The parsers return the partitions and the new value of \<open>tableUnread_\<close>.\<close>

definition parse_mbr :: "sector_reader \<Rightarrow> reader \<Rightarrow> bool \<Rightarrow> (partition list \<times> bool) option" where
  "parse_mbr rd r unread =
     (if \<not> is_open r \<or> sector_size r < 512 then Some ([], unread)
      else case read_whole rd r 0 (sector_size r) of
        None \<Rightarrow> None
      | Some None \<Rightarrow> Some ([], True)
      | Some (Some b) \<Rightarrow>
          if b ! 510 \<noteq> 0x55 \<or> b ! 511 \<noteq> 0xAA then Some ([], unread)
          else Some (concat (map (\<lambda>i. mbr_entry (slice (0x1BE + i * 16) 16 b)) [0..<4]), unread))"

definition be32 :: "nat \<Rightarrow> buf \<Rightarrow> nat" where
  "be32 off b = be_nat 0 (slice off 4 b)"

definition c_string :: "buf \<Rightarrow> string" where
  "c_string b = map (\<lambda>x. char_of (unat x)) (takeWhile (\<lambda>x. x \<noteq> 0) b)"

definition apm_skip_type :: "string \<Rightarrow> bool" where
  "apm_skip_type t \<longleftrightarrow> t = ''Apple_partition_map'' \<or> t = ''Apple_Free'' \<or> t = ''Apple_Void'' \<or> take 12 t = ''Apple_Driver''"

definition apm_entry :: "nat \<Rightarrow> buf \<Rightarrow> partition list" where
  "apm_entry scale b =
     (let start = be32 8 b; cnt = be32 12 b; t = c_string (slice 48 32 b) in
      if start = 0 \<or> cnt = 0 \<or> apm_skip_type t then []
      else [\<lparr>p_type = t, p_start = start * scale, p_size = cnt * scale, p_label = c_string (slice 16 32 b), p_active = False\<rparr>])"

text \<open>The entries after the first; \<open>n\<close> of them are left and the next has index \<open>i\<close>.\<close>

fun apm_loop :: "sector_reader \<Rightarrow> reader \<Rightarrow> nat \<Rightarrow> nat \<Rightarrow> nat \<Rightarrow> nat \<Rightarrow> partition list \<Rightarrow> bool \<Rightarrow> (partition list \<times> bool) option" where
  "apm_loop rd r blk scale 0 i acc unread = Some (acc, unread)"
| "apm_loop rd r blk scale (Suc n) i acc unread =
     (case read_whole rd r (w64 ((i + 1) * blk)) (sector_size r) of
        None \<Rightarrow> None
      | Some None \<Rightarrow> Some (acc, True)
      | Some (Some b) \<Rightarrow>
          if take 2 b \<noteq> bytes_of ''PM'' then apm_loop rd r blk scale n (i + 1) acc unread
          else apm_loop rd r blk scale n (i + 1) (acc @ apm_entry scale b) unread)"

definition parse_apm :: "sector_reader \<Rightarrow> reader \<Rightarrow> bool \<Rightarrow> (partition list \<times> bool) option" where
  "parse_apm rd r unread =
     (if \<not> is_open r \<or> sector_size r < 512 then Some ([], unread)
      else case read_whole rd r 0 (sector_size r) of
        None \<Rightarrow> None
      | Some None \<Rightarrow> Some ([], True)
      | Some (Some b) \<Rightarrow>
          if take 2 b \<noteq> bytes_of ''ER'' then Some ([], unread)
          else let blk = be_nat 0 (slice 2 2 b) in
          if (blk \<noteq> 512 \<and> blk \<noteq> 2048) \<or> blk mod sector_size r \<noteq> 0 then Some ([], unread)
          else let scale = blk div sector_size r in
          case read_whole rd r blk (sector_size r) of
            None \<Rightarrow> None
          | Some None \<Rightarrow> Some ([], True)
          | Some (Some b1) \<Rightarrow>
              if take 2 b1 \<noteq> bytes_of ''PM'' then Some ([], unread)
              else let cnt = be32 4 b1 in
              if cnt < 2 \<or> 64 < cnt then Some ([], unread)
              else apm_loop rd r blk scale (cnt - 1) 1 (apm_entry scale b1) unread)"

section \<open>GPT\<close>

definition gpt_type :: "nat \<Rightarrow> string" where
  "gpt_type guid1 =
     (if guid1 = 0xEBD0A0A2 then ''Windows Basic Data'' else if guid1 = 0x0FC63DAF then ''Linux Data''
      else if guid1 = 0xE6D6D379 then ''Linux LVM'' else if guid1 = 0xC12A7328 then ''EFI System''
      else if guid1 = 0xAF9B60A0 then ''LDM Data'' else if guid1 = 0x5808C8AA then ''LDM Metadata''
      else if guid1 = 0xE75CAF8F then ''Storage Spaces'' else ''Unknown GUID'')"

definition gpt_label :: "buf \<Rightarrow> string" where
  "gpt_label ent = map (\<lambda>v. char_of (v mod 256 :: nat))
     (takeWhile (\<lambda>v. v \<noteq> 0) (map (\<lambda>j. le_nat (slice (56 + 2 * j) 2 ent)) [0..<36]))"

definition gpt_entry :: "buf \<Rightarrow> partition list" where
  "gpt_entry ent =
     (if list_all (\<lambda>b. b = 0) (take 16 ent) then []
      else let first = le_nat (slice 32 8 ent); last_lba = le_nat (slice 40 8 ent) in
        [\<lparr>p_type = gpt_type (le_nat (take 4 ent)), p_start = first, p_size = w64 (sub64 last_lba first + 1),
          p_label = gpt_label ent, p_active = False\<rparr>])"

text \<open>\<open>tryHeader\<close>: the new unread flag, and the header sector if it carries the signature.\<close>

definition try_header :: "sector_reader \<Rightarrow> reader \<Rightarrow> nat \<Rightarrow> bool \<Rightarrow> (bool \<times> buf option) option" where
  "try_header rd r lba unread = (case read_whole rd r (w64 (lba * sector_size r)) (sector_size r) of
     None \<Rightarrow> None
   | Some None \<Rightarrow> Some (True, None)
   | Some (Some b) \<Rightarrow> Some (unread, if take 8 b = bytes_of ''EFI PART'' then Some b else None))"

definition find_header :: "sector_reader \<Rightarrow> reader \<Rightarrow> bool \<Rightarrow> (bool \<times> buf option) option" where
  "find_header rd r unread = (case try_header rd r 1 unread of
     None \<Rightarrow> None
   | Some (u, Some b) \<Rightarrow> Some (u, Some b)
   | Some (u, None) \<Rightarrow>
       let sectors = get_disk_size r div sector_size r in
       if 2 \<le> sectors then try_header rd r (sectors - 1) u else Some (u, None))"

text \<open>Entries \<open>0..<k\<close> of a buffer; the product of the pointer arithmetic is 32 bits wide.\<close>

definition entries_of :: "nat \<Rightarrow> nat \<Rightarrow> buf \<Rightarrow> partition list" where
  "entries_of esz k b = concat (map (\<lambda>e. gpt_entry (slice (w32 (e * esz)) 128 b)) [0..<k])"

text \<open>The loop over the sectors of the entry array: \<open>n\<close> sectors are left, the next is \<open>s\<close>.\<close>

fun gpt_sectors :: "sector_reader \<Rightarrow> reader \<Rightarrow> nat \<Rightarrow> nat \<Rightarrow> nat \<Rightarrow> nat \<Rightarrow> nat \<Rightarrow> nat \<Rightarrow> nat \<Rightarrow> (partition list \<times> bool) option" where
  "gpt_sectors rd r lba num esz eps 0 s parsed = Some ([], False)"
| "gpt_sectors rd r lba num esz eps (Suc n) s parsed =
     (if num \<le> parsed then Some ([], False)
      else case read_whole rd r (w64 (w64 (lba + s) * sector_size r)) (sector_size r) of
        None \<Rightarrow> None
      | Some None \<Rightarrow>
          map_option (\<lambda>(ps, _). (ps, True)) (gpt_sectors rd r lba num esz eps n (s + 1) (w32 (parsed + eps)))
      | Some (Some b) \<Rightarrow>
          let k = min eps (num - parsed) in
          map_option (\<lambda>(ps, u). (entries_of esz k b @ ps, u)) (gpt_sectors rd r lba num esz eps n (s + 1) (parsed + k)))"

text \<open>An entry larger than a sector: the array is read at once.\<close>

definition gpt_wide_entries :: "sector_reader \<Rightarrow> reader \<Rightarrow> nat \<Rightarrow> nat \<Rightarrow> nat \<Rightarrow> bool \<Rightarrow> (partition list \<times> bool) option" where
  "gpt_wide_entries rd r lba num esz unread =
     (let ss = sector_size r; aligned = (num * esz + ss - 1) div ss * ss in
      if 2 ^ 32 - 1 < aligned then Some ([], True)
      else case rd r (w64 (lba * ss)) aligned (replicate aligned 0) of
        None \<Rightarrow> None
      | Some (_, res, b) \<Rightarrow>
          if \<not> read_complete res aligned
          then let walk = (if success res then min (bytes_read res) aligned else 0)
               in Some (entries_of esz (min (walk div esz) num) b, True)
          else Some (entries_of esz num b, unread))"

definition parse_gpt :: "sector_reader \<Rightarrow> reader \<Rightarrow> bool \<Rightarrow> (partition list \<times> bool) option" where
  "parse_gpt rd r unread =
     (if \<not> is_open r \<or> sector_size r < 512 then Some ([], unread)
      else case find_header rd r unread of
        None \<Rightarrow> None
      | Some (u, None) \<Rightarrow> Some ([], u)
      | Some (u, Some b) \<Rightarrow>
          (let lba = le_nat (slice 72 8 b); num = le_nat (slice 80 4 b); esz = le_nat (slice 84 4 b);
               eps = sector_size r div esz in
           if esz < 128 \<or> esz = 0 \<or> num = 0 then Some ([], u)
           else if eps = 0 then gpt_wide_entries rd r lba num esz u
           else map_option (\<lambda>(ps, u1). (ps, u \<or> u1))
                  (gpt_sectors rd r lba num esz eps (w32 (num + eps - 1) div eps) 0 0)))"

definition parse_tables :: "sector_reader \<Rightarrow> reader \<Rightarrow> bool \<Rightarrow> (partition list \<times> bool) option" where
  "parse_tables rd r unread = (case parse_gpt rd r unread of
     None \<Rightarrow> None
   | Some (gpt, u1) \<Rightarrow>
       if gpt \<noteq> [] then Some (gpt, u1)
       else case parse_mbr rd r u1 of
         None \<Rightarrow> None
       | Some (mbr, u2) \<Rightarrow> if mbr \<noteq> [] then Some (mbr, u2) else parse_apm rd r u2)"

definition selected_partition :: "partition list \<Rightarrow> partition list \<Rightarrow> int \<Rightarrow> partition option" where
  "selected_partition mbr gpt index =
     (if index < 0 then None
      else let parts = (if gpt = [] then mbr else gpt) in
        if length parts \<le> nat index then None else Some (parts ! nat index))"

section \<open>The scan for lost volumes\<close>

definition lost_volume :: "nat \<Rightarrow> string \<Rightarrow> partition" where
  "lost_volume sector t = \<lparr>p_type = t, p_start = sector, p_size = 0, p_label = [], p_active = False\<rparr>"

text \<open>The chain of tests on one sector; \<open>Some None\<close> means the superblock test comes next.\<close>

definition lost_boot :: "nat \<Rightarrow> buf \<Rightarrow> partition option option" where
  "lost_boot sector b =
     kind_if (and_also (mem_at (bytes_of ''NTFS    '') 3 b) (boot_signature b)) (lost_volume sector ''NTFS'')
    (kind_if (mem_at (bytes_of ''EXFAT   '') 3 b) (lost_volume sector ''exFAT'')
    (kind_if (and_also (mem_at (bytes_of ''FAT32   '') 82 b) (boot_signature b)) (lost_volume sector ''FAT32'')
    (kind_if (and_also (mem_at (bytes_of ''FAT16   '') 54 b) (boot_signature b)) (lost_volume sector ''FAT16'')
    (kind_if (Some (looks_like_lvm2_label b))
       (let lab = le_nat (slice 8 8 b) in lost_volume (if lab \<le> sector then sector - lab else sector) ''LVM2 PV'')
    (kind_if (Some (looks_like_spacedb b)) (lost_volume sector ''Storage Spaces'') (Some None))))))"

text \<open>One iteration: what it adds to the result and whether it sets \<open>scanUnread_\<close>.\<close>

definition scan_sector :: "sector_reader \<Rightarrow> reader \<Rightarrow> nat \<Rightarrow> (partition list \<times> bool) option" where
  "scan_sector rd r sector =
     (let ss = sector_size r in
      case read_whole rd r (w64 (sector * ss)) ss of
        None \<Rightarrow> None
      | Some None \<Rightarrow> Some ([], True)
      | Some (Some b) \<Rightarrow>
          (case lost_boot sector b of
             None \<Rightarrow> None
           | Some (Some p) \<Rightarrow> Some ([p], False)
           | Some None \<Rightarrow>
               if 2048 \<le> ss
               then map_option (\<lambda>m. (if m = 0xEF53 then [lost_volume sector ''EXT''] else [], False)) (rd_le 2 b (1024 + 0x38))
               else (case read_whole rd r (w64 (sector * ss)) 2048 of
                       None \<Rightarrow> None
                     | Some None \<Rightarrow> Some ([], True)
                     | Some (Some e) \<Rightarrow>
                         map_option (\<lambda>m. (if m = 0xEF53 then [lost_volume sector ''EXT''] else [], False)) (rd_le 2 e (1024 + 0x38)))))"

partial_function (option) scan_loop ::
  "sector_reader \<Rightarrow> reader \<Rightarrow> nat \<Rightarrow> nat \<Rightarrow> nat \<Rightarrow> partition list \<Rightarrow> bool \<Rightarrow> (partition list \<times> bool) option" where
  "scan_loop rd r step sectors sector acc unread =
     (if sector < sectors
      then Option.bind (scan_sector rd r sector) (\<lambda>(ps, u).
             scan_loop rd r step sectors (w64 (sector + step)) (acc @ ps) (unread \<or> u))
      else Some (acc, unread))"

definition scan_for_partitions :: "sector_reader \<Rightarrow> reader \<Rightarrow> nat \<Rightarrow> (partition list \<times> bool) option" where
  "scan_for_partitions rd r step =
     (if \<not> is_open r then Some ([], False)
      else if sector_size r = 0 then None
      else scan_loop rd r step (get_disk_size r div sector_size r) 0 [] False)"


section \<open>Reading the GPT entry array\<close>

text \<open>
  The disk as \<open>parseGPT\<close> sees it: whole-sector reads of the sectors in \<open>good\<close> return the
  bytes of \<open>D\<close>, and all other whole-sector reads fail.
\<close>

definition sector_disk :: "sector_reader \<Rightarrow> reader \<Rightarrow> nat set \<Rightarrow> buf \<Rightarrow> nat \<Rightarrow> bool" where
  "sector_disk rd r good D n \<longleftrightarrow>
     (\<forall>s < n. read_whole rd r (s * sector_size r) (sector_size r)
        = Some (if s \<in> good then Some (slice (s * sector_size r) (sector_size r) D) else None))
     \<and> n * sector_size r \<le> length D"

lemma entries_of_slice:
  assumes "k * esz \<le> ss" "128 \<le> esz" "ss < 2 ^ 32"
  shows "entries_of esz k (slice off ss D) = concat (map (\<lambda>e. gpt_entry (slice (off + e * esz) 128 D)) [0..<k])"
proof -
  have "gpt_entry (slice (w32 (e * esz)) 128 (slice off ss D)) = gpt_entry (slice (off + e * esz) 128 D)"
    if "e < k" for e
  proof -
    have "(e + 1) * esz \<le> k * esz" using that by (intro mult_right_mono) simp_all
    then have fit: "e * esz + 128 \<le> ss" using assms by simp
    then have "w32 (e * esz) = e * esz" using assms(3) by (intro w32_id) linarith
    then show ?thesis using fit by (simp add: slice_slice)
  qed
  then show ?thesis
    unfolding entries_of_def by (intro arg_cong [of _ _ concat] map_cong) simp_all
qed

lemma gpt_sectors_spec:
  assumes disk: "sector_disk rd r good D (lba + (num + eps - 1) div eps)"
    and geometry: "eps * esz = ss" "128 \<le> esz" "ss = sector_size r" "ss < 2 ^ 32" "0 < eps"
    and fits: "num + eps \<le> 2 ^ 32" "(lba + (num + eps - 1) div eps) * ss < 2 ^ 64" "0 < ss"
  shows "n + s = (num + eps - 1) div eps \<Longrightarrow> gpt_sectors rd r lba num esz eps n s (s * eps) =
    Some (concat (map (\<lambda>i. if lba + i div eps \<in> good then gpt_entry (slice (lba * ss + i * esz) 128 D) else []) [s * eps..<num]),
      \<exists>t. s \<le> t \<and> t * eps < num \<and> lba + t \<notin> good)"
proof (induction n arbitrary: s)
  case 0
  then have "num \<le> s * eps"
    using geometry(5) by (metis add_0 round_up_ge)
  then have "\<not> (\<exists>t. s \<le> t \<and> t * eps < num \<and> lba + t \<notin> good)"
    by (meson le_trans mult_le_mono1 not_le)
  with \<open>num \<le> s * eps\<close> show ?case by simp
next
  case (Suc n)
  have pos: "s < (num + eps - 1) div eps" using Suc.prems by simp
  have more: "s * eps < num"
  proof (rule ccontr)
    assume "\<not> s * eps < num"
    then have "num + eps - 1 < (s + 1) * eps" using geometry(5) by simp
    then have "(num + eps - 1) div eps < s + 1" by (rule less_mult_imp_div_less)
    then show False using pos by simp
  qed
  let ?k = "min eps (num - s * eps)"
  let ?f = "\<lambda>i. if lba + i div eps \<in> good then gpt_entry (slice (lba * ss + i * esz) 128 D) else []"
  have w: "w64 (w64 (lba + s) * ss) = (lba + s) * ss"
  proof -
    have "(lba + s) * ss < 2 ^ 64"
      using fits(2) pos by (intro le_less_trans [OF mult_right_mono fits(2)]) simp_all
    moreover from this have "lba + s < 2 ^ 64"
      using fits(3) by (cases ss) (simp_all add: algebra_simps)
    ultimately show ?thesis by (simp add: w64_id)
  qed
  have read: "read_whole rd r (w64 (w64 (lba + s) * sector_size r)) (sector_size r)
      = Some (if lba + s \<in> good then Some (slice ((lba + s) * ss) ss D) else None)"
    using disk pos w geometry(3) by (simp add: sector_disk_def)
  have sector: "i div eps = s" if "s * eps \<le> i" "i < s * eps + ?k" for i
    using that by (intro div_nat_eqI) (simp_all add: algebra_simps)
  have next': "gpt_sectors rd r lba num esz eps n (s + 1) (s * eps + ?k) =
      Some (concat (map ?f [s * eps + ?k..<num]), \<exists>t. s + 1 \<le> t \<and> t * eps < num \<and> lba + t \<notin> good)"
  proof (cases "eps \<le> num - s * eps")
    case True
    then have k: "s * eps + ?k = (s + 1) * eps" by simp
    have "n + (s + 1) = (num + eps - 1) div eps" using Suc.prems by simp
    then show ?thesis unfolding k by (rule Suc.IH)
  next
    case False
    then have k: "s * eps + ?k = num" using more by simp
    then have "num \<le> (s + 1) * eps" using False by simp
    then have "\<not> (\<exists>t. s + 1 \<le> t \<and> t * eps < num \<and> lba + t \<notin> good)"
      by (meson le_trans mult_le_mono1 not_le)
    then show ?thesis unfolding k by (cases n) simp_all
  qed
  have split: "[s * eps..<num] = [s * eps..<s * eps + ?k] @ [s * eps + ?k..<num]"
    using more upt_add_eq_append [of "s * eps" "s * eps + ?k" "num - (s * eps + ?k)"] by simp
  have unread: "(\<exists>t. s \<le> t \<and> t * eps < num \<and> lba + t \<notin> good) \<longleftrightarrow>
      lba + s \<notin> good \<or> (\<exists>t. s + 1 \<le> t \<and> t * eps < num \<and> lba + t \<notin> good)"
    using more by (metis Suc_eq_plus1 le_SucI le_antisym not_less_eq_eq order_refl)
  show ?case
  proof (cases "lba + s \<in> good")
    case True
    have "?k * esz \<le> ss" using geometry(1) by (metis min.cobounded1 mult_le_mono1)
    then have "entries_of esz ?k (slice ((lba + s) * ss) ss D) =
        concat (map (\<lambda>e. gpt_entry (slice ((lba + s) * ss + e * esz) 128 D)) [0..<?k])"
      using geometry by (intro entries_of_slice) simp_all
    also have "\<dots> = concat (map ?f [s * eps..<s * eps + ?k])"
    proof -
      have "[s * eps..<s * eps + ?k] = map (\<lambda>e. s * eps + e) [0..<?k]"
        by (simp add: map_add_upt add.commute)
      moreover have "?f (s * eps + e) = gpt_entry (slice ((lba + s) * ss + e * esz) 128 D)" if "e < ?k" for e
      proof -
        have "(s * eps + e) div eps = s" using that by (intro sector) simp_all
        moreover have "(lba + s) * ss + e * esz = lba * ss + (s * eps + e) * esz"
          using geometry(1) by (simp add: algebra_simps)
        ultimately show ?thesis using True by simp
      qed
      ultimately show ?thesis by (simp only: map_map comp_def) (intro arg_cong [of _ _ concat] map_cong; simp)
    qed
    finally show ?thesis
      using more read True next' unfolding split unread by (simp add: Let_def)
  next
    case False
    have "s * eps + eps \<le> 2 ^ 32 - 1 \<or> ?k < eps" using fits(1) more by linarith
    have stop: "gpt_sectors rd r lba num esz eps n (s + 1) (w32 (s * eps + eps)) =
        Some (concat (map ?f [s * eps + ?k..<num]), \<exists>t. s + 1 \<le> t \<and> t * eps < num \<and> lba + t \<notin> good)"
    proof (cases "eps \<le> num - s * eps")
      case True
      then have "s * eps + eps < 2 ^ 32" using fits(1) geometry(5) by linarith
      then show ?thesis using True next' by (simp add: w32_id min_absorb1)
    next
      case False
      then have k: "s * eps + ?k = num" using more by simp
      have "s * eps + eps < 2 ^ 32" using more fits(1) by linarith
      then have "num \<le> w32 (s * eps + eps)" using False by (simp add: w32_id)
      then show ?thesis using next' unfolding k by (cases n) simp_all
    qed
    have "concat (map ?f [s * eps..<s * eps + ?k]) = []"
      using sector False by auto
    then show ?thesis
      using more read False stop unfolding split unread by simp
  qed
qed


text \<open>The fields of a GPT header sector.\<close>

definition gpt_fields :: "buf \<Rightarrow> nat \<times> nat \<times> nat" where
  "gpt_fields b = (le_nat (slice 72 8 b), le_nat (slice 80 4 b), le_nat (slice 84 4 b))"

lemma parse_gpt_primary:
  assumes "is_open r" "512 \<le> sector_size r" "sector_size r < 2 ^ 32"
    and "read_whole rd r (sector_size r) (sector_size r) = Some (Some hdr)" "take 8 hdr = bytes_of ''EFI PART''"
    and "gpt_fields hdr = (lba, num, esz)" "128 \<le> esz" "esz \<le> sector_size r" "0 < num"
  shows "parse_gpt rd r u = map_option (\<lambda>(ps, u1). (ps, u \<or> u1))
    (gpt_sectors rd r lba num esz (sector_size r div esz) (w32 (num + sector_size r div esz - 1) div (sector_size r div esz)) 0 0)"
proof -
  have "w64 (sector_size r) = sector_size r"
    using assms(3) by (intro w64_id) (rule less_trans [of _ "2 ^ 32"], simp_all)
  then have "find_header rd r u = Some (u, Some hdr)"
    using assms(4,5) by (simp add: find_header_def try_header_def)
  moreover have "sector_size r div esz \<noteq> 0" using assms(7,8) by (simp add: div_eq_0_iff)
  ultimately show ?thesis
    using assms(1,2,6,7,9) by (simp add: parse_gpt_def gpt_fields_def Let_def not_less)
qed


definition demo_disk :: "buf \<Rightarrow> sector_reader" where
  "demo_disk D r off n b = Some (r,
     \<lparr>success = True, bytes_read = n, error = [], padded_zeros = length D < off + n\<rparr>, slice off n (D @ replicate n 0))"

text \<open>A header that claims so many entries that the 32-bit rounding wraps makes the parser
  return no partition and report nothing unread, without looking at the table.\<close>

lemma gpt_entry_count_wraps_to_empty:
  assumes "is_open r" "512 \<le> sector_size r" "sector_size r < 2 ^ 32"
    and "read_whole rd r (sector_size r) (sector_size r) = Some (Some hdr)" "take 8 hdr = bytes_of ''EFI PART''"
    and "gpt_fields hdr = (lba, num, esz)" "128 \<le> esz" "esz \<le> sector_size r"
    and "2 ^ 32 < num + sector_size r div esz"
  shows "parse_gpt rd r u = Some ([], u)"
proof -
  let ?eps = "sector_size r div esz"
  have num: "num < 2 ^ 32"
    using assms(6) le_nat_slice_less [of 80 4 hdr] by (auto simp: gpt_fields_def)
  have "?eps \<le> sector_size r" by (rule div_le_dividend)
  then have "?eps < 2 ^ 32" using assms(3) by linarith
  then have "num + ?eps - 1 - 2 ^ 32 < ?eps" "num + ?eps - 1 - 2 ^ 32 < 2 ^ 32" "2 ^ 32 \<le> num + ?eps - 1" "0 < num"
    using num assms(9) by linarith+
  moreover from this have "w32 (num + ?eps - 1) = num + ?eps - 1 - 2 ^ 32"
    unfolding w32_def by (simp add: le_mod_geq)
  ultimately have "w32 (num + ?eps - 1) div ?eps = 0" by simp
  then show ?thesis
    using parse_gpt_primary [of r rd hdr lba num esz u] assms \<open>0 < num\<close> by simp
qed

section \<open>The scan for lost volumes ends\<close>

definition scan_defined :: "sector_reader \<Rightarrow> reader \<Rightarrow> bool" where
  "scan_defined rd r \<longleftrightarrow> (\<forall>s < get_disk_size r div sector_size r. scan_sector rd r s \<noteq> None)"

lemma scan_loop_stuck:
  assumes "scan_loop rd r 0 n s acc u = Some y" "n \<le> 2 ^ 64"
  shows "n \<le> s"
proof -
  have "n \<le> 2 ^ 64 \<longrightarrow> n \<le> s"
  proof (rule scan_loop.raw_induct [where P = "\<lambda>rd r step n s acc u y. step = 0 \<longrightarrow> n \<le> 2 ^ 64 \<longrightarrow> n \<le> s", OF _ assms(1), THEN mp, OF _ refl])
    fix loop rd r step n s acc u y
    assume IH: "\<And>rd r step n s acc u y. loop rd r step n s acc u = Some y \<Longrightarrow> step = 0 \<longrightarrow> n \<le> 2 ^ 64 \<longrightarrow> n \<le> s"
      and eq: "(if s < n then Option.bind (scan_sector rd r s) (\<lambda>(ps, v). loop rd r step n (w64 (s + step)) (acc @ ps) (u \<or> v))
        else Some (acc, u)) = Some y"
    show "step = 0 \<longrightarrow> n \<le> 2 ^ 64 \<longrightarrow> n \<le> s"
    proof (intro impI)
      assume step: "step = 0" and n: "n \<le> 2 ^ 64"
      show "n \<le> s"
      proof (rule ccontr)
        assume "\<not> n \<le> s"
        then obtain ps v where "loop rd r step n (w64 (s + step)) (acc @ ps) (u \<or> v) = Some y"
          using eq by (auto simp: Option.bind_eq_Some_conv)
        then have "n \<le> w64 (s + step)" using IH step n by blast
        moreover have "w64 (s + step) = s" 
          unfolding step add_0_right using n \<open>\<not> n \<le> s\<close> by (intro w64_id) linarith
        ultimately show False using \<open>\<not> n \<le> s\<close> by simp
      qed
    qed
  qed
  then show ?thesis using assms(2) by blast
qed


definition scan_visits :: "nat \<Rightarrow> nat \<Rightarrow> nat list" where
  "scan_visits step n = map (\<lambda>k. k * step) [0..<(n + step - 1) div step]"

lemma scan_loop_ends:
  assumes defined: "\<And>s. s < n \<Longrightarrow> scan_sector rd r s \<noteq> None" and step: "0 < step" "n + step \<le> 2 ^ 64"
  shows "k \<le> (n + step - 1) div step \<Longrightarrow>
    scan_loop rd r step n (k * step) acc u =
      Some (acc @ concat (map (\<lambda>j. fst (the (scan_sector rd r (j * step)))) [k..<(n + step - 1) div step]),
        u \<or> (\<exists>j \<in> {k..<(n + step - 1) div step}. snd (the (scan_sector rd r (j * step)))))"
proof (induction "(n + step - 1) div step - k" arbitrary: k acc u)
  case 0
  then have k: "k = (n + step - 1) div step" by simp
  then have "n \<le> k * step" using step(1) round_up_ge by simp
  then show ?case unfolding k by (simp add: scan_loop.simps)
next
  case (Suc m)
  let ?q = "(n + step - 1) div step"
  have k: "k < ?q" using Suc.hyps(2) by linarith
  have "(k + 1) * step \<le> ?q * step" using k by (intro mult_right_mono) simp_all
  also have "\<dots> < n + step" using round_up_less [of step n] step(1) by simp
  finally have s: "k * step < n" "k * step + step < n + step" by simp_all
  then have "w64 (k * step + step) = (k + 1) * step" using step(2) by (simp add: w64_id)
  moreover obtain ps v where sector: "scan_sector rd r (k * step) = Some (ps, v)"
    using defined [OF s(1)] by auto
  moreover have "m = ?q - (k + 1)" using Suc.hyps(2) by simp
  ultimately have "scan_loop rd r step n (k * step) acc u =
      Some ((acc @ ps) @ concat (map (\<lambda>j. fst (the (scan_sector rd r (j * step)))) [k + 1..<?q]),
        (u \<or> v) \<or> (\<exists>j \<in> {k + 1..<?q}. snd (the (scan_sector rd r (j * step)))))"
    using Suc.hyps(1) [of "k + 1" "acc @ ps" "u \<or> v"] s(1) k by (simp add: scan_loop.simps [of _ _ _ _ "k * step"])
  moreover have "[k..<?q] = k # [k + 1..<?q]" using k by (simp add: upt_conv_Cons)
  moreover have "{k..<?q} = insert k {k + 1..<?q}" using k by auto
  ultimately show ?case using sector by simp
qed

text \<open>C18. On a disk of fewer than 2^64 sectors the scan for lost volumes returns if and only if
  the step is not 0 (or there is nothing to scan), and then it has looked at exactly the
  multiples of the step, in order: its result lists what each of them holds, and the unread
  flag is set if and only if one of them could not be read.\<close>

theorem lost_volume_scan_terminates:
  assumes "is_open r" "0 < sector_size r" "scan_defined rd r"
    and "get_disk_size r div sector_size r + step \<le> 2 ^ 64"
  shows "let n = get_disk_size r div sector_size r; found = (\<lambda>s. the (scan_sector rd r s)) in
    scan_for_partitions rd r step =
      (if step = 0 \<and> n \<noteq> 0 then None
       else if n = 0 then Some ([], False)
       else Some (concat (map (\<lambda>s. fst (found s)) (scan_visits step n)), \<exists>s \<in> set (scan_visits step n). snd (found s)))"
proof -
  let ?n = "get_disk_size r div sector_size r"
  have scan: "scan_for_partitions rd r step = scan_loop rd r step ?n 0 [] False"
    using assms(1,2) by (simp add: scan_for_partitions_def)
  consider "?n = 0" | "?n \<noteq> 0" "step = 0" | "?n \<noteq> 0" "0 < step" by blast
  then show ?thesis
  proof cases
    case 1
    then show ?thesis unfolding Let_def scan by (simp add: scan_loop.simps)
  next
    case 2
    have "scan_loop rd r 0 ?n 0 [] False = None"
      using scan_loop_stuck [of rd r ?n 0 "[]" False] 2(1) assms(4)
      by (cases "scan_loop rd r 0 ?n 0 [] False") auto
    then show ?thesis unfolding Let_def scan using 2 by simp
  next
    case 3
    have "scan_loop rd r step ?n (0 * step) [] False =
      Some ([] @ concat (map (\<lambda>j. fst (the (scan_sector rd r (j * step)))) [0..<(?n + step - 1) div step]),
        False \<or> (\<exists>j \<in> {0..<(?n + step - 1) div step}. snd (the (scan_sector rd r (j * step)))))"
      using assms(3,4) 3(2) by (intro scan_loop_ends) (auto simp: scan_defined_def)
    then show ?thesis
      unfolding Let_def scan scan_visits_def using 3 by (simp add: comp_def)
  qed
qed


section \<open>Concrete disks\<close>

definition demo_scan_reader :: reader where
  "demo_scan_reader = new_reader\<lparr>sector_size := 512, memory_mode := True, disk_size := 512\<rparr>"

definition demo_header :: "nat \<Rightarrow> buf" where
  "demo_header num = bytes_of ''EFI PART'' @ replicate 64 0 @ nat_le 8 2 @ nat_le 4 num @ nat_le 4 128 @ replicate 424 0"

definition demo_table :: "nat \<Rightarrow> buf" where
  "demo_table num = replicate 512 0 @ demo_header num @ 1 # replicate 511 0"

lemma demo_scan_reader_simps [simp]: "is_open demo_scan_reader" "sector_size demo_scan_reader = 512"
  "get_disk_size demo_scan_reader = 512"
  by (simp_all add: demo_scan_reader_def is_open_def get_disk_size_def new_reader_def)

lemma length_demo_header [simp]: "length (demo_header num) = 512"
  by (simp add: demo_header_def)

lemma length_demo_table [simp]: "length (demo_table num) = 1536"
  by (simp add: demo_table_def)

lemma demo_header_fields:
  "take 8 (demo_header num) = bytes_of ''EFI PART''"
  "num < 2 ^ 32 \<Longrightarrow> gpt_fields (demo_header num) = (2, num, 128)"
  by (simp_all add: demo_header_def gpt_fields_def slice_def le_nat_nat_le)

lemma demo_table_header: "slice 512 512 (demo_table num) = demo_header num"
  by (simp add: demo_table_def slice_def)

lemma read_whole_demo:
  "read_whole (demo_disk D) r off n = Some (if off + n \<le> length D then Some (slice off n D) else None)"
  by (simp add: read_whole_def demo_disk_def read_complete_def not_less slice_def)


lemma gpt_entry_count_wraps_to_empty_witness:
  "parse_gpt (demo_disk (demo_table (2 ^ 32 - 1))) demo_scan_reader False = Some ([], False)"
proof -
  have "gpt_fields (demo_header (2 ^ 32 - 1)) = (2, 2 ^ 32 - 1, 128)" by (rule demo_header_fields) simp
  then show ?thesis
    using gpt_entry_count_wraps_to_empty [of demo_scan_reader "demo_disk (demo_table (2 ^ 32 - 1))" "demo_header (2 ^ 32 - 1)"
        2 "2 ^ 32 - 1" 128 False] demo_header_fields(1)
    by (simp add: read_whole_demo demo_table_header)
qed

theorem lost_volume_scan_terminates_witness:
  "scan_for_partitions (demo_disk []) demo_scan_reader 1 = Some ([], True)
    \<and> scan_for_partitions (demo_disk []) demo_scan_reader 0 = None"
proof -
  have unread: "scan_sector (demo_disk []) demo_scan_reader k = Some ([], True)" for k
    by (simp add: scan_sector_def read_whole_demo)
  then have "scan_defined (demo_disk []) demo_scan_reader" by (simp add: scan_defined_def)
  then show ?thesis
    using lost_volume_scan_terminates [of demo_scan_reader "demo_disk []" 1]
      lost_volume_scan_terminates [of demo_scan_reader "demo_disk []" 0] unread
    by (simp add: scan_visits_def Let_def)
qed

end
