(* ===== verification/File_Record.thy ===== *)
theory File_Record
  imports Runs_Codec
begin

text \<open>
  The record that parsers, carver and store exchange (include/byteback\_db.h).  Sizes, sectors
  and offsets are 64-bit unsigned and are \<open>nat\<close> here; ids, times, status and confidence are
  signed.
\<close>

record file_record =
  fr_id :: int
  fr_parent :: int
  fr_mft_ref :: int
  fr_name :: string
  fr_extension :: string
  fr_path :: string
  fr_size :: nat
  fr_start :: nat
  fr_end :: nat
  fr_start_byte :: nat
  fr_hash :: string
  fr_group_size :: int
  fr_snippet :: string
  fr_match_start :: int
  fr_match_end :: int
  fr_runs :: "data_run list"
  fr_resident :: buf
  fr_compressed :: bool
  fr_checksum :: nat
  fr_status :: int
  fr_confidence :: int
  fr_category :: string
  fr_source :: string
  fr_created :: int
  fr_modified :: int

text \<open>A default-constructed record.\<close>

definition new_record :: file_record where
  "new_record = \<lparr>fr_id = 0, fr_parent = -1, fr_mft_ref = -1, fr_name = [], fr_extension = [], fr_path = [],
     fr_size = 0, fr_start = 0, fr_end = 0, fr_start_byte = 0, fr_hash = [], fr_group_size = 0,
     fr_snippet = [], fr_match_start = -1, fr_match_end = -1, fr_runs = [], fr_resident = [],
     fr_compressed = False, fr_checksum = 0, fr_status = 0, fr_confidence = 0, fr_category = [],
     fr_source = [], fr_created = 0, fr_modified = 0\<rparr>"

text \<open>\<open>dataRunPayloadBytes\<close>: the product wraps in 64 bits.\<close>

definition data_run_payload :: "data_run \<Rightarrow> nat \<Rightarrow> nat \<Rightarrow> nat" where
  "data_run_payload run sector_sz skip =
     (let ss = if sector_sz = 0 then 512 else sector_sz;
          phys = unat (run_count run * word_of_nat ss)
      in if phys \<le> skip then 0
         else let n = phys - skip
              in if 0 < run_bytes run \<and> unat (run_bytes run) < n then unat (run_bytes run) else n)"

lemma data_run_payload_le:
  "data_run_payload run ss skip \<le> unat (run_count run * word_of_nat (if ss = 0 then 512 else ss)) - skip"
  by (simp add: data_run_payload_def Let_def)

end
