(* ===== verification/Ntfs_Util.thy ===== *)
theory Ntfs_Util
  imports Prelude Disk_IO Virtual_Raid Utf8 Partition_Scanner File_Record
begin

text \<open>
  The byte-level helpers that the NTFS parsers share (include/fs/ntfs\_util.h): times, names,
  the update sequence array, USN journal records, the boot sector and the directory
  index.  A buffer with its length is a byte list, a span inside it a \<open>slice\<close>; \<open>None\<close> is an
  access outside it (or an undefined shift).  LZNT1 is in theory Lznt1.  \<open>size_t\<close> sums of lengths of buffers in memory
  stay below 2^64; differences that can be negative go through \<open>sub64\<close>, 32-bit offsets
  through \<open>w32\<close>.
\<close>

section \<open>filetimeToUnix\<close>

definition filetime_epoch :: nat where "filetime_epoch = 116444736000000000"

definition filetime_to_unix :: "nat \<Rightarrow> nat" where
  "filetime_to_unix t =
     (if t = 0 \<or> t < filetime_epoch then 0 else (t - filetime_epoch) div 10000000)"

section \<open>utf16leToUtf8\<close>

definition append_utf8 :: "nat \<Rightarrow> buf" where
  "append_utf8 cp =
     (if cp \<le> 0x7F then [word_of_nat cp]
      else if cp \<le> 0x7FF then
        [word_of_nat (0xC0 OR drop_bit 6 cp), word_of_nat (0x80 OR (cp AND 0x3F))]
      else if cp \<le> 0xFFFF then
        [word_of_nat (0xE0 OR drop_bit 12 cp), word_of_nat (0x80 OR (drop_bit 6 cp AND 0x3F)),
         word_of_nat (0x80 OR (cp AND 0x3F))]
      else
        [word_of_nat (0xF0 OR drop_bit 18 cp), word_of_nat (0x80 OR (drop_bit 12 cp AND 0x3F)),
         word_of_nat (0x80 OR (drop_bit 6 cp AND 0x3F)), word_of_nat (0x80 OR (cp AND 0x3F))])"

definition high_surrogate :: "nat \<Rightarrow> bool" where
  "high_surrogate u \<longleftrightarrow> 0xD800 \<le> u \<and> u \<le> 0xDBFF"

definition low_surrogate :: "nat \<Rightarrow> bool" where
  "low_surrogate u \<longleftrightarrow> 0xDC00 \<le> u \<and> u \<le> 0xDFFF"

text \<open>The loop over the code units; the argument is the rest of the run.\<close>

fun utf16le_to_utf8 :: "nat list \<Rightarrow> buf" where
  "utf16le_to_utf8 [] = []"
| "utf16le_to_utf8 (u # us) =
     (if u = 0 then []
      else if high_surrogate u then
        (case us of
           [] \<Rightarrow> append_utf8 0xFFFD @ utf16le_to_utf8 us
         | lo # rest \<Rightarrow>
             if low_surrogate lo
             then append_utf8 (0x10000 + push_bit 10 (u - 0xD800) + (lo - 0xDC00)) @ utf16le_to_utf8 rest
             else append_utf8 0xFFFD @ utf16le_to_utf8 us)
      else if low_surrogate u then append_utf8 0xFFFD @ utf16le_to_utf8 us
      else append_utf8 u @ utf16le_to_utf8 us)"

text \<open>\<open>reinterpret_cast<const uint16_t*>\<close>: the bytes in pairs; a last odd byte belongs to no unit.\<close>

fun units_of :: "buf \<Rightarrow> nat list" where
  "units_of (a # b # bs) = le_nat [a, b] # units_of bs"
| "units_of _ = []"

section \<open>applyUsaFixup\<close>

text \<open>The USA is read through the record itself, so restored bytes are visible to later reads.\<close>

fun usa_loop :: "buf \<Rightarrow> nat \<Rightarrow> nat \<Rightarrow> nat \<Rightarrow> nat list \<Rightarrow> (buf \<times> bool) option" where
  "usa_loop rec ss off seq [] = Some (rec, True)"
| "usa_loop rec ss off seq (i # is) =
     (let sector_end = sub64 (i * ss) 2
      in if length rec < w64 (sector_end + 2) then Some (rec, False)
         else do {
           tail \<leftarrow> rd_le 2 rec sector_end;
           if tail \<noteq> seq then Some (rec, False)
           else do {
             new \<leftarrow> rd_slice rec (off + 2 * i) 2;
             usa_loop (splice sector_end new rec) ss off seq is
           }
         })"

definition apply_usa_fixup :: "buf \<Rightarrow> nat \<Rightarrow> nat \<Rightarrow> nat \<Rightarrow> (buf \<times> bool) option" where
  "apply_usa_fixup rec ss usa_offset usa_count =
     (if length rec = 0 \<or> ss = 0 then Some (rec, False)
      else if usa_count < 2 then Some (rec, False)
      else if length rec div ss < usa_count - 1 then Some (rec, False)
      else if length rec < usa_offset + 2 * usa_count then Some (rec, False)
      else do {
        seq \<leftarrow> rd_le 2 rec usa_offset;
        usa_loop rec ss usa_offset seq [1..<usa_count]
      })"

section \<open>parseUsnRecord\<close>

record usn_record =
  usn_ref :: nat
  usn_parent :: nat
  usn_usn :: nat
  usn_time :: nat
  usn_reason :: nat
  usn_attr :: nat
  usn_name :: buf

text \<open>The inner option is the boolean result: \<open>out\<close> is used only after \<open>true\<close>.\<close>

definition parse_usn_record :: "buf \<Rightarrow> usn_record option option" where
  "parse_usn_record data =
     (if length data < 60 then Some None
      else do {
        len \<leftarrow> rd_le 4 data 0;
        if len < 60 \<or> 65536 < len then Some None
        else if length data < len then Some None
        else do {
          major \<leftarrow> rd_le 2 data 4;
          if major \<noteq> 2 \<and> major \<noteq> 3 then Some None
          else do {
            ref \<leftarrow> rd_le 8 data 8;
            parent \<leftarrow> rd_le 8 data 16;
            usn \<leftarrow> rd_le 8 data 24;
            time \<leftarrow> rd_le 8 data 32;
            reason \<leftarrow> rd_le 4 data 40;
            attr \<leftarrow> rd_le 4 data 52;
            name_len \<leftarrow> rd_le 2 data 56;
            name_off \<leftarrow> rd_le 2 data 58;
            let out = (\<lambda>nm. \<lparr>usn_ref = ref, usn_parent = parent, usn_usn = usn, usn_time = filetime_to_unix time,
                        usn_reason = reason, usn_attr = attr, usn_name = nm\<rparr>);
            if name_len = 0 \<or> name_off < 60 then Some (Some (out []))
            else if len < name_off + name_len then Some None
            else do {
              nm \<leftarrow> rd_slice data name_off (2 * (name_len div 2));
              Some (Some (out (utf16le_to_utf8 (units_of nm))))
            }
          }
        }
      })"

definition usn_reason_file_delete :: nat where "usn_reason_file_delete = 0x2"

text \<open>\<open>data\<close> is the rest of the chunk; the set is the accumulator \<open>out\<close>.\<close>

function harvest_usn :: "buf \<Rightarrow> nat set \<Rightarrow> nat set option" where
  "harvest_usn data out =
     (if length data < 64 then Some out
      else case parse_usn_record data of
        None \<Rightarrow> None
      | Some None \<Rightarrow> harvest_usn (drop 8 data) out
      | Some (Some usn) \<Rightarrow>
          (let len = le_nat (take 4 data)
           in if len < 64 then Some out
              else harvest_usn (drop len data)
                (if usn_reason usn AND usn_reason_file_delete \<noteq> 0
                 then insert (usn_ref usn AND 0x0000FFFFFFFFFFFF) out else out)))"
  by pat_completeness auto
termination
  by (relation "measure (\<lambda>(data, _). length data)") (auto simp: Let_def)

declare harvest_usn.simps [simp del]

definition harvest_usn_deleted :: "buf \<Rightarrow> nat set \<Rightarrow> nat set option" where
  "harvest_usn_deleted data out = (if length data < 64 then Some out else harvest_usn data out)"

definition usn_mft_delete_boost :: "file_record \<Rightarrow> nat \<Rightarrow> nat set \<Rightarrow> file_record" where
  "usn_mft_delete_boost fr mft deleted =
     (if mft = u64_max \<or> fr_status fr \<noteq> 0 then fr
      else if mft \<notin> deleted then fr
      else let fr1 = fr\<lparr>fr_confidence := min 100 (fr_confidence fr + 15)\<rparr>
           in if fr_source fr1 = ''ntfs_mft'' \<or> fr_source fr1 = ''ntfs_mft_logfile''
              then fr1\<lparr>fr_source := ''ntfs_mft_usn''\<rparr> else fr1)"

definition score_mft_confidence :: "bool \<Rightarrow> bool \<Rightarrow> bool \<Rightarrow> nat \<Rightarrow> bool \<Rightarrow> bool \<Rightarrow> int" where
  "score_mft_confidence in_use usa_ok is_dir sz has_runs has_resident =
     (if in_use then (let score = 100 - (if usa_ok then 0 else 25) in if score < 0 then 0 else score)
      else
        (let s1 = 45 + (if has_runs \<and> 0 < sz then 35 else if has_resident \<and> 0 < sz then 25
                        else if 0 < sz then 10 else 0);
             s2 = s1 - (if is_dir then 10 else 0);
             score = s2 - (if usa_ok then 0 else 20)
         in if score < 0 then 0 else if 95 < score then 95 else score))"

section \<open>The boot sector\<close>

record ntfs_boot =
  nb_bps :: nat
  nb_spc :: nat
  nb_lcn :: nat
  nb_rec :: nat

text \<open>
  \<open>Some None\<close> is the result false, which leaves the reference parameters as they were.
  \<open>recBytes\<close> is computed in \<open>uint32_t\<close>; a shift by 32 or more is undefined.
\<close>

definition rec_bytes :: "byte \<Rightarrow> nat \<Rightarrow> nat option" where
  "rec_bytes b cluster =
     (let cpr = sint b in
        do {
          n \<leftarrow> (if cpr < 0 then (if -cpr < 32 then Some (w32 (push_bit (nat (-cpr)) 1)) else None)
                 else if 0 < cpr then Some (w32 (nat cpr * cluster))
                 else Some 1024);
          Some (if n < 512 \<or> 4096 < n then 1024 else n)
        })"

definition parse_ntfs_boot :: "buf \<Rightarrow> ntfs_boot option option" where
  "parse_ntfs_boot boot =
     (if length boot < 0x48 then Some None
      else if slice 3 8 boot \<noteq> bytes_of ''NTFS    '' then Some None
      else
        let bps0 = le_nat (slice 0x0B 2 boot);
            bps = (if bps0 \<noteq> 512 \<and> bps0 \<noteq> 1024 \<and> bps0 \<noteq> 2048 \<and> bps0 \<noteq> 4096 then 512 else bps0);
            spc0 = unat (boot ! 0x0D);
            spc = (if spc0 = 0 then 8 else spc0);
            lcn = le_nat (slice 0x30 8 boot)
        in map_option (\<lambda>rb. Some \<lparr>nb_bps = bps, nb_spc = spc, nb_lcn = lcn, nb_rec = rb\<rparr>)
             (rec_bytes (boot ! 0x40) (w32 (bps * spc))))"

text \<open>The result with the buffer, the parameters and the flag \<open>primaryUnread\<close>.\<close>

record boot_result =
  br_ok :: bool
  br_boot :: buf
  br_params :: ntfs_boot
  br_unread :: bool

definition load_ntfs_boot :: "sector_reader \<Rightarrow> reader \<Rightarrow> nat \<Rightarrow> nat \<Rightarrow> nat \<Rightarrow> boot_result option" where
  "load_ntfs_boot rd r part_off part_size sector_sz =
     (let ss = if sector_sz = 0 then 512 else sector_sz;
          start = \<lparr>nb_bps = ss, nb_spc = 8, nb_lcn = 0, nb_rec = 1024\<rparr>
      in do {
        (r1, res, boot) \<leftarrow> rd r part_off ss (replicate ss 0);
        let primary_read = read_complete res ss;
        primary \<leftarrow> (if primary_read then parse_ntfs_boot boot else Some None);
        case primary of
          Some nb \<Rightarrow> Some \<lparr>br_ok = True, br_boot = boot, br_params = nb, br_unread = \<not> primary_read\<rparr>
        | None \<Rightarrow>
            let fail = \<lparr>br_ok = False, br_boot = boot, br_params = start, br_unread = \<not> primary_read\<rparr>;
                vol = (if part_size \<noteq> 0 then part_size else get_disk_size r1);
                backup_off = sub64 (w64 (part_off + vol)) ss
            in if vol < ss * 2 then Some fail
               else if backup_off \<le> part_off then Some fail
               else do {
                 (r2, res2, backup) \<leftarrow> rd r1 backup_off ss (replicate ss 0);
                 if \<not> read_complete res2 ss then Some fail
                 else do {
                   second \<leftarrow> parse_ntfs_boot backup;
                   case second of
                     None \<Rightarrow> Some fail
                   | Some nb \<Rightarrow> Some \<lparr>br_ok = True, br_boot = backup, br_params = nb, br_unread = \<not> primary_read\<rparr>
                 }
               }
      })"

section \<open>The directory index\<close>

record index_name_hint =
  ih_child :: nat
  ih_parent :: nat
  ih_name :: buf
  ih_slack :: bool
  ih_real_size :: nat
  ih_start_sector :: nat

definition attr_file_name :: nat where "attr_file_name = 0x30"
definition ref_mask :: nat where "ref_mask = 0x0000FFFFFFFFFFFF"

text \<open>The entry's bytes up to the end of the span; the hints it adds, none or one.\<close>

definition harvest_index_entry :: "buf \<Rightarrow> nat \<Rightarrow> bool \<Rightarrow> index_name_hint list option" where
  "harvest_index_entry entry avail slack =
     (if avail < 16 then Some []
      else do {
        entry_len \<leftarrow> rd_le 2 entry 8;
        key_len \<leftarrow> rd_le 2 entry 10;
        flags \<leftarrow> rd_le 2 entry 12;
        if flags AND 0x02 \<noteq> 0 then Some []
        else if entry_len < 16 \<or> avail < entry_len then Some []
        else if key_len < 66 \<or> entry_len < 16 + key_len then Some []
        else do {
          name_len \<leftarrow> rd_le 1 entry (16 + 64);
          if name_len = 0 \<or> 255 < name_len then Some []
          else if key_len < 66 + name_len * 2 then Some []
          else do {
            nm \<leftarrow> rd_slice entry (16 + 66) (2 * name_len);
            let name = utf16le_to_utf8 (units_of nm);
            if name = [] then Some []
            else do {
              child \<leftarrow> rd_le 8 entry 0;
              parent \<leftarrow> rd_le 8 entry 16;
              sz \<leftarrow> rd_le 8 entry (16 + 48);
              if child AND ref_mask = 0 then Some []
              else Some [\<lparr>ih_child = child AND ref_mask, ih_parent = parent AND ref_mask,
                          ih_name = name, ih_slack = slack, ih_real_size = sz, ih_start_sector = 0\<rparr>]
            }
          }
        }
      })"

text \<open>
  The two loops of \<open>parseIndexHeader\<close>: \<open>off\<close> is a \<open>uint32_t\<close>, so on spans close to 4 GiB it
  can wrap and the loop need not end; not ending is \<open>None\<close>.
\<close>

partial_function (option) index_live :: "buf \<Rightarrow> nat \<Rightarrow> nat \<Rightarrow> index_name_hint list \<Rightarrow> index_name_hint list option" where
  "index_live hdr used off out =
     (if used < w32 (off + 16) then Some out
      else do {
        elen \<leftarrow> rd_le 2 hdr (off + 8);
        if elen < 16 then Some out
        else do {
          hs \<leftarrow> harvest_index_entry (drop off hdr) (used - off) False;
          flags \<leftarrow> rd_le 2 hdr (off + 12);
          if flags AND 0x02 \<noteq> 0 then Some (out @ hs)
          else index_live hdr used (w32 (off + elen)) (out @ hs)
        }
      })"

partial_function (option) index_slack :: "buf \<Rightarrow> nat \<Rightarrow> nat \<Rightarrow> index_name_hint list \<Rightarrow> index_name_hint list option" where
  "index_slack hdr alloc off out =
     (if alloc < w32 (off + 16) then Some out
      else do {
        elen \<leftarrow> rd_le 2 hdr (off + 8);
        if elen < 16 \<or> alloc < w32 (off + elen) then index_slack hdr alloc (w32 (off + 8)) out
        else do {
          hs \<leftarrow> harvest_index_entry (drop off hdr) (alloc - off) True;
          index_slack hdr alloc (w32 (off + elen)) (out @ hs)
        }
      })"

definition parse_index_header :: "buf \<Rightarrow> index_name_hint list \<Rightarrow> index_name_hint list option" where
  "parse_index_header hdr out =
     (if length hdr < 16 then Some out
      else let first = le_nat (slice 0 4 hdr);
               used = le_nat (slice 4 4 hdr);
               alloc0 = le_nat (slice 8 4 hdr)
           in if first < 16 \<or> used < first \<or> length hdr < used then Some out
              else do {
                live \<leftarrow> index_live hdr used first out;
                let alloc1 = (if alloc0 < used then used else alloc0);
                let alloc2 = (if length hdr < alloc1 then w32 (length hdr) else alloc1);
                index_slack hdr alloc2 used live
              })"

definition parse_index_root :: "buf \<Rightarrow> index_name_hint list option" where
  "parse_index_root data =
     (if length data < 32 then Some []
      else if le_nat (slice 0 4 data) \<noteq> attr_file_name then Some []
      else parse_index_header (drop 16 data) [])"

definition index_root_block_size :: "buf \<Rightarrow> nat" where
  "index_root_block_size data =
     (if length data < 12 then 0
      else if le_nat (slice 0 4 data) \<noteq> attr_file_name then 0
      else let sz = le_nat (slice 8 4 data) in if sz < 512 \<or> 65536 < sz then 0 else sz)"

text \<open>The fixup rewrites the record in place; its verdict is ignored.\<close>

definition parse_indx_record :: "buf \<Rightarrow> nat \<Rightarrow> (buf \<times> index_name_hint list) option" where
  "parse_indx_record rec ss =
     (if length rec < 0x40 \<or> ss = 0 then Some (rec, [])
      else if take 4 rec \<noteq> bytes_of ''INDX'' then Some (rec, [])
      else do {
        (fixed, ok) \<leftarrow> apply_usa_fixup rec ss (le_nat (slice 4 2 rec)) (le_nat (slice 6 2 rec));
        hs \<leftarrow> parse_index_header (drop 0x18 fixed) [];
        Some (fixed, hs)
      })"

end
