(* ===== verification/Lznt1.thy ===== *)
theory Lznt1
  imports Prelude
begin

text \<open>
  The LZNT1 decompressor of NTFS-compressed files (\<open>lznt1Decompress\<close> in
  include/fs/ntfs\_util.h), and its refinement of the chunked format, which knows no output
  capacity.
\<close>

section \<open>lznt1Decompress\<close>

text \<open>
  The output is the buffer of capacity \<open>length dst\<close> with the write position \<open>dp\<close>, which
  runs past the capacity when the stream is longer.  \<open>Inl\<close> is the return value -1.
\<close>

type_synonym 'a lz_result = "(buf + 'a) option"

definition put :: "buf \<Rightarrow> nat \<Rightarrow> byte \<Rightarrow> buf" where
  "put dst dp b = (if dp < length dst then dst[dp := b] else dst)"

function disp_loop :: "nat \<Rightarrow> nat \<Rightarrow> nat" where
  "disp_loop iter bits = (if 16 \<le> iter then disp_loop (drop_bit 1 iter) (bits + 1) else bits)"
  by pat_completeness auto
termination by (relation "measure fst") (auto simp: drop_bit_Suc)

definition disp_bits :: "nat \<Rightarrow> nat" where
  "disp_bits pos = disp_loop (if 0 < pos then pos - 1 else 0) 4"

fun lz_copy :: "buf \<Rightarrow> nat \<Rightarrow> nat \<Rightarrow> nat \<Rightarrow> buf" where
  "lz_copy dst dp disp 0 = dst"
| "lz_copy dst dp disp (Suc k) = lz_copy (put dst dp (dst ! (dp - disp))) (dp + 1) disp k"

text \<open>One flag byte and its up to eight tokens; \<open>rest\<close> is the rest of the chunk payload.\<close>

fun lz_tokens :: "nat \<Rightarrow> byte \<Rightarrow> nat list \<Rightarrow> buf \<Rightarrow> buf \<Rightarrow> nat \<Rightarrow> buf + (buf \<times> buf \<times> nat)" where
  "lz_tokens base flags [] rest dst dp = Inr (rest, dst, dp)"
| "lz_tokens base flags (b # bs) rest dst dp =
     (if rest = [] then Inr (rest, dst, dp)
      else if \<not> bit flags b then lz_tokens base flags bs (tl rest) (put dst dp (hd rest)) (dp + 1)
      else if length rest < 2 then Inl dst
      else let token = le_nat (take 2 rest); db = disp_bits (dp - base)
           in if 12 < db then Inl dst
              else let len_bits = 16 - db;
                       len = 3 + (token AND (push_bit len_bits 1 - 1));
                       disp = drop_bit len_bits token + 1
                   in if dp - base < disp then Inl dst
                      else lz_tokens base flags bs (drop 2 rest) (lz_copy dst dp disp len) (dp + len))"

lemma lz_tokens_consumes: "lz_tokens base flags bs rest dst dp = Inr (rest', x) \<Longrightarrow> length rest' \<le> length rest"
proof (induction bs arbitrary: rest dst dp)
  case Nil
  then show ?case by simp
next
  case (Cons b bs)
  show ?case
  proof (cases "rest = []")
    case True
    then show ?thesis using Cons.prems by simp
  next
    case False
    then obtain rest2 dst2 dp2 where "lz_tokens base flags bs rest2 dst2 dp2 = Inr (rest', x)" "length rest2 \<le> length rest"
      using Cons.prems that [of "tl rest"] that [of "drop 2 rest"] by (simp add: Let_def split: if_splits)
    then show ?thesis using Cons.IH [of rest2] by (meson le_trans)
  qed
qed

function lz_chunk :: "nat \<Rightarrow> buf \<Rightarrow> buf \<Rightarrow> nat \<Rightarrow> buf + (buf \<times> nat)" where
  "lz_chunk base rest dst dp =
     (case rest of [] \<Rightarrow> Inr (dst, dp)
      | flags # rest1 \<Rightarrow>
          (case lz_tokens base flags [0..<8] rest1 dst dp of
             Inl d \<Rightarrow> Inl d
           | Inr (rest2, dst2, dp2) \<Rightarrow> lz_chunk base rest2 dst2 dp2))"
  by pat_completeness auto
termination
  by (relation "measure (\<lambda>(_, rest, _). length rest)") (auto dest: lz_tokens_consumes)

declare lz_chunk.simps [simp del] disp_loop.simps [simp del]

text \<open>The stream of chunks; \<open>None\<close> is the \<open>memmove\<close> outside the output buffer.\<close>

function lz_stream :: "buf \<Rightarrow> buf \<Rightarrow> nat \<Rightarrow> (buf \<times> nat) lz_result" where
  "lz_stream src dst dp =
     (if length src < 2 then Some (Inr (dst, dp))
      else let hdr = le_nat (take 2 src); rest = drop 2 src
           in if hdr = 0 then Some (Inr (dst, dp))
              else let len = (hdr AND 0x0FFF) + 1
                   in if length rest < len then Some (Inl dst)
                      else if hdr AND 0x8000 = 0 then
                        (let n = if dp + len \<le> length dst then len else sub64 (length dst) dp
                         in if 0 < n \<and> (length dst < dp + n \<or> length rest < n) then None
                            else lz_stream (drop len rest) (splice dp (take n rest) dst) (dp + len))
                      else
                        (case lz_chunk dp (take len rest) dst dp of
                           Inl d \<Rightarrow> Some (Inl d)
                         | Inr (dst2, dp2) \<Rightarrow> lz_stream (drop len rest) dst2 dp2))"
  by pat_completeness auto
termination
  by (relation "measure (\<lambda>(src, _). length src)") auto

declare lz_stream.simps [simp del]

definition int32 :: "nat \<Rightarrow> int" where
  "int32 n = (if w32 n < 2 ^ 31 then int (w32 n) else int (w32 n) - 2 ^ 32)"

definition lznt1_decompress :: "buf \<Rightarrow> buf \<Rightarrow> (buf \<times> int) option" where
  "lznt1_decompress src dst =
     (case lz_stream src dst 0 of
        None \<Rightarrow> None
      | Some (Inl d) \<Rightarrow> Some (d, -1)
      | Some (Inr (d, dp)) \<Rightarrow> Some (d, int32 dp))"

section \<open>LZNT1 without a capacity\<close>

text \<open>
  The format itself: every chunk is decompressed on its own into a list that grows, a back
  reference repeats bytes of the same chunk, and the stream is the list of chunks (flagged when
  stored literally) up to its end or up to the first malformed chunk.
\<close>

fun lz_repeat :: "buf \<Rightarrow> nat \<Rightarrow> nat \<Rightarrow> buf" where
  "lz_repeat out disp 0 = out"
| "lz_repeat out disp (Suc k) = lz_repeat (out @ [out ! (length out - disp)]) disp k"

fun lz_spec_tokens :: "byte \<Rightarrow> nat list \<Rightarrow> buf \<Rightarrow> buf \<Rightarrow> (buf \<times> buf) option" where
  "lz_spec_tokens flags [] rest out = Some (rest, out)"
| "lz_spec_tokens flags (b # bs) rest out =
     (if rest = [] then Some (rest, out)
      else if \<not> bit flags b then lz_spec_tokens flags bs (tl rest) (out @ [hd rest])
      else if length rest < 2 then None
      else let token = le_nat (take 2 rest); db = disp_bits (length out); disp = token div 2 ^ (16 - db) + 1
           in if 12 < db \<or> length out < disp then None
              else lz_spec_tokens flags bs (drop 2 rest) (lz_repeat out disp (3 + token mod 2 ^ (16 - db))))"

fun lz_spec_chunk :: "nat \<Rightarrow> buf \<Rightarrow> buf \<Rightarrow> buf option" where
  "lz_spec_chunk n [] out = Some out"
| "lz_spec_chunk 0 (x # xs) out = None"
| "lz_spec_chunk (Suc n) (flags # rest) out =
     (case lz_spec_tokens flags [0..<8] rest out of
        None \<Rightarrow> None | Some (rest2, out2) \<Rightarrow> lz_spec_chunk n rest2 out2)"

function lz_spec :: "buf \<Rightarrow> (bool \<times> buf) list \<times> bool" where
  "lz_spec src =
     (if length src < 2 \<or> le_nat (take 2 src) = 0 then ([], True)
      else let hdr = le_nat (take 2 src); rest = drop 2 src; len = hdr mod 4096 + 1
           in if length rest < len then ([], False)
              else case (if bit hdr 15 then lz_spec_chunk len (take len rest) [] else Some (take len rest)) of
                None \<Rightarrow> ([], False)
              | Some c \<Rightarrow> (case lz_spec (drop len rest) of (cs, ok) \<Rightarrow> ((\<not> bit hdr 15, c) # cs, ok)))"
  by pat_completeness auto
termination
  by (relation "measure length") auto

declare lz_spec.simps [simp del]

text \<open>A literal chunk begins beyond the end of the output buffer.\<close>

fun lz_overruns :: "nat \<Rightarrow> nat \<Rightarrow> (bool \<times> buf) list \<Rightarrow> bool" where
  "lz_overruns cap dp [] = False"
| "lz_overruns cap dp ((literal, c) # cs) = (literal \<and> cap < dp \<or> lz_overruns cap (dp + length c) cs)"

text \<open>The output buffer after the bytes \<open>xs\<close>, of which those beyond its end are dropped.\<close>

definition fill :: "buf \<Rightarrow> buf \<Rightarrow> buf" where
  "fill d xs = take (length d) xs @ drop (length xs) d"

lemma length_fill [simp]: "length (fill d xs) = length d"
  by (simp add: fill_def)

lemma fill_Nil [simp]: "fill d [] = d"
  by (simp add: fill_def)

lemma nth_fill: "j < length xs \<Longrightarrow> j < length d \<Longrightarrow> fill d xs ! j = xs ! j"
  by (simp add: fill_def nth_append)

lemma put_fill: "put (fill d xs) (length xs) b = fill d (xs @ [b])"
proof (cases "length xs < length d")
  case True
  then have "drop (length xs) d = d ! length xs # drop (Suc (length xs)) d"
    by (simp add: Cons_nth_drop_Suc)
  then have "fill d xs = xs @ d ! length xs # drop (Suc (length xs)) d"
    "fill d (xs @ [b]) = xs @ b # drop (Suc (length xs)) d"
    using True by (simp_all add: fill_def)
  then show ?thesis unfolding put_def length_fill using True by simp
next
  case False
  then show ?thesis by (simp add: put_def fill_def)
qed

lemma length_lz_repeat: "length (lz_repeat out disp k) = length out + k"
  by (induction out disp k rule: lz_repeat.induct) simp_all

lemma lz_copy_fill:
  "1 \<le> disp \<Longrightarrow> disp \<le> length out \<Longrightarrow>
    lz_copy (fill d (pre @ out)) (length (pre @ out)) disp k = fill d (pre @ lz_repeat out disp k)"
proof (induction k arbitrary: out)
  case 0
  then show ?case by simp
next
  case (Suc k)
  define b where "b = out ! (length out - disp)"
  have "put (fill d (pre @ out)) (length (pre @ out)) (fill d (pre @ out) ! (length (pre @ out) - disp))
      = fill d (pre @ (out @ [b]))"
  proof (cases "length (pre @ out) < length d")
    case True
    then have "fill d (pre @ out) ! (length (pre @ out) - disp) = (pre @ out) ! (length (pre @ out) - disp)"
      using Suc.prems by (intro nth_fill) simp_all
    also have "\<dots> = (pre @ out) ! (length pre + (length out - disp))" using Suc.prems by simp
    also have "\<dots> = b" by (simp only: b_def nth_append_length_plus)
    finally show ?thesis using put_fill [of d "pre @ out" b] by simp
  next
    case False
    then show ?thesis unfolding put_def length_fill by (simp add: fill_def)
  qed
  then show ?case using Suc.IH [of "out @ [b]"] Suc.prems by (simp add: b_def)
qed

lemma and_low_bits: "x AND (push_bit n 1 - 1) = x mod (2 ^ n :: nat)"
  by (simp add: take_bit_eq_mask mask_eq_exp_minus_1 push_bit_eq_mult flip: take_bit_eq_mod)

lemma lz_tokens_fill:
  "case lz_spec_tokens flags bs rest out of
     None \<Rightarrow> \<exists>x. lz_tokens (length pre) flags bs rest (fill d (pre @ out)) (length (pre @ out)) = Inl x
   | Some (rest', out') \<Rightarrow> lz_tokens (length pre) flags bs rest (fill d (pre @ out)) (length (pre @ out))
        = Inr (rest', fill d (pre @ out'), length (pre @ out'))"
proof (induction bs arbitrary: rest out)
  case Nil
  then show ?case by simp
next
  case (Cons b bs)
  consider "rest = []" | "rest \<noteq> []" "\<not> bit flags b" | "rest \<noteq> []" "bit flags b" "length rest < 2"
    | "rest \<noteq> []" "bit flags b" "\<not> length rest < 2" by blast
  then show ?case
  proof cases
    case 2
    then have "lz_tokens (length pre) flags (b # bs) rest (fill d (pre @ out)) (length (pre @ out))
        = lz_tokens (length pre) flags bs (tl rest) (fill d (pre @ out @ [hd rest])) (length (pre @ out @ [hd rest]))"
      "lz_spec_tokens flags (b # bs) rest out = lz_spec_tokens flags bs (tl rest) (out @ [hd rest])"
      using put_fill [of d "pre @ out" "hd rest"] by simp_all
    then show ?thesis using Cons.IH [of "tl rest" "out @ [hd rest]"] by (simp only:)
  next
    case 4
    define token db where "token = le_nat (take 2 rest)" and "db = disp_bits (length out)"
    define disp len where "disp = token div 2 ^ (16 - db) + 1" and "len = 3 + token mod 2 ^ (16 - db)"
    have impl: "lz_tokens (length pre) flags (b # bs) rest (fill d (pre @ out)) (length (pre @ out)) =
      (if 12 < db \<or> length out < disp then Inl (fill d (pre @ out))
       else lz_tokens (length pre) flags bs (drop 2 rest) (lz_copy (fill d (pre @ out)) (length (pre @ out)) disp len) (length (pre @ out) + len))"
      using 4 by (simp add: Let_def token_def db_def disp_def len_def and_low_bits [simplified] drop_bit_eq_div)
    have spec: "lz_spec_tokens flags (b # bs) rest out =
      (if 12 < db \<or> length out < disp then None else lz_spec_tokens flags bs (drop 2 rest) (lz_repeat out disp len))"
      using 4 by (simp add: Let_def token_def db_def disp_def len_def)
    show ?thesis
    proof (cases "12 < db \<or> length out < disp")
      case True
      then show ?thesis unfolding impl spec by auto
    next
      case False
      then have "lz_copy (fill d (pre @ out)) (length (pre @ out)) disp len = fill d (pre @ lz_repeat out disp len)"
        by (intro lz_copy_fill) (simp_all add: disp_def)
      moreover have "length (pre @ out) + len = length (pre @ lz_repeat out disp len)"
        by (simp add: length_lz_repeat)
      ultimately show ?thesis
        unfolding impl spec using Cons.IH [of "drop 2 rest" "lz_repeat out disp len"]
        by (simp only: if_not_P [OF False])
    qed
  qed simp_all
qed

lemma lz_spec_tokens_consumes:
  "lz_spec_tokens flags bs rest out = Some (rest', out') \<Longrightarrow> length rest' \<le> length rest"
  using lz_tokens_fill [where flags = flags and bs = bs and rest = rest and out = out and pre = "[]" and d = "[]"] by (auto dest: lz_tokens_consumes)

lemma lz_chunk_fill:
  "length rest \<le> n \<Longrightarrow>
   case lz_spec_chunk n rest out of
     None \<Rightarrow> \<exists>x. lz_chunk (length pre) rest (fill d (pre @ out)) (length (pre @ out)) = Inl x
   | Some out' \<Rightarrow> lz_chunk (length pre) rest (fill d (pre @ out)) (length (pre @ out))
        = Inr (fill d (pre @ out'), length (pre @ out'))"
proof (induction n rest out rule: lz_spec_chunk.induct)
  case (1 n out)
  then show ?case by (simp add: lz_chunk.simps)
next
  case (2 x xs out)
  then show ?case by simp
next
  case (3 n flags rest out)
  note tokens = lz_tokens_fill [where flags = flags and bs = "[0..<8]" and rest = rest and out = out and pre = pre and d = d]
  have chunk: "lz_chunk (length pre) (flags # rest) (fill d (pre @ out)) (length (pre @ out)) =
      (case lz_tokens (length pre) flags [0..<8] rest (fill d (pre @ out)) (length (pre @ out)) of
         Inl x \<Rightarrow> Inl x | Inr (rest2, dst2, dp2) \<Rightarrow> lz_chunk (length pre) rest2 dst2 dp2)"
    by (subst lz_chunk.simps) (simp del: upt_rec_numeral)
  show ?case
  proof (cases "lz_spec_tokens flags [0..<8] rest out")
    case None
    then obtain x where "lz_tokens (length pre) flags [0..<8] rest (fill d (pre @ out)) (length (pre @ out)) = Inl x"
      using tokens by auto
    then show ?thesis unfolding chunk lz_spec_chunk.simps None by simp
  next
    case (Some p)
    obtain rest2 out2 where p: "p = (rest2, out2)" by (cases p)
    have t: "lz_tokens (length pre) flags [0..<8] rest (fill d (pre @ out)) (length (pre @ out))
        = Inr (rest2, fill d (pre @ out2), length (pre @ out2))"
      using tokens unfolding Some p by simp
    have "length rest2 \<le> n" using lz_spec_tokens_consumes [OF Some [unfolded p]] 3(2) by simp
    then show ?thesis
      using 3(1) [OF Some [unfolded p] refl] unfolding chunk lz_spec_chunk.simps Some p t
      by (simp only: option.case prod.case sum.case)
  qed
qed

lemma header_bit: "(hdr AND 0x8000 = 0) \<longleftrightarrow> \<not> bit (hdr :: nat) 15"
  using and_exp_eq_0_iff_not_bit [of hdr 15] by simp

lemma header_length: "(hdr AND 0x0FFF) = hdr mod (4096 :: nat)"
  using and_low_bits [of hdr 12] by (simp add: push_bit_eq_mult)

definition lz_bytes :: "(bool \<times> buf) list \<Rightarrow> buf" where
  "lz_bytes cs = concat (map snd cs)"

lemma splice_fill:
  assumes "length pre \<le> length d" "len \<le> length xs"
  shows "splice (length pre) (take (min len (length d - length pre)) xs) (fill d pre) = fill d (pre @ take len xs)"
proof (cases "length pre + len \<le> length d")
  case True
  then show ?thesis using assms by (simp add: splice_def fill_def add.commute)
next
  case False
  then have "min len (length d - length pre) = length d - length pre" by linarith
  then show ?thesis using assms False by (simp add: splice_def fill_def take_append min_absorb2)
qed

lemma lz_stream_fill:
  assumes "length (pre @ lz_bytes (fst (lz_spec src))) < 2 ^ 64"
  shows "case lz_spec src of (cs, ok) \<Rightarrow>
    (if lz_overruns (length d) (length pre) cs then lz_stream src (fill d pre) (length pre) = None
     else if ok then lz_stream src (fill d pre) (length pre) = Some (Inr (fill d (pre @ lz_bytes cs), length (pre @ lz_bytes cs)))
     else \<exists>x. lz_stream src (fill d pre) (length pre) = Some (Inl x))"
  using assms
proof (induction src arbitrary: pre rule: lz_spec.induct)
  case (1 src)
  define hdr rest where "hdr = le_nat (take 2 src)" and "rest = drop 2 src"
  define len where "len = hdr mod 4096 + 1"
  show ?case
  proof (cases "length src < 2 \<or> hdr = 0")
    case True
    then show ?thesis by (auto simp: lz_spec.simps [of src] lz_stream.simps [of src] hdr_def lz_bytes_def)
  next
    case False
    note spec = lz_spec.simps [of src, folded hdr_def rest_def]
    have impl: "lz_stream src (fill d pre) (length pre) =
      (if length rest < len then Some (Inl (fill d pre))
       else if \<not> bit hdr 15 then
         (let n = if length pre + len \<le> length d then len else sub64 (length d) (length pre)
          in if 0 < n \<and> (length d < length pre + n \<or> length rest < n) then None
             else lz_stream (drop len rest) (splice (length pre) (take n rest) (fill d pre)) (length pre + len))
       else (case lz_chunk (length pre) (take len rest) (fill d pre) (length pre) of
               Inl x \<Rightarrow> Some (Inl x) | Inr (dst2, dp2) \<Rightarrow> lz_stream (drop len rest) dst2 dp2))"
      using False by (subst lz_stream.simps)
        (simp add: hdr_def [symmetric] rest_def [symmetric] header_bit header_length len_def [simplified, symmetric])
    show ?thesis
    proof (cases "length rest < len")
      case True
      then show ?thesis using False by (simp add: spec impl len_def hdr_def [symmetric] rest_def [symmetric])
    next
      case complete: False
      define c where "c = (if bit hdr 15 then lz_spec_chunk len (take len rest) [] else Some (take len rest))"
      have spec: "lz_spec src = (case c of None \<Rightarrow> ([], False)
          | Some c \<Rightarrow> (case lz_spec (drop len rest) of (cs, ok) \<Rightarrow> ((\<not> bit hdr 15, c) # cs, ok)))"
        using False complete by (subst spec) (simp add: Let_def c_def len_def cong: option.case_cong)
      show ?thesis
      proof (cases c)
        case None
        then have "bit hdr 15" "lz_spec_chunk len (take len rest) [] = None" by (simp_all add: c_def split: if_splits)
        moreover have "\<exists>x. lz_chunk (length pre) (take len rest) (fill d pre) (length pre) = Inl x"
          using lz_chunk_fill [where rest = "take len rest" and n = len and out = "[]" and pre = pre and d = d] calculation by simp
        ultimately show ?thesis using complete by (auto simp: spec None impl)
      next
        case (Some b)
        obtain cs ok where tail: "lz_spec (drop len rest) = (cs, ok)" by fastforce
        have src: "lz_spec src = ((\<not> bit hdr 15, b) # cs, ok)" by (simp add: spec Some tail)
        have size: "length ((pre @ b) @ lz_bytes cs) < 2 ^ 64" using 1(2) by (simp add: src lz_bytes_def)
        have IH: "if lz_overruns (length d) (length (pre @ b)) cs then lz_stream (drop len rest) (fill d (pre @ b)) (length (pre @ b)) = None
          else if ok then lz_stream (drop len rest) (fill d (pre @ b)) (length (pre @ b)) = Some (Inr (fill d ((pre @ b) @ lz_bytes cs), length ((pre @ b) @ lz_bytes cs)))
          else \<exists>x. lz_stream (drop len rest) (fill d (pre @ b)) (length (pre @ b)) = Some (Inl x)"
          using 1(1) [of hdr rest len b "pre @ b"] False complete Some size tail
          by (simp add: hdr_def rest_def len_def c_def)
        have step: "lz_stream src (fill d pre) (length pre) =
          (if \<not> bit hdr 15 \<and> length d < length pre then None
           else lz_stream (drop len rest) (fill d (pre @ b)) (length (pre @ b)))"
        proof (cases "bit hdr 15")
          case True
          then have "lz_spec_chunk len (take len rest) [] = Some b" using Some by (simp add: c_def)
          then have "lz_chunk (length pre) (take len rest) (fill d pre) (length pre) = Inr (fill d (pre @ b), length (pre @ b))"
            using lz_chunk_fill [where rest = "take len rest" and n = len and out = "[]" and pre = pre and d = d] by simp
          then show ?thesis using True complete by (simp add: impl)
        next
          case literal: False
          then have b: "b = take len rest" using Some by (simp add: c_def)
          then have "length b = len" using complete by simp
          note b = b this
          show ?thesis
          proof (cases "length d < length pre")
            case True
            have "sub64 (length d) (length pre) = 2 ^ 64 - (length pre - length d)" using True by (rule sub64_wraps)
            then have "0 < sub64 (length d) (length pre)" using size by simp
            then show ?thesis using True literal complete by (simp add: impl Let_def)
          next
            case inside: False
            define n where "n = min len (length d - length pre)"
            have n: "(if length pre + len \<le> length d then len else sub64 (length d) (length pre)) = n"
              using inside by (auto simp: sub64_no_wrap n_def)
            have fits: "\<not> (0 < n \<and> (length d < length pre + n \<or> length rest < n))"
              using inside complete by (auto simp: n_def min_def)
            have "splice (length pre) (take n rest) (fill d pre) = fill d (pre @ b)"
              unfolding n_def b(1) using inside complete by (intro splice_fill) simp_all
            then show ?thesis
              unfolding impl Let_def n if_not_P [OF fits] using inside literal complete b(2) by simp
          qed
        qed
        show ?thesis
          unfolding src step prod.case lz_overruns.simps
          using IH by (auto simp: lz_bytes_def split: if_splits)
      qed
    qed
  qed
qed

text \<open>C20. For every compressed stream, \<open>lznt1Decompress\<close> overruns its output buffer exactly when a
  literal chunk begins after the end of the buffer.  Otherwise it returns -1 exactly for a
  malformed stream, and else the size of the full decompression, of which the buffer holds what
  fits while the bytes after it are left as they were.\<close>

theorem lznt1_refines_chunked_format:
  assumes "lz_spec src = (cs, ok)" "length (lz_bytes cs) < 2 ^ 64"
  shows "if lz_overruns (length dst) 0 cs then lznt1_decompress src dst = None
    else if ok then lznt1_decompress src dst = Some (fill dst (lz_bytes cs), int32 (length (lz_bytes cs)))
    else \<exists>d. lznt1_decompress src dst = Some (d, -1)"
  using lz_stream_fill [of "[]" src dst] assms
  by (auto simp: lznt1_decompress_def split: if_splits)

text \<open>Two literal chunks, the second of which begins after the end of a buffer of two bytes.\<close>

definition demo_stream :: buf where
  "demo_stream = [0x02, 0x30, 0x61, 0x62, 0x63, 0x00, 0x30, 0x64, 0x00, 0x00]"

lemma demo_stream_spec: "lz_spec demo_stream = ([(True, [0x61, 0x62, 0x63]), (True, [0x64])], True)"
  by (simp add: demo_stream_def lz_spec.simps bit_simps)

theorem lznt1_refines_chunked_format_witness:
  "lznt1_decompress demo_stream [0, 0] = None
    \<and> lznt1_decompress demo_stream [0, 0, 0] = Some ([0x61, 0x62, 0x63], 4)"
  using lznt1_refines_chunked_format [OF demo_stream_spec, of "[0, 0]"]
    lznt1_refines_chunked_format [OF demo_stream_spec, of "[0, 0, 0]"]
  by (simp add: lz_bytes_def int32_def w32_def fill_def)

end
