(* ===== verification/Ntfs_Records.thy ===== *)
theory Ntfs_Records
  imports Ntfs_Util
begin

text \<open>
  Correctness of the NTFS helpers of theory Ntfs\_Util: the fixup inverts the protection of a
  record, decoded names are valid UTF-8, the index parser is total with well-formed results,
  and the journal harvest is sound and complete.
\<close>

section \<open>Update sequence arrays\<close>

lemma slice_two: "k + 2 \<le> length xs \<Longrightarrow> slice k 2 xs = [xs ! k, xs ! Suc k]"
  by (intro nth_equalityI) (auto simp: nth_slice less_2_cases_iff nth_Cons')

lemma nth_splice_two:
  "k + 2 \<le> length xs \<Longrightarrow> splice k [a, b] xs = xs[k := a, Suc k := b]"
proof (rule nth_equalityI)
  assume "k + 2 \<le> length xs"
  then show "length (splice k [a, b] xs) = length (xs[k := a, Suc k := b])" by simp
next
  fix j
  assume "k + 2 \<le> length xs" "j < length (splice k [a, b] xs)"
  moreover have "2 \<le> j \<Longrightarrow> Suc (Suc (j - 2)) = j" by arith
  ultimately show "splice k [a, b] xs ! j = xs[k := a, Suc k := b] ! j"
    by (auto simp: splice_def nth_append nth_list_update nth_Cons' min_def)
qed

text \<open>What a record looks like before and after the fixup of the sectors \<open>is\<close>.\<close>

definition usa_restores :: "nat \<Rightarrow> nat \<Rightarrow> nat \<Rightarrow> nat set \<Rightarrow> buf \<Rightarrow> buf \<Rightarrow> bool" where
  "usa_restores ss off seq is r' r \<longleftrightarrow> length r' = length r
     \<and> (\<forall>i \<in> is. le_nat [r ! (i * ss - 2), r ! (i * ss - 1)] = seq
          \<and> r' ! (i * ss - 2) = r ! (off + 2 * i) \<and> r' ! (i * ss - 1) = r ! Suc (off + 2 * i))
     \<and> (\<forall>j < length r. (\<forall>i \<in> is. j \<noteq> i * ss - 2 \<and> j \<noteq> i * ss - 1) \<longrightarrow> r' ! j = r ! j)"

lemma sector_tails:
  assumes "4 \<le> (ss :: nat)" "1 \<le> i" "1 \<le> j" "i \<noteq> j"
  shows "i * ss - 2 \<noteq> j * ss - 2" "i * ss - 1 \<noteq> j * ss - 2" "i * ss - 2 \<noteq> j * ss - 1" "i * ss - 1 \<noteq> j * ss - 1"
proof -
  have a: "ss \<le> i * ss" "ss \<le> j * ss" using assms by simp_all
  have "i * ss + ss \<le> j * ss \<or> j * ss + ss \<le> i * ss"
  proof (cases "i < j")
    case True
    then have "(i + 1) * ss \<le> j * ss" by (intro mult_right_mono) simp_all
    then show ?thesis by simp
  next
    case False
    then have "(j + 1) * ss \<le> i * ss" using assms(4) by (intro mult_right_mono) simp_all
    then show ?thesis by simp
  qed
  then show "i * ss - 2 \<noteq> j * ss - 2" "i * ss - 1 \<noteq> j * ss - 2" "i * ss - 2 \<noteq> j * ss - 1" "i * ss - 1 \<noteq> j * ss - 1"
    using a assms(1) by linarith+
qed

lemma usa_loop_restores:
  assumes "4 \<le> ss" "\<forall>i \<in> set is. 1 \<le> i \<and> i * ss \<le> length r \<and> off + 2 * i + 4 \<le> ss" "distinct is" "length r < 2 ^ 64"
  shows "(\<exists>x. usa_loop r ss off seq is = Some x)
    \<and> (usa_loop r ss off seq is = Some (r', True) \<longleftrightarrow> usa_restores ss off seq (set is) r' r)"
  using assms
proof (induction "is" arbitrary: r)
  case Nil
  then show ?case by (auto simp: usa_restores_def intro!: nth_equalityI)
next
  case (Cons i "is")
  have i: "1 \<le> i" "i * ss \<le> length r" "off + 2 * i + 4 \<le> ss" "i \<notin> set is" using Cons.prems by auto
  then have iss: "ss \<le> i * ss" by simp
  define k where "k = i * ss - 2"
  have k: "k + 2 \<le> length r" "Suc k = i * ss - 1" "off + 2 * i + 2 \<le> k" unfolding k_def using i iss Cons.prems(1) by linarith+
  define r1 where "r1 = r[k := r ! (off + 2 * i), Suc k := r ! Suc (off + 2 * i)]"
  have len: "length r1 = length r" by (simp add: r1_def)
  have step: "usa_loop r ss off seq (i # is) =
      (if le_nat [r ! k, r ! Suc k] \<noteq> seq then Some (r, False) else usa_loop r1 ss off seq is)"
  proof -
    have "2 \<le> i * ss" using iss Cons.prems(1) by linarith
    then have "sub64 (i * ss) 2 = k" by (simp only: sub64_no_wrap k_def)
    moreover have "w64 (k + 2) = k + 2" using k(1) Cons.prems(4) by (intro w64_id) simp
    moreover have "splice k (slice (off + 2 * i) 2 r) r = r1"
      using k by (simp add: slice_two nth_splice_two r1_def)
    ultimately show ?thesis using k by (simp add: slice_two)
  qed
  have low: "r1 ! j = r ! j" if "j < k" for j using that by (simp add: r1_def)
  have other: "r1 ! j = r ! j" if "j \<noteq> k" "j \<noteq> Suc k" for j using that by (simp add: r1_def)
  have at: "r1 ! k = r ! (off + 2 * i)" "r1 ! Suc k = r ! Suc (off + 2 * i)" using k by (simp_all add: r1_def)
  have tails: "j * ss - 2 \<noteq> k \<and> j * ss - 2 \<noteq> Suc k \<and> j * ss - 1 \<noteq> k \<and> j * ss - 1 \<noteq> Suc k"
    if "j \<in> set is" for j
  proof -
    have "j \<noteq> i" "1 \<le> j" using that i(4) Cons.prems(2) by auto
    then show ?thesis
      unfolding k(2) unfolding k_def using sector_tails [OF Cons.prems(1) \<open>1 \<le> j\<close> i(1)] by blast
  qed
  have usa: "r1 ! (off + 2 * j) = r ! (off + 2 * j)" "r1 ! Suc (off + 2 * j) = r ! Suc (off + 2 * j)"
    if "j \<in> set is" for j
  proof -
    have "off + 2 * j + 4 \<le> ss" using that Cons.prems(2) by simp
    then have "Suc (off + 2 * j) < k" unfolding k_def using iss by linarith
    then show "r1 ! (off + 2 * j) = r ! (off + 2 * j)" "r1 ! Suc (off + 2 * j) = r ! Suc (off + 2 * j)"
      by (simp_all add: low)
  qed
  have "usa_restores ss off seq (set (i # is)) r' r \<longleftrightarrow>
      le_nat [r ! k, r ! Suc k] = seq \<and> usa_restores ss off seq (set is) r' r1"
    (is "?l \<longleftrightarrow> ?r")
  proof
    assume l: ?l
    show ?r
      unfolding usa_restores_def len
    proof (intro conjI ballI allI impI)
      show "length r' = length r" "le_nat [r ! k, r ! Suc k] = seq" using l k by (simp_all add: usa_restores_def k_def)
    next
      fix j assume j: "j \<in> set is"
      show "le_nat [r1 ! (j * ss - 2), r1 ! (j * ss - 1)] = seq" "r' ! (j * ss - 2) = r1 ! (off + 2 * j)"
        "r' ! (j * ss - 1) = r1 ! Suc (off + 2 * j)"
        using l j tails [OF j] by (simp_all add: usa_restores_def other usa [OF j])
    next
      fix j assume j: "j < length r" "\<forall>i \<in> set is. j \<noteq> i * ss - 2 \<and> j \<noteq> i * ss - 1"
      show "r' ! j = r1 ! j"
      proof (cases "j = k \<or> j = Suc k")
        case True
        then show ?thesis using l at k(2) by (auto simp: usa_restores_def k_def)
      next
        case False
        then show ?thesis using l j k(2) by (auto simp: usa_restores_def k_def other)
      qed
    qed
  next
    assume rr: ?r
    show ?l
      unfolding usa_restores_def
    proof (intro conjI ballI allI impI)
      show "length r' = length r" using rr len by (simp add: usa_restores_def)
    next
      fix j assume "j \<in> set (i # is)"
      then consider "j = i" | "j \<in> set is" by auto
      then have "le_nat [r ! (j * ss - 2), r ! (j * ss - 1)] = seq \<and> r' ! (j * ss - 2) = r ! (off + 2 * j) \<and> r' ! (j * ss - 1) = r ! Suc (off + 2 * j)"
      proof cases
        case 1
        have "r' ! k = r1 ! k" "r' ! Suc k = r1 ! Suc k"
          using rr tails k(1) len unfolding usa_restores_def by (metis Suc_le_lessD add_2_eq_Suc' less_Suc_eq_le less_or_eq_imp_le)+
        then show ?thesis unfolding 1 k(2) [symmetric] k_def [symmetric] using rr at by simp
      next
        case 2
        have "r1 ! (j * ss - 2) = r ! (j * ss - 2)" "r1 ! (j * ss - 1) = r ! (j * ss - 1)"
          using tails [OF 2] by (blast intro: other)+
        then show ?thesis using rr 2 unfolding usa [OF 2, symmetric] usa_restores_def by metis
      qed
      then show "le_nat [r ! (j * ss - 2), r ! (j * ss - 1)] = seq" "r' ! (j * ss - 2) = r ! (off + 2 * j)"
        "r' ! (j * ss - 1) = r ! Suc (off + 2 * j)" by simp_all
    next
      fix j assume j: "j < length r" "\<forall>i \<in> set (i # is). j \<noteq> i * ss - 2 \<and> j \<noteq> i * ss - 1"
      then have "j \<noteq> k" "j \<noteq> Suc k" unfolding k(2) unfolding k_def by simp_all
      then have "r1 ! j = r ! j" by (rule other)
      then show "r' ! j = r ! j" using rr j len by (simp add: usa_restores_def)
    qed
  qed
  moreover have "(\<exists>x. usa_loop r1 ss off seq is = Some x)
    \<and> (usa_loop r1 ss off seq is = Some (r', True) \<longleftrightarrow> usa_restores ss off seq (set is) r' r1)"
    using Cons.prems by (intro Cons.IH) (simp_all add: len)
  ultimately show ?case unfolding step by auto
qed


text \<open>The record as the volume driver writes it: each sector's tail holds the sequence number,
  the original tails are in the array after it, everything else is unchanged.\<close>

definition usa_protects :: "nat \<Rightarrow> nat \<Rightarrow> nat \<Rightarrow> buf \<Rightarrow> buf \<Rightarrow> bool" where
  "usa_protects ss off cnt orig rec \<longleftrightarrow> length orig = length rec
     \<and> (\<forall>i \<in> {1..<cnt}. slice (i * ss - 2) 2 rec = slice off 2 rec
          \<and> slice (off + 2 * i) 2 rec = slice (i * ss - 2) 2 orig)
     \<and> (\<forall>j < length rec. (\<forall>i \<in> {1..<cnt}. j \<noteq> i * ss - 2 \<and> j \<noteq> i * ss - 1) \<longrightarrow> orig ! j = rec ! j)"

lemma le_nat_two_inj: "le_nat [a, b] = le_nat [c, d] \<longleftrightarrow> a = c \<and> b = d"
proof
  assume "le_nat [a, b] = le_nat [c, d]"
  then have *: "unat a + 256 * unat b = unat c + 256 * unat d" by simp
  moreover have "unat a < 256" "unat c < 256" by simp_all
  ultimately have "unat a = unat c" by (metis mod_less mod_mult_self2)
  with * have "unat a = unat c" "unat b = unat d" by simp_all
  then show "a = c \<and> b = d" by (simp add: word_unat_eq_iff)
qed simp

text \<open>C19. For a record whose update sequence array lies in its first sector, the fixup never
  accesses memory outside the record, and it succeeds with the record \<open>orig\<close> exactly when the
  bytes read are \<open>orig\<close> as the file system protects it: every sector tail holds the sequence
  number and is restored from its slot of the array, and no other byte changes.\<close>

theorem usa_fixup_undoes_exactly_protection:
  assumes "off + 2 * cnt + 2 \<le> ss" "2 \<le> cnt" "(cnt - 1) * ss \<le> length rec" "length rec < 2 ^ 64"
  shows "apply_usa_fixup rec ss off cnt \<noteq> None
    \<and> (apply_usa_fixup rec ss off cnt = Some (orig, True) \<longleftrightarrow> usa_protects ss off cnt orig rec)"
proof -
  have ss: "4 \<le> ss" "1 * ss \<le> (cnt - 1) * ss" using assms(1,2) by (simp, intro mult_right_mono) simp_all
  then have len: "ss \<le> length rec" using assms(3) by linarith
  define seq where "seq = le_nat (slice off 2 rec)"
  have "cnt - 1 \<le> length rec div ss"
    using assms(3) ss(1) by (simp add: less_eq_div_iff_mult_less_eq)
  moreover have "rec \<noteq> []" using len ss(1) by auto
  ultimately have app: "apply_usa_fixup rec ss off cnt = usa_loop rec ss off seq [1..<cnt]"
    using assms ss len by (simp add: apply_usa_fixup_def seq_def)
  have range: "1 \<le> i \<and> i * ss \<le> length rec \<and> off + 2 * i + 4 \<le> ss" if "i \<in> {1..<cnt}" for i
  proof -
    have "i * ss \<le> (cnt - 1) * ss" using that by (intro mult_right_mono) auto
    then have "i * ss \<le> length rec" using assms(3) by linarith
    then show ?thesis using that assms(1) by auto
  qed
  have loop: "(\<exists>x. usa_loop rec ss off seq [1..<cnt] = Some x)
    \<and> (usa_loop rec ss off seq [1..<cnt] = Some (orig, True) \<longleftrightarrow> usa_restores ss off seq (set [1..<cnt]) orig rec)"
    using range assms(4) ss(1) by (intro usa_loop_restores) auto
  have "usa_restores ss off seq {1..<cnt} orig rec \<longleftrightarrow> usa_protects ss off cnt orig rec"
    unfolding usa_restores_def usa_protects_def seq_def
  proof (rule conj_cong [OF refl], rule conj_cong [OF _ refl], rule ball_cong [OF refl])
    fix i assume i: "length orig = length rec" "i \<in> {1..<cnt}"
    have "1 * ss \<le> i * ss" using i by (intro mult_right_mono) auto
    then have k: "i * ss - 1 = Suc (i * ss - 2)" "i * ss - 2 + 2 \<le> length rec"
      using range [OF i(2)] ss(1) by linarith+
    have tail: "slice (i * ss - 2) 2 rec = [rec ! (i * ss - 2), rec ! (i * ss - 1)]"
      "slice (i * ss - 2) 2 orig = [orig ! (i * ss - 2), orig ! (i * ss - 1)]"
      unfolding k(1) using k(2) i(1) by (simp_all only: slice_two)
    have slot: "slice (off + 2 * i) 2 rec = [rec ! (off + 2 * i), rec ! Suc (off + 2 * i)]"
      "slice off 2 rec = [rec ! off, rec ! Suc off]"
      using range [OF i(2)] len by (simp_all add: slice_two)
    show "(le_nat [rec ! (i * ss - 2), rec ! (i * ss - 1)] = le_nat (slice off 2 rec)
        \<and> orig ! (i * ss - 2) = rec ! (off + 2 * i) \<and> orig ! (i * ss - 1) = rec ! Suc (off + 2 * i)) =
      (slice (i * ss - 2) 2 rec = slice off 2 rec \<and> slice (off + 2 * i) 2 rec = slice (i * ss - 2) 2 orig)"
      unfolding tail slot le_nat_two_inj by auto
  qed
  then show ?thesis using loop unfolding app by auto
qed

definition demo_record :: buf where
  "demo_record = [0, 0, 0xAB, 0xCD, 1, 2, 3, 4, 0, 9, 9, 9, 0, 0, 0xAB, 0xCD, 5, 5, 5, 5, 5, 5, 5, 5, 5, 5, 5, 5, 5, 5, 0xAB, 0xCD]"

theorem usa_fixup_undoes_exactly_protection_witness:
  "apply_usa_fixup demo_record 16 2 3 \<noteq> None
    \<and> (apply_usa_fixup demo_record 16 2 3 = Some (demo_record[14 := 1, 15 := 2, 30 := 3, 31 := 4], True)
       \<longleftrightarrow> usa_protects 16 2 3 (demo_record[14 := 1, 15 := 2, 30 := 3, 31 := 4]) demo_record)"
  by (rule usa_fixup_undoes_exactly_protection) (simp_all add: demo_record_def)

section \<open>Decoded names\<close>

text \<open>Setting bits below the lead pattern is adding them.\<close>

lemma or_low_bits:
  assumes "k < 2 ^ n"
  shows "(a * 2 ^ n) OR k = a * 2 ^ n + (k :: nat)"
proof -
  have "bit k i \<Longrightarrow> i < n" for i
    using assms by (metis bit_take_bit_iff take_bit_nat_eq_self)
  then have "push_bit n a AND k = 0"
    by (intro bit_eqI) (fastforce simp: bit_simps)
  then have "(a * 2 ^ n) AND k = 0" by (simp only: push_bit_eq_mult)
  then show ?thesis by (simp add: disjunctive_add_eq_or)
qed

lemma or_lead:
  "x < 64 \<Longrightarrow> 0x80 OR x = 0x80 + (x :: nat)" "x < 32 \<Longrightarrow> 0xC0 OR x = 0xC0 + (x :: nat)"
  "x < 16 \<Longrightarrow> 0xE0 OR x = 0xE0 + (x :: nat)" "x < 8 \<Longrightarrow> 0xF0 OR x = 0xF0 + (x :: nat)"
  using or_low_bits [of x 6 2] or_low_bits [of x 5 6] or_low_bits [of x 4 14] or_low_bits [of x 3 30] by simp_all

lemma and_0x3F: "n AND 0x3F = n mod (64 :: nat)"
  using take_bit_eq_mask [of 6 n] by (simp add: take_bit_eq_mod mask_eq_exp_minus_1)

text \<open>The encoder of this header and the specification of UTF-8 in theory Utf8 agree.\<close>

lemma append_utf8_encodes:
  assumes "n \<le> 0x10FFFF"
  shows "append_utf8 n = utf8_encode n"
proof -
  have d: "drop_bit 6 n = n div 64" "drop_bit 12 n = n div 4096" "drop_bit 18 n = n div 262144"
    by (simp_all add: drop_bit_eq_div)
  consider "n < 0x80" | "0x80 \<le> n" "n < 0x800" | "0x800 \<le> n" "n < 0x10000" | "0x10000 \<le> n" by linarith
  then show ?thesis
  proof cases
    case 1
    then show ?thesis by (simp add: append_utf8_def utf8_encode_def)
  next
    case 2
    then have "n div 64 < 32" by (simp add: less_mult_imp_div_less)
    then show ?thesis using 2 by (simp add: append_utf8_def utf8_encode_def d and_0x3F or_lead)
  next
    case 3
    then have "n div 4096 < 16" by (simp add: less_mult_imp_div_less)
    then show ?thesis using 3 by (simp add: append_utf8_def utf8_encode_def d and_0x3F or_lead)
  next
    case 4
    then have "n div 262144 < 8" using assms by (simp add: less_mult_imp_div_less)
    then show ?thesis using 4 assms by (simp add: append_utf8_def utf8_encode_def d and_0x3F or_lead)
  qed
qed

lemma surrogate_pair_scalar:
  "high_surrogate u \<Longrightarrow> low_surrogate lo \<Longrightarrow>
    scalar_value (0x10000 + push_bit 10 (u - 0xD800) + (lo - 0xDC00))
    \<and> 0x10000 + push_bit 10 (u - 0xD800) + (lo - 0xDC00) \<le> 0x10FFFF"
  by (auto simp: high_surrogate_def low_surrogate_def scalar_value_def push_bit_eq_mult)

lemma utf8_valid_append_utf8: "scalar_value n \<Longrightarrow> utf8_valid s \<Longrightarrow> utf8_valid (append_utf8 n @ s)"
  using append_utf8_encodes [of n] utf8_valid_encoded [of n s] by (auto simp: scalar_value_def)

lemma unit_scalar: "\<not> high_surrogate u \<Longrightarrow> \<not> low_surrogate u \<Longrightarrow> u < 65536 \<Longrightarrow> scalar_value u"
  by (auto simp: high_surrogate_def low_surrogate_def scalar_value_def)

lemma replacement_scalar: "scalar_value 0xFFFD"
  by (simp add: scalar_value_def)

text \<open>The five cases of the decoding loop.\<close>

declare utf16le_to_utf8.simps(2) [simp del]

lemma utf16_stop: "utf16le_to_utf8 (0 # us) = []"
  by (subst utf16le_to_utf8.simps) simp

lemma utf16_pair:
  "high_surrogate u \<Longrightarrow> low_surrogate lo \<Longrightarrow> utf16le_to_utf8 (u # lo # us) =
    append_utf8 (0x10000 + push_bit 10 (u - 0xD800) + (lo - 0xDC00)) @ utf16le_to_utf8 us"
  by (subst utf16le_to_utf8.simps) (simp add: high_surrogate_def)

lemma utf16_lone_high:
  "high_surrogate u \<Longrightarrow> us = [] \<or> \<not> low_surrogate (hd us) \<Longrightarrow>
    utf16le_to_utf8 (u # us) = append_utf8 0xFFFD @ utf16le_to_utf8 us"
  by (subst utf16le_to_utf8.simps) (auto simp: high_surrogate_def split: list.splits)

lemma utf16_lone_low:
  "low_surrogate u \<Longrightarrow> utf16le_to_utf8 (u # us) = append_utf8 0xFFFD @ utf16le_to_utf8 us"
  by (subst utf16le_to_utf8.simps) (auto simp: high_surrogate_def low_surrogate_def)

lemma utf16_plain:
  "u \<noteq> 0 \<Longrightarrow> \<not> high_surrogate u \<Longrightarrow> \<not> low_surrogate u \<Longrightarrow>
    utf16le_to_utf8 (u # us) = append_utf8 u @ utf16le_to_utf8 us"
  by (subst utf16le_to_utf8.simps) simp

lemmas utf16_cases = utf16_stop utf16_pair utf16_lone_high utf16_lone_low utf16_plain

lemma utf16_decodes_valid: "list_all (\<lambda>u. u < 65536) us \<Longrightarrow> utf8_valid (utf16le_to_utf8 us)"
proof (induction us rule: length_induct)
  case (1 us)
  have IH: "utf8_valid (utf16le_to_utf8 vs)" if "length vs < length us" "list_all (\<lambda>u. u < 65536) vs" for vs
    using 1 that by blast
  show ?case
  proof (cases us)
    case Nil
    then show ?thesis by simp
  next
    case (Cons u vs)
    have vs: "list_all (\<lambda>u. u < 65536) vs" "u < 65536" using 1(2) Cons by simp_all
    have rest: "utf8_valid (append_utf8 n @ utf16le_to_utf8 vs)" if "scalar_value n" for n
      using that IH [of vs] vs(1) Cons by (intro utf8_valid_append_utf8) simp_all
    consider "u = 0" | lo ws where "high_surrogate u" "vs = lo # ws" "low_surrogate lo"
      | "high_surrogate u" "vs = [] \<or> \<not> low_surrogate (hd vs)" | "low_surrogate u"
      | "u \<noteq> 0" "\<not> high_surrogate u" "\<not> low_surrogate u"
      by (cases vs) auto
    then show ?thesis
    proof cases
      case 2
      then have "utf8_valid (utf16le_to_utf8 ws)" using IH [of ws] vs Cons by simp
      then show ?thesis
        using 2 Cons surrogate_pair_scalar [of u lo] by (simp add: utf16_cases utf8_valid_append_utf8)
    qed (use Cons rest unit_scalar [of u] vs(2) replacement_scalar in \<open>simp_all add: utf16_cases\<close>)
  qed
qed

lemma units_of_less: "list_all (\<lambda>u. u < 65536) (units_of bs)"
proof (induction bs rule: units_of.induct)
  case (1 a b bs)
  have "le_nat [a, b] < 256 ^ length [a, b]" by (rule le_nat_less)
  then have "le_nat [a, b] < 65536" by simp
  then show ?case using 1 by (simp del: le_nat.simps)
qed simp_all

lemma decoded_name_valid: "utf8_valid (utf16le_to_utf8 (units_of bs))"
  by (rule utf16_decodes_valid) (rule units_of_less)

section \<open>The index parser is total and its hints are well formed\<close>

definition hint_ok :: "bool \<Rightarrow> index_name_hint \<Rightarrow> bool" where
  "hint_ok slack h \<longleftrightarrow> ih_slack h = slack \<and> 0 < ih_child h \<and> ih_child h < 2 ^ 48 \<and> ih_parent h < 2 ^ 48
     \<and> ih_name h \<noteq> [] \<and> utf8_valid (ih_name h) \<and> ih_real_size h < 2 ^ 64"

lemma and_ref_mask_less: "x AND ref_mask < 2 ^ 48"
proof -
  have "x AND ref_mask = take_bit 48 x"
    by (simp add: take_bit_eq_mask mask_eq_exp_minus_1 ref_mask_def)
  then show ?thesis by (simp only: take_bit_nat_less_exp)
qed

lemma rd_le_lift: "off + n \<le> length xs \<Longrightarrow> \<exists>v. rd_le n xs off = Some v \<and> v < 256 ^ n"
  using le_nat_slice_less [where off = off and n = n and xs = xs] by simp

lemma harvest_entry_total:
  assumes "avail \<le> length entry"
  shows "\<exists>hs. harvest_index_entry entry avail slack = Some hs \<and> list_all (hint_ok slack) hs"
proof (cases "avail < 16")
  case True
  then show ?thesis by (simp add: harvest_index_entry_def)
next
  case False
  define el kl fl where "el = le_nat (slice 8 2 entry)" and "kl = le_nat (slice 10 2 entry)" and "fl = le_nat (slice 12 2 entry)"
  show ?thesis
  proof (cases "fl AND 2 \<noteq> 0 \<or> el < 16 \<or> avail < el \<or> kl < 66 \<or> el < 16 + kl")
    case True
    then show ?thesis using False assms
      by (auto simp: harvest_index_entry_def el_def [symmetric] kl_def [symmetric] fl_def [symmetric])
  next
    case inside: False
    then have len: "16 + kl \<le> length entry" "66 \<le> kl" using assms by auto
    define nl where "nl = le_nat (slice 80 (Suc 0) entry)"
    show ?thesis
    proof (cases "nl = 0 \<or> 255 < nl \<or> kl < 66 + nl * 2")
      case True
      then show ?thesis using False assms inside len
        by (auto simp: harvest_index_entry_def el_def [symmetric] kl_def [symmetric] fl_def [symmetric] nl_def [symmetric])
    next
      case named: False
      have "harvest_index_entry entry avail slack =
        (let name = utf16le_to_utf8 (units_of (slice 82 (2 * nl) entry)) in
         if name = [] then Some []
         else if le_nat (slice 0 8 entry) AND ref_mask = 0 then Some []
         else Some [\<lparr>ih_child = le_nat (slice 0 8 entry) AND ref_mask, ih_parent = le_nat (slice 16 8 entry) AND ref_mask,
                    ih_name = name, ih_slack = slack, ih_real_size = le_nat (slice 64 8 entry), ih_start_sector = 0\<rparr>])"
        using False assms inside len named
        by (simp add: harvest_index_entry_def Let_def el_def [symmetric] kl_def [symmetric] fl_def [symmetric] nl_def [symmetric])
      moreover have "le_nat (slice 64 8 entry) < 2 ^ 64"
        using le_nat_slice_less [of 64 8 entry] by simp
      ultimately show ?thesis
        using and_ref_mask_less by (auto simp: Let_def hint_ok_def decoded_name_valid)
    qed
  qed
qed

lemma index_live_total:
  assumes "used \<le> length hdr" "used + 65552 \<le> 2 ^ 32" "off \<le> used + 65535"
  shows "\<exists>hs. index_live hdr used off out = Some (out @ hs) \<and> list_all (hint_ok False) hs"
  using assms(3)
proof (induction "used + 65535 - off" arbitrary: off out rule: less_induct)
  case less
  have w: "w32 (off + 16) = off + 16" using less.prems assms(2) by (intro w32_id) simp
  show ?case
  proof (cases "used < off + 16")
    case True
    then show ?thesis by (simp add: index_live.simps [of _ _ off] w)
  next
    case False
    then have len: "off + 16 \<le> length hdr" using assms(1) by simp
    obtain elen where elen: "rd_le 2 hdr (off + 8) = Some elen" "elen < 65536"
      using rd_le_lift [of "off + 8" 2 hdr] len by auto
    obtain fl where fl: "rd_le 2 hdr (off + 12) = Some fl"
      using rd_le_lift [of "off + 12" 2 hdr] len by auto
    obtain hs where hs: "harvest_index_entry (drop off hdr) (used - off) False = Some hs" "list_all (hint_ok False) hs"
      using harvest_entry_total [of "used - off" "drop off hdr" False] assms(1) by (auto simp: diff_le_mono)
    have w2: "w32 (off + elen) = off + elen" using False elen(2) assms(2) by (intro w32_id) simp
    have step: "index_live hdr used off out =
      (if elen < 16 then Some out else if fl AND 2 \<noteq> 0 then Some (out @ hs) else index_live hdr used (off + elen) (out @ hs))"
      using False by (subst index_live.simps) (simp only: w elen fl hs w2 bind.simps if_False)
    show ?thesis
    proof (cases "elen < 16 \<or> fl AND 2 \<noteq> 0")
      case True
      then show ?thesis using hs(2) by (auto simp: step)
    next
      case go: False
      have "\<exists>hs'. index_live hdr used (off + elen) (out @ hs) = Some ((out @ hs) @ hs') \<and> list_all (hint_ok False) hs'"
        using False go elen(2) by (intro less.hyps; linarith)
      then show ?thesis using go hs(2) by (fastforce simp: step)
    qed
  qed
qed

lemma index_slack_total:
  assumes "alloc \<le> length hdr" "alloc + 65552 \<le> 2 ^ 32" "off \<le> alloc"
  shows "\<exists>hs. index_slack hdr alloc off out = Some (out @ hs) \<and> list_all (hint_ok True) hs"
  using assms(3)
proof (induction "alloc - off" arbitrary: off out rule: less_induct)
  case less
  have w: "w32 (off + 16) = off + 16" "w32 (off + 8) = off + 8" using less.prems assms(2) by (simp_all add: w32_id)
  show ?case
  proof (cases "alloc < off + 16")
    case True
    then show ?thesis by (simp add: index_slack.simps [of _ _ off] w)
  next
    case False
    then have len: "off + 16 \<le> length hdr" using assms(1) by simp
    obtain elen where elen: "rd_le 2 hdr (off + 8) = Some elen" "elen < 65536"
      using rd_le_lift [of "off + 8" 2 hdr] len by auto
    obtain hs where hs: "harvest_index_entry (drop off hdr) (alloc - off) True = Some hs" "list_all (hint_ok True) hs"
      using harvest_entry_total [of "alloc - off" "drop off hdr" True] assms(1) by (auto simp: diff_le_mono)
    have w2: "w32 (off + elen) = off + elen" using less.prems elen(2) assms(2) by (intro w32_id) simp
    have step: "index_slack hdr alloc off out =
      (if elen < 16 \<or> alloc < off + elen then index_slack hdr alloc (off + 8) out
       else index_slack hdr alloc (off + elen) (out @ hs))"
      using False by (subst index_slack.simps) (simp only: w elen hs w2 bind.simps if_False)
    show ?thesis
    proof (cases "elen < 16 \<or> alloc < off + elen")
      case True
      have "\<exists>hs'. index_slack hdr alloc (off + 8) out = Some (out @ hs') \<and> list_all (hint_ok True) hs'"
        using False by (intro less.hyps) simp_all
      then show ?thesis using True by (simp add: step)
    next
      case go: False
      have "\<exists>hs'. index_slack hdr alloc (off + elen) (out @ hs) = Some ((out @ hs) @ hs') \<and> list_all (hint_ok True) hs'"
        using False go by (intro less.hyps; linarith)
      then show ?thesis using go hs(2) by (fastforce simp: step)
    qed
  qed
qed

lemma parse_index_header_total:
  assumes "length hdr + 65552 \<le> 2 ^ 32"
  shows "\<exists>live slack. parse_index_header hdr out = Some (out @ live @ slack)
    \<and> list_all (hint_ok False) live \<and> list_all (hint_ok True) slack"
proof -
  define first used where "first = le_nat (slice 0 4 hdr)" and "used = le_nat (slice 4 4 hdr)"
  show ?thesis
  proof (cases "length hdr < 16 \<or> first < 16 \<or> used < first \<or> length hdr < used")
    case True
    then have "parse_index_header hdr out = Some (out @ [] @ [])"
      by (auto simp: parse_index_header_def Let_def first_def used_def)
    then show ?thesis by (intro exI [of _ "[]"]) simp
  next
    case False
    obtain live where live: "index_live hdr used first out = Some (out @ live)" "list_all (hint_ok False) live"
      using index_live_total [of used hdr first out] False assms by auto
    define a1 where "a1 = (let a0 = le_nat (slice 8 4 hdr) in if a0 < used then used else a0)"
    define a2 where "a2 = (if length hdr < a1 then w32 (length hdr) else a1)"
    have "w32 (length hdr) = length hdr" using assms by (intro w32_id) simp
    then have "a2 \<le> length hdr" "used \<le> a2" using False by (auto simp: a2_def a1_def Let_def)
    then obtain slk where slk: "index_slack hdr a2 used (out @ live) = Some ((out @ live) @ slk)" "list_all (hint_ok True) slk"
      using index_slack_total [of a2 hdr used "out @ live"] assms by auto
    have "parse_index_header hdr out = do { l \<leftarrow> index_live hdr used first out; index_slack hdr a2 used l }"
      using False by (simp add: parse_index_header_def Let_def first_def used_def a2_def a1_def)
    then show ?thesis using live slk by auto
  qed
qed


lemma usa_loop_total:
  assumes "2 \<le> ss" "\<forall>i \<in> set is. 1 \<le> i \<and> off + 2 * i + 2 \<le> length r" "length r < 2 ^ 63" "\<forall>i \<in> set is. i * ss < 2 ^ 63"
  shows "\<exists>r' ok. usa_loop r ss off seq is = Some (r', ok) \<and> length r' = length r"
  using assms
proof (induction "is" arbitrary: r)
  case Nil
  then show ?case by auto
next
  case (Cons i "is")
  have iss: "2 \<le> i * ss" using Cons.prems(1,2) mult_le_mono [of 1 i 2 ss] by simp
  define k where "k = i * ss - 2"
  have k: "sub64 (i * ss) 2 = k" using iss by (simp only: sub64_no_wrap k_def)
  have "k + 2 = i * ss" using iss unfolding k_def by linarith
  then have "w64 (k + 2) = k + 2" using Cons.prems(4) by (intro w64_id) simp
  then have step: "usa_loop r ss off seq (i # is) =
      (if length r < k + 2 then Some (r, False) else if le_nat (slice k 2 r) \<noteq> seq then Some (r, False)
       else usa_loop (splice k (slice (off + 2 * i) 2 r) r) ss off seq is)"
    using Cons.prems(2) by (simp add: k Let_def not_less)
  show ?case
  proof (cases "length r < k + 2 \<or> le_nat (slice k 2 r) \<noteq> seq")
    case True
    then show ?thesis unfolding step by auto
  next
    case False
    then have len: "length (splice k (slice (off + 2 * i) 2 r) r) = length r"
      using Cons.prems(2) by (intro length_splice) (auto simp: min_def)
    have "\<exists>r' ok. usa_loop (splice k (slice (off + 2 * i) 2 r) r) ss off seq is = Some (r', ok)
      \<and> length r' = length (splice k (slice (off + 2 * i) 2 r) r)"
      using Cons.prems by (intro Cons.IH) (simp_all add: len)
    then show ?thesis unfolding step using False len by simp
  qed
qed

lemma apply_usa_fixup_total:
  assumes "2 \<le> ss" "length rec < 2 ^ 63"
  shows "\<exists>r ok. apply_usa_fixup rec ss off cnt = Some (r, ok) \<and> length r = length rec"
proof (cases "length rec = 0 \<or> cnt < 2 \<or> length rec div ss < cnt - 1 \<or> length rec < off + 2 * cnt")
  case True
  then show ?thesis using assms(1) by (auto simp: apply_usa_fixup_def)
next
  case False
  have i: "i * ss < 2 ^ 63 \<and> 1 \<le> i \<and> off + 2 * i + 2 \<le> length rec" if "i \<in> set [1..<cnt]" for i
  proof -
    have "i * ss \<le> length rec div ss * ss" using that False by (intro mult_right_mono) auto
    also have "\<dots> \<le> length rec" by simp
    finally show ?thesis using that False assms(2) by auto
  qed
  have "apply_usa_fixup rec ss off cnt = usa_loop rec ss off (le_nat (slice off 2 rec)) [1..<cnt]"
    using False assms(1) by (auto simp: apply_usa_fixup_def)
  then show ?thesis using usa_loop_total [OF assms(1) _ assms(2)] i by simp
qed



section \<open>The USN journal\<close>

lemma parse_usn_record_total: "\<exists>r. parse_usn_record data = Some r"
proof (cases "length data < 60")
  case True
  then show ?thesis by (simp add: parse_usn_record_def)
next
  case False
  define len nl no mj where "len = le_nat (slice 0 4 data)" and "nl = le_nat (slice 56 2 data)"
    and "no = le_nat (slice 58 2 data)" and "mj = le_nat (slice 4 2 data)"
  note folds = len_def [symmetric] nl_def [symmetric] no_def [symmetric] mj_def [symmetric]
  have name: "no + 2 * (nl div 2) \<le> no + nl" by simp
  show ?thesis
  proof (cases "len < 60 \<or> 65536 < len \<or> length data < len \<or> mj \<noteq> 2 \<and> mj \<noteq> 3 \<or> nl = 0 \<or> no < 60 \<or> len < no + nl")
    case True
    then show ?thesis using False by (auto simp: parse_usn_record_def folds Let_def)
  next
    case ok: False
    then have "no + 2 * (nl div 2) \<le> length data" using name by linarith
    then show ?thesis using False ok by (simp add: parse_usn_record_def folds Let_def)
  qed
qed

lemma parse_usn_record_value:
  assumes "parse_usn_record data = Some (Some u)"
  shows "60 \<le> le_nat (slice 0 4 data)" "le_nat (slice 0 4 data) \<le> length data" "utf8_valid (usn_name u)"
proof -
  define len nl no mj where "len = le_nat (slice 0 4 data)" and "nl = le_nat (slice 56 2 data)"
    and "no = le_nat (slice 58 2 data)" and "mj = le_nat (slice 4 2 data)"
  note folds = len_def [symmetric] nl_def [symmetric] no_def [symmetric] mj_def [symmetric]
  have "60 \<le> length data" using assms by (auto simp: parse_usn_record_def split: if_splits)
  note u = assms [unfolded parse_usn_record_def Let_def]
  have "\<not> (len < 60 \<or> 65536 < len)" using u \<open>60 \<le> length data\<close> by (auto simp: folds)
  moreover have "\<not> length data < len" using u \<open>60 \<le> length data\<close> calculation by (auto simp: folds)
  ultimately show "60 \<le> le_nat (slice 0 4 data)" "le_nat (slice 0 4 data) \<le> length data" by (simp_all add: folds)
  have "mj = 2 \<or> mj = 3" using u \<open>60 \<le> length data\<close> \<open>\<not> (len < 60 \<or> 65536 < len)\<close> \<open>\<not> length data < len\<close>
    by (simp add: folds split: if_splits)
  moreover have "no + 2 * (nl div 2) \<le> length data" if "\<not> len < no + nl"
    using that \<open>\<not> length data < len\<close> by linarith
  ultimately show "utf8_valid (usn_name u)"
    using u \<open>60 \<le> length data\<close> \<open>\<not> (len < 60 \<or> 65536 < len)\<close> \<open>\<not> length data < len\<close>
    by (auto simp: folds decoded_name_valid split: if_splits)
qed

text \<open>A record is parsed from its own bytes, whatever follows it.\<close>

lemma parse_usn_record_append:
  assumes "60 \<le> length r" "le_nat (slice 0 4 r) = length r"
  shows "parse_usn_record (r @ rest) = parse_usn_record r"
proof -
  define nl no where "nl = le_nat (slice 56 2 r)" and "no = le_nat (slice 58 2 r)"
  have fields: "slice off n (r @ rest) = slice off n r" if "off + n \<le> 60" for off n
    using that assms(1) by (intro slice_append_left) linarith
  have name: "rd_slice (r @ rest) no (2 * (nl div 2)) = rd_slice r no (2 * (nl div 2))" if "\<not> length r < no + nl"
  proof -
    have "no + 2 * (nl div 2) \<le> length r" using that by linarith
    then show ?thesis by (simp add: slice_append_left)
  qed
  show ?thesis
    unfolding parse_usn_record_def Let_def
    using assms name by (simp add: fields nl_def [symmetric] no_def [symmetric])
qed

text \<open>At \<open>off\<close> the chunk holds a plausible record that logs the deletion of file \<open>x\<close>.\<close>

definition usn_delete_at :: "buf \<Rightarrow> nat \<Rightarrow> nat \<Rightarrow> bool" where
  "usn_delete_at data off x \<longleftrightarrow> off + 64 \<le> length data
     \<and> (case parse_usn_record (drop off data) of
          Some (Some u) \<Rightarrow> usn_reason u AND usn_reason_file_delete \<noteq> 0 \<and> x = usn_ref u AND 0x0000FFFFFFFFFFFF
        | _ \<Rightarrow> False)"

lemma usn_delete_at_shift: "usn_delete_at (drop k data) off x \<Longrightarrow> k \<le> length data \<Longrightarrow> usn_delete_at data (k + off) x"
  unfolding usn_delete_at_def by (simp add: add.commute; linarith)

lemma harvest_usn_total:
  "\<exists>S. harvest_usn data out = Some (out \<union> S) \<and> (\<forall>x \<in> S. \<exists>off. usn_delete_at data off x)"
proof (induction "length data" arbitrary: data out rule: less_induct)
  case less
  have shift: "\<exists>off. usn_delete_at data off x" if "\<exists>off. usn_delete_at (drop k data) off x" "k \<le> length data" for k x
    using that usn_delete_at_shift by blast
  show ?case
  proof (cases "length data < 64")
    case True
    then show ?thesis by (intro exI [of _ "{}"]) (simp add: harvest_usn.simps)
  next
    case False
    obtain r where r: "parse_usn_record data = Some r" using parse_usn_record_total by blast
    show ?thesis
    proof (cases r)
      case None
      then have "harvest_usn data out = harvest_usn (drop 8 data) out"
        using False r by (simp add: harvest_usn.simps [of data])
      moreover have "length (drop 8 data) < length data" using False by (simp; linarith)
      moreover obtain S where "harvest_usn (drop 8 data) out = Some (out \<union> S)" "\<forall>x \<in> S. \<exists>off. usn_delete_at (drop 8 data) off x"
        using less [of "drop 8 data" out] \<open>length (drop 8 data) < length data\<close> by auto
      ultimately show ?thesis using shift [of 8] False by (intro exI [of _ S]) auto
    next
      case (Some u)
      define len where "len = le_nat (take 4 data)"
      define out2 where "out2 = (if usn_reason u AND usn_reason_file_delete \<noteq> 0 then insert (usn_ref u AND 0x0000FFFFFFFFFFFF) out else out)"
      have len: "len \<le> length data"
        using parse_usn_record_value(2) [of data u] r Some by (simp add: len_def slice_def)
      have step: "harvest_usn data out = (if len < 64 then Some out else harvest_usn (drop len data) out2)"
        using False r Some by (subst harvest_usn.simps) (simp add: len_def out2_def Let_def)
      show ?thesis
      proof (cases "len < 64")
        case True
        then show ?thesis by (intro exI [of _ "{}"]) (simp add: step)
      next
        case go: False
        have "length (drop len data) < length data" using False go by (simp; linarith)
        obtain S where S: "harvest_usn (drop len data) out2 = Some (out2 \<union> S)" "\<forall>x \<in> S. \<exists>off. usn_delete_at (drop len data) off x"
          using less [of "drop len data" out2] \<open>length (drop len data) < length data\<close> by auto
        have here: "usn_delete_at data 0 (usn_ref u AND 0x0000FFFFFFFFFFFF)" if "usn_reason u AND usn_reason_file_delete \<noteq> 0"
          using that False r Some by (simp add: usn_delete_at_def)
        show ?thesis
        proof (cases "usn_reason u AND usn_reason_file_delete \<noteq> 0")
          case True
          then show ?thesis
            using go S shift [OF _ len] here by (intro exI [of _ "insert (usn_ref u AND 0x0000FFFFFFFFFFFF) S"]) (auto simp: step out2_def)
        next
          case False
          then show ?thesis using go S shift [OF _ len] by (intro exI [of _ S]) (auto simp: step out2_def)
        qed
      qed
    qed
  qed
qed

definition usn_wf :: "buf \<Rightarrow> bool" where
  "usn_wf r \<longleftrightarrow> 64 \<le> length r \<and> le_nat (slice 0 4 r) = length r \<and> (\<exists>u. parse_usn_record r = Some (Some u))"

definition journal_deletes :: "buf list \<Rightarrow> nat set" where
  "journal_deletes rs = {x. \<exists>r \<in> set rs. usn_delete_at r 0 x}"

lemma harvest_usn_record:
  assumes "usn_wf r"
  shows "harvest_usn (r @ rest) out = harvest_usn rest (out \<union> {x. usn_delete_at r 0 x})"
proof -
  obtain u where u: "parse_usn_record r = Some (Some u)" and r: "64 \<le> length r" "le_nat (slice 0 4 r) = length r"
    using assms by (auto simp: usn_wf_def)
  have "parse_usn_record (r @ rest) = Some (Some u)" using parse_usn_record_append [of r rest] u r by simp
  moreover have "le_nat (take 4 (r @ rest)) = length r" using r by (simp add: slice_def)
  moreover have "{x. usn_delete_at r 0 x} =
      (if usn_reason u AND usn_reason_file_delete \<noteq> 0 then {usn_ref u AND 0x0000FFFFFFFFFFFF} else {})"
    using u r(1) by (auto simp: usn_delete_at_def)
  ultimately show ?thesis using r(1) by (subst harvest_usn.simps) (auto simp: Let_def)
qed

lemma harvest_usn_journal:
  "list_all usn_wf rs \<Longrightarrow> harvest_usn (concat rs) out = Some (out \<union> journal_deletes rs)"
proof (induction rs arbitrary: out)
  case Nil
  then show ?case by (simp add: harvest_usn.simps journal_deletes_def)
next
  case (Cons r rs)
  have "journal_deletes (r # rs) = {x. usn_delete_at r 0 x} \<union> journal_deletes rs"
    by (auto simp: journal_deletes_def)
  then show ?case using Cons by (simp add: harvest_usn_record Un_assoc)
qed


text \<open>A version-2 record of 64 bytes for file 5 with the flag 0x2.\<close>

definition demo_usn :: buf where
  "demo_usn = [64, 0, 0, 0, 2, 0, 0, 0, 5] @ replicate 31 0 @ [2] @ replicate 15 0 @ [2, 0, 60, 0, 65, 0, 0, 0]"

lemma demo_usn_wf: "usn_wf demo_usn"
proof -
  have fields: "length demo_usn = 64" "le_nat (slice 0 4 demo_usn) = 64" "le_nat (slice 4 2 demo_usn) = 2"
    "le_nat (slice 56 2 demo_usn) = 2" "le_nat (slice 58 2 demo_usn) = 60"
    by (simp_all add: demo_usn_def slice_def)
  have "\<exists>u. parse_usn_record demo_usn = Some (Some u)"
    unfolding parse_usn_record_def Let_def by (simp add: fields)
  then show ?thesis using fields by (simp add: usn_wf_def)
qed


end
