(* ===== verification/Dedup_Index.thy ===== *)
theory Dedup_Index
  imports File_Record "HOL-Library.Multiset"
begin

text \<open>
  Duplicate detection between metadata records and carved files (scan/dedup\_index.cpp): two
  indexes, each a base sorted by start sector with the running maximum of end sectors and an
  unsorted pending tail.  \<open>std::sort\<close> is not stable, so the order it gives equal keys is a
  parameter \<open>srt\<close> of the operations, of which the laws state only that it sorts.
  \<open>std::inplace_merge\<close> requires sorted ranges and \<open>None\<close> is its undefined behaviour on
  others.  Indices fit \<open>int\<close>: an index of 2^31 entries does not fit in memory.
\<close>

record dedup_entry =
  en_start :: nat
  en_end :: nat
  en_size :: nat
  en_conf :: int
  en_path :: string
  en_name :: string

record dedup =
  dx_sorted :: bool
  dx_carve_sorted :: bool
  dx_meta :: "dedup_entry list"
  dx_carve :: "dedup_entry list"
  dx_meta_max :: "nat list"
  dx_carve_max :: "nat list"
  dx_meta_pending :: "dedup_entry list"
  dx_carve_pending :: "dedup_entry list"
  dx_hashes :: "string \<rightharpoonup> nat"

type_synonym sorter = "dedup_entry list \<Rightarrow> dedup_entry list"

definition merge_threshold :: nat where "merge_threshold = 1024"
definition max_window_scan :: nat where "max_window_scan = 65536"
definition edge_probe :: nat where "edge_probe = 1024"

definition new_dedup :: dedup where
  "new_dedup = \<lparr>dx_sorted = True, dx_carve_sorted = True, dx_meta = [], dx_carve = [], dx_meta_max = [],
     dx_carve_max = [], dx_meta_pending = [], dx_carve_pending = [], dx_hashes = Map.empty\<rparr>"

text \<open>\<open>clear\<close> keeps the content hashes.\<close>

definition dedup_clear :: "dedup \<Rightarrow> dedup" where
  "dedup_clear d = d\<lparr>dx_meta := [], dx_carve := [], dx_meta_pending := [], dx_carve_pending := [],
     dx_meta_max := [], dx_carve_max := [], dx_sorted := True, dx_carve_sorted := True\<rparr>"

section \<open>Sources and overlap\<close>

definition is_carve_source :: "string \<Rightarrow> bool" where
  "is_carve_source s \<longleftrightarrow> s = ''carver'' \<or> s = ''carver_bgc''"

definition is_metadata_source :: "string \<Rightarrow> bool" where
  "is_metadata_source s =
     (if s = [] then False
      else if is_carve_source s \<or> s = ''carver_duplicate'' then False
      else if s \<in> {''usn_journal'', ''usn_unread'', ''ntfs_logfile'', ''ntfs_logfile_restart'',
          ''ntfs_logfile_unread'', ''ntfs_mft_unread'', ''probe_unread'', ''xfs_sb_unread'',
          ''hfs_catalog_unread'', ''hfs_linear_unread'', ''apfs_nxsb_unread'', ''apfs_block_unread'',
          ''apfs_linear_unread'', ''refs_supb_unread'', ''refs_page_unread'', ''xfs_inode_unread'',
          ''xfs_bmap_unread'', ''carver_unread''} then False
      else True)"

definition sectors_overlap :: "nat \<Rightarrow> nat \<Rightarrow> nat \<Rightarrow> nat \<Rightarrow> bool" where
  "sectors_overlap a_start a_end b_start b_end =
     (let ae = (if a_end < a_start then a_start else a_end); be = (if b_end < b_start then b_start else b_end)
      in a_start \<le> be \<and> b_start \<le> ae)"

definition overlap_sector_count :: "nat \<Rightarrow> nat \<Rightarrow> nat \<Rightarrow> nat \<Rightarrow> nat" where
  "overlap_sector_count a_start a_end b_start b_end =
     (if \<not> sectors_overlap a_start a_end b_start b_end then 0
      else let st = max a_start b_start; en = min a_end b_end
           in if st \<le> en then w64 (en - st + 1) else 0)"

definition entry_of :: "file_record \<Rightarrow> dedup_entry" where
  "entry_of fr = \<lparr>en_start = fr_start fr, en_end = (if 0 < fr_end fr then fr_end fr else fr_start fr),
     en_size = fr_size fr, en_conf = fr_confidence fr, en_path = fr_path fr, en_name = fr_name fr\<rparr>"

section \<open>Merging the pending tails\<close>

fun merge_starts :: "dedup_entry list \<Rightarrow> dedup_entry list \<Rightarrow> dedup_entry list" where
  "merge_starts [] ys = ys"
| "merge_starts xs [] = xs"
| "merge_starts (x # xs) (y # ys) =
     (if en_start y < en_start x then y # merge_starts (x # xs) ys else x # merge_starts xs (y # ys))"

fun prefix_max :: "nat \<Rightarrow> dedup_entry list \<Rightarrow> nat list" where
  "prefix_max running [] = []"
| "prefix_max running (e # es) = max running (en_end e) # prefix_max (max running (en_end e)) es"

definition merge_sorted ::
  "sorter \<Rightarrow> dedup_entry list \<Rightarrow> nat list \<Rightarrow> dedup_entry list \<Rightarrow> (dedup_entry list \<times> nat list) option" where
  "merge_sorted srt base maxs pending =
     (if pending = [] then Some (base, maxs)
      else let tail = srt pending
           in if base = [] then Some (tail, prefix_max 0 tail)
              else if \<not> sorted (map en_start base) then None
              else let merged = merge_starts base tail in Some (merged, prefix_max 0 merged))"

definition merge_meta_pending :: "sorter \<Rightarrow> dedup \<Rightarrow> dedup option" where
  "merge_meta_pending srt d =
     (if dx_meta_pending d = [] then Some (d\<lparr>dx_sorted := True\<rparr>)
      else do {
        (base, maxs) \<leftarrow> merge_sorted srt (dx_meta d) (dx_meta_max d) (dx_meta_pending d);
        Some (d\<lparr>dx_meta := base, dx_meta_max := maxs, dx_meta_pending := [], dx_sorted := True\<rparr>)
      })"

definition merge_carve_pending :: "sorter \<Rightarrow> dedup \<Rightarrow> dedup option" where
  "merge_carve_pending srt d =
     (if dx_carve_pending d = [] then Some (d\<lparr>dx_carve_sorted := True\<rparr>)
      else do {
        (base, maxs) \<leftarrow> merge_sorted srt (dx_carve d) (dx_carve_max d) (dx_carve_pending d);
        Some (d\<lparr>dx_carve := base, dx_carve_max := maxs, dx_carve_pending := [], dx_carve_sorted := True\<rparr>)
      })"

definition ensure_sorted :: "sorter \<Rightarrow> dedup \<Rightarrow> dedup option" where
  "ensure_sorted srt d = (if \<not> dx_sorted d then merge_meta_pending srt d else Some d)"

definition ensure_carve_sorted :: "sorter \<Rightarrow> dedup \<Rightarrow> dedup option" where
  "ensure_carve_sorted srt d = (if \<not> dx_carve_sorted d then merge_carve_pending srt d else Some d)"

definition dedup_observe :: "sorter \<Rightarrow> dedup \<Rightarrow> file_record \<Rightarrow> dedup option" where
  "dedup_observe srt d fr =
     (if \<not> is_metadata_source (fr_source fr) then Some d
      else if fr_start fr = 0 \<and> fr_end fr = 0 \<and> fr_size fr = 0 then Some d
      else let d1 = d\<lparr>dx_meta_pending := dx_meta_pending d @ [entry_of fr]\<rparr>
           in if merge_threshold \<le> length (dx_meta_pending d1) then merge_meta_pending srt d1 else Some d1)"

text \<open>\<open>emplace\<close> keeps the value of a key that is present.\<close>

definition emplace_hash :: "file_record \<Rightarrow> dedup \<Rightarrow> dedup" where
  "emplace_hash fr d =
     (if fr_hash fr = [] then d
      else case dx_hashes d (fr_hash fr) of
        Some _ \<Rightarrow> d
      | None \<Rightarrow> d\<lparr>dx_hashes := (dx_hashes d)(fr_hash fr \<mapsto> fr_size fr)\<rparr>)"

fun load_loop :: "sorter \<Rightarrow> dedup \<Rightarrow> file_record list \<Rightarrow> dedup option" where
  "load_loop srt d [] = Some d"
| "load_loop srt d (fr # frs) =
     (if is_carve_source (fr_source fr)
      then load_loop srt (emplace_hash fr (d\<lparr>dx_carve := dx_carve d @ [entry_of fr], dx_carve_sorted := False\<rparr>)) frs
      else do { d1 \<leftarrow> dedup_observe srt d fr; load_loop srt d1 frs })"

definition load_from_records :: "sorter \<Rightarrow> dedup \<Rightarrow> file_record list \<Rightarrow> dedup option" where
  "load_from_records srt d frs = do {
     d1 \<leftarrow> load_loop srt d frs;
     d2 \<leftarrow> merge_meta_pending srt d1;
     merge_carve_pending srt d2
   }"

section \<open>findOverlap\<close>

definition overlap_hit :: "nat \<Rightarrow> nat \<Rightarrow> nat \<Rightarrow> dedup_entry \<Rightarrow> bool" where
  "overlap_hit q_start q_end span e =
     (if en_end e < q_start then False
      else if \<not> sectors_overlap (en_start e) (en_end e) q_start q_end then False
      else let overlap = overlap_sector_count (en_start e) (en_end e) q_start q_end;
               prior = (if en_start e \<le> en_end e then w64 (en_end e - en_start e + 1) else 1);
               min_span = max 1 (min span prior)
           in min_span \<le> w64 (overlap * 2))"

definition find_overlap ::
  "dedup_entry list \<Rightarrow> nat list \<Rightarrow> nat \<Rightarrow> nat \<Rightarrow> nat \<Rightarrow> dedup_entry list \<Rightarrow> dedup_entry option" where
  "find_overlap es maxs q_start q_end span pending =
     (case find (overlap_hit q_start q_end span) pending of
        Some e \<Rightarrow> Some e
      | None \<Rightarrow>
          if es = [] \<or> length maxs \<noteq> length es then None
          else
            let upper = length (takeWhile (\<lambda>e. en_start e \<le> q_end) es)
            in if upper = 0 then None
               else let hi = upper - 1
                    in if maxs ! hi < q_start then None
                       else
                         let j0 = length (takeWhile (\<lambda>m. m < q_start) (take (hi + 1) maxs));
                             window_start = max j0 (hi - max_window_scan);
                             edge_end = min hi (j0 + edge_probe - 1)
                         in case find (\<lambda>i. overlap_hit q_start q_end span (es ! i)) [j0..<edge_end + 1] of
                              Some i \<Rightarrow> Some (es ! i)
                            | None \<Rightarrow> map_option ((!) es)
                                (find (\<lambda>i. overlap_hit q_start q_end span (es ! i)) (rev [window_start..<hi + 1])))"

definition query_end :: "file_record \<Rightarrow> nat" where
  "query_end fr = (if 0 < fr_end fr then fr_end fr else fr_start fr)"

definition query_span :: "file_record \<Rightarrow> nat" where
  "query_span fr = (if fr_start fr \<le> query_end fr then w64 (query_end fr - fr_start fr + 1) else 1)"

definition overlaps_existing_carve :: "sorter \<Rightarrow> dedup \<Rightarrow> file_record \<Rightarrow> (dedup \<times> bool) option" where
  "overlaps_existing_carve srt d fr = do {
     d1 \<leftarrow> ensure_carve_sorted srt d;
     Some (d1, find_overlap (dx_carve d1) (dx_carve_max d1) (fr_start fr) (query_end fr) (query_span fr)
                 (dx_carve_pending d1) \<noteq> None)
   }"

section \<open>markDuplicate\<close>

definition as_duplicate :: "string \<Rightarrow> int \<Rightarrow> file_record \<Rightarrow> file_record" where
  "as_duplicate path cap fr = fr\<lparr>fr_source := ''carver_duplicate'', fr_path := path, fr_confidence := min (fr_confidence fr) cap\<rparr>"

definition content_match :: "dedup \<Rightarrow> file_record \<Rightarrow> bool" where
  "content_match d fr \<longleftrightarrow> fr_hash fr \<noteq> [] \<and> dx_hashes d (fr_hash fr) = Some (fr_size fr)"

text \<open>The new index, the record (changed when it is a duplicate) and the result.\<close>

definition mark_duplicate :: "sorter \<Rightarrow> dedup \<Rightarrow> file_record \<Rightarrow> (dedup \<times> file_record \<times> bool) option" where
  "mark_duplicate srt d fr =
     (if \<not> is_carve_source (fr_source fr) then Some (d, fr, False)
      else do {
        d1 \<leftarrow> (if merge_threshold \<le> length (dx_carve_pending d) then merge_carve_pending srt d else Some d);
        d2 \<leftarrow> (if merge_threshold \<le> length (dx_meta_pending d1) then merge_meta_pending srt d1 else Some d1);
        if content_match d2 fr then Some (d2, as_duplicate ''/dup_of/content'' 30 fr, True)
        else do {
          (d3, carve) \<leftarrow> overlaps_existing_carve srt d2 fr;
          if carve then Some (d3, as_duplicate ''/dup_of/carve'' 30 fr, True)
          else case find_overlap (dx_meta d3) (dx_meta_max d3) (fr_start fr) (query_end fr) (query_span fr) (dx_meta_pending d3) of
            Some e \<Rightarrow> Some (d3, as_duplicate (''/dup_of'' @ (if en_path e = [] then en_name e else en_path e)) 35 fr, True)
          | None \<Rightarrow>
              let d4 = emplace_hash fr (d3\<lparr>dx_carve_pending := dx_carve_pending d3 @ [entry_of fr]\<rparr>)
              in do {
                d5 \<leftarrow> (if merge_threshold \<le> length (dx_carve_pending d4) then merge_carve_pending srt d4 else Some d4);
                Some (d5, fr, False)
              }
        }
      })"

section \<open>Merging keeps the entries and the order\<close>

definition sorts :: "sorter \<Rightarrow> bool" where
  "sorts srt \<longleftrightarrow> (\<forall>xs. mset (srt xs) = mset xs \<and> sorted (map en_start (srt xs)))"

lemma sorts_sort_key: "sorts (sort_key en_start)"
  by (simp add: sorts_def)

lemma mset_merge_starts [simp]: "mset (merge_starts xs ys) = mset xs + mset ys"
  by (induction xs ys rule: merge_starts.induct) simp_all

lemma set_merge_starts [simp]: "set (merge_starts xs ys) = set xs \<union> set ys"
  by (metis mset_merge_starts set_mset_mset set_mset_union)

lemma sorted_merge_starts:
  "sorted (map en_start xs) \<Longrightarrow> sorted (map en_start ys) \<Longrightarrow> sorted (map en_start (merge_starts xs ys))"
  by (induction xs ys rule: merge_starts.induct) (auto simp: less_imp_le le_less_trans)

definition base_ok :: "dedup_entry list \<Rightarrow> nat list \<Rightarrow> bool" where
  "base_ok es maxs \<longleftrightarrow> sorted (map en_start es) \<and> maxs = prefix_max 0 es"

lemma base_ok_Nil [simp]: "base_ok [] []"
  by (simp add: base_ok_def)

lemma merge_sorted_ok:
  assumes "sorts srt" "base_ok base maxs"
  shows "\<exists>b m. merge_sorted srt base maxs p = Some (b, m) \<and> base_ok b m \<and> mset b = mset base + mset p"
  using assms by (auto simp: merge_sorted_def base_ok_def sorts_def Let_def sorted_merge_starts)

section \<open>The windowed search finds what a linear search finds\<close>

lemma length_prefix_max [simp]: "length (prefix_max r es) = length es"
  by (induction r es rule: prefix_max.induct) simp_all

lemma prefix_max_ge: "i < length es \<Longrightarrow> r \<le> prefix_max r es ! i \<and> en_end (es ! i) \<le> prefix_max r es ! i"
proof (induction r es arbitrary: i rule: prefix_max.induct)
  case (2 r e es)
  then show ?case by (cases i) (auto intro: order_trans [OF max.cobounded1])
qed simp

lemma sorted_prefix_max: "sorted (prefix_max r es)"
proof (induction r es rule: prefix_max.induct)
  case (2 r e es)
  have "max r (en_end e) \<le> x" if "x \<in> set (prefix_max (max r (en_end e)) es)" for x
    using that prefix_max_ge [of _ es "max r (en_end e)"] by (auto simp: in_set_conv_nth)
  then show ?case using 2 by (simp only: prefix_max.simps sorted_simps) blast
qed simp

lemma takeWhile_bound: "sorted (map f xs) \<Longrightarrow> i < length xs \<Longrightarrow> f (xs ! i) \<le> (b :: nat) \<Longrightarrow>
    i < length (takeWhile (\<lambda>x. f x \<le> b) xs)"
proof (induction xs arbitrary: i)
  case (Cons x xs)
  show ?case
  proof (cases i)
    case 0
    then show ?thesis using Cons.prems by simp
  next
    case (Suc k)
    then have "f x \<le> f (xs ! k)" "f (xs ! k) \<le> b" "k < length xs" using Cons.prems by auto
    moreover from this have "k < length (takeWhile (\<lambda>x. f x \<le> b) xs)" using Cons by simp
    ultimately show ?thesis using Suc by simp
  qed
qed simp

lemma takeWhile_start: "sorted xs \<Longrightarrow> i < length xs \<Longrightarrow> (a :: nat) \<le> xs ! i \<Longrightarrow>
    length (takeWhile (\<lambda>x. x < a) xs) \<le> i"
proof (induction xs arbitrary: i)
  case (Cons x xs)
  then show ?case by (cases i) auto
qed simp

lemma overlap_hit_range:
  "overlap_hit q_start q_end span e \<Longrightarrow> q_start \<le> q_end \<Longrightarrow> en_start e \<le> q_end \<and> q_start \<le> en_end e"
  by (auto simp: overlap_hit_def sectors_overlap_def Let_def split: if_splits)

lemma find_Some_iff: "(\<exists>x. find P xs = Some x) \<longleftrightarrow> (\<exists>x \<in> set xs. P x)"
  by (induction xs) auto

lemma find_Some_sound: "find P xs = Some x \<Longrightarrow> x \<in> set xs \<and> P x"
  by (induction xs) (auto split: if_splits)

text \<open>The indices the search visits, in its order.\<close>

definition visited :: "dedup_entry list \<Rightarrow> nat list \<Rightarrow> nat \<Rightarrow> nat \<Rightarrow> nat list" where
  "visited es maxs q_start q_end =
     (let upper = length (takeWhile (\<lambda>e. en_start e \<le> q_end) es); hi = upper - 1;
          j0 = length (takeWhile (\<lambda>m. m < q_start) (take (hi + 1) maxs))
      in if es = [] \<or> length maxs \<noteq> length es \<or> upper = 0 \<or> maxs ! hi < q_start then []
         else [j0..<min hi (j0 + edge_probe - 1) + 1] @ rev [max j0 (hi - max_window_scan)..<hi + 1])"

lemma find_append: "find P (xs @ ys) = (case find P xs of Some x \<Rightarrow> Some x | None \<Rightarrow> find P ys)"
  by (induction xs) auto

lemma find_overlap_visits:
  "find_overlap es maxs q_start q_end span pending =
    (case find (overlap_hit q_start q_end span) pending of
       Some e \<Rightarrow> Some e
     | None \<Rightarrow> map_option ((!) es) (find (\<lambda>i. overlap_hit q_start q_end span (es ! i)) (visited es maxs q_start q_end)))"
proof -
  define upper where "upper = length (takeWhile (\<lambda>e. en_start e \<le> q_end) es)"
  define hi where "hi = upper - 1"
  define near where "near = [length (takeWhile (\<lambda>m. m < q_start) (take (hi + 1) maxs))..<min hi (length (takeWhile (\<lambda>m. m < q_start) (take (hi + 1) maxs)) + edge_probe - 1) + 1]"
  define far where "far = rev [max (length (takeWhile (\<lambda>m. m < q_start) (take (hi + 1) maxs))) (hi - max_window_scan)..<hi + 1]"
  note folds = upper_def [symmetric] hi_def [symmetric] near_def [symmetric] far_def [symmetric]
  have v: "visited es maxs q_start q_end = (if es = [] \<or> length maxs \<noteq> length es \<or> upper = 0 \<or> maxs ! hi < q_start then [] else near @ far)"
    unfolding visited_def Let_def folds by (rule refl)
  show ?thesis
    unfolding find_overlap_def Let_def folds v
    by (cases "find (overlap_hit q_start q_end span) pending"; cases "find (\<lambda>i. overlap_hit q_start q_end span (es ! i)) near")
      (simp_all add: find_append)
qed

lemma visited_less:
  assumes "i \<in> set (visited es maxs q_start q_end)"
  shows "i < length es"
proof -
  define upper where "upper = length (takeWhile (\<lambda>e. en_start e \<le> q_end) es)"
  define j0 where "j0 = length (takeWhile (\<lambda>m. m < q_start) (take (upper - 1 + 1) maxs))"
  have "upper \<le> length es" unfolding upper_def by (rule length_takeWhile_le)
  moreover have "upper \<noteq> 0 \<and> i \<le> upper - 1"
    using assms unfolding visited_def Let_def upper_def [symmetric] j0_def [symmetric]
    by (auto simp del: upt_Suc split: if_splits)
  ultimately show ?thesis by linarith
qed

lemma find_overlap_sound:
  assumes "find_overlap es maxs q_start q_end span pending = Some e"
  shows "e \<in> set pending \<union> set es \<and> overlap_hit q_start q_end span e"
  using assms by (auto simp: find_overlap_visits split: option.splits dest!: find_Some_sound dest: visited_less)

lemma visited_hit:
  assumes "base_ok es maxs" "q_start \<le> q_end" "length es \<le> max_window_scan + 1"
    and "i < length es" "overlap_hit q_start q_end span (es ! i)"
  shows "i \<in> set (visited es maxs q_start q_end)"
proof -
  define upper where "upper = length (takeWhile (\<lambda>e. en_start e \<le> q_end) es)"
  define hi where "hi = upper - 1"
  define j0 where "j0 = length (takeWhile (\<lambda>m. m < q_start) (take (hi + 1) maxs))"
  have maxs: "maxs = prefix_max 0 es" "sorted maxs" and es: "sorted (map en_start es)"
    using assms(1) by (simp_all add: base_ok_def sorted_prefix_max)
  have hit: "en_start (es ! i) \<le> q_end" "q_start \<le> en_end (es ! i)"
    using overlap_hit_range [OF assms(5,2)] by simp_all
  have "i < upper" unfolding upper_def using takeWhile_bound [OF es assms(4) hit(1)] .
  then have i: "i \<le> hi" "0 < upper" by (simp_all add: hi_def)
  have "upper \<le> length es" unfolding upper_def by (rule length_takeWhile_le)
  then have hi: "hi < length es" using i(2) by (simp add: hi_def)
  have reach: "q_start \<le> maxs ! i"
    using prefix_max_ge [OF assms(4), of 0] hit(2) by (simp add: maxs(1))
  also have "\<dots> \<le> maxs ! hi" using maxs i(1) hi by (simp add: sorted_iff_nth_mono)
  finally have "\<not> maxs ! hi < q_start" by simp
  moreover have "j0 \<le> i"
    unfolding j0_def using maxs(2) i(1) hi reach
    by (intro takeWhile_start) (simp_all add: maxs(1) sorted_wrt_take min_def)
  moreover have "hi - max_window_scan = 0" using hi assms(3) by simp
  ultimately show ?thesis
    unfolding visited_def upper_def [symmetric] Let_def hi_def [symmetric] j0_def [symmetric]
    using i assms(4) by (auto simp: maxs(1) simp del: upt_Suc)
qed

lemma window_search_is_linear_search:
  assumes "base_ok es maxs" "q_start \<le> q_end" "length es \<le> max_window_scan + 1"
  shows "find_overlap es maxs q_start q_end span pending \<noteq> None \<longleftrightarrow>
    (\<exists>e \<in> set pending \<union> set es. overlap_hit q_start q_end span e)"
proof
  assume "find_overlap es maxs q_start q_end span pending \<noteq> None"
  then show "\<exists>e \<in> set pending \<union> set es. overlap_hit q_start q_end span e"
    using find_overlap_sound by blast
next
  assume "\<exists>e \<in> set pending \<union> set es. overlap_hit q_start q_end span e"
  then consider e where "e \<in> set pending" "overlap_hit q_start q_end span e"
    | i where "i < length es" "overlap_hit q_start q_end span (es ! i)"
    by (auto simp: in_set_conv_nth)
  then show "find_overlap es maxs q_start q_end span pending \<noteq> None"
  proof cases
    case 1
    then have "find (overlap_hit q_start q_end span) pending \<noteq> None" using find_Some_iff by force
    then show ?thesis by (auto simp: find_overlap_visits)
  next
    case 2
    then have "i \<in> set (visited es maxs q_start q_end)" using visited_hit [OF assms] by blast
    then have "find (\<lambda>i. overlap_hit q_start q_end span (es ! i)) (visited es maxs q_start q_end) \<noteq> None"
      using 2(2) find_Some_iff by force
    then show ?thesis by (auto simp: find_overlap_visits split: option.split)
  qed
qed

section \<open>The index as a multiset of entries\<close>

definition dedup_inv :: "dedup \<Rightarrow> bool" where
  "dedup_inv d \<longleftrightarrow> dx_sorted d \<and> dx_carve_sorted d \<and> base_ok (dx_meta d) (dx_meta_max d)
     \<and> base_ok (dx_carve d) (dx_carve_max d)
     \<and> length (dx_meta_pending d) < merge_threshold \<and> length (dx_carve_pending d) < merge_threshold"

definition metas :: "dedup \<Rightarrow> dedup_entry multiset" where
  "metas d = mset (dx_meta d) + mset (dx_meta_pending d)"

definition carves :: "dedup \<Rightarrow> dedup_entry multiset" where
  "carves d = mset (dx_carve d) + mset (dx_carve_pending d)"

lemma dedup_inv_new: "dedup_inv new_dedup" "metas new_dedup = {#}" "carves new_dedup = {#}"
  by (simp_all add: dedup_inv_def new_dedup_def merge_threshold_def metas_def carves_def)

lemma dedup_inv_clear: "dedup_inv (dedup_clear d)" "metas (dedup_clear d) = {#}" "carves (dedup_clear d) = {#}"
  by (simp_all add: dedup_inv_def dedup_clear_def merge_threshold_def metas_def carves_def)

text \<open>A merge changes the split between base and tail, not the entries.\<close>

lemma merge_meta_ok:
  assumes "sorts srt" "base_ok (dx_meta d) (dx_meta_max d)"
  shows "\<exists>d'. merge_meta_pending srt d = Some d' \<and> base_ok (dx_meta d') (dx_meta_max d')
    \<and> dx_sorted d' \<and> dx_meta_pending d' = [] \<and> metas d' = metas d \<and> carves d' = carves d
    \<and> dx_carve d' = dx_carve d \<and> dx_carve_max d' = dx_carve_max d \<and> dx_carve_pending d' = dx_carve_pending d
    \<and> dx_carve_sorted d' = dx_carve_sorted d \<and> dx_hashes d' = dx_hashes d"
proof (cases "dx_meta_pending d = []")
  case True
  then show ?thesis using assms(2) by (simp add: merge_meta_pending_def metas_def carves_def)
next
  case False
  obtain b m where "merge_sorted srt (dx_meta d) (dx_meta_max d) (dx_meta_pending d) = Some (b, m)" "base_ok b m"
    "mset b = mset (dx_meta d) + mset (dx_meta_pending d)"
    using merge_sorted_ok [OF assms] by blast
  then show ?thesis using False by (simp add: merge_meta_pending_def metas_def carves_def)
qed

lemma merge_carve_ok:
  assumes "sorts srt" "base_ok (dx_carve d) (dx_carve_max d)"
  shows "\<exists>d'. merge_carve_pending srt d = Some d' \<and> base_ok (dx_carve d') (dx_carve_max d')
    \<and> dx_carve_sorted d' \<and> dx_carve_pending d' = [] \<and> metas d' = metas d \<and> carves d' = carves d
    \<and> dx_meta d' = dx_meta d \<and> dx_meta_max d' = dx_meta_max d \<and> dx_meta_pending d' = dx_meta_pending d
    \<and> dx_sorted d' = dx_sorted d \<and> dx_hashes d' = dx_hashes d"
proof (cases "dx_carve_pending d = []")
  case True
  then show ?thesis using assms(2) by (simp add: merge_carve_pending_def metas_def carves_def)
next
  case False
  obtain b m where "merge_sorted srt (dx_carve d) (dx_carve_max d) (dx_carve_pending d) = Some (b, m)" "base_ok b m"
    "mset b = mset (dx_carve d) + mset (dx_carve_pending d)"
    using merge_sorted_ok [OF assms] by blast
  then show ?thesis using False by (simp add: merge_carve_pending_def metas_def carves_def)
qed

lemma observe_refines:
  assumes "sorts srt" "dedup_inv d"
  shows "\<exists>d'. dedup_observe srt d fr = Some d' \<and> dedup_inv d' \<and> carves d' = carves d \<and> dx_hashes d' = dx_hashes d
    \<and> metas d' = metas d + (if is_metadata_source (fr_source fr) \<and> (fr_start fr \<noteq> 0 \<or> fr_end fr \<noteq> 0 \<or> fr_size fr \<noteq> 0)
                            then {#entry_of fr#} else {#})"
proof (cases "is_metadata_source (fr_source fr) \<and> (fr_start fr \<noteq> 0 \<or> fr_end fr \<noteq> 0 \<or> fr_size fr \<noteq> 0)")
  case False
  then show ?thesis using assms(2) by (auto simp: dedup_observe_def)
next
  case True
  define d1 where "d1 = d\<lparr>dx_meta_pending := dx_meta_pending d @ [entry_of fr]\<rparr>"
  have d1: "metas d1 = metas d + {#entry_of fr#}" "carves d1 = carves d" "dx_hashes d1 = dx_hashes d"
    "base_ok (dx_meta d1) (dx_meta_max d1)"
    using assms(2) by (simp_all add: d1_def metas_def carves_def dedup_inv_def)
  have obs: "dedup_observe srt d fr = (if merge_threshold \<le> length (dx_meta_pending d1) then merge_meta_pending srt d1 else Some d1)"
    using True by (auto simp: dedup_observe_def d1_def Let_def)
  show ?thesis
  proof (cases "merge_threshold \<le> length (dx_meta_pending d1)")
    case full: True
    obtain d' where "merge_meta_pending srt d1 = Some d'" "base_ok (dx_meta d') (dx_meta_max d')" "dx_sorted d'"
      "dx_meta_pending d' = []" "metas d' = metas d1" "carves d' = carves d1" "dx_carve d' = dx_carve d1"
      "dx_carve_max d' = dx_carve_max d1" "dx_carve_pending d' = dx_carve_pending d1"
      "dx_carve_sorted d' = dx_carve_sorted d1" "dx_hashes d' = dx_hashes d1"
      using merge_meta_ok [OF assms(1) d1(4)] by blast
    then show ?thesis using full True assms(2) d1 by (simp add: obs dedup_inv_def d1_def merge_threshold_def)
  next
    case tail: False
    then have "dedup_inv d1" using assms(2) by (simp add: dedup_inv_def d1_def)
    then show ?thesis using tail True d1 by (simp add: obs)
  qed
qed

section \<open>markDuplicate against its specification\<close>

definition overlaps_any :: "dedup_entry multiset \<Rightarrow> file_record \<Rightarrow> bool" where
  "overlaps_any es fr \<longleftrightarrow> (\<exists>e \<in># es. overlap_hit (fr_start fr) (query_end fr) (query_span fr) e)"

lemma find_overlap_any:
  assumes "base_ok es maxs" "fr_start fr \<le> query_end fr" "length es \<le> max_window_scan + 1"
  shows "find_overlap es maxs (fr_start fr) (query_end fr) (query_span fr) pending \<noteq> None \<longleftrightarrow>
    overlaps_any (mset es + mset pending) fr"
  using window_search_is_linear_search [OF assms, of "query_span fr" pending]
  by (auto simp: overlaps_any_def)

lemma emplace_hash_simps [simp]:
  "dx_sorted (emplace_hash fr d) = dx_sorted d" "dx_carve_sorted (emplace_hash fr d) = dx_carve_sorted d"
  "dx_meta (emplace_hash fr d) = dx_meta d" "dx_carve (emplace_hash fr d) = dx_carve d"
  "dx_meta_max (emplace_hash fr d) = dx_meta_max d" "dx_carve_max (emplace_hash fr d) = dx_carve_max d"
  "dx_meta_pending (emplace_hash fr d) = dx_meta_pending d"
  "dx_carve_pending (emplace_hash fr d) = dx_carve_pending d"
  by (simp_all add: emplace_hash_def split: option.split)

definition is_duplicate_of :: "dedup \<Rightarrow> file_record \<Rightarrow> bool" where
  "is_duplicate_of d fr \<longleftrightarrow> is_carve_source (fr_source fr)
     \<and> (content_match d fr \<or> overlaps_any (carves d) fr \<or> overlaps_any (metas d) fr)"

lemma mark_duplicate_unfolds:
  assumes "dedup_inv d" "is_carve_source (fr_source fr)" "fr_start fr \<le> query_end fr"
    and "size (carves d) \<le> max_window_scan + 1" "size (metas d) \<le> max_window_scan + 1"
  shows "if is_duplicate_of d fr then \<exists>path cap. mark_duplicate srt d fr = Some (d, as_duplicate path cap fr, True)
    else mark_duplicate srt d fr =
      (let d4 = emplace_hash fr (d\<lparr>dx_carve_pending := dx_carve_pending d @ [entry_of fr]\<rparr>)
       in do { d5 \<leftarrow> (if merge_threshold \<le> length (dx_carve_pending d4) then merge_carve_pending srt d4 else Some d4);
               Some (d5, fr, False) })"
proof -
  have small: "\<not> merge_threshold \<le> length (dx_carve_pending d)" "\<not> merge_threshold \<le> length (dx_meta_pending d)"
    "ensure_carve_sorted srt d = Some d"
    using assms(1) by (simp_all add: dedup_inv_def ensure_carve_sorted_def)
  have carve: "find_overlap (dx_carve d) (dx_carve_max d) (fr_start fr) (query_end fr) (query_span fr) (dx_carve_pending d) \<noteq> None
      \<longleftrightarrow> overlaps_any (carves d) fr"
    unfolding carves_def using assms by (intro find_overlap_any) (simp_all add: dedup_inv_def carves_def)
  have meta: "find_overlap (dx_meta d) (dx_meta_max d) (fr_start fr) (query_end fr) (query_span fr) (dx_meta_pending d) \<noteq> None
      \<longleftrightarrow> overlaps_any (metas d) fr"
    unfolding metas_def using assms by (intro find_overlap_any) (simp_all add: dedup_inv_def metas_def)
  define found where "found = find_overlap (dx_meta d) (dx_meta_max d) (fr_start fr) (query_end fr) (query_span fr) (dx_meta_pending d)"
  have "mark_duplicate srt d fr =
    (if content_match d fr then Some (d, as_duplicate ''/dup_of/content'' 30 fr, True)
     else if overlaps_any (carves d) fr then Some (d, as_duplicate ''/dup_of/carve'' 30 fr, True)
     else case found of
       Some e \<Rightarrow> Some (d, as_duplicate (''/dup_of'' @ (if en_path e = [] then en_name e else en_path e)) 35 fr, True)
     | None \<Rightarrow> (let d4 = emplace_hash fr (d\<lparr>dx_carve_pending := dx_carve_pending d @ [entry_of fr]\<rparr>)
         in do { d5 \<leftarrow> (if merge_threshold \<le> length (dx_carve_pending d4) then merge_carve_pending srt d4 else Some d4);
                 Some (d5, fr, False) }))"
    unfolding mark_duplicate_def overlaps_existing_carve_def found_def
    using assms(2) small by (simp add: carve del: not_None_eq)
  then show ?thesis
    using meta assms(2) by (cases found) (auto simp: is_duplicate_of_def found_def)
qed


definition demo_carved :: file_record where
  "demo_carved = new_record\<lparr>fr_source := ''carver'', fr_start := 10, fr_end := 19, fr_size := 5000\<rparr>"


section \<open>Carve records loaded from the store\<close>

lemma load_loop_carves:
  assumes "list_all (\<lambda>fr. is_carve_source (fr_source fr)) frs"
  shows "\<exists>d'. load_loop srt d frs = Some d' \<and> dx_carve d' = dx_carve d @ map entry_of frs \<and> dx_carve_max d' = dx_carve_max d
    \<and> dx_carve_pending d' = dx_carve_pending d \<and> dx_meta d' = dx_meta d \<and> dx_meta_pending d' = dx_meta_pending d
    \<and> dx_meta_max d' = dx_meta_max d"
  using assms
proof (induction frs arbitrary: d)
  case Nil
  then show ?case by simp
next
  case (Cons fr frs)
  obtain d' where "load_loop srt (emplace_hash fr (d\<lparr>dx_carve := dx_carve d @ [entry_of fr], dx_carve_sorted := False\<rparr>)) frs = Some d'"
    "dx_carve d' = (dx_carve d @ [entry_of fr]) @ map entry_of frs" "dx_carve_max d' = dx_carve_max d"
    "dx_carve_pending d' = dx_carve_pending d" "dx_meta d' = dx_meta d" "dx_meta_pending d' = dx_meta_pending d"
    "dx_meta_max d' = dx_meta_max d"
    using Cons.IH [of "emplace_hash fr (d\<lparr>dx_carve := dx_carve d @ [entry_of fr], dx_carve_sorted := False\<rparr>)"] Cons.prems
    by auto
  then show ?case using Cons.prems by simp
qed

text \<open>Carve records that are loaded into an empty index are kept in its base but never found:
  the load appends them without rebuilding the running maxima, the search gives up when the two
  arrays differ in length, and so any later carved file without a content hash is accepted, even
  one that covers the same sectors.\<close>

lemma loaded_carves_are_never_found:
  assumes "list_all (\<lambda>fr. is_carve_source (fr_source fr)) frs" "frs \<noteq> []"
    and "is_carve_source (fr_source fr)" "fr_hash fr = []"
  shows "\<exists>d d'. load_from_records srt new_dedup frs = Some d \<and> dx_carve d = map entry_of frs
    \<and> mark_duplicate srt d fr = Some (d', fr, False)"
proof -
  obtain d1 where d1: "load_loop srt new_dedup frs = Some d1" "dx_carve d1 = map entry_of frs" "dx_carve_max d1 = []"
    "dx_carve_pending d1 = []" "dx_meta d1 = []" "dx_meta_pending d1 = []" "dx_meta_max d1 = []"
    using load_loop_carves [OF assms(1), of srt new_dedup] by (auto simp: new_dedup_def)
  define d where "d = d1\<lparr>dx_sorted := True, dx_carve_sorted := True\<rparr>"
  have load: "load_from_records srt new_dedup frs = Some d"
    by (simp add: load_from_records_def d1 merge_meta_pending_def merge_carve_pending_def d_def)
  have no_carve: "find_overlap (dx_carve d) (dx_carve_max d) a b c (dx_carve_pending d) = None" for a b c
    using assms(2) by (simp add: find_overlap_def d_def d1)
  have no_meta: "find_overlap (dx_meta d) (dx_meta_max d) a b c (dx_meta_pending d) = None" for a b c
    by (simp add: find_overlap_def d_def d1)
  have "ensure_carve_sorted srt d = Some d" by (simp add: ensure_carve_sorted_def d_def)
  moreover have "dx_carve_pending d = []" "dx_meta_pending d = []" by (simp_all add: d_def d1)
  ultimately have "\<exists>d'. mark_duplicate srt d fr = Some (d', fr, False)"
    using assms(3,4) no_carve no_meta
    by (simp add: mark_duplicate_def overlaps_existing_carve_def content_match_def merge_threshold_def emplace_hash_def)
  moreover have "dx_carve d = map entry_of frs" by (simp add: d_def d1)
  ultimately show ?thesis using load by blast
qed

lemma loaded_carves_are_never_found_witness:
  "\<exists>d d'. load_from_records (sort_key en_start) new_dedup [demo_carved] = Some d \<and> dx_carve d = map entry_of [demo_carved]
    \<and> mark_duplicate (sort_key en_start) d demo_carved = Some (d', demo_carved, False)"
  by (rule loaded_carves_are_never_found) (simp_all add: demo_carved_def new_record_def is_carve_source_def)

end
