(* ===== verification/Sector_Reads.thy ===== *)
theory Sector_Reads
  imports Disk_IO
begin

text \<open>
  What clients that read many times rely on beyond \<open>sector_source\<close>: a read leaves the volume,
  its geometry and the set of readable ranges as they were and keeps the length of the buffer,
  and a read of an unreadable range reports that it is incomplete.  The memory back end of
  Disk\_IO provides it.
\<close>

locale stable_source = sector_source +
  assumes keeps: "ok r \<Longrightarrow> rd r off n buf = Some (r', res, buf') \<Longrightarrow> n + sector_bytes r < 2 ^ 32 \<Longrightarrow> n \<le> length buf \<Longrightarrow>
      ok r' \<and> content r' = content r \<and> sector_bytes r' = sector_bytes r \<and> readable r' = readable r
      \<and> length buf' = length buf"
    and dead_unread: "ok r \<Longrightarrow> \<not> readable r off n \<Longrightarrow> rd r off n buf = Some (r', res, buf') \<Longrightarrow>
      \<not> padded_zeros res"
begin

text \<open>One aligned read inside the volume, as a client sees it.\<close>

lemma aligned_read:
  assumes "ok r" "off mod sector_bytes r = 0" "n mod sector_bytes r = 0" "off + n \<le> length (content r)"
    "n + sector_bytes r < 2 ^ 32" "n \<le> length buf" "0 < n"
  shows "\<exists>r' res buf'. rd r off n buf = Some (r', res, buf') \<and> ok r' \<and> content r' = content r
    \<and> sector_bytes r' = sector_bytes r \<and> readable r' = readable r \<and> length buf' = length buf
    \<and> (if readable r off n then res = ok_result n \<and> take n buf' = slice off n (content r) else io_unread res n)"
proof (cases "readable r off n")
  case True
  then obtain r' where "rd r off n buf = Some (r', ok_result n, splice 0 (slice off n (content r)) buf)"
    using live [OF assms(1) True assms(2-6)] by blast
  then show ?thesis
    using True keeps [OF assms(1) _ assms(5,6)] assms(4,6)
    by (intro exI [of _ r'] exI [of _ "ok_result n"] exI [of _ "splice 0 (slice off n (content r)) buf"])
      (simp add: splice_def)
next
  case False
  then obtain r' res buf' where "rd r off n buf = Some (r', res, buf')" "\<not> success res \<or> bytes_read res = 0"
    using dead [OF assms(1) False] by blast
  then show ?thesis
    using False keeps [OF assms(1) _ assms(5,6)] dead_unread [OF assms(1) False] assms(7)
    by (auto simp: io_unread_def)
qed

end

text \<open>The fields of a reader that the memory volume and its decrypted content depend on.\<close>

definition same_view :: "reader \<Rightarrow> reader \<Rightarrow> bool" where
  "same_view r' r \<longleftrightarrow> memory_mode r' = memory_mode r \<and> mem_ref r' = mem_ref r \<and> sector_bytes r' = sector_bytes r
     \<and> xts_from r' = xts_from r \<and> xts_key r' = xts_key r \<and> xts_key_len r' = xts_key_len r"

lemma same_view_refl [simp]: "same_view r r"
  by (simp add: same_view_def)

lemma same_view_sector_size [simp]: "same_view (r\<lparr>sector_size := sector_bytes r\<rparr>) r"
  by (simp add: same_view_def)

lemma same_view_note [simp]: "same_view (note_bad_read r off n) r"
  by (simp add: same_view_def note_bad_read_def Let_def sector_bytes_def)

lemma same_view_trans: "same_view a b \<Longrightarrow> same_view b c \<Longrightarrow> same_view a c"
  by (simp add: same_view_def)

lemma same_view_memory:
  assumes "same_view r' r"
  shows "memory_ok h r' = memory_ok h r" "memory_content h r' = memory_content h r"
    "memory_readable h r' = memory_readable h r"
proof -
  note fields = assms [unfolded same_view_def]
  have v: "memory_volume h r' = memory_volume h r" using fields by (simp add: memory_volume_def)
  show "memory_ok h r' = memory_ok h r" using fields by (simp only: memory_ok_def)
  have "has_xts_fvek r' = has_xts_fvek r" using fields by (simp add: has_xts_fvek_def)
  then have "plain_sector r' k s = plain_sector r k s" for k s
    using fields by (simp add: plain_sector_def decrypting_def xts_crypt_sector_def Let_def)
  then show "memory_content h r' = memory_content h r"
    using fields v by (simp add: memory_content_def plain_volume_def Let_def)
  show "memory_readable h r' = memory_readable h r"
    using fields v by (intro ext) (simp add: memory_readable_def Let_def)
qed

lemma read_memory_view:
  assumes "memory_ok h r" "read_sectors win h r off n buf = Some (r', res, buf')" "n + sector_bytes r < 2 ^ 32" "n \<le> length buf"
  shows "same_view r' r" "length buf' = length buf"
proof -
  let ?r = "r\<lparr>sector_size := sector_bytes r\<rparr>"
  have read: "read_memory h ?r off n buf = Some (r', res, buf')"
    using assms(1,2) by (simp add: read_sectors_memory memory_ok_def)
  have "r' = ?r \<or> (\<exists>o2 n2. r' = note_bad_read ?r o2 n2)"
    using read by (auto simp: read_memory_def finish_read_def Let_def bind_eq_Some_conv split: option.splits if_splits)
  then show "same_view r' r" using same_view_trans [OF same_view_note same_view_sector_size] by auto
  show "length buf' = length buf"
  proof (cases "success res \<and> \<not> padded_zeros res")
    case True
    then show ?thesis using read_memory_sound [OF assms(1,2) _ _ assms(3,4)] by simp
  next
    case False
    then show ?thesis using read assms(4)
      by (auto simp: read_memory_def finish_read_def Let_def bind_eq_Some_conv ok_result_def no_result_def err_result_def
        split: option.splits if_splits)
  qed
qed

lemma memory_dead_unread:
  assumes "memory_ok h r" "\<not> memory_readable h r off n" "read_sectors win h r off n buf = Some (r', res, buf')"
  shows "\<not> padded_zeros res"
  using assms
  by (auto simp: memory_ok_def memory_volume_def memory_readable_def read_sectors_memory read_memory_def
      misaligned_def err_result_def no_result_def ok_result_def Let_def split: option.splits if_splits)

interpretation mem_stable: stable_source "read_sectors win h" "memory_ok h" "memory_content h" "memory_readable h"
  for win h
proof
  fix r off n r' res and buf buf' :: buf
  assume r: "memory_ok h r" "read_sectors win h r off n buf = Some (r', res, buf')" "n + sector_bytes r < 2 ^ 32" "n \<le> length buf"
  have view: "same_view r' r" "length buf' = length buf" using read_memory_view [OF r] by simp_all
  then have "sector_bytes r' = sector_bytes r" by (simp add: same_view_def)
  then show "memory_ok h r' \<and> memory_content h r' = memory_content h r \<and> sector_bytes r' = sector_bytes r
      \<and> memory_readable h r' = memory_readable h r \<and> length buf' = length buf"
    using same_view_memory [OF view(1)] view(2) r(1) by simp
qed (rule memory_dead_unread)

end
