(* ===== verification/Hex_Search.thy ===== *)
theory Hex_Search
  imports Sector_Reads Virtual_Raid
begin

text \<open>
  The raw byte search over a volume (search/hex\_search.cpp): windows of one MiB with the last
  bytes of each window carried over, so that matches across a boundary are found.  The result
  is the list of offsets and the flag \<open>unread\<close>; \<open>None\<close> is the undefined behaviour of the
  reader.  \<open>running\<close> is what the k-th test of the stop flag sees.
\<close>

definition hex_max_needle :: nat where "hex_max_needle = 64"
definition hex_max_hits :: nat where "hex_max_hits = 256"
definition hex_chunk :: nat where "hex_chunk = 2 ^ 20"

text \<open>\<open>std::search\<close>: the offset of the first match, \<open>None\<close> for the end iterator.\<close>

fun std_search :: "buf \<Rightarrow> buf \<Rightarrow> nat option" where
  "std_search needle [] = None"
| "std_search needle (x # xs) =
     (if take (length needle) (x # xs) = needle then Some 0
      else map_option Suc (std_search needle xs))"

lemma std_search_less: "std_search needle xs = Some k \<Longrightarrow> k < length xs"
  by (induction needle xs arbitrary: k rule: std_search.induct) (auto split: if_splits)

text \<open>The inner loop; \<open>rest\<close> is the haystack from the iterator on, \<open>at\<close> its offset on the volume.\<close>

function hay_loop :: "buf \<Rightarrow> nat \<Rightarrow> buf \<Rightarrow> nat \<Rightarrow> nat list \<Rightarrow> nat list" where
  "hay_loop needle cap rest at out =
     (if length out < cap then
        (case std_search needle rest of
           None \<Rightarrow> out
         | Some k \<Rightarrow> hay_loop needle cap (drop (k + 1) rest) (at + k + 1) (out @ [at + k]))
      else out)"
  by pat_completeness auto
termination
  by (relation "measure (\<lambda>(_, _, rest, _). length rest)") (auto dest: std_search_less)

declare hay_loop.simps [simp del]

text \<open>The bytes that the next window is searched with.\<close>

definition carry_over :: "nat \<Rightarrow> buf \<Rightarrow> buf" where
  "carry_over overlap hay = (if overlap = 0 then [] else if overlap \<le> length hay then drop (length hay - overlap) hay else [])"

function hex_loop ::
  "sector_reader \<Rightarrow> buf \<Rightarrow> (nat \<Rightarrow> bool) \<Rightarrow> nat \<Rightarrow> nat \<Rightarrow> nat \<Rightarrow> nat \<Rightarrow> reader \<Rightarrow> nat \<Rightarrow> buf \<Rightarrow> buf \<Rightarrow> nat list \<Rightarrow> bool
    \<Rightarrow> (nat list \<times> bool) option" where
  "hex_loop rd needle running cap ss disk k r pos window carry out unread =
     (if \<not> (pos < disk \<and> length out < cap) then Some (out, unread)
      else if \<not> running k then Some (out, unread)
      else let want = min hex_chunk (disk - pos) div ss * ss
           in if want = 0 then Some (out, unread)
              else case rd r pos want window of
                None \<Rightarrow> None
              | Some (r', res, window') \<Rightarrow>
                  if io_unread res want
                  then hex_loop rd needle running cap ss disk (k + 1) r' (pos + want) window' [] out True
                  else let hay = carry @ take want window'
                       in hex_loop rd needle running cap ss disk (k + 1) r' (pos + want) window'
                            (carry_over (length needle - 1) hay)
                            (hay_loop needle cap hay (pos - length carry) out) unread)"
  by pat_completeness auto
termination
  by (relation "measure (\<lambda>(_, _, _, _, _, disk, _, _, pos, _). disk - pos)")
    (auto intro!: diff_less_mono2)

declare hex_loop.simps [simp del]

definition search_raw_bytes ::
  "sector_reader \<Rightarrow> (nat \<Rightarrow> bool) \<Rightarrow> reader \<Rightarrow> buf \<Rightarrow> nat \<Rightarrow> (nat list \<times> bool) option" where
  "search_raw_bytes rd running r needle max_hits =
     (if needle = [] \<or> hex_max_needle < length needle then Some ([], False)
      else if \<not> is_open r \<and> raid r = None then Some ([], False)
      else let ss = (if sector_size r = 0 then 512 else sector_size r); disk = get_disk_size r
           in if disk < length needle then Some ([], False)
              else let cap = (if max_hits = 0 then hex_max_hits else min max_hits hex_max_hits)
                   in hex_loop rd needle running cap ss disk 0 r 0 (replicate hex_chunk 0) [] [] False)"

section \<open>Occurrences\<close>

definition occurs :: "buf \<Rightarrow> buf \<Rightarrow> nat \<Rightarrow> bool" where
  "occurs needle xs i \<longleftrightarrow> i + length needle \<le> length xs \<and> slice i (length needle) xs = needle"

definition occurrences :: "buf \<Rightarrow> buf \<Rightarrow> nat list" where
  "occurrences needle xs = filter (occurs needle xs) [0..<length xs]"

lemma occurs_iff_take: "occurs needle xs i \<longleftrightarrow> take (length needle) (drop i xs) = needle" if "needle \<noteq> []"
proof
  assume "take (length needle) (drop i xs) = needle"
  then have "length (take (length needle) (drop i xs)) = length needle" by simp
  then have "length needle \<le> length xs - i" by simp
  moreover have "0 < length needle" using that by simp
  ultimately have "i + length needle \<le> length xs" by linarith
  then show "occurs needle xs i" using \<open>take (length needle) (drop i xs) = needle\<close>
    by (simp add: occurs_def slice_def)
qed (simp add: occurs_def slice_def)

lemma occurrences_take:
  "needle \<noteq> [] \<Longrightarrow> occurrences needle xs = filter (\<lambda>i. take (length needle) (drop i xs) = needle) [0..<length xs]"
  by (simp add: occurrences_def occurs_iff_take cong: filter_cong)

lemma occurrences_Cons:
  "needle \<noteq> [] \<Longrightarrow> occurrences needle (x # xs) =
    (if take (length needle) (x # xs) = needle then [0] else []) @ map Suc (occurrences needle xs)"
proof -
  assume n: "needle \<noteq> []"
  have "[0..<length (x # xs)] = 0 # map Suc [0..<length xs]"
    by (simp add: map_Suc_upt upt_conv_Cons del: upt_Suc)
  then show ?thesis by (simp add: occurrences_take [OF n] filter_map comp_def del: upt_Suc)
qed

lemma std_search_occurrences:
  "needle \<noteq> [] \<Longrightarrow> (case std_search needle xs of
      None \<Rightarrow> occurrences needle xs = []
    | Some k \<Rightarrow> occurrences needle xs = k # map ((+) (k + 1)) (occurrences needle (drop (k + 1) xs)))"
proof (induction xs)
  case Nil
  then show ?case by (simp add: occurrences_def)
next
  case (Cons x xs)
  show ?case
  proof (cases "take (length needle) (x # xs) = needle")
    case True
    then show ?thesis using occurrences_Cons [OF Cons.prems, of x xs] by simp
  next
    case False
    then show ?thesis using occurrences_Cons [OF Cons.prems, of x xs] Cons.IH [OF Cons.prems]
      by (cases "std_search needle xs") (simp_all add: comp_def)
  qed
qed

lemma hay_loop_occurrences:
  "needle \<noteq> [] \<Longrightarrow> length out \<le> cap \<Longrightarrow>
    hay_loop needle cap rest at out = take cap (out @ map ((+) at) (occurrences needle rest))"
proof (induction needle cap rest at out rule: hay_loop.induct)
  case (1 needle cap rest at out)
  show ?case
  proof (cases "length out < cap")
    case False
    then show ?thesis using 1(3) by (simp add: hay_loop.simps)
  next
    case True
    show ?thesis
    proof (cases "std_search needle rest")
      case None
      then show ?thesis using True std_search_occurrences [OF 1(2), of rest] by (simp add: hay_loop.simps)
    next
      case (Some k)
      have "hay_loop needle cap rest at out = hay_loop needle cap (drop (k + 1) rest) (at + k + 1) (out @ [at + k])"
        using True Some by (subst hay_loop.simps) simp
      also have "\<dots> = take cap ((out @ [at + k]) @ map ((+) (at + k + 1)) (occurrences needle (drop (k + 1) rest)))"
        using True 1(2) by (intro 1(1) [OF True Some]) simp_all
      also have "(out @ [at + k]) @ map ((+) (at + k + 1)) (occurrences needle (drop (k + 1) rest))
          = out @ map ((+) at) (occurrences needle rest)"
        using std_search_occurrences [OF 1(2), of rest] Some by (simp add: comp_def add.assoc)
      finally show ?thesis .
    qed
  qed
qed

section \<open>The windows of a volume\<close>

text \<open>The window that holds byte \<open>q\<close> is read in one piece: \<open>seen\<close> bytes are those of readable
  windows, and a match counts when all its bytes are seen.\<close>

definition window_size :: "nat \<Rightarrow> nat" where
  "window_size ss = hex_chunk div ss * ss"

definition seen :: "(nat \<Rightarrow> nat \<Rightarrow> bool) \<Rightarrow> nat \<Rightarrow> nat \<Rightarrow> nat \<Rightarrow> bool" where
  "seen readable ss disk q \<longleftrightarrow>
     (let start = q div window_size ss * window_size ss in readable start (min (window_size ss) (disk - start)))"

definition seen_match :: "(nat \<Rightarrow> nat \<Rightarrow> bool) \<Rightarrow> nat \<Rightarrow> buf \<Rightarrow> buf \<Rightarrow> nat \<Rightarrow> bool" where
  "seen_match readable ss needle D p \<longleftrightarrow> occurs needle D p
     \<and> (\<forall>q \<in> {p..<p + length needle}. seen readable ss (length D) q)"

lemma upt_split: "a \<le> b \<Longrightarrow> b \<le> c \<Longrightarrow> [a..<c] = [a..<b] @ [b..<c :: nat]"
  using upt_add_eq_append [of a b "c - b"] by simp

text \<open>The matches that end before \<open>pos\<close>.\<close>

definition matches_upto :: "(nat \<Rightarrow> nat \<Rightarrow> bool) \<Rightarrow> nat \<Rightarrow> buf \<Rightarrow> buf \<Rightarrow> nat \<Rightarrow> nat list" where
  "matches_upto readable ss needle D pos =
     filter (seen_match readable ss needle D) [0..<pos + 1 - length needle]"

lemma matches_upto_split:
  assumes "pos \<le> pos'"
  shows "matches_upto rb ss needle D pos' = matches_upto rb ss needle D pos
    @ filter (seen_match rb ss needle D) [pos + 1 - length needle..<pos' + 1 - length needle]"
proof -
  have "[0..<pos' + 1 - length needle] = [0..<pos + 1 - length needle] @ [pos + 1 - length needle..<pos' + 1 - length needle]"
    using assms by (intro upt_split) simp_all
  then show ?thesis by (simp add: matches_upto_def)
qed

lemma map_shift_filter: "map ((+) b) (filter P [0..<n]) = filter (\<lambda>p. P (p - b)) [b..<b + n]" for b :: nat
proof (induction n)
  case (Suc n)
  then show ?case by (simp add: filter_append)
qed simp

lemma occurrences_short: "occurrences needle xs = filter (occurs needle xs) [0..<length xs + 1 - length needle]" if "needle \<noteq> []"
proof -
  have "[0..<length xs] = [0..<length xs + 1 - length needle] @ [length xs + 1 - length needle..<length xs]"
    using that by (intro upt_split) (cases needle; simp)+
  moreover have "filter (occurs needle xs) [length xs + 1 - length needle..<length xs] = []"
    by (auto simp: filter_empty_conv occurs_def)
  ultimately show ?thesis by (simp add: occurrences_def)
qed

text \<open>One readable window: the matches in carry and window are the new ones.\<close>

lemma window_matches:
  assumes "needle \<noteq> []" "c < length needle" "c \<le> pos" "pos + want \<le> length D"
    and hay: "hay = slice (pos - c) (c + want) D"
    and clean: "\<forall>q. pos - c \<le> q \<and> q < pos + want \<longrightarrow> seen rb ss (length D) q"
    and crossing: "\<forall>p. seen_match rb ss needle D p \<and> p < pos \<and> pos < p + length needle \<longrightarrow> pos - c \<le> p"
  shows "matches_upto rb ss needle D (pos + want)
    = matches_upto rb ss needle D pos @ map ((+) (pos - c)) (occurrences needle hay)"
proof -
  let ?m = "length needle" and ?V = "seen_match rb ss needle D"
  have m: "0 < ?m" using assms(1) by simp
  have len: "length hay = c + want" using assms(3,4) hay by simp
  define n where "n = c + want + 1 - ?m"
  have hit: "?V p \<longleftrightarrow> occurs needle hay (p - (pos - c))" if "pos - c \<le> p" "p < pos - c + n" for p
  proof -
    have fits: "p - (pos - c) + ?m \<le> c + want" using that m n_def by linarith
    then have "p + ?m \<le> length D" using that assms(3,4) by linarith
    moreover have "slice (p - (pos - c)) ?m hay = slice p ?m D"
      unfolding hay using fits that(1) by (simp add: slice_slice)
    moreover have "\<forall>q \<in> {p..<p + ?m}. seen rb ss (length D) q"
      using clean that(1) fits assms(3) by auto
    ultimately show ?thesis using fits by (simp add: seen_match_def occurs_def len)
  qed
  have old: "filter ?V [pos + 1 - ?m..<pos + want + 1 - ?m] = filter ?V [pos - c..<pos + want + 1 - ?m]"
  proof (cases "pos - c \<le> pos + want + 1 - ?m")
    case True
    have low: "pos + 1 - ?m \<le> pos - c" using assms(2) by linarith
    have "[pos + 1 - ?m..<pos + want + 1 - ?m] = [pos + 1 - ?m..<pos - c] @ [pos - c..<pos + want + 1 - ?m]"
      using low True by (rule upt_split)
    moreover have "\<not> ?V p" if "pos + 1 - ?m \<le> p" "p < pos - c" for p
    proof
      assume "?V p"
      moreover have "p < pos" "pos < p + ?m" using m that by linarith+
      ultimately show False using crossing that(2) by fastforce
    qed
    then have "filter ?V [pos + 1 - ?m..<pos - c] = []" by (simp add: filter_empty_conv)
    ultimately show ?thesis by simp
  next
    case False
    have "\<not> ?V p" if "pos + 1 - ?m \<le> p" "p < pos + want + 1 - ?m" for p
    proof
      assume "?V p"
      moreover have "p < pos" "pos < p + ?m" using m that False by linarith+
      ultimately show False using crossing that(2) False by fastforce
    qed
    then have "filter ?V [pos + 1 - ?m..<pos + want + 1 - ?m] = []" by (simp add: filter_empty_conv)
    then show ?thesis using False by simp
  qed
  have "map ((+) (pos - c)) (occurrences needle hay) = filter (\<lambda>p. occurs needle hay (p - (pos - c))) [pos - c..<pos - c + n]"
    unfolding occurrences_short [OF assms(1)] len n_def [symmetric] by (rule map_shift_filter)
  also have "\<dots> = filter ?V [pos - c..<pos - c + n]"
    by (intro filter_cong) (simp_all add: hit)
  also have "[pos - c..<pos - c + n] = [pos - c..<pos + want + 1 - ?m]"
  proof (cases "c + want + 1 \<le> ?m")
    case True
    then have "n = 0" "pos + want + 1 - ?m \<le> pos - c" using assms(3) by (simp_all add: n_def)
    then show ?thesis by simp
  next
    case False
    then have "pos - c + n = pos + want + 1 - ?m" using assms(3) by (simp add: n_def)
    then show ?thesis by simp
  qed
  finally show ?thesis using old by (subst matches_upto_split [of pos]) simp_all
qed

text \<open>The sizes of the windows.\<close>

lemma window_size_bounds:
  assumes "0 < ss" "ss \<le> 2 ^ 19"
  shows "2 ^ 19 \<le> window_size ss" "window_size ss \<le> hex_chunk" "window_size ss mod ss = 0"
proof -
  have "hex_chunk = hex_chunk div ss * ss + hex_chunk mod ss" by simp
  moreover have "hex_chunk mod ss < ss" using assms(1) by simp
  ultimately have "hex_chunk < hex_chunk div ss * ss + ss" by linarith
  then show "2 ^ 19 \<le> window_size ss" using assms(2) by (simp add: window_size_def hex_chunk_def)
  show "window_size ss \<le> hex_chunk" "window_size ss mod ss = 0" by (simp_all add: window_size_def)
qed

lemma want_is_window:
  assumes "0 < ss" "ss \<le> 2 ^ 19" "(d :: nat) mod ss = 0"
  shows "min hex_chunk d div ss * ss = min (window_size ss) d"
proof (cases "hex_chunk \<le> d")
  case True
  then have "window_size ss \<le> d" using window_size_bounds(2) [OF assms(1,2)] by linarith
  then show ?thesis using True by (simp only: min_absorb1 window_size_def)
next
  case False
  obtain q where d: "d = q * ss" using assms(3) by (metis add.right_neutral div_mult_mod_eq)
  have "q \<le> hex_chunk div ss" using False d assms(1) by (simp add: less_eq_div_iff_mult_less_eq)
  then have "d \<le> window_size ss" unfolding d window_size_def by (rule mult_le_mono1)
  then show ?thesis using False d assms(1) by (simp add: min_def)
qed

lemma seen_in_window:
  assumes "pos mod window_size ss = 0" "pos \<le> q" "q < pos + min (window_size ss) (disk - pos)"
  shows "seen rb ss disk q \<longleftrightarrow> rb pos (min (window_size ss) (disk - pos))"
proof -
  let ?W = "window_size ss"
  obtain k where k: "pos = k * ?W" using assms(1) by (metis add.right_neutral div_mult_mod_eq)
  have "q div ?W = k" using assms(2,3) unfolding k by (intro div_nat_eqI) (simp_all add: mult.commute)
  then show ?thesis by (simp add: seen_def k Let_def)
qed

text \<open>State of the search before the window at \<open>pos\<close>.\<close>

definition carry_ok :: "(nat \<Rightarrow> nat \<Rightarrow> bool) \<Rightarrow> nat \<Rightarrow> buf \<Rightarrow> buf \<Rightarrow> nat \<Rightarrow> buf \<Rightarrow> bool" where
  "carry_ok rb ss needle D pos carry \<longleftrightarrow> length carry < length needle \<and> length carry \<le> pos
     \<and> carry = slice (pos - length carry) (length carry) D
     \<and> (\<forall>q. pos - length carry \<le> q \<and> q < pos \<longrightarrow> seen rb ss (length D) q)
     \<and> (\<forall>p. seen_match rb ss needle D p \<and> p < pos \<and> pos < p + length needle \<longrightarrow> pos - length carry \<le> p)"

lemma carry_ok_start: "needle \<noteq> [] \<Longrightarrow> carry_ok rb ss needle D 0 []"
  by (simp add: carry_ok_def)

lemma carry_ok_bad_window:
  assumes "needle \<noteq> []" "0 < want" "\<not> seen rb ss (length D) (pos + want - 1)"
  shows "carry_ok rb ss needle D (pos + want) []"
proof -
  have "\<not> seen_match rb ss needle D p" if "p < pos + want" "pos + want < p + length needle" for p
    using that assms(2,3) unfolding seen_match_def by (auto intro!: bexI [of _ "pos + want - 1"])
  then show ?thesis using assms(1) by (auto simp: carry_ok_def)
qed

lemma carry_ok_good_window:
  assumes "needle \<noteq> []" "carry_ok rb ss needle D pos carry" "pos + want \<le> length D"
    and clean: "\<forall>q. pos \<le> q \<and> q < pos + want \<longrightarrow> seen rb ss (length D) q"
    and large: "length needle - 1 \<le> length carry + want \<or> pos + want = length D"
  shows "carry_ok rb ss needle D (pos + want) (carry_over (length needle - 1) (carry @ slice pos want D))"
proof -
  let ?c = "length carry" and ?m = "length needle"
  have carry: "?c \<le> pos" "carry = slice (pos - ?c) ?c D" using assms(2) by (simp_all add: carry_ok_def)
  have "carry @ slice pos want D = slice (pos - ?c) (?c + want) D"
    using carry slice_append_slice [of "pos - ?c" ?c D want] by simp
  then obtain hay where hay: "hay = slice (pos - ?c) (?c + want) D" "carry @ slice pos want D = hay" by blast
  have len: "length hay = ?c + want" using carry(1) assms(3) by (simp add: hay(1))
  have all: "\<forall>q. pos - ?c \<le> q \<and> q < pos + want \<longrightarrow> seen rb ss (length D) q"
    using clean assms(2) unfolding carry_ok_def by (meson not_less)
  show ?thesis
  proof (cases "?m - 1 \<le> ?c + want \<and> ?m \<noteq> 1")
    case True
    have m: "0 < ?m" using assms(1) by simp
    have k: "carry_over (?m - 1) hay = drop (?c + want - (?m - 1)) hay" using True by (simp add: carry_over_def len)
    have "drop (?c + want - (?m - 1)) hay = slice (pos + want - (?m - 1)) (?m - 1) D"
    proof -
      have "drop (?c + want - (?m - 1)) hay = slice (?c + want - (?m - 1)) (?m - 1) hay"
        using True len by (simp add: slice_def)
      also have "\<dots> = slice (pos - ?c + (?c + want - (?m - 1))) (?m - 1) D"
        unfolding hay(1) using True by (intro slice_slice) simp
      also have "pos - ?c + (?c + want - (?m - 1)) = pos + want - (?m - 1)" using True carry(1) by simp
      finally show ?thesis .
    qed
    then have carried: "carry_over (?m - 1) hay = slice (pos + want - (?m - 1)) (?m - 1) D" using k by simp
    have fits: "?m - 1 \<le> pos + want" using True carry(1) by linarith
    then have len2: "?m - 1 \<le> pos + want" "length (slice (pos + want - (?m - 1)) (?m - 1) D) = ?m - 1"
      using assms(3) by (auto simp: min_def)
    have "seen rb ss (length D) q" if "pos + want - (?m - 1) \<le> q" "q < pos + want" for q
      using all that True carry(1) by auto
    then show ?thesis
      unfolding hay(2) carried carry_ok_def len2(2) using len2(1) m by auto
  next
    case False
    then have "carry_over (?m - 1) hay = []" by (auto simp: carry_over_def len)
    moreover have "\<not> seen_match rb ss needle D p" if "p < pos + want" "pos + want < p + ?m" for p
      using that False large by (auto simp: seen_match_def occurs_def)
    ultimately show ?thesis unfolding hay(2) using assms(1) by (auto simp: carry_ok_def)
  qed
qed

section \<open>The search over a sector source\<close>

context stable_source
begin

lemma hex_loop_finds:
  assumes vol: "ok r" "sector_bytes r = ss" "content r = D" "readable r = rb" "ss \<le> 2 ^ 19" "0 < ss" "length D mod ss = 0"
    and needle: "needle \<noteq> []" "length needle \<le> hex_max_needle" and run: "\<And>k. running k"
    and pos: "pos \<le> length D" "pos mod window_size ss = 0 \<or> pos = length D" "pos mod ss = 0" "length window = hex_chunk"
    and inv: "out = take cap (matches_upto rb ss needle D pos)" "carry_ok rb ss needle D pos carry"
  shows "\<exists>u. hex_loop rd needle running cap ss (length D) k r pos window carry out unread
      = Some (take cap (matches_upto rb ss needle D (length D)), u)
    \<and> (u \<longrightarrow> unread \<or> (\<exists>q < length D. \<not> seen rb ss (length D) q))
    \<and> (unread \<longrightarrow> u)
    \<and> (length (matches_upto rb ss needle D (length D)) < cap \<longrightarrow>
         (\<exists>q. pos \<le> q \<and> q < length D \<and> \<not> seen rb ss (length D) q) \<longrightarrow> u)"
  using vol pos inv
proof (induction "length D - pos" arbitrary: k r pos window carry out unread rule: less_induct)
  case less
  let ?F = "matches_upto rb ss needle D" and ?W = "window_size ss"
  have prefix: "\<exists>ms. ?F (length D) = ?F pos @ ms" using matches_upto_split [OF less.prems(8)] by blast
  show ?case
  proof (cases "pos < length D \<and> length out < cap")
    case False
    have "take cap (?F (length D)) = out"
    proof (cases "pos < length D")
      case True
      then have "cap \<le> length (?F pos)" using False less.prems(12) by simp
      then show ?thesis using prefix less.prems(12) by auto
    next
      case False
      then show ?thesis using less.prems(8,12) by simp
    qed
    moreover have "hex_loop rd needle running cap ss (length D) k r pos window carry out unread = Some (out, unread)"
      by (subst hex_loop.simps) (use False in auto)
    moreover have "\<not> (length (?F (length D)) < cap \<and> pos < length D)"
      using False less.prems(12) prefix by auto
    ultimately show ?thesis by auto
  next
    case True
    define want where "want = min ?W (length D - pos)"
    have pos0: "pos mod ?W = 0" using less.prems(9) True by auto
    have "(length D - pos) mod ss = 0" using less.prems(7,10) by (metis dvd_diff_nat dvd_eq_mod_eq_0)
    then have want: "min hex_chunk (length D - pos) div ss * ss = want"
      unfolding want_def using less.prems(5,6) by (intro want_is_window) simp_all
    have big: "2 ^ 19 \<le> ?W" "?W \<le> hex_chunk" "?W mod ss = 0" using window_size_bounds [OF less.prems(6,5)] by simp_all
    have "want mod ss = 0" by (subst want [symmetric]) simp
    then have w: "0 < want" "want \<le> hex_chunk" "pos + want \<le> length D" "want mod ss = 0"
      using big True by (auto simp: want_def)
    have next_pos: "(pos + want) mod ?W = 0 \<or> pos + want = length D" "(pos + want) mod ss = 0"
      using pos0 less.prems(8,10) w(4) by (auto simp: want_def min_def mod_add_eq [symmetric])
    have closer: "length D - (pos + want) < length D - pos" using w True by linarith
    have out: "out = ?F pos" using True less.prems(12) by (simp add: min_def split: if_splits)
    obtain r' res window' where read: "rd r pos want window = Some (r', res, window')" "ok r'" "content r' = D"
        "sector_bytes r' = ss" "readable r' = rb" "length window' = hex_chunk"
        "if rb pos want then res = ok_result want \<and> take want window' = slice pos want D else io_unread res want"
      using aligned_read [OF less.prems(1), of pos want window] less.prems(2-6,10,11) w by (auto simp: hex_chunk_def)
    have step: "hex_loop rd needle running cap ss (length D) k r pos window carry out unread =
        (if io_unread res want
         then hex_loop rd needle running cap ss (length D) (k + 1) r' (pos + want) window' [] out True
         else hex_loop rd needle running cap ss (length D) (k + 1) r' (pos + want) window'
           (carry_over (length needle - 1) (carry @ take want window'))
           (hay_loop needle cap (carry @ take want window') (pos - length carry) out) unread)"
      by (subst hex_loop.simps) (use True run w(1) read(1) in \<open>simp add: want Let_def\<close>)
    note window = seen_in_window [OF pos0, where disk = "length D" and rb = rb, folded want_def]
    show ?thesis
    proof (cases "rb pos want")
      case good: True
      have clean: "\<forall>q. pos \<le> q \<and> q < pos + want \<longrightarrow> seen rb ss (length D) q" using window good by blast
      note carry = less.prems(13) [unfolded carry_ok_def]
      have all: "\<forall>q. pos - length carry \<le> q \<and> q < pos + want \<longrightarrow> seen rb ss (length D) q"
        using clean carry by (meson not_less)
      have hay: "carry @ slice pos want D = slice (pos - length carry) (length carry + want) D"
        using carry slice_append_slice [of "pos - length carry" "length carry" D want] by simp
      have "?F (pos + want) = ?F pos @ map ((+) (pos - length carry)) (occurrences needle (carry @ slice pos want D))"
        by (rule window_matches [OF needle(1) _ _ w(3) hay all]) (use carry in blast)+
      then have found: "hay_loop needle cap (carry @ slice pos want D) (pos - length carry) out = take cap (?F (pos + want))"
        using True hay_loop_occurrences [OF needle(1), of out cap] by (simp add: out)
      have "length needle - 1 \<le> length carry + want \<or> pos + want = length D"
      proof (cases "?W \<le> length D - pos")
        case True
        then have "want = ?W" by (simp add: want_def)
        then have "2 ^ 19 \<le> want" using big(1) by simp
        moreover have "length needle \<le> 2 ^ 19" using needle(2) by (simp add: hex_max_needle_def)
        ultimately show ?thesis by linarith
      next
        case False
        then show ?thesis using less.prems(8) by (simp add: want_def)
      qed
      then have "carry_ok rb ss needle D (pos + want) (carry_over (length needle - 1) (carry @ slice pos want D))"
        using carry_ok_good_window [OF needle(1) less.prems(13) w(3) clean] by blast
      then obtain u where u: "hex_loop rd needle running cap ss (length D) (k + 1) r' (pos + want) window'
            (carry_over (length needle - 1) (carry @ slice pos want D)) (take cap (?F (pos + want))) unread
          = Some (take cap (?F (length D)), u)"
        "u \<longrightarrow> unread \<or> (\<exists>q < length D. \<not> seen rb ss (length D) q)" "unread \<longrightarrow> u"
        "length (?F (length D)) < cap \<longrightarrow> (\<exists>q. pos + want \<le> q \<and> q < length D \<and> \<not> seen rb ss (length D) q) \<longrightarrow> u"
        using less.hyps [OF closer read(2,4,3,5) less.prems(5-7) w(3) next_pos read(6) refl, where k = "k + 1" and unread = unread]
        by blast
      have "\<not> io_unread res want" "take want window' = slice pos want D"
        using read(7) good by (simp_all add: io_unread_def ok_result_def no_result_def)
      moreover have "pos + want \<le> q" if "pos \<le> q" "\<not> seen rb ss (length D) q" for q
        using clean that not_less by blast
      ultimately show ?thesis
        unfolding step using u by (intro exI [of _ u]) (simp only: found if_False, blast)
    next
      case bad: False
      have last: "\<not> seen rb ss (length D) q" if "pos \<le> q" "q < pos + want" for q
        using window [OF that] bad by blast
      have "\<not> seen_match rb ss needle D p" if "pos + 1 - length needle \<le> p" "p < pos + want + 1 - length needle" for p
      proof -
        have "pos \<le> p + length needle - 1" "p + length needle - 1 < pos + want" using that needle(1) by (cases needle; simp)+
        then show ?thesis using last [of "p + length needle - 1"] needle(1)
          unfolding seen_match_def by (cases needle) (auto intro!: bexI [of _ "p + length needle - 1"])
      qed
      then have same: "?F (pos + want) = ?F pos"
        by (subst matches_upto_split [of pos]) (simp_all add: filter_empty_conv)
      have "carry_ok rb ss needle D (pos + want) []"
        using last [of "pos + want - 1"] w(1) needle(1) by (intro carry_ok_bad_window) simp_all
      then obtain u where u: "hex_loop rd needle running cap ss (length D) (k + 1) r' (pos + want) window' [] (take cap (?F (pos + want))) True
          = Some (take cap (?F (length D)), u)" "True \<longrightarrow> u"
        using less.hyps [OF closer read(2,4,3,5) less.prems(5-7) w(3) next_pos read(6) refl, where k = "k + 1" and unread = True]
        by blast
      moreover have "io_unread res want" using read(7) bad by simp
      moreover have "\<exists>q < length D. \<not> seen rb ss (length D) q"
        using last [of pos] w True by (intro exI [of _ pos]) simp
      ultimately show ?thesis
        unfolding step using less.prems(12) by (intro exI [of _ u]) (simp add: same)
    qed
  qed
qed

end

text \<open>C25. Over a memory volume, encrypted or not and with any injected faults, the raw search returns
  the first hits, up to the cap, of exactly the offsets at which the pattern occurs in the
  decrypted volume with all its bytes in windows that could be read, in ascending order and each
  once, also across window boundaries.  When it stays below the cap, the unread flag is set if
  and only if some window could not be read.\<close>

theorem search_finds_exactly_the_seen_matches:
  assumes "memory_ok h r" "is_open r" "sector_size r \<noteq> 0" "sector_bytes r \<le> 2 ^ 19"
    and "get_disk_size r = length (memory_content h r)" "needle \<noteq> []" "length needle \<le> hex_max_needle"
    and "max_hits \<noteq> 0" "max_hits \<le> hex_max_hits"
  shows "let D = memory_content h r; ss = sector_bytes r;
             hits = filter (seen_match (memory_readable h r) ss needle D) [0..<length D + 1 - length needle]
    in \<exists>u. search_raw_bytes (read_sectors win h) (\<lambda>_. True) r needle max_hits = Some (take max_hits hits, u)
      \<and> (length hits < max_hits \<longrightarrow> length needle \<le> length D \<longrightarrow>
           (u \<longleftrightarrow> (\<exists>q < length D. \<not> seen (memory_readable h r) ss (length D) q)))"
proof -
  let ?D = "memory_content h r" and ?ss = "sector_bytes r"
  have cap: "min max_hits hex_max_hits = max_hits" using assms(9) by simp
  have ss: "sector_size r = ?ss" using assms(3) by (simp add: sector_bytes_def)
  show ?thesis
  proof (cases "length ?D < length needle")
    case True
    then have "search_raw_bytes (read_sectors win h) (\<lambda>_. True) r needle max_hits = Some ([], False)"
      using assms by (simp add: search_raw_bytes_def Let_def)
    then show ?thesis using True unfolding Let_def by (intro exI [of _ False]) simp
  next
    case False
    have none: "matches_upto rb ss needle D 0 = []" for rb ss D
      using assms(6) by (cases needle) (simp_all add: matches_upto_def)
    obtain u where "hex_loop (read_sectors win h) needle (\<lambda>_. True) max_hits ?ss (length ?D) 0 r 0 (replicate hex_chunk 0) [] [] False
        = Some (take max_hits (matches_upto (memory_readable h r) ?ss needle ?D (length ?D)), u)"
      "u \<longrightarrow> False \<or> (\<exists>q < length ?D. \<not> seen (memory_readable h r) ?ss (length ?D) q)"
      "length (matches_upto (memory_readable h r) ?ss needle ?D (length ?D)) < max_hits \<longrightarrow>
         (\<exists>q. 0 \<le> q \<and> q < length ?D \<and> \<not> seen (memory_readable h r) ?ss (length ?D) q) \<longrightarrow> u"
      using mem_stable.hex_loop_finds [where h = h and win = win and r = r and ss = ?ss and D = ?D
          and rb = "memory_readable h r" and needle = needle and running = "\<lambda>_. True" and pos = 0
          and window = "replicate hex_chunk 0" and out = "[]" and carry = "[]" and cap = max_hits and k = 0 and unread = False]
        assms mem_source.whole [OF assms(1)] carry_ok_start
      by (auto simp: none)
    moreover have "search_raw_bytes (read_sectors win h) (\<lambda>_. True) r needle max_hits
        = hex_loop (read_sectors win h) needle (\<lambda>_. True) max_hits ?ss (length ?D) 0 r 0 (replicate hex_chunk 0) [] [] False"
      using assms False cap ss by (simp add: search_raw_bytes_def Let_def)
    ultimately show ?thesis
      unfolding Let_def matches_upto_def [symmetric] by (intro exI [of _ u]) auto
  qed
qed

theorem search_finds_exactly_the_seen_matches_witness:
  "\<exists>u. search_raw_bytes (read_sectors no_win demo_heap) (\<lambda>_. True) demo_reader [4, 5] 5
      = Some (take 5 (filter (seen_match (memory_readable demo_heap demo_reader) 4 [4, 5] [1, 2, 3, 4, 5, 6, 7, 8]) [0..<7]), u)"
proof -
  have content: "memory_content demo_heap demo_reader = [1, 2, 3, 4, 5, 6, 7, 8]"
    by (simp add: memory_content_def memory_volume_def demo_heap_def demo_reader_def new_reader_def new_volume_def
        plain_volume_def plain_sector_def decrypting_def sector_bytes_def has_xts_fvek_def slice_def upt_rec)
  have shape: "sector_bytes demo_reader = 4" "is_open demo_reader" "sector_size demo_reader \<noteq> 0" "get_disk_size demo_reader = 8"
    by (simp_all add: sector_bytes_def demo_reader_def new_reader_def is_open_def has_image_backend_def get_disk_size_def)
  have offsets: "length [1, 2, 3, 4, 5, 6, 7, 8 :: byte] + 1 - length [4, 5 :: byte] = 7" by simp
  show ?thesis
    using search_finds_exactly_the_seen_matches [OF demo_ok shape(2,3), of "[4, 5]" 5 no_win,
        unfolded Let_def content shape(1,4) offsets]
    by (simp only: hex_max_needle_def hex_max_hits_def, force)
qed

end
