(* ===== verification/Path_Util.thy ===== *)
theory Path_Util
  imports Prelude
begin

text \<open>
  Names and directories for recovered files (recovery/path\_util.cpp).  The functions of
  \<open>std::filesystem::path\<close> whose result depends on the platform are fields of \<open>path_ops\<close>;
  the theorems hold for every choice of them.  \<open>toupper\<close>, \<open>tolower\<close> and \<open>isalpha\<close> are those of
  the C locale.
\<close>

record path_ops =
  po_filename :: "string \<Rightarrow> string"
  po_absolute :: "string \<Rightarrow> bool"
  po_parts :: "string \<Rightarrow> string list"
  po_normal :: "string \<Rightarrow> string"
  po_append :: "string \<Rightarrow> string \<Rightarrow> string"

definition code_between :: "nat \<Rightarrow> nat \<Rightarrow> char \<Rightarrow> bool" where
  "code_between lo hi c \<longleftrightarrow> lo \<le> of_char c \<and> (of_char c :: nat) \<le> hi"

definition to_upper :: "char \<Rightarrow> char" where
  "to_upper c = (if code_between 97 122 c then char_of (of_char c - 32 :: nat) else c)"

definition to_lower :: "char \<Rightarrow> char" where
  "to_lower c = (if code_between 65 90 c then char_of (of_char c + 32 :: nat) else c)"

definition is_alpha :: "char \<Rightarrow> bool" where
  "is_alpha c \<longleftrightarrow> code_between 65 90 c \<or> code_between 97 122 c"

definition dot :: char where "dot = CHR ''.''"
definition slash :: char where "slash = CHR ''/''"
definition backslash :: char where "backslash = char_of (92 :: nat)"
definition quote :: char where "quote = char_of (34 :: nat)"

section \<open>Reserved names\<close>

definition reserved_names :: "string list" where
  "reserved_names = [''CON'', ''PRN'', ''AUX'', ''NUL'',
     ''COM1'', ''COM2'', ''COM3'', ''COM4'', ''COM5'', ''COM6'', ''COM7'', ''COM8'', ''COM9'',
     ''LPT1'', ''LPT2'', ''LPT3'', ''LPT4'', ''LPT5'', ''LPT6'', ''LPT7'', ''LPT8'', ''LPT9'']"

definition before_dot :: "string \<Rightarrow> string" where
  "before_dot s = takeWhile (\<lambda>c. c \<noteq> dot) s"

definition is_reserved_windows_name :: "string \<Rightarrow> bool" where
  "is_reserved_windows_name name =
     (let stem = before_dot name
      in if stem = [] then False else list_ex (\<lambda>r. map to_upper stem = r) reserved_names)"

section \<open>safeBasename\<close>

definition forbidden :: "char list" where
  "forbidden = [slash, backslash, CHR '':'', CHR ''*'', CHR ''?'', quote, CHR ''<'', CHR ''>'', CHR ''|'']"

definition replace_chars :: "char list \<Rightarrow> string \<Rightarrow> string" where
  "replace_chars bad s = map (\<lambda>c. if c \<in> set bad then CHR ''_'' else c) s"

text \<open>The loop that pops trailing dots and blanks.\<close>

definition strip_tail :: "string \<Rightarrow> string" where
  "strip_tail s = rev (dropWhile (\<lambda>c. c = dot \<or> c = CHR '' '') (rev s))"

definition safe_basename :: "path_ops \<Rightarrow> string \<Rightarrow> string" where
  "safe_basename po name =
     (let base = strip_tail (replace_chars forbidden (po_filename po name))
      in if base = [] \<or> base = ''.'' \<or> base = ''..'' then ''recovered_file.bin''
         else if is_reserved_windows_name base
              then before_dot base @ ''_file'' @ dropWhile (\<lambda>c. c \<noteq> dot) base
              else base)"

section \<open>safeRelativeDir\<close>

definition forbidden_in_segment :: "char list" where
  "forbidden_in_segment = [CHR '':'', CHR ''*'', CHR ''?'', quote, CHR ''<'', CHR ''>'', CHR ''|'']"

text \<open>One segment: dropped, or its sanitized form.\<close>

definition segment :: "string \<Rightarrow> string option" where
  "segment seg =
     (if seg = [] \<or> seg = ''.'' \<or> seg = ''..'' then None
      else if length seg = 2 \<and> seg ! 1 = CHR '':'' \<and> is_alpha (seg ! 0) then None
      else let s = strip_tail (replace_chars forbidden_in_segment seg)
           in if s = [] then None
              else Some (if is_reserved_windows_name s then s @ ''_dir'' else s))"

function relative_loop :: "string \<Rightarrow> string \<Rightarrow> string" where
  "relative_loop rest out =
     (if rest = [] then out
      else let seg = takeWhile (\<lambda>c. c \<noteq> slash) rest; rest' = drop (length seg + 1) rest
           in case segment seg of
                None \<Rightarrow> relative_loop rest' out
              | Some s \<Rightarrow> relative_loop rest' ((if out \<noteq> [] then out @ [slash] else out) @ s))"
  by pat_completeness auto
termination
  by (relation "measure (\<lambda>(rest, _). length rest)") (auto simp: Let_def)

declare relative_loop.simps [simp del]

definition safe_relative_dir :: "string \<Rightarrow> string" where
  "safe_relative_dir fs_path =
     (if fs_path = [] then []
      else relative_loop (map (\<lambda>c. if c = backslash then slash else c) fs_path) [])"

definition join_dest_dir :: "path_ops \<Rightarrow> string \<Rightarrow> string \<Rightarrow> string" where
  "join_dest_dir po dest rel = (if rel = [] then dest else po_normal po (po_append po dest rel))"

section \<open>uniqueDestPath\<close>

text \<open>
  \<open>stem\<close> and \<open>extension\<close> of a file name, which holds no separator: the split is at the last
  dot, unless that is the first character.
\<close>

definition extension_of :: "string \<Rightarrow> string" where
  "extension_of s =
     (let tail = takeWhile (\<lambda>c. c \<noteq> dot) (rev s)
      in if s = ''.'' \<or> s = ''..'' \<or> length s \<le> length tail + 1 then [] else dot # rev tail)"

definition stem_of :: "string \<Rightarrow> string" where
  "stem_of s = take (length s - length (extension_of s)) s"

definition candidate :: "path_ops \<Rightarrow> string \<Rightarrow> string \<Rightarrow> nat \<Rightarrow> string" where
  "candidate po dest base n =
     po_append po dest (stem_of base @ ''_'' @ dec_string n @ extension_of base)"

text \<open>\<open>exists\<close> is the state of the file system; the empty result is failure.\<close>

definition unique_dest_path :: "path_ops \<Rightarrow> (string \<Rightarrow> bool) \<Rightarrow> string \<Rightarrow> string \<Rightarrow> string" where
  "unique_dest_path po exists_file dest name =
     (let base = safe_basename po name; first = po_append po dest base
      in if \<not> exists_file first then first
         else case find (\<lambda>n. \<not> exists_file (candidate po dest base n)) [1..<10000] of
                Some n \<Rightarrow> candidate po dest base n
              | None \<Rightarrow> [])"

definition has_path_prefix :: "string \<Rightarrow> string \<Rightarrow> bool" where
  "has_path_prefix p s \<longleftrightarrow> take (length p) s = p"

definition dest_dir_is_safe :: "path_ops \<Rightarrow> string \<Rightarrow> bool" where
  "dest_dir_is_safe po dest =
     (if dest = [] then False
      else if \<not> po_absolute po dest then False
      else if list_ex (\<lambda>part. part = ''..'') (po_parts po dest) then False
      else let lower = map to_lower (po_normal po dest)
           in \<not> has_path_prefix (''c:'' @ backslash # ''windows'') lower
              \<and> \<not> has_path_prefix (''c:'' @ backslash # ''program files'') lower
              \<and> \<not> has_path_prefix (''c:'' @ backslash # ''program files (x86)'') lower)"

section \<open>Safe names\<close>

definition tail_ok :: "string \<Rightarrow> bool" where
  "tail_ok s \<longleftrightarrow> s \<noteq> [] \<and> last s \<noteq> dot \<and> last s \<noteq> CHR '' ''"

lemma strip_tail_ok: "strip_tail s \<noteq> [] \<Longrightarrow> tail_ok (strip_tail s)"
proof -
  assume ne: "strip_tail s \<noteq> []"
  then have "last (strip_tail s) = hd (dropWhile (\<lambda>c. c = dot \<or> c = CHR '' '') (rev s))"
    by (simp add: strip_tail_def last_rev)
  moreover have "dropWhile (\<lambda>c. c = dot \<or> c = CHR '' '') (rev s) \<noteq> []" using ne by (simp add: strip_tail_def)
  ultimately show ?thesis using ne hd_dropWhile [of "\<lambda>c. c = dot \<or> c = CHR '' ''" "rev s"] by (auto simp: tail_ok_def)
qed

lemma set_strip_tail: "set (strip_tail s) \<subseteq> set s"
  by (auto simp: strip_tail_def dest: set_dropWhileD)

lemma replace_chars_free: "CHR ''_'' \<notin> set bad \<Longrightarrow> set (replace_chars bad s) \<inter> set bad = {}"
  by (auto simp: replace_chars_def split: if_splits)

lemma underscore_allowed: "CHR ''_'' \<notin> set forbidden" "CHR ''_'' \<notin> set forbidden_in_segment"
  by (simp_all add: forbidden_def forbidden_in_segment_def slash_def backslash_def quote_def char_of_def)

lemma before_dot_append: "dot \<notin> set a \<Longrightarrow> before_dot (a @ b) = a @ before_dot b"
  by (induction a) (auto simp: before_dot_def)

lemma dot_before_dot [simp]: "dot \<notin> set (before_dot s)"
  by (auto simp: before_dot_def dest: set_takeWhileD)

lemma before_dot_split: "before_dot s @ dropWhile (\<lambda>c. c \<noteq> dot) s = s"
  by (simp add: before_dot_def)

lemma before_dot_rest [simp]: "before_dot (dropWhile (\<lambda>c. c \<noteq> dot) s) = []"
  by (induction s) (simp_all add: before_dot_def)

lemma reserved_short: "is_reserved_windows_name s \<Longrightarrow> length (before_dot s) \<le> 4 \<and> CHR ''_'' \<notin> set (before_dot s)"
proof -
  assume "is_reserved_windows_name s"
  then have "map to_upper (before_dot s) \<in> set reserved_names"
    by (auto simp: is_reserved_windows_name_def Let_def list_ex_iff split: if_splits)
  moreover have "\<forall>r \<in> set reserved_names. length r \<le> 4 \<and> CHR ''_'' \<notin> set r"
    by (simp add: reserved_names_def)
  moreover have "to_upper (CHR ''_'') = CHR ''_''" by (simp add: to_upper_def code_between_def)
  ultimately show ?thesis by (metis image_eqI length_map list.set_map)
qed

lemma suffix_not_reserved:
  "dot \<notin> set a \<Longrightarrow> dot \<notin> set b \<Longrightarrow> 4 < length a + length b \<or> CHR ''_'' \<in> set a \<union> set b \<Longrightarrow>
    \<not> is_reserved_windows_name (a @ b @ dropWhile (\<lambda>c. c \<noteq> dot) s)"
  using reserved_short [of "a @ b @ dropWhile (\<lambda>c. c \<noteq> dot) s"] by (auto simp: before_dot_append)

definition name_ok :: "string \<Rightarrow> bool" where
  "name_ok s \<longleftrightarrow> tail_ok s \<and> set s \<inter> set forbidden = {} \<and> \<not> is_reserved_windows_name s"

lemma forbidden_suffixes: "set ''_file'' \<inter> set forbidden = {}" "set ''_dir'' \<inter> set forbidden = {}"
  "set ''recovered_file.bin'' \<inter> set forbidden = {}" "dot \<notin> set forbidden" "dot \<notin> set ''_file''" "dot \<notin> set ''_dir''"
  by (simp_all add: forbidden_def slash_def backslash_def quote_def dot_def char_of_def)

lemma safe_basename_ok: "name_ok (safe_basename po name)"
proof -
  define base where "base = strip_tail (replace_chars forbidden (po_filename po name))"
  have clean: "set base \<inter> set forbidden = {}"
    using set_strip_tail [of "replace_chars forbidden (po_filename po name)"] replace_chars_free [OF underscore_allowed(1)]
    by (auto simp: base_def)
  have unnamed: "name_ok ''recovered_file.bin''"
    using forbidden_suffixes by (simp add: name_ok_def tail_ok_def is_reserved_windows_name_def before_dot_def
      reserved_names_def dot_def to_upper_def code_between_def)
  have safe: "safe_basename po name =
    (if base = [] \<or> base = ''.'' \<or> base = ''..'' then ''recovered_file.bin''
     else if is_reserved_windows_name base then before_dot base @ ''_file'' @ dropWhile (\<lambda>c. c \<noteq> dot) base else base)"
    by (simp add: safe_basename_def base_def Let_def)
  show ?thesis
  proof (cases "base = [] \<or> base = ''.'' \<or> base = ''..''")
    case True
    then show ?thesis using unnamed by (auto simp: safe)
  next
    case False
    then have tail: "tail_ok base" unfolding base_def by (intro strip_tail_ok) simp
    show ?thesis
    proof (cases "is_reserved_windows_name base")
      case reserved: True
      have "set (before_dot base @ ''_file'' @ dropWhile (\<lambda>c. c \<noteq> dot) base) \<subseteq> set base \<union> set ''_file''"
        by (auto simp: before_dot_def dest: set_takeWhileD set_dropWhileD)
      then have "set (before_dot base @ ''_file'' @ dropWhile (\<lambda>c. c \<noteq> dot) base) \<inter> set forbidden = {}"
        using clean forbidden_suffixes(1) by blast
      moreover have "\<not> is_reserved_windows_name (before_dot base @ ''_file'' @ dropWhile (\<lambda>c. c \<noteq> dot) base)"
        by (rule suffix_not_reserved) (simp_all add: forbidden_suffixes(5) [simplified])
      moreover have "tail_ok (before_dot base @ ''_file'' @ dropWhile (\<lambda>c. c \<noteq> dot) base)"
      proof (cases "dropWhile (\<lambda>c. c \<noteq> dot) base = []")
        case True
        then show ?thesis by (simp add: tail_ok_def dot_def)
      next
        case False
        then have "last (dropWhile (\<lambda>c. c \<noteq> dot) base) = last base"
          using before_dot_split [of base] by (metis last_appendR)
        then show ?thesis using tail False by (auto simp: tail_ok_def)
      qed
      ultimately show ?thesis using False reserved by (simp add: safe name_ok_def)
    next
      case False2: False
      then show ?thesis using False tail clean by (auto simp: safe name_ok_def)
    qed
  qed
qed

lemma join_facts: "set (a @ b) \<inter> set forbidden = {} \<longleftrightarrow> set a \<inter> set forbidden = {} \<and> set b \<inter> set forbidden = {}"
  by auto

text \<open>The parts of a name.\<close>

lemma extension_suffix: "\<exists>stem. s = stem @ extension_of s" and stem_extension: "stem_of s @ extension_of s = s"
proof -
  have "extension_of s = [] \<or> (\<exists>stem. s = stem @ extension_of s)"
  proof (cases "extension_of s = []")
    case False
    define tail where "tail = takeWhile (\<lambda>c. c \<noteq> dot) (rev s)"
    have ext: "extension_of s = dot # rev tail" and len: "length tail < length s"
      using False by (auto simp: extension_of_def tail_def Let_def split: if_splits)
    have "rev s = tail @ dropWhile (\<lambda>c. c \<noteq> dot) (rev s)" by (simp add: tail_def)
    moreover have "dropWhile (\<lambda>c. c \<noteq> dot) (rev s) \<noteq> []" using len calculation by (metis append_Nil2 length_rev less_irrefl)
    moreover from this have "hd (dropWhile (\<lambda>c. c \<noteq> dot) (rev s)) = dot" using hd_dropWhile by blast
    ultimately have "rev s = tail @ dot # tl (dropWhile (\<lambda>c. c \<noteq> dot) (rev s))" by (metis list.collapse)
    then have "s = rev (tail @ dot # tl (dropWhile (\<lambda>c. c \<noteq> dot) (rev s)))" by (metis rev_rev_ident)
    then show ?thesis unfolding ext by (metis append.assoc append_Cons append_Nil rev.simps(2) rev_append)
  qed simp
  then show "\<exists>stem. s = stem @ extension_of s" by auto
  then obtain st where "s = st @ extension_of s" by blast
  then have "take (length s - length (extension_of s)) s = st" by (metis append_eq_conv_conj diff_add_inverse2 length_append)
  then show "stem_of s @ extension_of s = s" using \<open>s = st @ extension_of s\<close> by (simp add: stem_of_def)
qed

lemma dec_string_in_digits: "set (dec_string n) \<subseteq> set (map char_of [48..<58 :: nat])" "dec_string n \<noteq> []"
proof -
  have "set (dec_string n) \<subseteq> set (map char_of [48..<58 :: nat]) \<and> dec_string n \<noteq> []"
  proof (induction n rule: dec_string.induct)
    case (1 n)
    have digit: "d < 10 \<Longrightarrow> dec_digit d \<in> set (map char_of [48..<58 :: nat])" for d
      by (auto simp: dec_digit_def)
    show ?case
    proof (cases "n < 10")
      case True
      then show ?thesis using digit [of n] by (subst (1 2) dec_string.simps) simp
    next
      case False
      then show ?thesis using 1 digit [of "n mod 10"] by (subst (1 2) dec_string.simps) simp
    qed
  qed
  then show "set (dec_string n) \<subseteq> set (map char_of [48..<58 :: nat])" "dec_string n \<noteq> []" by simp_all
qed

lemma digits_harmless: "c \<in> set (map char_of [48..<58 :: nat]) \<Longrightarrow> c \<notin> set forbidden \<and> c \<noteq> dot \<and> c \<noteq> CHR '' ''"
proof -
  have "\<forall>c \<in> set (map char_of [48..<58 :: nat]). c \<notin> set forbidden \<and> c \<noteq> dot \<and> c \<noteq> CHR '' ''"
    by (simp add: upt_rec forbidden_def slash_def backslash_def quote_def dot_def char_of_def)
  then show "c \<in> set (map char_of [48..<58 :: nat]) \<Longrightarrow> c \<notin> set forbidden \<and> c \<noteq> dot \<and> c \<noteq> CHR '' ''" by blast
qed

lemma candidate_name_ok:
  assumes "name_ok base"
  shows "name_ok (stem_of base @ ''_'' @ dec_string n @ extension_of base)" (is "name_ok ?c")
proof -
  have parts: "set (stem_of base) \<union> set (extension_of base) = set base"
    using stem_extension [of base] by (metis set_append)
  have digits: "set (dec_string n) \<inter> set forbidden = {}" "dot \<notin> set (dec_string n)" "last (dec_string n) \<noteq> dot" "last (dec_string n) \<noteq> CHR '' ''"
    using dec_string_in_digits [of n] digits_harmless by (auto dest!: last_in_set)
  have "CHR ''_'' \<notin> set forbidden" by (rule underscore_allowed)
  then have "set ?c \<inter> set forbidden = {}"
    using parts digits(1) assms by (auto simp: name_ok_def)
  moreover have "tail_ok ?c"
  proof (cases "extension_of base = []")
    case True
    then show ?thesis using digits dec_string_in_digits(2) [of n] by (simp add: tail_ok_def)
  next
    case False
    then have "last ?c = last base" using stem_extension [of base] by (metis append_is_Nil_conv last_appendR)
    then show ?thesis using assms by (simp add: name_ok_def tail_ok_def)
  qed
  moreover have "\<not> is_reserved_windows_name ?c"
  proof (cases "dot \<in> set (stem_of base)")
    case True
    have "before_dot (stem_of base @ x) = before_dot (stem_of base)" for x
      using True by (simp add: before_dot_def takeWhile_append1)
    then have "before_dot ?c = before_dot base" using stem_extension [of base] by metis
    then show ?thesis using assms by (simp add: name_ok_def is_reserved_windows_name_def)
  next
    case False
    then have "CHR ''_'' \<in> set (before_dot ?c)"
      using digits(2) by (simp add: before_dot_append before_dot_append [of "''_''", simplified] dot_def)
    then show ?thesis using reserved_short by blast
  qed
  ultimately show ?thesis by (simp add: name_ok_def)
qed

lemma unique_dest_path_fresh:
  "unique_dest_path po ex dest name = []
    \<or> \<not> ex (unique_dest_path po ex dest name)
      \<and> (\<exists>f. unique_dest_path po ex dest name = po_append po dest f \<and> name_ok f)"
proof -
  define base where "base = safe_basename po name"
  have ok: "name_ok base" by (simp add: base_def safe_basename_ok)
  show ?thesis
  proof (cases "find (\<lambda>n. \<not> ex (candidate po dest base n)) [1..<10000]")
    case None
    then show ?thesis using ok by (auto simp: unique_dest_path_def base_def [symmetric] Let_def)
  next
    case (Some n)
    then have "\<not> ex (candidate po dest base n)" by (auto simp: find_Some_iff)
    moreover have "candidate po dest base n = po_append po dest (stem_of base @ ''_'' @ dec_string n @ extension_of base)"
      by (simp add: candidate_def)
    ultimately show ?thesis
      using Some ok candidate_name_ok [OF ok, of n]
      by (cases "ex (po_append po dest base)")
        (simp add: unique_dest_path_def base_def [symmetric] Let_def del: upt_rec_numeral, blast,
         auto simp: unique_dest_path_def base_def [symmetric] Let_def)
  qed
qed


section \<open>Rebuilt directories\<close>

definition segment_ok :: "string \<Rightarrow> bool" where
  "segment_ok s \<longleftrightarrow> tail_ok s \<and> set s \<inter> set forbidden = {} \<and> (is_reserved_windows_name s \<longrightarrow> dot \<in> set s)"

lemma segment_Some_ok:
  assumes "segment seg = Some s" "slash \<notin> set seg" "backslash \<notin> set seg"
  shows "segment_ok s"
proof -
  define t where "t = strip_tail (replace_chars forbidden_in_segment seg)"
  have s: "t \<noteq> []" "s = (if is_reserved_windows_name t then t @ ''_dir'' else t)"
    using assms(1) by (auto simp: segment_def t_def Let_def split: if_splits)
  have "set (replace_chars forbidden_in_segment seg) \<subseteq> insert (CHR ''_'') (set seg)"
    by (auto simp: replace_chars_def)
  moreover have "CHR ''_'' \<noteq> slash" "CHR ''_'' \<noteq> backslash" using underscore_allowed(1) by (auto simp: forbidden_def)
  moreover have "set forbidden = {slash, backslash} \<union> set forbidden_in_segment"
    by (simp add: forbidden_def forbidden_in_segment_def insert_commute)
  ultimately have clean: "set t \<inter> set forbidden = {}"
    using set_strip_tail [of "replace_chars forbidden_in_segment seg"] replace_chars_free [OF underscore_allowed(2), of seg] assms(2,3)
    unfolding t_def by auto
  have tail: "tail_ok t" using s(1) unfolding t_def by (rule strip_tail_ok)
  show ?thesis
  proof (cases "is_reserved_windows_name t")
    case True
    have "\<not> is_reserved_windows_name (t @ ''_dir'')" if "dot \<notin> set (t @ ''_dir'')"
      using that reserved_short [of "t @ ''_dir''"] before_dot_append [of "t @ ''_dir''" "[]"] by (auto simp: before_dot_def)
    moreover have "set (t @ ''_dir'') \<inter> set forbidden = {}"
      using clean forbidden_suffixes(2) unfolding join_facts by simp
    moreover have "tail_ok (t @ ''_dir'')" by (simp add: tail_ok_def dot_def)
    ultimately show ?thesis using True by (auto simp: s(2) segment_ok_def)
  next
    case False
    then show ?thesis using clean tail by (simp add: s(2) segment_ok_def)
  qed
qed

fun join_segments :: "string list \<Rightarrow> string" where
  "join_segments [] = []"
| "join_segments [s] = s"
| "join_segments (s # t # ss) = s @ slash # join_segments (t # ss)"

lemma join_segments_snoc:
  "ss \<noteq> [] \<Longrightarrow> join_segments (ss @ [s]) = join_segments ss @ slash # s"
proof (induction ss rule: join_segments.induct)
  case (3 a b ss)
  then show ?case by simp
qed simp_all

lemma join_segments_empty: "list_all segment_ok ss \<Longrightarrow> join_segments ss = [] \<longleftrightarrow> ss = []"
  by (induction ss rule: join_segments.induct) (auto simp: segment_ok_def tail_ok_def)

lemma relative_loop_segments:
  assumes "backslash \<notin> set rest" "list_all segment_ok ss"
  shows "\<exists>ts. relative_loop rest (join_segments ss) = join_segments (ss @ ts) \<and> list_all segment_ok ts"
  using assms
proof (induction "length rest" arbitrary: rest ss rule: less_induct)
  case less
  show ?case
  proof (cases "rest = []")
    case True
    then show ?thesis by (intro exI [of _ "[]"]) (simp add: relative_loop.simps)
  next
    case False
    define seg where "seg = takeWhile (\<lambda>c. c \<noteq> slash) rest"
    define rest' where "rest' = drop (length seg + 1) rest"
    have shorter: "length rest' < length rest" using False by (simp add: rest'_def)
    have clean: "slash \<notin> set seg" "backslash \<notin> set seg" "backslash \<notin> set rest'"
      using less.prems(1) by (auto simp: seg_def rest'_def dest: set_takeWhileD in_set_dropD)
    show ?thesis
    proof (cases "segment seg")
      case None
      then have "relative_loop rest (join_segments ss) = relative_loop rest' (join_segments ss)"
        using False by (subst relative_loop.simps) (simp add: seg_def rest'_def Let_def)
      then show ?thesis using less.hyps [OF shorter clean(3) less.prems(2)] by simp
    next
      case (Some s)
      have ok: "segment_ok s" using segment_Some_ok [OF Some clean(1,2)] .
      have "relative_loop rest (join_segments ss) =
        relative_loop rest' ((if join_segments ss \<noteq> [] then join_segments ss @ [slash] else join_segments ss) @ s)"
        using False Some by (subst relative_loop.simps) (simp add: seg_def rest'_def Let_def)
      also have "(if join_segments ss \<noteq> [] then join_segments ss @ [slash] else join_segments ss) @ s = join_segments (ss @ [s])"
        using join_segments_empty [OF less.prems(2)] join_segments_snoc [of ss s] by (cases "ss = []") simp_all
      finally have "relative_loop rest (join_segments ss) = relative_loop rest' (join_segments (ss @ [s]))" .
      moreover obtain ts where "relative_loop rest' (join_segments (ss @ [s])) = join_segments ((ss @ [s]) @ ts)" "list_all segment_ok ts"
        using less.hyps [OF shorter clean(3), of "ss @ [s]"] less.prems(2) ok by auto
      ultimately show ?thesis using ok by (intro exI [of _ "s # ts"]) simp
    qed
  qed
qed

text \<open>The rebuilt directory of a recovered file never leaves the destination: for every path in
  the evidence the result is a relative path, the join of segments none of which is empty, ".."
  or ".", or holds a separator, drive colon or wildcard, or ends in a dot or blank; a segment is
  not a device name unless it contains a dot.\<close>

lemma safe_relative_dir_stays_inside:
  "\<exists>ss. safe_relative_dir p = join_segments ss \<and> list_all segment_ok ss"
proof -
  have "backslash \<notin> set (map (\<lambda>c. if c = backslash then slash else c) p)"
    by (auto simp: slash_def backslash_def char_of_def)
  then have "\<exists>ts. relative_loop (map (\<lambda>c. if c = backslash then slash else c) p) (join_segments []) = join_segments ([] @ ts) \<and> list_all segment_ok ts"
    by (rule relative_loop_segments) simp
  then obtain ts where "relative_loop (map (\<lambda>c. if c = backslash then slash else c) p) [] = join_segments ts" "list_all segment_ok ts"
    by auto
  then show ?thesis by (cases "p = []") (auto simp: safe_relative_dir_def intro: exI [of _ "[]"])
qed

text \<open>The exception is real: the suffix goes after the extension, and the part before the first
  dot stays the device name.\<close>

lemma reserved_segment_with_extension: "segment ''nul.x'' = Some ''nul.x_dir''"
  "is_reserved_windows_name ''nul.x_dir''"
  by code_simp+

end
