(* ===== verification/Path_Rebuild.thy ===== *)
theory Path_Rebuild
  imports Prelude
begin

text \<open>
  The index of directory entries from which the paths of NTFS files are rebuilt
  (fs/ntfs\_path\_rebuild.cpp): what evidence about a record survives, and what a rebuilt path
  is, cycles among the parents included.
\<close>

record mft_dir_entry =
  de_parent :: nat
  de_name :: string
  de_in_use :: bool
  de_is_dir :: bool
  de_confidence :: int

record mft_index =
  mi_entries :: "nat \<rightharpoonup> mft_dir_entry"
  mi_hints :: "string \<rightharpoonup> int"

definition root_mft :: nat where "root_mft = 5"

definition empty_index :: mft_index where
  "empty_index = \<lparr>mi_entries = Map.empty, mi_hints = Map.empty\<rparr>"

definition put_file_record :: "mft_index \<Rightarrow> nat \<Rightarrow> nat \<Rightarrow> string \<Rightarrow> bool \<Rightarrow> bool \<Rightarrow> mft_index" where
  "put_file_record ix rec parent name in_use is_dir =
     (if rec = 0 \<or> name = [] then ix
      else let e = \<lparr>de_parent = parent, de_name = name, de_in_use = in_use, de_is_dir = is_dir,
                    de_confidence = (if in_use then 85 else 70)\<rparr>
           in case mi_entries ix rec of
                None \<Rightarrow> ix\<lparr>mi_entries := (mi_entries ix)(rec \<mapsto> e)\<rparr>
              | Some old \<Rightarrow>
                  if de_confidence old \<le> de_confidence e
                  then ix\<lparr>mi_entries := (mi_entries ix)(rec \<mapsto> e)\<rparr> else ix)"

definition put_indx_hint :: "mft_index \<Rightarrow> nat \<Rightarrow> nat \<Rightarrow> string \<Rightarrow> mft_index" where
  "put_indx_hint ix rec parent name =
     (if rec = 0 \<or> name = [] then ix
      else let e = \<lparr>de_parent = parent, de_name = name, de_in_use = False, de_is_dir = False, de_confidence = 55\<rparr>
           in case mi_entries ix rec of
                None \<Rightarrow> ix\<lparr>mi_entries := (mi_entries ix)(rec \<mapsto> e)\<rparr>
              | Some old \<Rightarrow>
                  if 60 \<le> de_confidence old then ix else ix\<lparr>mi_entries := (mi_entries ix)(rec \<mapsto> e)\<rparr>)"

definition put_log_name_hint :: "mft_index \<Rightarrow> string \<Rightarrow> mft_index" where
  "put_log_name_hint ix name =
     (if name = [] \<or> 240 < length name then ix else ix\<lparr>mi_hints := (mi_hints ix)(name \<mapsto> 40)\<rparr>)"

definition lookup_entry :: "mft_index \<Rightarrow> nat \<Rightarrow> mft_dir_entry option" where
  "lookup_entry ix mft = mi_entries ix mft"

definition has_record :: "mft_index \<Rightarrow> nat \<Rightarrow> bool" where
  "has_record ix rec = (mi_entries ix rec \<noteq> None)"

definition record_name :: "mft_index \<Rightarrow> nat \<Rightarrow> string" where
  "record_name ix rec = (case lookup_entry ix rec of None \<Rightarrow> [] | Some e \<Rightarrow> de_name e)"

definition indx_only :: "mft_index \<Rightarrow> (nat \<times> mft_dir_entry) set" where
  "indx_only ix = {(k, e). mi_entries ix k = Some e \<and> de_confidence e < 60}"

text \<open>The loop of \<open>rebuildPath\<close>; the first argument is the number of steps that are left of 64.\<close>

fun path_loop :: "nat \<Rightarrow> mft_index \<Rightarrow> nat \<Rightarrow> string \<Rightarrow> nat \<Rightarrow> int \<Rightarrow> string \<times> nat \<times> int" where
  "path_loop 0 ix cur path depth conf = (path, depth, conf)"
| "path_loop (Suc k) ix cur path depth conf =
     (if cur = 0 \<or> cur = root_mft then (path, depth, conf)
      else case lookup_entry ix cur of
        None \<Rightarrow> (path, depth, conf)
      | Some e \<Rightarrow>
          if de_name e = [] then (path, depth, conf)
          else path_loop k ix (de_parent e) (de_name e @ ''/'' @ path) (depth + 1) (min conf (de_confidence e)))"

text \<open>The confidence is computed and discarded; the record number is not used.\<close>

definition hint_confidence :: "mft_index \<Rightarrow> string \<Rightarrow> nat \<Rightarrow> int \<Rightarrow> int" where
  "hint_confidence ix file_name depth conf =
     (if depth = 0 \<and> mi_hints ix \<noteq> Map.empty \<and> CHR ''/'' \<in> set file_name
         \<and> mi_hints ix (takeWhile (\<lambda>c. c \<noteq> CHR ''/'') file_name) \<noteq> None
      then min conf 40 else conf)"

definition rebuild_path :: "mft_index \<Rightarrow> nat \<Rightarrow> string \<Rightarrow> nat \<Rightarrow> string" where
  "rebuild_path ix rec file_name parent =
     (if file_name = [] then ''/''
      else let (path, depth, conf) = path_loop 64 ix parent file_name 0 100;
               unused = hint_confidence ix file_name depth conf
           in if path = [] \<or> hd path \<noteq> CHR ''/'' then ''/'' @ path else path)"

section \<open>Sequences of observations\<close>

datatype index_op =
    FileRecord nat nat string bool bool
  | IndxHint nat nat string
  | LogHint string

fun index_step :: "mft_index \<Rightarrow> index_op \<Rightarrow> mft_index" where
  "index_step ix (FileRecord rec parent name in_use is_dir) = put_file_record ix rec parent name in_use is_dir"
| "index_step ix (IndxHint rec parent name) = put_indx_hint ix rec parent name"
| "index_step ix (LogHint name) = put_log_name_hint ix name"

text \<open>The evidence an observation gives about a record.\<close>

fun evidence :: "nat \<Rightarrow> index_op \<Rightarrow> mft_dir_entry list" where
  "evidence r (FileRecord rec parent name in_use is_dir) =
     (if rec = r \<and> rec \<noteq> 0 \<and> name \<noteq> [] then
        [\<lparr>de_parent = parent, de_name = name, de_in_use = in_use, de_is_dir = is_dir,
          de_confidence = (if in_use then 85 else 70)\<rparr>] else [])"
| "evidence r (IndxHint rec parent name) =
     (if rec = r \<and> rec \<noteq> 0 \<and> name \<noteq> [] then
        [\<lparr>de_parent = parent, de_name = name, de_in_use = False, de_is_dir = False, de_confidence = 55\<rparr>] else [])"
| "evidence r (LogHint name) = []"

text \<open>The last of the most confident ones.\<close>

fun best :: "mft_dir_entry list \<Rightarrow> mft_dir_entry option" where
  "best [] = None"
| "best (e # es) =
     (case best es of None \<Rightarrow> Some e
      | Some b \<Rightarrow> if de_confidence e \<le> de_confidence b then Some b else Some e)"

definition pick :: "mft_dir_entry option \<Rightarrow> mft_dir_entry option \<Rightarrow> mft_dir_entry option" where
  "pick a b = (case (a, b) of (None, _) \<Rightarrow> b | (_, None) \<Rightarrow> a
     | (Some x, Some y) \<Rightarrow> if de_confidence x \<le> de_confidence y then Some y else Some x)"

lemma pick_None [simp]: "pick None b = b" "pick a None = a"
  by (cases a; simp add: pick_def)+

lemma pick_assoc: "pick (pick a b) c = pick a (pick b c)"
  by (cases a; cases b; cases c) (auto simp: pick_def)

lemma best_append: "best (xs @ ys) = pick (best xs) (best ys)"
proof (induction xs)
  case (Cons x xs)
  have step: "best (x # zs) = pick (Some x) (best zs)" for zs by (cases "best zs") (simp_all add: pick_def)
  show ?case using Cons by (simp only: append_Cons step pick_assoc)
qed simp

definition confidence_levels :: "mft_index \<Rightarrow> bool" where
  "confidence_levels ix \<longleftrightarrow> (\<forall>r e. mi_entries ix r = Some e \<longrightarrow>
     r \<noteq> 0 \<and> de_name e \<noteq> [] \<and> de_confidence e \<in> {55, 70, 85})"

lemma index_step_levels: "confidence_levels ix \<Longrightarrow> confidence_levels (index_step ix op)"
  by (cases op) (auto simp: confidence_levels_def put_file_record_def put_indx_hint_def put_log_name_hint_def
    Let_def split: option.splits if_splits)

lemma index_step_picks:
  assumes "confidence_levels ix"
  shows "mi_entries (index_step ix op) r = pick (mi_entries ix r) (best (evidence r op))"
proof (cases "mi_entries ix r")
  case None
  then show ?thesis
    by (cases op) (auto simp: put_file_record_def put_indx_hint_def put_log_name_hint_def Let_def split: option.splits)
next
  case (Some e)
  then have "de_confidence e \<in> {55, 70, 85}" using assms by (simp add: confidence_levels_def)
  then show ?thesis using Some
    by (cases op) (auto simp: put_file_record_def put_indx_hint_def put_log_name_hint_def Let_def pick_def split: option.splits)
qed

text \<open>The index keeps for every record the last of the most confident observations about it,
  in whatever order records, hints and log names arrive: an index entry never displaces a parsed
  record, a free record never displaces one in use.\<close>

lemma index_keeps_best_evidence:
  "mi_entries (foldl index_step empty_index ops) r = best (concat (map (evidence r) ops))"
proof -
  have "mi_entries (foldl index_step empty_index ops) r = best (concat (map (evidence r) ops))
      \<and> confidence_levels (foldl index_step empty_index ops)"
  proof (induction ops rule: rev_induct)
    case Nil
    then show ?case by (simp add: empty_index_def confidence_levels_def)
  next
    case (snoc op ops)
    then show ?case by (simp add: index_step_picks index_step_levels best_append)
  qed
  then show ?thesis by blast
qed

section \<open>Rebuilt paths\<close>

text \<open>The directories that a path shows: those above the file up to the root, an unknown
  directory or the 64th.\<close>

fun ancestors :: "nat \<Rightarrow> mft_index \<Rightarrow> nat \<Rightarrow> string list" where
  "ancestors 0 ix cur = []"
| "ancestors (Suc k) ix cur =
     (if cur = 0 \<or> cur = root_mft \<or> record_name ix cur = [] then []
      else ancestors k ix (de_parent (the (lookup_entry ix cur))) @ [record_name ix cur])"

definition directory_text :: "string list \<Rightarrow> string" where
  "directory_text ds = concat (map (\<lambda>d. d @ ''/'') ds)"

lemma path_loop_ancestors: "fst (path_loop k ix cur path depth conf) = directory_text (ancestors k ix cur) @ path"
  by (induction k arbitrary: cur path depth conf)
    (auto simp: record_name_def directory_text_def split: option.split)

lemma length_ancestors: "length (ancestors k ix cur) \<le> k"
  by (induction k arbitrary: cur) auto

text \<open>Rebuilding a path always returns, also when the parents form a cycle: it is the text of at
  most 64 directories and the file name, made absolute; each name is the one of the index.\<close>

lemma rebuild_path_text:
  "let ds = ancestors 64 ix parent; text = directory_text ds @ file_name in
     length ds \<le> 64 \<and> hd (rebuild_path ix rec file_name parent) = CHR ''/''
     \<and> rebuild_path ix rec file_name parent =
         (if file_name = [] then ''/'' else if hd text = CHR ''/'' then text else CHR ''/'' # text)"
proof -
  have "fst (path_loop 64 ix parent file_name 0 100) = directory_text (ancestors 64 ix parent) @ file_name"
    by (rule path_loop_ancestors)
  then show ?thesis
    using length_ancestors [of 64 ix parent]
    by (cases "path_loop 64 ix parent file_name 0 100") (auto simp: rebuild_path_def Let_def)
qed

end
