(* ===== verification/Recovery_Validation.thy ===== *)
theory Recovery_Validation
  imports Path_Util File_Record
begin

unbundle bit_operations_syntax

text \<open>
  What is checked after a file has been written (recovery/validation.cpp), and the ReFS checksums
  (fs/refs\_integrity.cpp).  The file system is a map from paths to file contents; the format
  validators and the repair of damaged formats, which are code of the carver, are arguments.
\<close>

type_synonym file_system = "string \<rightharpoonup> buf"

datatype carve_format = Jpeg | Png | Zip | Pdf | Gzip | Riff | Bmp | MpegTs | Sqlite | Mp4

text \<open>
  \<open>en_opens\<close> and \<open>en_reads\<close> say which paths can be opened for writing and for reading,
  \<open>en_other\<close> which paths exist and are not files.
\<close>

record recovery_env =
  en_path :: path_ops
  en_parent :: "string \<Rightarrow> string"
  en_opens :: "string \<Rightarrow> bool"
  en_reads :: "string \<Rightarrow> bool"
  en_other :: "string \<Rightarrow> bool"
  en_validator :: "carve_format \<Rightarrow> buf \<Rightarrow> int"
  en_fix_jpeg :: "buf \<Rightarrow> buf option"
  en_fix_pdf :: "buf \<Rightarrow> buf option"
  en_fix_zip :: "buf \<Rightarrow> buf option"

record recovery_result =
  rr_success :: bool
  rr_dest :: string
  rr_bytes :: nat
  rr_error :: string
  rr_md5 :: string
  rr_zero_filled :: bool
  rr_score :: int
  rr_verror :: string
  rr_repaired :: string

definition new_recovery :: recovery_result where
  "new_recovery = \<lparr>rr_success = False, rr_dest = [], rr_bytes = 0, rr_error = [], rr_md5 = [],
     rr_zero_filled = False, rr_score = -1, rr_verror = [], rr_repaired = []\<rparr>"

definition counts_as_recovered :: "recovery_result \<Rightarrow> bool" where
  "counts_as_recovered r \<longleftrightarrow> rr_success r \<and> \<not> rr_zero_filled r"

definition path_exists :: "recovery_env \<Rightarrow> file_system \<Rightarrow> string \<Rightarrow> bool" where
  "path_exists env fs p \<longleftrightarrow> fs p \<noteq> None \<or> en_other env p"

definition read_file :: "recovery_env \<Rightarrow> file_system \<Rightarrow> string \<Rightarrow> buf option" where
  "read_file env fs p = (if en_reads env p then fs p else None)"

section \<open>Sources and formats\<close>

definition discovery_sources :: "string list" where
  "discovery_sources =
     [''apfs_volume'', ''apfs_container'', ''apfs_file'', ''apfs_omap_deleted'', ''bitlocker_detect'',
      ''bitlocker_fve'', ''luks_detect'', ''spaces_detect'', ''vss_unbound'', ''vss_bind'', ''vss_snapshot'',
      ''hfs_limit'', ''hfs_vh'', ''hfs_vol_name'', ''hfs_catalog_unread'', ''hfs_linear_unread'',
      ''apfs_nxsb_unread'', ''apfs_block_unread'', ''apfs_linear_unread'', ''apfs_catalog_unread'',
      ''usn_journal'', ''usn_unread'', ''ntfs_logfile'', ''ntfs_logfile_restart'', ''ntfs_logfile_unread'',
      ''ntfs_recycle_meta'', ''ntfs_i30'', ''ntfs_i30_unalloc'', ''ntfs_i30_unread'', ''ntfs_mft_unread'',
      ''ntfs_efs'', ''ntfs_object_id'', ''ntfs_vol_name'', ''Folder'', ''refs_volume'', ''refs_supb_unread'',
      ''refs_page_unread'', ''fat_dir_unread'', ''fat_chain_unread'', ''fat_vol_label'', ''iso9660_vol_id'',
      ''exfat_vol_label'', ''udf_vol_id'', ''udf_pvd_id'', ''udf_fsd_id'', ''ext4_dir_unread'', ''ext4_journal'',
      ''ext4_journal_unread'', ''ext4_vol_name'', ''xfs_dir_unread'', ''xfs_sb_unread'', ''xfs_inode_unread'',
      ''xfs_bmap_unread'', ''xfs_vol_name'', ''unalloc_map_unread'', ''probe_unread'', ''carver_unread'',
      ''carver_duplicate'']"

definition is_discovery_source :: "string \<Rightarrow> bool" where
  "is_discovery_source s = list_ex (\<lambda>d. s = d) discovery_sources"

definition carve_record_source :: "string \<Rightarrow> bool" where
  "carve_record_source s \<longleftrightarrow> s = ''carver'' \<or> s = ''carver_bgc''"

definition is_metadata_recover_source :: "string \<Rightarrow> bool" where
  "is_metadata_recover_source s =
     (if s = [] \<or> carve_record_source s then False else if is_discovery_source s then False else True)"

definition zip_extensions :: "string list" where
  "zip_extensions = [''zip'', ''docx'', ''xlsx'', ''pptx'', ''odt'', ''ods'', ''odp'', ''epub'', ''jar'']"

definition dispatch_format :: "string \<Rightarrow> carve_format option" where
  "dispatch_format ext =
     (if ext = ''jpg'' \<or> ext = ''jpeg'' then Some Jpeg
      else if ext = ''png'' then Some Png
      else if ext \<in> set zip_extensions then Some Zip
      else if ext = ''pdf'' then Some Pdf
      else if ext = ''gz'' \<or> ext = ''gzip'' \<or> ext = ''tgz'' then Some Gzip
      else if ext = ''riff'' then Some Riff
      else if ext = ''bmp'' then Some Bmp
      else if ext = ''ts'' then Some MpegTs
      else if ext = ''sqlite'' \<or> ext = ''db'' then Some Sqlite
      else if ext \<in> {''mp4'', ''mov'', ''m4v'', ''m4a'', ''qt'', ''3gp''} then Some Mp4
      else None)"

definition dispatch_validator :: "recovery_env \<Rightarrow> string \<Rightarrow> buf \<Rightarrow> int" where
  "dispatch_validator env ext data =
     (case dispatch_format ext of Some f \<Rightarrow> en_validator env f data | None \<Rightarrow> -1)"

definition validate_carved_buffer :: "recovery_env \<Rightarrow> string \<Rightarrow> buf \<Rightarrow> int" where
  "validate_carved_buffer env ext data =
     (if data = [] then 0
      else let score = dispatch_validator env ext data in if score < 0 then 0 else score)"

definition has_structural_validator :: "string \<Rightarrow> bool" where
  "has_structural_validator ext = list_ex (\<lambda>e. ext = e)
     [''jpg'', ''jpeg'', ''png'', ''zip'', ''docx'', ''xlsx'', ''pptx'', ''odt'', ''ods'', ''odp'', ''epub'', ''jar'',
      ''pdf'', ''gz'', ''gzip'', ''tgz'', ''riff'', ''bmp'', ''ts'', ''sqlite'', ''db'', ''mp4'', ''mov'', ''m4v'',
      ''m4a'', ''qt'', ''3gp'']"

definition needs_tail_sample :: "string \<Rightarrow> bool" where
  "needs_tail_sample ext = list_ex (\<lambda>e. ext = e)
     [''zip'', ''docx'', ''xlsx'', ''pptx'', ''odt'', ''ods'', ''odp'', ''epub'', ''jar'', ''pdf'']"

definition extension_from_record :: "file_record \<Rightarrow> string" where
  "extension_from_record fr =
     (let e = fr_extension fr;
          e' = map to_lower (if e \<noteq> [] \<and> hd e = dot then tl e else e)
      in if e' \<noteq> [] then e'
         else if dot \<in> set (fr_name fr)
              then map to_lower (rev (takeWhile (\<lambda>c. c \<noteq> dot) (rev (fr_name fr))))
              else [])"

section \<open>The checks\<close>

definition check_size_consistency :: "file_record \<Rightarrow> recovery_result \<Rightarrow> recovery_result" where
  "check_size_consistency fr r =
     (if fr_size fr = 0 \<or> rr_bytes r = 0 then r
      else if fr_size fr \<le> rr_bytes r then r
      else let pct = w64 (rr_bytes r * 100) div fr_size fr;
               partial = ''partial recovery: '' @ dec_string (rr_bytes r) @ '' / '' @ dec_string (fr_size fr) @ '' bytes'';
               r1 = r\<lparr>rr_verror := (if rr_verror r = [] then partial else rr_verror r @ ''; '' @ partial)\<rparr>;
               r2 = (if rr_score r1 < 0 \<or> int pct < rr_score r1 then r1\<lparr>rr_score := int pct\<rparr> else r1)
           in if fr_status fr = 0 \<and> is_metadata_recover_source (fr_source fr) \<and> pct < 90
              then r2\<lparr>rr_success := False, rr_error := (if rr_error r2 = [] then partial else rr_error r2)\<rparr>
              else r2)"

text \<open>The bytes that a validator is given: the first MiB and, for some formats, the last 64 KiB.\<close>

definition validation_sample :: "string \<Rightarrow> buf \<Rightarrow> buf" where
  "validation_sample ext data =
     (let head = take (2 ^ 20) data
      in if needs_tail_sample ext \<and> length head < length data
         then head @ drop (if 65536 < length data then length data - 65536 else 0) data
         else head)"

definition validate_recovered_structure ::
  "recovery_env \<Rightarrow> file_system \<Rightarrow> file_record \<Rightarrow> recovery_result \<Rightarrow> recovery_result" where
  "validate_recovered_structure env fs fr r =
     (case read_file env fs (if rr_repaired r = [] then rr_dest r else rr_repaired r) of
        None \<Rightarrow> r\<lparr>rr_score := 0, rr_verror := ''could not reopen recovered file''\<rparr>
      | Some data \<Rightarrow>
          if data = [] then r\<lparr>rr_score := 0, rr_verror := ''empty recovered file'', rr_success := False\<rparr>
          else let ext = extension_from_record fr
               in if \<not> has_structural_validator ext then r
                  else let score = validate_carved_buffer env ext (validation_sample ext data);
                           r1 = r\<lparr>rr_score := score\<rparr>
                       in if 0 \<le> score \<and> score < 60
                          then r1\<lparr>rr_verror := (if rr_verror r1 = [] then ''structure validation failed''
                                    else rr_verror r1 @ ''; structure validation failed''), rr_success := False\<rparr>
                          else r1)"

section \<open>Repaired copies\<close>

definition write_repaired_sidecar ::
  "recovery_env \<Rightarrow> file_system \<Rightarrow> recovery_result \<Rightarrow> buf \<Rightarrow> file_system \<times> recovery_result" where
  "write_repaired_sidecar env fs r data =
     (let file = po_filename (en_path env) (rr_dest r);
          name = stem_of file @ ''_repaired'' @ extension_of file;
          path = unique_dest_path (en_path env) (path_exists env fs) (en_parent env (rr_dest r)) name
      in if path = [] then (fs, r)
         else if \<not> en_opens env path then (fs, r)
         else (fs(path \<mapsto> data), r\<lparr>rr_repaired := path\<rparr>))"

text \<open>The three repairs share one shape: files of some extensions, at most 16 MiB.\<close>

definition repair_on_disk ::
  "recovery_env \<Rightarrow> (buf \<Rightarrow> buf option) \<Rightarrow> string list \<Rightarrow> file_record \<Rightarrow> file_system \<times> recovery_result
    \<Rightarrow> file_system \<times> recovery_result" where
  "repair_on_disk env repair exts fr s =
     (let (fs, r) = s
      in if extension_from_record fr \<notin> set exts then s
         else if rr_dest r = [] then s
         else case read_file env fs (rr_dest r) of
                None \<Rightarrow> s
              | Some data \<Rightarrow>
                  if data = [] \<or> 2 ^ 24 < length data then s
                  else case repair data of None \<Rightarrow> s | Some fixed \<Rightarrow> write_repaired_sidecar env fs r fixed)"

definition maybe_append_jpeg_eoi where
  "maybe_append_jpeg_eoi env = repair_on_disk env (en_fix_jpeg env) [''jpg'', ''jpeg'']"

definition maybe_rebuild_pdf_xref where
  "maybe_rebuild_pdf_xref env = repair_on_disk env (en_fix_pdf env) [''pdf'']"

definition maybe_rebuild_zip_directory where
  "maybe_rebuild_zip_directory env = repair_on_disk env (en_fix_zip env) zip_extensions"

section \<open>ReFS checksums\<close>

definition crc64_bit :: "u64 \<Rightarrow> u64" where
  "crc64_bit crc =
     (if crc AND 0x8000000000000000 \<noteq> 0 then push_bit 1 crc XOR 0x42F0E1EBA9EA3693 else push_bit 1 crc)"

definition crc64_byte :: "byte \<Rightarrow> u64 \<Rightarrow> u64" where
  "crc64_byte b crc = (crc64_bit ^^ 8) (crc XOR push_bit 56 (ucast b))"

definition refs_crc64 :: "buf \<Rightarrow> u64" where
  "refs_crc64 data = fold crc64_byte data 0"

definition crc32c_bit :: "u32 \<Rightarrow> u32" where
  "crc32c_bit crc = (if crc AND 1 \<noteq> 0 then 0x82F63B78 XOR drop_bit 1 crc else drop_bit 1 crc)"

definition crc32c_table :: "u32 list" where
  "crc32c_table = map (\<lambda>i. (crc32c_bit ^^ 8) (word_of_nat i)) [0..<256]"

definition crc32c_byte :: "byte \<Rightarrow> u32 \<Rightarrow> u32" where
  "crc32c_byte b crc = crc32c_table ! unat ((crc XOR ucast b) AND 0xFF) XOR drop_bit 8 crc"

definition refs_crc32c :: "buf \<Rightarrow> u32" where
  "refs_crc32c data = fold crc32c_byte data 0xFFFFFFFF XOR 0xFFFFFFFF"

definition refs_crc32c_skip4 :: "buf \<Rightarrow> nat \<Rightarrow> u32" where
  "refs_crc32c_skip4 data skip =
     fold (\<lambda>i crc. if skip \<le> i \<and> i < skip + 4 then crc else crc32c_byte (data ! i) crc) [0..<length data] 0xFFFFFFFF
       XOR 0xFFFFFFFF"

definition refs_crc32c_skip4_matches :: "buf \<Rightarrow> nat \<Rightarrow> bool" where
  "refs_crc32c_skip4_matches data skip \<longleftrightarrow>
     skip + 4 \<le> length data \<and> unat (refs_crc32c_skip4 data skip) = le_nat (slice skip 4 data)"

datatype refs_checksum_type = NoChecksum | Crc32C | Crc64Ecma

definition verify_refs_checksum :: "refs_checksum_type \<Rightarrow> buf \<Rightarrow> nat \<Rightarrow> nat \<Rightarrow> u64 \<Rightarrow> bool" where
  "verify_refs_checksum t data start stop stored =
     (if stop < start \<or> length data < stop then False
      else case t of
        Crc32C \<Rightarrow> refs_crc32c (slice start (stop - start) data) = ucast stored
      | Crc64Ecma \<Rightarrow> refs_crc64 (slice start (stop - start) data) = stored
      | NoChecksum \<Rightarrow> False)"

text \<open>The confidence when the page carries a checksum.\<close>

definition try_verify_page :: "buf \<Rightarrow> int option" where
  "try_verify_page page =
     (if length page < 56 then None
      else let stored = word_of_nat (le_nat (slice 48 8 page)) :: u64
           in if stored = 0 then None
              else Some (if verify_refs_checksum Crc64Ecma page 0 48 stored then 95 else 35))"

section \<open>applyPostRecoveryValidation\<close>

definition apply_post_recovery_validation ::
  "recovery_env \<Rightarrow> file_system \<Rightarrow> file_record \<Rightarrow> recovery_result \<Rightarrow> file_system \<times> recovery_result" where
  "apply_post_recovery_validation env fs fr r =
     (if \<not> rr_success r \<or> rr_dest r = [] then (fs, r)
      else let (fs1, r1) = maybe_rebuild_zip_directory env fr (maybe_rebuild_pdf_xref env fr (maybe_append_jpeg_eoi env fr (fs, r)));
               r2 = check_size_consistency fr r1
           in if fr_source fr = ''refs'' \<and> fr_checksum fr \<noteq> 0 \<and> fr_resident fr \<noteq> []
              then if unat (refs_crc64 (fr_resident fr)) \<noteq> fr_checksum fr
                   then (fs1, r2\<lparr>rr_score := 15, rr_verror := ''ReFS integrity checksum mismatch'', rr_success := False\<rparr>)
                   else (fs1, r2\<lparr>rr_score := 90\<rparr>)
              else if carve_record_source (fr_source fr) \<or> is_metadata_recover_source (fr_source fr)
              then (fs1, validate_recovered_structure env fs1 fr r2)
              else (fs1, r2))"

section \<open>What validation may change\<close>

text \<open>Everything that describes the written file stays; success can only be taken back.\<close>

definition same_output :: "recovery_result \<Rightarrow> recovery_result \<Rightarrow> bool" where
  "same_output r' r \<longleftrightarrow> rr_dest r' = rr_dest r \<and> rr_bytes r' = rr_bytes r \<and> rr_md5 r' = rr_md5 r
     \<and> rr_zero_filled r' = rr_zero_filled r \<and> (rr_success r' \<longrightarrow> rr_success r)"

definition extends :: "file_system \<times> recovery_result \<Rightarrow> file_system \<times> recovery_result \<Rightarrow> bool" where
  "extends s' s \<longleftrightarrow> fst s \<subseteq>\<^sub>m fst s' \<and> same_output (snd s') (snd s)"

lemma extends_refl [simp]: "extends s s"
  by (simp add: extends_def same_output_def)

lemma extends_trans [trans]: "extends a b \<Longrightarrow> extends b c \<Longrightarrow> extends a c"
  by (auto simp: extends_def same_output_def intro: map_le_trans)

lemma fresh_update: "\<not> path_exists env fs p \<Longrightarrow> fs \<subseteq>\<^sub>m fs(p \<mapsto> data)"
  by (auto simp: map_le_def path_exists_def)

lemma unique_path_new:
  "unique_dest_path po (path_exists env fs) dest name \<noteq> [] \<Longrightarrow>
    \<not> path_exists env fs (unique_dest_path po (path_exists env fs) dest name)"
  using unique_dest_path_fresh by blast

lemma sidecar_extends: "extends (write_repaired_sidecar env fs r data) (fs, r)"
proof -
  define name where "name = stem_of (po_filename (en_path env) (rr_dest r)) @ ''_repaired'' @ extension_of (po_filename (en_path env) (rr_dest r))"
  define path where "path = unique_dest_path (en_path env) (path_exists env fs) (en_parent env (rr_dest r)) name"
  have "fs \<subseteq>\<^sub>m fs(path \<mapsto> data)" if "path \<noteq> []"
    using that unfolding path_def by (intro fresh_update [where env = env] unique_path_new)
  then show ?thesis
    by (simp only: write_repaired_sidecar_def Let_def name_def [symmetric] path_def [symmetric])
      (simp add: extends_def same_output_def)
qed

lemma repair_extends: "extends (repair_on_disk env repair exts fr s) s"
  by (cases s) (auto simp: repair_on_disk_def Let_def sidecar_extends split: option.split)

lemma size_check_extends: "extends (fs, check_size_consistency fr r) (fs, r)"
  by (simp add: check_size_consistency_def extends_def same_output_def Let_def)

lemma structure_extends: "extends (fs, validate_recovered_structure env fs' fr r) (fs, r)"
  by (simp add: validate_recovered_structure_def extends_def same_output_def Let_def split: option.split)

lemma validation_extends: "extends (apply_post_recovery_validation env fs fr r) (fs, r)"
proof (cases "\<not> rr_success r \<or> rr_dest r = []")
  case True
  then show ?thesis by (simp add: apply_post_recovery_validation_def)
next
  case False
  obtain fs1 r1 where repaired: "maybe_rebuild_zip_directory env fr (maybe_rebuild_pdf_xref env fr (maybe_append_jpeg_eoi env fr (fs, r))) = (fs1, r1)"
    using prod.exhaust by blast
  have "extends (fs1, r1) (fs, r)"
    unfolding repaired [symmetric] maybe_rebuild_zip_directory_def maybe_rebuild_pdf_xref_def maybe_append_jpeg_eoi_def
    using repair_extends extends_trans by blast
  then have sized: "extends (fs1, check_size_consistency fr r1) (fs, r)"
    using size_check_extends extends_trans by blast
  moreover have "extends (fs1, validate_recovered_structure env fs1 fr (check_size_consistency fr r1)) (fs, r)"
    using structure_extends sized extends_trans by blast
  moreover have "extends (fs1, r2\<lparr>rr_score := a, rr_verror := b, rr_success := False\<rparr>) (fs, r)"
    "extends (fs1, r2\<lparr>rr_score := a\<rparr>) (fs, r)" if "extends (fs1, r2) (fs, r)" for r2 a b
    using that by (simp_all add: extends_def same_output_def)
  ultimately show ?thesis
    using False by (simp add: apply_post_recovery_validation_def repaired Let_def)
qed

section \<open>The checksum sees every changed byte\<close>

lemma crc64_bit_inj: "crc64_bit a = crc64_bit b \<Longrightarrow> a = b"
proof -
  assume eq: "crc64_bit a = crc64_bit b"
  have top: "c AND 0x8000000000000000 \<noteq> 0 \<longleftrightarrow> bit c 63" for c :: u64
  proof -
    have "(0x8000000000000000 :: u64) = 2 ^ 63" by simp
    then show ?thesis by (simp only: and_exp_eq_0_iff_not_bit not_not)
  qed
  have shift: "\<not> bit (push_bit 1 c) 0" "n < 63 \<Longrightarrow> bit (push_bit 1 c) (Suc n) = bit c n" for c :: u64 and n
    by (simp_all only: bit_push_bit_iff) simp_all
  have poly: "bit (0x42F0E1EBA9EA3693 :: u64) 0" by simp
  have low: "bit (crc64_bit c) 0 \<longleftrightarrow> bit c 63" for c
    by (cases "bit c 63") (simp_all only: crc64_bit_def top if_True if_False bit_xor_iff shift poly, simp_all)
  have rest: "bit (crc64_bit c) (Suc n) \<longleftrightarrow> (bit c n \<noteq> (bit c 63 \<and> bit (0x42F0E1EBA9EA3693 :: u64) (Suc n)))" if "n < 63" for c n
    using that by (cases "bit c 63") (simp_all only: crc64_bit_def top if_True if_False bit_xor_iff shift, simp_all)
  have same: "bit a 63 = bit b 63" using low [of a] low [of b] eq by simp
  have "bit a n = bit b n" if "n < 63" for n
    using rest [OF that, of a] rest [OF that, of b] by (simp only: eq same) blast
  then have "bit a n = bit b n" if "n < 64" for n
    using same that by (cases "n = 63") simp_all
  then show "a = b" by (intro bit_word_eqI) simp
qed

lemma crc64_bits_inj: "(crc64_bit ^^ n) a = (crc64_bit ^^ n) b \<Longrightarrow> a = b"
  by (induction n) (auto dest: crc64_bit_inj)

lemma crc64_byte_inj: "crc64_byte b c = crc64_byte b' c' \<longleftrightarrow> c XOR push_bit 56 (ucast b) = c' XOR push_bit 56 (ucast b')"
  unfolding crc64_byte_def by (rule iffI, erule crc64_bits_inj, simp)

lemma xor_right_cancel: "c XOR d = c' XOR d \<longleftrightarrow> c = c'" for c c' d :: "'a::len word"
proof
  assume eq: "c XOR d = c' XOR d"
  show "c = c'"
  proof (rule bit_word_eqI)
    fix n
    have "bit (c XOR d) n = bit (c' XOR d) n" by (rule arg_cong [OF eq])
    then show "bit c n = bit c' n" by (simp only: bit_xor_iff) blast
  qed
qed simp

lemma crc64_byte_differs: "crc64_byte b c = crc64_byte b' c \<Longrightarrow> b = b'"
proof -
  assume "crc64_byte b c = crc64_byte b' c"
  then have eq: "push_bit 56 (ucast b :: u64) = push_bit 56 (ucast b')"
    unfolding crc64_byte_inj by (simp only: xor.commute [of c] xor_right_cancel)
  have "bit b n = bit b' n" if "n < 8" for n
    using arg_cong [OF eq, of "\<lambda>x. bit x (n + 56)"] that by (simp add: bit_simps)
  then show "b = b'" by (intro bit_word_eqI) simp
qed

lemma fold_crc64_inj: "fold crc64_byte bs c = fold crc64_byte bs c' \<Longrightarrow> c = c'"
proof (induction bs arbitrary: c c')
  case (Cons b bs)
  then have "crc64_byte b c = crc64_byte b c'" by simp
  then show ?case by (simp only: crc64_byte_inj xor_right_cancel)
qed simp

text \<open>The ReFS checksum sees every change of one byte: two blocks that differ in at most one
  place have the same checksum only if they are equal.\<close>

lemma refs_crc64_sees_changed_byte:
  "refs_crc64 (pre @ b # post) = refs_crc64 (pre @ b' # post) \<longleftrightarrow> b = b'"
  by (auto simp: refs_crc64_def dest: fold_crc64_inj crc64_byte_differs)

end
