(* ===== verification/Recovery_Engine.thy ===== *)
theory Recovery_Engine
  imports Recovery_Validation Sector_Reads Virtual_Raid Digests Lznt1
begin

text \<open>
  The recovery of files (recovery/recovery\_engine.cpp): from resident data, from data runs, from
  compressed runs and by carving, with the stop flag, the file system and the digest.  \<open>None\<close> is
  undefined behaviour: a read behind the buffer, an overrun of the decompressor, or a loop that
  does not end.  \<open>running\<close> is what the k-th test of the stop flag sees.  Streams that were opened
  accept all bytes, since the code does not test them after writing.
\<close>

text \<open>What a session of recoveries shares.\<close>

record recovery_world =
  w_fs :: file_system
  w_reader :: reader
  w_tick :: nat

type_synonym recovery_outcome = "(recovery_world \<times> recovery_result) option"

definition tick :: "recovery_world \<Rightarrow> recovery_world" where
  "tick w = w\<lparr>w_tick := w_tick w + 1\<rparr>"

definition read_chunk :: nat where "read_chunk = 2 ^ 20"
definition max_claim_bytes :: nat where "max_claim_bytes = 16 * 2 ^ 30"

text \<open>The sentinel of a run without clusters.\<close>

definition is_sparse :: "data_run \<Rightarrow> bool" where
  "is_sparse run \<longleftrightarrow> run_start run = - 1"

definition run_phys :: "nat \<Rightarrow> data_run \<Rightarrow> nat" where
  "run_phys ss run = unat (run_count run * word_of_nat ss)"

section \<open>Shared steps\<close>

definition apply_unique_path :: "recovery_env \<Rightarrow> file_system \<Rightarrow> string \<Rightarrow> string \<Rightarrow> recovery_result \<Rightarrow> recovery_result \<times> bool" where
  "apply_unique_path env fs dest name r =
     (let r1 = r\<lparr>rr_dest := unique_dest_path (en_path env) (path_exists env fs) dest name\<rparr>
      in if rr_dest r1 = [] then (r1\<lparr>rr_error := ''too many name collisions in destination''\<rparr>, False)
         else (r1, True))"

definition finish_recover_write ::
  "recovery_env \<Rightarrow> recovery_world \<Rightarrow> recovery_result \<Rightarrow> nat \<Rightarrow> string \<Rightarrow> file_record \<Rightarrow> bool
    \<Rightarrow> recovery_world \<times> recovery_result" where
  "finish_recover_write env w r n md5 fr cancelled =
     (let r1 = r\<lparr>rr_bytes := n, rr_md5 := md5\<rparr>
      in if cancelled \<and> n < fr_size fr
         then (w, r1\<lparr>rr_success := False, rr_error := (if rr_error r1 = [] then ''recovery cancelled; output is incomplete'' else rr_error r1)\<rparr>)
         else if rr_zero_filled r1
         then (w, r1\<lparr>rr_success := False, rr_error := (if rr_error r1 = [] then ''short or padded read; output is incomplete'' else rr_error r1)\<rparr>)
         else let (fs, r2) = apply_post_recovery_validation env (w_fs w) fr (r1\<lparr>rr_success := True\<rparr>)
              in (w\<lparr>w_fs := fs\<rparr>, r2))"

fun run_span :: "nat \<Rightarrow> nat \<Rightarrow> bool \<Rightarrow> data_run list \<Rightarrow> nat \<Rightarrow> nat" where
  "run_span ss start_byte first [] span = span"
| "run_span ss start_byte first (run # rs) span =
     run_span ss start_byte False rs (w64 (span + data_run_payload run ss (if first then start_byte else 0)))"

definition evidence_clamped_size :: "file_record \<Rightarrow> nat \<Rightarrow> nat" where
  "evidence_clamped_size fr ss =
     (let cap = (if fr_runs fr \<noteq> [] then min max_claim_bytes (run_span ss (fr_start_byte fr) True (fr_runs fr) 0)
                 else max_claim_bytes)
      in min (fr_size fr) cap)"

section \<open>The output of one file\<close>

text \<open>\<open>bytesWritten\<close> is the length of \<open>o_bytes\<close>, what was written to the stream so far.\<close>

record out_file =
  o_bytes :: buf
  o_md5 :: md5_ctx
  o_zero :: bool

definition new_output :: out_file where
  "new_output = \<lparr>o_bytes = [], o_md5 = md5_new, o_zero = False\<rparr>"

definition emit :: "buf \<Rightarrow> out_file \<Rightarrow> out_file" where
  "emit bs out = out\<lparr>o_bytes := o_bytes out @ bs, o_md5 := md5_update (o_md5 out) bs\<rparr>"

definition written :: "out_file \<Rightarrow> nat" where
  "written out = length (o_bytes out)"

definition output_md5 :: "out_file \<Rightarrow> string" where
  "output_md5 out = snd (md5_final_hex (o_md5 out))"

text \<open>The zeros of a sparse run.\<close>

function zero_loop :: "(nat \<Rightarrow> bool) \<Rightarrow> nat \<Rightarrow> nat \<Rightarrow> recovery_world \<times> out_file \<Rightarrow> recovery_world \<times> out_file" where
  "zero_loop running to_zero zeroed (w, out) =
     (if zeroed < to_zero then
        if \<not> running (w_tick w) then (tick w, out)
        else let n = min read_chunk (to_zero - zeroed)
             in zero_loop running to_zero (zeroed + n) (tick w, emit (replicate n 0) out)
      else (w, out))"
  by pat_completeness auto
termination
  by (relation "measure (\<lambda>(_, to_zero, zeroed, _). to_zero - zeroed)") (auto simp: read_chunk_def)

declare zero_loop.simps [simp del]

text \<open>The chunks of one run.  The pool buffer holds \<open>read_chunk\<close> bytes.\<close>

definition chunk_size :: "nat \<Rightarrow> nat \<Rightarrow> nat" where
  "chunk_size ss remain = w32 (w32 (min read_chunk remain + ss + (2 ^ 32 - 1)) div ss * ss)"

partial_function (option) run_loop ::
  "sector_reader \<Rightarrow> (nat \<Rightarrow> bool) \<Rightarrow> nat \<Rightarrow> nat \<Rightarrow> nat \<Rightarrow> nat \<Rightarrow> nat \<Rightarrow> recovery_world \<Rightarrow> buf \<Rightarrow> out_file
    \<Rightarrow> (recovery_world \<times> buf \<times> out_file) option" where
  "run_loop rd running ss off n limit got w pool out =
     (if \<not> (got < n \<and> written out < limit) then Some (w, pool, out)
      else if \<not> running (w_tick w) then Some (tick w, pool, out)
      else let remain_run = n - got; remain_file = limit - written out; to_read = chunk_size ss remain_run
           in if length pool < to_read then None
              else Option.bind (rd (w_reader w) (w64 (off + got)) to_read pool) (\<lambda>(r', res, pool').
                let w' = (tick w)\<lparr>w_reader := r'\<rparr>
                in if \<not> success res \<or> bytes_read res = 0
                   then let m = min to_read (min remain_file remain_run)
                        in run_loop rd running ss off n limit (got + m) w' pool'
                             ((emit (replicate m 0) out)\<lparr>o_zero := True\<rparr>)
                   else let m = min (bytes_read res) (min remain_file remain_run)
                        in if length pool' < m then None
                           else run_loop rd running ss off n limit (got + m) w' pool'
                             ((emit (take m pool') out)\<lparr>o_zero := o_zero out \<or> padded_zeros res\<rparr>)))"

primrec data_runs_loop ::
  "sector_reader \<Rightarrow> (nat \<Rightarrow> bool) \<Rightarrow> nat \<Rightarrow> nat \<Rightarrow> nat \<Rightarrow> bool \<Rightarrow> data_run list \<Rightarrow> recovery_world \<Rightarrow> buf \<Rightarrow> out_file
    \<Rightarrow> (recovery_world \<times> out_file) option" where
  "data_runs_loop rd running ss limit start_byte first [] w pool out = Some (w, out)"
| "data_runs_loop rd running ss limit start_byte first (run # rs) w pool out =
     (if \<not> running (w_tick w) then Some (tick w, out)
      else if limit \<le> written out then Some (tick w, out)
      else let skip = (if first \<and> 0 < start_byte \<and> \<not> is_sparse run then min start_byte (run_phys ss run) else 0);
               n = data_run_payload run ss skip
           in if is_sparse run
              then let (w', out') = zero_loop running (min (data_run_payload run ss 0) (limit - written out)) 0 (tick w, out)
                   in data_runs_loop rd running ss limit start_byte False rs w' pool out'
              else Option.bind (run_loop rd running ss (w64 (unat (run_start run) * ss + skip)) n limit 0 (tick w) pool out)
                (\<lambda>(w', pool', out'). data_runs_loop rd running ss limit start_byte False rs w' pool' out'))"

section \<open>Compressed runs\<close>

definition max_compressed :: nat where "max_compressed = 64 * 2 ^ 20"
definition max_inflate :: nat where "max_inflate = 2 ^ 30"

fun compressed_length :: "nat \<Rightarrow> data_run list \<Rightarrow> nat \<Rightarrow> nat" where
  "compressed_length ss [] n = n"
| "compressed_length ss (run # rs) n =
     compressed_length ss rs (if is_sparse run then n else w64 (n + run_phys ss run))"

text \<open>The compressed bytes of all runs, in a buffer of the compressed length and a sector.\<close>

primrec gather_loop ::
  "sector_reader \<Rightarrow> (nat \<Rightarrow> bool) \<Rightarrow> nat \<Rightarrow> nat \<Rightarrow> data_run list \<Rightarrow> nat \<Rightarrow> recovery_world \<Rightarrow> buf \<Rightarrow> bool
    \<Rightarrow> (recovery_world \<times> nat \<times> buf \<times> bool) option" where
  "gather_loop rd running ss clen [] filled w cbuf zero = Some (w, filled, cbuf, zero)"
| "gather_loop rd running ss clen (run # rs) filled w cbuf zero =
     (if \<not> running (w_tick w) then Some (tick w, filled, cbuf, zero)
      else if is_sparse run
      then let m = min (run_phys ss run) (clen - filled)
           in gather_loop rd running ss clen rs (filled + m) (tick w) (splice filled (replicate m 0) cbuf) zero
      else let want = min (run_phys ss run) (clen - filled)
           in if want = 0 then Some (tick w, filled, cbuf, zero)
              else let len = w32 ((want + ss - 1) div ss * ss)
                   in if length cbuf < filled + len then None
                      else Option.bind (rd (w_reader w) (w64 (unat (run_start run) * ss)) len (drop filled cbuf))
                        (\<lambda>(r', res, tail).
                          let w' = (tick w)\<lparr>w_reader := r'\<rparr>; cbuf' = take filled cbuf @ tail
                          in if \<not> success res \<or> bytes_read res < want \<or> padded_zeros res
                             then gather_loop rd running ss clen rs (filled + want) w' (splice filled (replicate want 0) cbuf') True
                             else gather_loop rd running ss clen rs (filled + want) w' cbuf' zero))"

definition with_file :: "recovery_world \<Rightarrow> recovery_result \<Rightarrow> buf \<Rightarrow> recovery_world" where
  "with_file w r bs = w\<lparr>w_fs := (w_fs w)(rr_dest r \<mapsto> bs)\<rparr>"

definition recover_compressed ::
  "recovery_env \<Rightarrow> sector_reader \<Rightarrow> (nat \<Rightarrow> bool) \<Rightarrow> nat \<Rightarrow> nat \<Rightarrow> recovery_world \<Rightarrow> file_record \<Rightarrow> recovery_result
    \<Rightarrow> recovery_outcome" where
  "recover_compressed env rd running ss limit w fr r =
     (let clen = compressed_length ss (fr_runs fr) 0
      in if 0 < clen \<and> clen \<le> max_compressed
         then do {
           (w1, filled, cbuf, zero) \<leftarrow> gather_loop rd running ss clen (fr_runs fr) 0 w (replicate (clen + ss) 0) False;
           let r1 = r\<lparr>rr_zero_filled := zero\<rparr>;
           (inflated, out_len) \<leftarrow> lznt1_decompress (take filled cbuf) (replicate (max (min limit max_inflate) 4096) 0);
           if 0 \<le> out_len
           then (let n = min limit (nat out_len)
                 in if length inflated < n then None
                    else let bs = take n inflated
                         in Some (finish_recover_write env (tick (with_file w1 r1 bs)) r1 n (md5_hex bs) fr (\<not> running (w_tick w1))))
           else Some (with_file w1 r1 [], r1\<lparr>rr_error := ''NTFS LZNT1 decompression failed'', rr_success := False\<rparr>)
         }
         else Some (with_file w r [], r\<lparr>rr_success := False,
           rr_error := ''compressed stream too large to inflate (>64 MiB cap); raw bytes not written''\<rparr>))"

section \<open>Carved files\<close>

function carve_loop ::
  "sector_reader \<Rightarrow> (nat \<Rightarrow> bool) \<Rightarrow> nat \<Rightarrow> nat \<Rightarrow> recovery_world \<Rightarrow> buf \<Rightarrow> out_file \<Rightarrow> (recovery_world \<times> out_file) option" where
  "carve_loop rd running start limit w pool out =
     (if \<not> written out < limit then Some (w, out)
      else if \<not> running (w_tick w) then Some (tick w, out)
      else let to_read = min read_chunk (limit - written out)
           in case read_bytes_via rd (w_reader w) (w64 (start + written out)) to_read pool of
                None \<Rightarrow> None
              | Some (r', res, pool') \<Rightarrow>
                  let w' = (tick w)\<lparr>w_reader := r'\<rparr>
                  in if \<not> success res \<or> bytes_read res = 0
                     then carve_loop rd running start limit w' pool'
                            ((emit (replicate (min to_read (limit - written out)) 0) out)\<lparr>o_zero := True\<rparr>)
                     else let m = min (bytes_read res) (limit - written out)
                          in if length pool' < m then None
                             else carve_loop rd running start limit w' pool'
                               ((emit (take m pool') out)\<lparr>o_zero := o_zero out \<or> padded_zeros res\<rparr>))"
  by pat_completeness auto
termination
  by (relation "measure (\<lambda>(_, _, _, limit, _, _, out). limit - written out)")
    (auto simp: written_def emit_def read_chunk_def min_def)

declare carve_loop.simps [simp del]

definition open_error :: "recovery_result \<Rightarrow> recovery_result" where
  "open_error r = r\<lparr>rr_error := ''Could not open destination file: '' @ rr_dest r\<rparr>"

definition finish_output ::
  "recovery_env \<Rightarrow> (nat \<Rightarrow> bool) \<Rightarrow> recovery_world \<Rightarrow> recovery_result \<Rightarrow> out_file \<Rightarrow> file_record \<Rightarrow> recovery_world \<times> recovery_result" where
  "finish_output env running w r out fr =
     finish_recover_write env (tick (with_file w r (o_bytes out))) (r\<lparr>rr_zero_filled := o_zero out\<rparr>)
       (written out) (output_md5 out) fr (\<not> running (w_tick w))"

text \<open>The reading part of \<open>recoverCarvedFile\<close>, once the destination is open.\<close>

definition carve_into ::
  "recovery_env \<Rightarrow> sector_reader \<Rightarrow> (nat \<Rightarrow> bool) \<Rightarrow> recovery_world \<Rightarrow> file_record \<Rightarrow> recovery_result \<Rightarrow> recovery_outcome" where
  "carve_into env rd running w fr r =
     (let ss = (if sector_size (w_reader w) = 0 then 512 else sector_size (w_reader w));
          start = w64 (fr_start fr * ss + fr_start_byte fr);
          disk = get_disk_size (w_reader w);
          medium_cap = (if start < disk then disk - start else 0);
          limit = min (fr_size fr) (min max_claim_bytes medium_cap)
      in map_option (\<lambda>(w', out). finish_output env running w' r out fr)
           (carve_loop rd running start limit w (replicate read_chunk 0) new_output))"

text \<open>The common part: a fresh destination that can be opened.\<close>

definition with_destination ::
  "recovery_env \<Rightarrow> recovery_world \<Rightarrow> string \<Rightarrow> string \<Rightarrow> (recovery_result \<Rightarrow> recovery_outcome) \<Rightarrow> recovery_outcome" where
  "with_destination env w dest name body =
     (let (r, fresh) = apply_unique_path env (w_fs w) dest name new_recovery
      in if \<not> fresh then Some (w, r)
         else if \<not> en_opens env (rr_dest r) then Some (w, open_error r)
         else body r)"

definition recover_carved_file ::
  "recovery_env \<Rightarrow> sector_reader \<Rightarrow> (nat \<Rightarrow> bool) \<Rightarrow> recovery_world \<Rightarrow> file_record \<Rightarrow> string \<Rightarrow> recovery_outcome" where
  "recover_carved_file env rd running w fr dest =
     (if \<not> dest_dir_is_safe (en_path env) dest
      then Some (w, new_recovery\<lparr>rr_error := ''unsafe destination directory''\<rparr>)
      else if \<not> is_open (w_reader w) \<and> raid (w_reader w) = None
      then Some (w, new_recovery\<lparr>rr_error := ''Disk is not open''\<rparr>)
      else if is_discovery_source (fr_source fr)
      then Some (w, new_recovery\<lparr>rr_error := ''discovery-only record; no recoverable data''\<rparr>)
      else with_destination env w dest (fr_name fr) (carve_into env rd running w fr))"

section \<open>recoverFile and the batch\<close>

definition recover_resident :: "recovery_env \<Rightarrow> recovery_world \<Rightarrow> file_record \<Rightarrow> recovery_result \<Rightarrow> recovery_world \<times> recovery_result" where
  "recover_resident env w fr r =
     (let n = (if 0 < fr_size fr then min (length (fr_resident fr)) (fr_size fr) else length (fr_resident fr));
          bs = take n (fr_resident fr);
          (fs, r1) = apply_post_recovery_validation env ((w_fs w)(rr_dest r \<mapsto> bs)) fr
                       (r\<lparr>rr_success := True, rr_bytes := n, rr_md5 := md5_hex bs\<rparr>)
      in (w\<lparr>w_fs := fs\<rparr>, r1))"

definition runs_into ::
  "recovery_env \<Rightarrow> sector_reader \<Rightarrow> (nat \<Rightarrow> bool) \<Rightarrow> recovery_world \<Rightarrow> file_record \<Rightarrow> recovery_result \<Rightarrow> recovery_outcome" where
  "runs_into env rd running w fr r =
     (let ss = (if sector_size (w_reader w) = 0 then 512 else sector_size (w_reader w));
          limit = evidence_clamped_size fr ss
      in if fr_compressed fr then recover_compressed env rd running ss limit w fr r
         else map_option (\<lambda>(w', out). finish_output env running w' r out fr)
           (data_runs_loop rd running ss limit (fr_start_byte fr) True (fr_runs fr) w (replicate read_chunk 0) new_output))"

definition recover_file ::
  "recovery_env \<Rightarrow> sector_reader \<Rightarrow> (nat \<Rightarrow> bool) \<Rightarrow> recovery_world \<Rightarrow> file_record \<Rightarrow> string \<Rightarrow> recovery_outcome" where
  "recover_file env rd running w fr dest =
     (if \<not> dest_dir_is_safe (en_path env) dest
      then Some (w, new_recovery\<lparr>rr_error := ''unsafe destination directory''\<rparr>)
      else if is_discovery_source (fr_source fr)
      then Some (w, new_recovery\<lparr>rr_error := ''discovery-only record; no recoverable data''\<rparr>)
      else if fr_resident fr \<noteq> []
      then with_destination env w dest (fr_name fr) (\<lambda>r. Some (recover_resident env w fr r))
      else if \<not> is_open (w_reader w) \<and> raid (w_reader w) = None
      then Some (w, new_recovery\<lparr>rr_error := ''Disk is not open''\<rparr>)
      else if fr_runs fr = []
      then if carve_record_source (fr_source fr) \<or> fr_source fr = []
           then recover_carved_file env rd running w fr dest
           else Some (w, new_recovery\<lparr>rr_error := ''no data runs; resident content not extracted''\<rparr>)
      else with_destination env w dest (fr_name fr) (runs_into env rd running w fr))"

record batch_summary =
  bs_succeeded :: nat
  bs_failed :: nat
  bs_results :: "recovery_result list"

primrec recover_files_batch ::
  "recovery_env \<Rightarrow> sector_reader \<Rightarrow> (nat \<Rightarrow> bool) \<Rightarrow> string \<Rightarrow> file_record list \<Rightarrow> recovery_world \<Rightarrow> batch_summary
    \<Rightarrow> (recovery_world \<times> batch_summary) option" where
  "recover_files_batch env rd running dest [] w s = Some (w, s)"
| "recover_files_batch env rd running dest (fr # frs) w s =
     (if \<not> running (w_tick w) then Some (tick w, s)
      else case recover_file env rd running (tick w) fr dest of
        None \<Rightarrow> None
      | Some (w', one) \<Rightarrow>
          recover_files_batch env rd running dest frs w'
            (let s1 = s\<lparr>bs_results := bs_results s @ [one]\<rparr>
             in if rr_success one then s1\<lparr>bs_succeeded := bs_succeeded s + 1\<rparr> else s1\<lparr>bs_failed := bs_failed s + 1\<rparr>))"

section \<open>What an output records\<close>

text \<open>The digest context has seen the bytes that were written.\<close>

definition output_ok :: "out_file \<Rightarrow> bool" where
  "output_ok out \<longleftrightarrow> md5_rel (o_md5 out) (o_bytes out)"

definition md5_text :: "buf \<Rightarrow> string" where
  "md5_text bs = concat (map hex_byte (md5_spec bs))"

lemma output_ok_new [simp]: "output_ok new_output"
  by (simp add: output_ok_def new_output_def md5_rel_new)

lemma output_ok_emit [simp]: "output_ok out \<Longrightarrow> output_ok (emit bs out)"
  by (simp add: output_ok_def emit_def md5_update_rel)

lemma output_ok_zero [simp]: "output_ok (out\<lparr>o_zero := z\<rparr>) = output_ok out"
  by (simp add: output_ok_def)

lemma emit_fields [simp]: "o_bytes (emit bs out) = o_bytes out @ bs" "o_zero (emit bs out) = o_zero out"
  "written (emit bs out) = written out + length bs" "written (out\<lparr>o_zero := z\<rparr>) = written out"
  by (simp_all add: emit_def written_def)

lemma final_hex_rel: "md5_rel c m \<Longrightarrow> snd (md5_final_hex c) = md5_text m"
  using md5_final_rel [of c m] by (simp add: md5_final_hex_def md5_text_def Let_def split_beta)

lemma output_md5_text: "output_ok out \<Longrightarrow> output_md5 out = md5_text (o_bytes out)"
  by (simp add: output_ok_def output_md5_def final_hex_rel)

lemma md5_hex_text: "md5_hex bs = md5_text bs"
  using final_hex_rel [OF md5_update_rel [OF md5_rel_new, of bs]] by (simp add: md5_hex_def)

lemma tick_fields [simp]: "w_fs (tick w) = w_fs w" "w_reader (tick w) = w_reader w"
  by (simp_all add: tick_def)

section \<open>The loops only extend the output\<close>

lemma zero_loop_keeps:
  "zero_loop running to_zero zeroed (w, out) = (w', out') \<Longrightarrow>
    w_fs w' = w_fs w \<and> w_reader w' = w_reader w \<and> (output_ok out \<longrightarrow> output_ok out') \<and> o_zero out' = o_zero out"
proof (induction running to_zero zeroed "(w, out)" arbitrary: w out rule: zero_loop.induct)
  case (1 running to_zero zeroed w out)
  note step = 1(1) [OF _ _ refl]
  from 1(2) show ?case
    by (subst (asm) zero_loop.simps) (auto simp: Let_def split: if_splits dest!: step)
qed

lemma run_loop_keeps_all:
  assumes "run_loop rd running ss off n limit got w pool out = Some y"
  shows "w_fs (fst y) = w_fs w \<and> (output_ok out \<longrightarrow> output_ok (snd (snd y)))"
proof (rule run_loop.raw_induct [where
      P = "\<lambda>rd running ss off n limit got w pool out y. w_fs (fst y) = w_fs w \<and> (output_ok out \<longrightarrow> output_ok (snd (snd y)))",
      OF _ assms], goal_cases)
  case (1 f rd running ss off n limit got w pool out y)
  note step = 1(1)
  from 1(2) show ?case
    by (auto simp: Let_def bind_eq_Some_conv split: if_splits dest!: step)
qed

lemma run_loop_keeps:
  "run_loop rd running ss off n limit got w pool out = Some (w', pool', out') \<Longrightarrow>
    w_fs w' = w_fs w \<and> (output_ok out \<longrightarrow> output_ok out')"
  using run_loop_keeps_all by fastforce

lemma data_runs_loop_keeps:
  "data_runs_loop rd running ss limit start_byte first rs w pool out = Some (w', out') \<Longrightarrow>
    w_fs w' = w_fs w \<and> (output_ok out \<longrightarrow> output_ok out')"
  by (induction rs arbitrary: first w pool out)
    (auto simp: Let_def bind_eq_Some_conv split: if_splits prod.splits dest!: run_loop_keeps zero_loop_keeps)

lemma gather_loop_keeps:
  "gather_loop rd running ss clen rs filled w cbuf zero = Some (w', f, c, z) \<Longrightarrow> w_fs w' = w_fs w"
  by (induction rs arbitrary: filled w cbuf zero) (auto simp: Let_def bind_eq_Some_conv split: if_splits)

lemma carve_loop_keeps:
  "carve_loop rd running start limit w pool out = Some (w', out') \<Longrightarrow>
    w_fs w' = w_fs w \<and> (output_ok out \<longrightarrow> output_ok out')"
proof (induction "limit - written out" arbitrary: w pool out rule: less_induct)
  case less
  note step = less(1) [rotated]
  from less(2) show ?case
    by (subst (asm) carve_loop.simps)
      (auto simp: Let_def read_chunk_def split: if_splits option.splits dest!: step)
qed

section \<open>The report is true\<close>

text \<open>
  What a result says of the file system after the recovery: a successful one names a new file,
  with its size and digest, none of whose bytes stand for unread ones.
\<close>

definition true_report :: "file_system \<Rightarrow> file_system \<Rightarrow> recovery_result \<Rightarrow> bool" where
  "true_report fs fs' r \<longleftrightarrow>
     (if rr_success r
      then fs (rr_dest r) = None \<and> \<not> rr_zero_filled r
        \<and> (\<exists>bs. fs' (rr_dest r) = Some bs \<and> rr_bytes r = length bs \<and> rr_md5 r = md5_text bs)
      else True)"

text \<open>The file a result describes, whatever its success.\<close>

definition describes :: "file_system \<Rightarrow> recovery_result \<Rightarrow> bool" where
  "describes fs r \<longleftrightarrow> (\<exists>bs. fs (rr_dest r) = Some bs \<and> rr_bytes r = length bs \<and> rr_md5 r = md5_text bs)"

lemma describes_later: "describes fs r \<Longrightarrow> fs \<subseteq>\<^sub>m fs' \<Longrightarrow> same_output r' r \<Longrightarrow> describes fs' r'"
  unfolding describes_def same_output_def map_le_def by force

lemma true_report_later: "true_report fs fs1 r \<Longrightarrow> fs1 \<subseteq>\<^sub>m fs2 \<Longrightarrow> fs0 \<subseteq>\<^sub>m fs \<Longrightarrow> true_report fs0 fs2 r"
  unfolding true_report_def map_le_def by (force split: if_splits)

lemma finish_write:
  assumes "finish_recover_write env w r n md5 fr cancelled = (w', r')"
    and "w_fs w (rr_dest r) = Some bs" "length bs = n" "md5 = md5_text bs"
  shows "w_fs w \<subseteq>\<^sub>m w_fs w' \<and> rr_dest r' = rr_dest r \<and> describes (w_fs w') r' \<and> rr_zero_filled r' = rr_zero_filled r
    \<and> (rr_success r' \<longrightarrow> \<not> rr_zero_filled r) \<and> w_reader w' = w_reader w"
proof -
  let ?r = "r\<lparr>rr_bytes := n, rr_md5 := md5\<rparr>"
  have base: "describes (w_fs w) (?r\<lparr>rr_success := s, rr_error := e\<rparr>)" "describes (w_fs w) (?r\<lparr>rr_success := s\<rparr>)" for s e
    using assms(2-4) by (simp_all add: describes_def)
  show ?thesis
  proof (cases "cancelled \<and> n < fr_size fr \<or> rr_zero_filled r")
    case True
    then show ?thesis using assms(1) base by (auto simp: finish_recover_write_def Let_def split: if_splits)
  next
    case False
    obtain fs r2 where v: "apply_post_recovery_validation env (w_fs w) fr (?r\<lparr>rr_success := True\<rparr>) = (fs, r2)"
      by fastforce
    have "extends (fs, r2) (w_fs w, ?r\<lparr>rr_success := True\<rparr>)"
      unfolding v [symmetric] by (rule validation_extends)
    then have e: "w_fs w \<subseteq>\<^sub>m fs" "same_output r2 (?r\<lparr>rr_success := True\<rparr>)" by (simp_all add: extends_def)
    moreover have "w' = w\<lparr>w_fs := fs\<rparr>" "r' = r2" using assms(1) False v by (auto simp: finish_recover_write_def Let_def)
    moreover have "describes fs r2" by (rule describes_later [OF base(2) e])
    ultimately show ?thesis using False by (auto simp: same_output_def)
  qed
qed

definition recovery_ok :: "recovery_world \<Rightarrow> recovery_world \<times> recovery_result \<Rightarrow> bool" where
  "recovery_ok w s \<longleftrightarrow> w_fs w \<subseteq>\<^sub>m w_fs (fst s) \<and> true_report (w_fs w) (w_fs (fst s)) (snd s)"

lemma recovery_ok_failed [simp]: "\<not> rr_success r \<Longrightarrow> recovery_ok w (w, r)"
  by (simp add: recovery_ok_def true_report_def)

lemma new_recovery_failed [simp]: "rr_success new_recovery = False" "rr_zero_filled new_recovery = False"
  by (simp_all add: new_recovery_def)

lemma unique_path_fresh: "apply_unique_path env fs dest name r = (r', True) \<Longrightarrow> fs (rr_dest r') = None"
  using unique_path_new [of "en_path env" env fs dest name]
  by (auto simp: apply_unique_path_def Let_def path_exists_def split: if_splits)

lemma finish_ok:
  assumes "w_fs w1 = w_fs w" "w_fs w (rr_dest r) = None" "length bs = n" "md5 = md5_text bs"
  shows "recovery_ok w (finish_recover_write env (tick (with_file w1 r bs)) (r\<lparr>rr_zero_filled := z\<rparr>) n md5 fr cancelled)"
proof -
  let ?w = "tick (with_file w1 r bs)" and ?r = "r\<lparr>rr_zero_filled := z\<rparr>"
  obtain w' r' where f: "finish_recover_write env ?w ?r n md5 fr cancelled = (w', r')" by fastforce
  have fs: "w_fs ?w = (w_fs w)(rr_dest r \<mapsto> bs)" by (simp add: with_file_def assms(1))
  then have "w_fs w \<subseteq>\<^sub>m w_fs ?w" using assms(2) by (auto simp: map_le_def)
  moreover have "w_fs ?w (rr_dest ?r) = Some bs" by (simp add: with_file_def)
  ultimately show ?thesis
    using finish_write [OF f _ assms(3,4)] assms(2)
    by (auto simp: f recovery_ok_def true_report_def describes_def intro: map_le_trans)
qed

lemma finish_output_ok:
  assumes "output_ok out" "w_fs w1 = w_fs w" "w_fs w (rr_dest r) = None"
  shows "recovery_ok w (finish_output env running w1 r out fr)"
  unfolding finish_output_def
  by (rule finish_ok) (use assms in \<open>simp_all add: written_def output_md5_text\<close>)

lemma with_destination_ok:
  assumes "with_destination env w dest name body = Some s"
    and "\<And>r. w_fs w (rr_dest r) = None \<Longrightarrow> \<not> rr_success r \<Longrightarrow> \<not> rr_zero_filled r \<Longrightarrow> body r = Some s \<Longrightarrow> recovery_ok w s"
  shows "recovery_ok w s"
proof -
  obtain r fresh where u: "apply_unique_path env (w_fs w) dest name new_recovery = (r, fresh)" by fastforce
  then have r: "\<not> rr_zero_filled r" "\<not> rr_success r"
    by (auto simp: apply_unique_path_def Let_def new_recovery_def split: if_splits)
  show ?thesis
  proof (cases "fresh \<and> en_opens env (rr_dest r)")
    case True
    then have "body r = Some s" "w_fs w (rr_dest r) = None"
      using assms(1) u unique_path_fresh by (auto simp: with_destination_def)
    then show ?thesis using r assms(2) by blast
  next
    case False
    then have "s = (w, r) \<or> s = (w, open_error r)" using assms(1) u by (auto simp: with_destination_def split: if_splits)
    then show ?thesis using r by (auto simp: open_error_def)
  qed
qed

lemma carve_into_ok: "carve_into env rd running w fr r = Some s \<Longrightarrow> w_fs w (rr_dest r) = None \<Longrightarrow> recovery_ok w s"
  unfolding carve_into_def Let_def
  by (clarsimp, drule carve_loop_keeps) (auto intro!: finish_output_ok)

lemma recover_carved_ok:
  assumes "recover_carved_file env rd running w fr dest = Some s"
  shows "recovery_ok w s"
proof (cases "\<not> dest_dir_is_safe (en_path env) dest \<or> \<not> is_open (w_reader w) \<and> raid (w_reader w) = None
    \<or> is_discovery_source (fr_source fr)")
  case True
  then have "fst s = w \<and> \<not> rr_success (snd s)" using assms by (auto simp: recover_carved_file_def split: if_splits)
  then show ?thesis by (cases s) simp
next
  case False
  then have "with_destination env w dest (fr_name fr) (carve_into env rd running w fr) = Some s"
    using assms by (auto simp: recover_carved_file_def split: if_splits)
  then show ?thesis by (rule with_destination_ok) (rule carve_into_ok)
qed

lemma recover_resident_ok:
  assumes "w_fs w (rr_dest r) = None" "\<not> rr_zero_filled r"
  shows "recovery_ok w (recover_resident env w fr r)"
proof -
  define n where "n = (if 0 < fr_size fr then min (length (fr_resident fr)) (fr_size fr) else length (fr_resident fr))"
  define bs where "bs = take n (fr_resident fr)"
  let ?fs = "(w_fs w)(rr_dest r \<mapsto> bs)" and ?r = "r\<lparr>rr_success := True, rr_bytes := n, rr_md5 := md5_hex bs\<rparr>"
  obtain fs r1 where v: "apply_post_recovery_validation env ?fs fr ?r = (fs, r1)" by fastforce
  have "extends (fs, r1) (?fs, ?r)" unfolding v [symmetric] by (rule validation_extends)
  then have e: "?fs \<subseteq>\<^sub>m fs" "same_output r1 ?r" by (simp_all add: extends_def)
  have "describes ?fs ?r" by (simp add: describes_def md5_hex_text bs_def n_def)
  then have "describes fs r1" using e by (rule describes_later)
  moreover have "w_fs w \<subseteq>\<^sub>m ?fs" using assms(1) by (auto simp: map_le_def)
  ultimately show ?thesis
    using e assms v
    by (auto simp: recover_resident_def n_def [symmetric] bs_def [symmetric] Let_def recovery_ok_def true_report_def
        describes_def same_output_def intro: map_le_trans)
qed

lemma recover_compressed_ok:
  assumes "recover_compressed env rd running ss limit w fr r = Some s" "w_fs w (rr_dest r) = None" "\<not> rr_success r"
  shows "recovery_ok w s"
proof (cases "0 < compressed_length ss (fr_runs fr) 0 \<and> compressed_length ss (fr_runs fr) 0 \<le> max_compressed")
  case False
  then have "s = (with_file w r [], snd s)" "\<not> rr_success (snd s)"
    using assms(1) by (auto simp: recover_compressed_def Let_def)
  then show ?thesis
    using assms(2) by (cases s) (auto simp: recovery_ok_def true_report_def with_file_def map_le_def)
next
  case True
  then obtain w1 filled cbuf zero inflated out_len where
    g: "gather_loop rd running ss (compressed_length ss (fr_runs fr) 0) (fr_runs fr) 0 w
          (replicate (compressed_length ss (fr_runs fr) 0 + ss) 0) False = Some (w1, filled, cbuf, zero)"
    and l: "lznt1_decompress (take filled cbuf) (replicate (max (min limit max_inflate) 4096) 0) = Some (inflated, out_len)"
    using assms(1) by (auto simp: recover_compressed_def Let_def bind_eq_Some_conv)
  have fs: "w_fs w1 = w_fs w" by (rule gather_loop_keeps [OF g])
  let ?r = "r\<lparr>rr_zero_filled := zero\<rparr>"
  have same_file: "with_file w1 ?r bs = with_file w1 r bs" for bs by (simp add: with_file_def)
  show ?thesis
  proof (cases "0 \<le> out_len")
    case good: True
    define bs where "bs = take (min limit (nat out_len)) inflated"
    have "s = finish_recover_write env (tick (with_file w1 r bs)) ?r (length bs) (md5_hex bs) fr (\<not> running (w_tick w1))"
      using assms(1) True good
      by (auto simp: recover_compressed_def Let_def g l same_file bs_def split: if_splits)
    then show ?thesis using finish_ok [OF fs assms(2) refl md5_hex_text] by simp
  next
    case bad: False
    then have "fst s = with_file w1 r []" "\<not> rr_success (snd s)"
      using assms(1) True by (auto simp: recover_compressed_def Let_def g l same_file)
    then show ?thesis
      using assms(2) fs by (auto simp: recovery_ok_def true_report_def with_file_def map_le_def)
  qed
qed

lemma runs_into_ok:
  assumes "runs_into env rd running w fr r = Some s" "w_fs w (rr_dest r) = None" "\<not> rr_success r"
  shows "recovery_ok w s"
proof (cases "fr_compressed fr")
  case True
  then show ?thesis using assms recover_compressed_ok by (auto simp: runs_into_def Let_def)
next
  case False
  then obtain w1 out where "data_runs_loop rd running (if sector_size (w_reader w) = 0 then 512 else sector_size (w_reader w))
      (evidence_clamped_size fr (if sector_size (w_reader w) = 0 then 512 else sector_size (w_reader w))) (fr_start_byte fr)
      True (fr_runs fr) w (replicate read_chunk 0) new_output = Some (w1, out)" "s = finish_output env running w1 r out fr"
    using assms(1) unfolding runs_into_def Let_def by auto
  then show ?thesis using assms(2) data_runs_loop_keeps by (auto intro!: finish_output_ok)
qed

lemma recover_file_ok:
  assumes "recover_file env rd running w fr dest = Some s"
  shows "recovery_ok w s"
proof -
  consider (stop) "fst s = w \<and> \<not> rr_success (snd s)"
    | (resident) "with_destination env w dest (fr_name fr) (\<lambda>r. Some (recover_resident env w fr r)) = Some s"
    | (carve) "recover_carved_file env rd running w fr dest = Some s"
    | (runs) "with_destination env w dest (fr_name fr) (runs_into env rd running w fr) = Some s"
    using assms by (auto simp: recover_file_def split: if_splits)
  then show ?thesis
  proof cases
    case stop
    then show ?thesis by (cases s) simp
  next
    case resident
    then show ?thesis by (rule with_destination_ok) (auto intro: recover_resident_ok)
  next
    case carve
    then show ?thesis by (rule recover_carved_ok)
  next
    case runs
    then show ?thesis by (rule with_destination_ok) (rule runs_into_ok)
  qed
qed


section \<open>What is read from runs\<close>

lemma chunk_size_ok:
  assumes "0 < ss" "ss dvd 2 ^ 20" "0 < remain"
  shows "chunk_size ss remain mod ss = 0" "min read_chunk remain \<le> chunk_size ss remain"
    "k mod ss = 0 \<Longrightarrow> min read_chunk remain \<le> k \<Longrightarrow> chunk_size ss remain \<le> k"
    "chunk_size ss remain \<le> 2 ^ 20" "0 < chunk_size ss remain"
proof -
  define m where "m = min read_chunk remain"
  have m: "0 < m" "m \<le> 2 ^ 20" using assms(3) by (simp_all add: m_def read_chunk_def)
  have ss: "ss \<le> 2 ^ 20" using assms(2) by (rule dvd_imp_le) simp
  have "w32 (m + ss + (2 ^ 32 - 1)) = m + ss - 1"
  proof -
    have "m + ss + (2 ^ 32 - 1) = (m + ss - 1) + 2 ^ 32" using m assms(1) by simp
    then have "w32 (m + ss + (2 ^ 32 - 1)) = w32 (m + ss - 1)" by (simp only: w32_def mod_add_self2)
    then show ?thesis using m ss by (simp add: w32_def)
  qed
  moreover have "(m + ss - 1) div ss * ss \<le> m + ss - 1" by (rule div_times_less_eq_dividend)
  moreover have "m + ss - 1 < 2 ^ 32" using m ss by simp
  ultimately have "w32 (m + ss + (2 ^ 32 - 1)) = m + ss - 1" "(m + ss - 1) div ss * ss < 2 ^ 32" by linarith+
  moreover from this(2) have "w32 ((m + ss - 1) div ss * ss) = (m + ss - 1) div ss * ss"
    unfolding w32_def by (rule mod_less)
  ultimately have c: "chunk_size ss remain = (m + ss - 1) div ss * ss"
    unfolding chunk_size_def m_def [symmetric] by (simp only:)
  show "chunk_size ss remain mod ss = 0" by (simp add: c)
  have "m + ss - 1 = (m + ss - 1) div ss * ss + (m + ss - 1) mod ss" by simp
  moreover have "(m + ss - 1) mod ss < ss" using assms(1) by simp
  ultimately show above: "min read_chunk remain \<le> chunk_size ss remain"
    using m unfolding c m_def [symmetric] by linarith
  show least: "chunk_size ss remain \<le> k" if "k mod ss = 0" "min read_chunk remain \<le> k" for k
  proof -
    have "ss dvd k" using that(1) by (simp add: dvd_eq_mod_eq_0)
    then obtain j where j: "k = ss * j" by (rule dvdE)
    have "(m + ss - 1) div ss \<le> (ss * j + (ss - 1)) div ss"
      using that(2) assms(1) by (intro div_le_mono) (simp add: m_def [symmetric] j)
    also have "\<dots> = j" by (subst add.commute, subst div_mult_self2) (use assms(1) in simp_all)
    finally show ?thesis by (simp add: c j)
  qed
  show "chunk_size ss remain \<le> 2 ^ 20"
    using assms(2) by (intro least) (simp_all add: read_chunk_def dvd_eq_mod_eq_0)
  show "0 < chunk_size ss remain" using above m(1) unfolding m_def by linarith
qed

text \<open>A world whose reader shows the volume \<open>D\<close>, and an output that has grown by \<open>bs\<close> from \<open>src\<close>.\<close>

definition grown :: "(nat \<Rightarrow> nat \<Rightarrow> bool) \<Rightarrow> out_file \<Rightarrow> out_file \<Rightarrow> buf \<Rightarrow> buf \<Rightarrow> bool" where
  "grown rb out out' bs src \<longleftrightarrow> o_bytes out' = o_bytes out @ bs \<and> length bs = length src
     \<and> (o_zero out \<longrightarrow> o_zero out') \<and> (\<not> o_zero out' \<longrightarrow> bs = src)
     \<and> (o_zero out' \<longrightarrow> o_zero out \<or> (\<exists>off m. \<not> rb off m))"

lemma grown_refl: "grown rb out out [] []"
  by (simp add: grown_def)

lemma grown_trans:
  "grown rb a b bs src \<Longrightarrow> grown rb b c cs src' \<Longrightarrow> grown rb a c (bs @ cs) (src @ src')"
  by (auto simp: grown_def)

lemma grown_written: "grown rb out out' bs src \<Longrightarrow> written out' = written out + length src"
  by (simp add: grown_def written_def)

lemma grown_emit: "grown rb out (emit bs out) bs bs"
  by (simp add: grown_def)

lemma zero_loop_all:
  assumes "\<And>k. running k" "zeroed \<le> to_zero"
  shows "\<exists>w' out'. zero_loop running to_zero zeroed (w, out) = (w', out') \<and> w_reader w' = w_reader w
    \<and> grown rb out out' (replicate (to_zero - zeroed) 0) (replicate (to_zero - zeroed) 0)"
  using assms(2)
proof (induction "to_zero - zeroed" arbitrary: zeroed w out rule: less_induct)
  case less
  show ?case
  proof (cases "zeroed < to_zero")
    case False
    then show ?thesis using less.prems by (subst zero_loop.simps) (simp add: grown_refl)
  next
    case True
    define n where "n = min read_chunk (to_zero - zeroed)"
    have n: "0 < n" "zeroed + n \<le> to_zero" using True by (simp_all add: n_def read_chunk_def)
    then have "to_zero - (zeroed + n) < to_zero - zeroed" by linarith
    then obtain w' out' where rest: "zero_loop running to_zero (zeroed + n) (tick w, emit (replicate n 0) out) = (w', out')"
      "w_reader w' = w_reader w"
      "grown rb (emit (replicate n 0) out) out' (replicate (to_zero - (zeroed + n)) 0) (replicate (to_zero - (zeroed + n)) 0)"
      using less.hyps [of "zeroed + n" "tick w" "emit (replicate n 0) out"] n(2) by auto
    have "replicate n 0 @ replicate (to_zero - (zeroed + n)) (0 :: byte) = replicate (to_zero - zeroed) 0"
      using n by (simp add: replicate_add [symmetric])
    then show ?thesis
      using True assms(1) rest grown_trans [OF grown_emit rest(3)]
      by (subst zero_loop.simps) (simp add: Let_def n_def [symmetric])
  qed
qed

text \<open>The bytes of a run on a volume.\<close>

definition run_skip :: "nat \<Rightarrow> nat \<Rightarrow> bool \<Rightarrow> data_run \<Rightarrow> nat" where
  "run_skip ss start_byte first run = (if first \<and> \<not> is_sparse run then min start_byte (run_phys ss run) else 0)"

definition run_content :: "nat \<Rightarrow> nat \<Rightarrow> bool \<Rightarrow> buf \<Rightarrow> data_run \<Rightarrow> buf" where
  "run_content ss start_byte first D run =
     (let n = data_run_payload run ss (run_skip ss start_byte first run)
      in if is_sparse run then replicate n 0
         else slice (unat (run_start run) * ss + run_skip ss start_byte first run) n D)"

fun runs_content :: "nat \<Rightarrow> nat \<Rightarrow> bool \<Rightarrow> buf \<Rightarrow> data_run list \<Rightarrow> buf" where
  "runs_content ss start_byte first D [] = []"
| "runs_content ss start_byte first D (run # rs) =
     run_content ss start_byte first D run @ runs_content ss start_byte False D rs"

definition run_inside :: "nat \<Rightarrow> buf \<Rightarrow> data_run \<Rightarrow> bool" where
  "run_inside ss D run =
     (if is_sparse run then True
      else unat (run_count run) * ss < 2 ^ 64 \<and> unat (run_start run) * ss + unat (run_count run) * ss \<le> length D)"

lemma run_phys_inside:
  assumes "run_inside ss D run" "\<not> is_sparse run" "0 < ss" "ss \<le> 2 ^ 20"
  shows "run_phys ss run = unat (run_count run) * ss"
proof -
  have "unat (word_of_nat ss :: u64) = ss" using assms(4) by (simp add: unat_of_nat take_bit_nat_eq_self)
  then show ?thesis using assms by (simp add: run_phys_def run_inside_def unat_word_ariths)
qed

lemma payload_inside:
  "0 < ss \<Longrightarrow> data_run_payload run ss skip \<le> run_phys ss run - skip"
  using data_run_payload_le [of run ss skip] by (simp add: run_phys_def)

context stable_source
begin

definition shows_volume :: "reader \<Rightarrow> nat \<Rightarrow> buf \<Rightarrow> (nat \<Rightarrow> nat \<Rightarrow> bool) \<Rightarrow> bool" where
  "shows_volume r ss D rb \<longleftrightarrow> ok r \<and> sector_bytes r = ss \<and> content r = D \<and> readable r = rb"

lemma run_loop_reads:
  assumes ss: "0 < ss" "ss dvd 2 ^ 20" and run: "\<And>k. running k" and D: "length D < 2 ^ 64"
    and off: "off mod ss = 0" "e mod ss = 0" "off + n \<le> e" "e \<le> length D"
    and state: "shows_volume (w_reader w) ss D rb" "length pool = 2 ^ 20" "got \<le> n"
      "got mod ss = 0 \<or> got = n \<or> limit \<le> written out"
  shows "\<exists>w' pool' out' bs. run_loop rd running ss off n limit got w pool out = Some (w', pool', out')
    \<and> shows_volume (w_reader w') ss D rb \<and> length pool' = 2 ^ 20
    \<and> grown rb out out' bs (slice (off + got) (min (n - got) (limit - written out)) D)"
  using state
proof (induction "n - got" arbitrary: w pool out got rule: less_induct)
  case less
  show ?case
  proof (cases "got < n \<and> written out < limit")
    case False
    then have "run_loop rd running ss off n limit got w pool out = Some (w, pool, out)"
      by (subst run_loop.simps) auto
    moreover have "min (n - got) (limit - written out) = 0" using False by auto
    ultimately show ?thesis using less.prems(1,2) grown_refl by fastforce
  next
    case True
    let ?c = "chunk_size ss (n - got)" and ?p = "off + got"
    define m where "m = min ?c (min (limit - written out) (n - got))"
    have "0 < n - got" using True by simp
    note c = chunk_size_ok [OF ss this]
    have aligned: "got mod ss = 0" "?p mod ss = 0" using less.prems(4) off(1) True by (auto simp: mod_add_eq [symmetric])
    then have "(e - ?p) mod ss = 0" using off(2) by (metis dvd_diff_nat dvd_eq_mod_eq_0)
    moreover have "min read_chunk (n - got) \<le> e - ?p" using off(3) True by (auto simp: min_def)
    ultimately have "?c \<le> e - ?p" by (rule c(3))
    then have inside: "?p + ?c \<le> length D" using off(3,4) True by linarith
    have ss_small: "ss \<le> 2 ^ 20" using ss(2) by (rule dvd_imp_le) simp
    then have small: "?c + ss < 2 ^ 32" "?c \<le> length pool" using c(4) less.prems(2) by simp_all
    have pos: "w64 ?p = ?p" using inside D by (simp add: w64_def)
    have m: "0 < m" "m \<le> n - got" "m \<le> limit - written out" "m \<le> ?c" using True c(5) by (simp_all add: m_def)
    have within: "got + m \<le> n" using m(2) True by linarith
    have closer: "n - (got + m) < n - got" using m by linarith
    have again: "(got + m) mod ss = 0 \<or> got + m = n \<or> limit \<le> written out + m"
      using aligned(1) c(1) True by (auto simp: m_def min_def mod_add_eq [symmetric])
    note vol = less.prems(1) [unfolded shows_volume_def]
    show ?thesis
    proof -
      obtain r' res pool' bs z where read: "rd (w_reader w) ?p ?c pool = Some (r', res, pool')"
        and step: "run_loop rd running ss off n limit got w pool out
            = run_loop rd running ss off n limit (got + m) ((tick w)\<lparr>w_reader := r'\<rparr>) pool' ((emit bs out)\<lparr>o_zero := z\<rparr>)"
        and bs: "grown rb out ((emit bs out)\<lparr>o_zero := z\<rparr>) bs (slice ?p m D)"
      proof (cases "rb ?p ?c")
        case True
        then obtain r' where rd: "rd (w_reader w) ?p ?c pool = Some (r', ok_result ?c, splice 0 (slice ?p ?c D) pool)"
          using live [of "w_reader w" ?p ?c pool] vol aligned(2) c(1) inside small by auto
        have "take m (splice 0 (slice ?p ?c D) pool) = slice ?p m D"
          using m(4) inside by (simp add: splice_def slice_def)
        moreover have "length (splice 0 (slice ?p ?c D) pool) = length pool" using inside small(2) by simp
        ultimately have "run_loop rd running ss off n limit got w pool out
            = run_loop rd running ss off n limit (got + m) ((tick w)\<lparr>w_reader := r'\<rparr>)
                (splice 0 (slice ?p ?c D) pool) ((emit (slice ?p m D) out)\<lparr>o_zero := o_zero out\<rparr>)"
          using \<open>got < n \<and> written out < limit\<close> run small(2) c(5) m
          by (subst run_loop.simps) (simp add: Let_def pos rd ok_result_def no_result_def m_def [symmetric])
        then show thesis using rd by (intro that [where r' = r' and res = "ok_result ?c" and pool' = "splice 0 (slice ?p ?c D) pool"
              and bs = "slice ?p m D" and z = "o_zero out"])
            (simp_all add: grown_def)
      next
        case False
        then obtain r' res pool' where rd: "rd (w_reader w) ?p ?c pool = Some (r', res, pool')" "\<not> success res \<or> bytes_read res = 0"
          using dead [of "w_reader w" ?p ?c pool] vol by auto
        then have "run_loop rd running ss off n limit got w pool out
            = run_loop rd running ss off n limit (got + m) ((tick w)\<lparr>w_reader := r'\<rparr>) pool' ((emit (replicate m 0) out)\<lparr>o_zero := True\<rparr>)"
          using \<open>got < n \<and> written out < limit\<close> run small(2)
          by (subst run_loop.simps) (simp add: Let_def pos m_def)
        moreover have "length (slice ?p m D) = m" using inside m(4) by simp
        ultimately show thesis using rd False by (intro that [where r' = r' and res = res and pool' = pool' and bs = "replicate m 0" and z = True])
            (auto simp: grown_def)
      qed
      have kept: "shows_volume r' ss D rb" "length pool' = 2 ^ 20"
        using keeps [of "w_reader w" ?p ?c pool r' res pool'] vol read small less.prems(2) by (auto simp: shows_volume_def)
      let ?out = "(emit bs out)\<lparr>o_zero := z\<rparr>"
      have len: "length bs = m" using bs inside m(4) by (simp add: grown_def)
      obtain w' pool2 out' cs where rest: "run_loop rd running ss off n limit (got + m) ((tick w)\<lparr>w_reader := r'\<rparr>) pool' ?out = Some (w', pool2, out')"
        "shows_volume (w_reader w') ss D rb" "length pool2 = 2 ^ 20"
        "grown rb ?out out' cs (slice (off + (got + m)) (min (n - (got + m)) (limit - (written out + m))) D)"
        using less.hyps [OF closer, of "(tick w)\<lparr>w_reader := r'\<rparr>" pool' ?out] kept within again by (auto simp: len)
      have "m + min (n - (got + m)) (limit - (written out + m)) = min (n - got) (limit - written out)"
        using m(2,3) by linarith
      then have "slice ?p m D @ slice (off + (got + m)) (min (n - (got + m)) (limit - (written out + m))) D
          = slice ?p (min (n - got) (limit - written out)) D"
        using slice_append_slice [of ?p m D] by (simp add: add.assoc)
      then show ?thesis using rest step grown_trans [OF bs rest(4)] by (auto simp: add.assoc)
    qed
  qed
qed

lemma data_runs_loop_reads:
  assumes ss: "0 < ss" "ss dvd 2 ^ 20" and run: "\<And>k. running k" and D: "length D < 2 ^ 64"
    and start: "start_byte mod ss = 0" and inside: "list_all (run_inside ss D) rs"
    and state: "shows_volume (w_reader w) ss D rb" "length pool = 2 ^ 20"
  shows "\<exists>w' out' bs. data_runs_loop rd running ss limit start_byte first rs w pool out = Some (w', out')
    \<and> grown rb out out' bs (take (limit - written out) (runs_content ss start_byte first D rs))"
  using inside state
proof (induction rs arbitrary: first w pool out)
  case Nil
  then show ?case using grown_refl by fastforce
next
  case (Cons r rs)
  have ss_small: "ss \<le> 2 ^ 20" using ss(2) by (rule dvd_imp_le) simp
  let ?skip = "run_skip ss start_byte first r" and ?c = "run_content ss start_byte first D r"
  let ?rest = "runs_content ss start_byte False D rs"
  show ?case
  proof (cases "limit \<le> written out")
    case True
    then show ?thesis using run grown_refl by fastforce
  next
    case False
    have split: "take (limit - written out) (runs_content ss start_byte first D (r # rs))
        = take (limit - written out) ?c @ take (limit - (written out + min (limit - written out) (length ?c))) ?rest"
      by (simp add: min_def)
    obtain w1 out1 pool1 bs where one: "shows_volume (w_reader w1) ss D rb" "length pool1 = 2 ^ 20"
      "grown rb out out1 bs (take (limit - written out) ?c)"
      "data_runs_loop rd running ss limit start_byte first (r # rs) w pool out
        = data_runs_loop rd running ss limit start_byte False rs w1 pool1 out1"
    proof (cases "is_sparse r")
      case sparse: True
      let ?n = "min (data_run_payload r ss 0) (limit - written out)"
      obtain w1 out1 where z: "zero_loop running ?n 0 (tick w, out) = (w1, out1)" "w_reader w1 = w_reader w"
        "grown rb out out1 (replicate ?n 0) (replicate ?n 0)"
        using zero_loop_all [where running = running, OF run, where zeroed = 0 and to_zero = ?n and w = "tick w" and out = out and rb = rb] by auto
      have "take (limit - written out) ?c = replicate ?n 0"
        using sparse by (simp add: run_content_def run_skip_def min.commute)
      then show thesis
        using that [of w1 pool out1 "replicate ?n 0"] z sparse False run Cons.prems(2,3) by (simp add: Let_def)
    next
      case real: False
      let ?n = "data_run_payload r ss ?skip" and ?off = "unat (run_start r) * ss + ?skip"
      have here: "run_inside ss D r" using Cons.prems(1) by simp
      have phys: "run_phys ss r = unat (run_count r) * ss" using run_phys_inside [OF here real ss(1) ss_small] .
      let ?e = "unat (run_start r) * ss + run_phys ss r"
      have e: "?e mod ss = 0" "?e \<le> length D" using here real by (simp_all add: phys run_inside_def)
      have skip: "?skip mod ss = 0" "?skip \<le> run_phys ss r" using start real by (simp_all add: run_skip_def phys min_def)
      then have off: "?off mod ss = 0" "?off + ?n \<le> ?e"
        using payload_inside [OF ss(1), of r ?skip] by (simp_all add: mod_add_eq [symmetric])
      have w64: "w64 ?off = ?off" using e(2) skip(2) D by (simp add: w64_def)
      have src: "slice (?off + 0) (min (?n - 0) (limit - written out)) D = take (limit - written out) ?c"
        using real by (simp add: run_content_def slice_def min.commute)
      obtain w1 pool1 out1 bs where l: "run_loop rd running ss ?off ?n limit 0 (tick w) pool out = Some (w1, pool1, out1)"
        "shows_volume (w_reader w1) ss D rb" "length pool1 = 2 ^ 20" "grown rb out out1 bs (take (limit - written out) ?c)"
        using run_loop_reads [where running = running, OF ss run D off(1) e(1) off(2) e(2), where w = "tick w" and rb = rb and pool = pool and got = 0
            and limit = limit and out = out] Cons.prems(2,3) src by auto
      have "(if first \<and> 0 < start_byte \<and> \<not> is_sparse r then min start_byte (run_phys ss r) else 0) = ?skip"
        by (simp add: run_skip_def)
      then have "data_runs_loop rd running ss limit start_byte first (r # rs) w pool out
          = data_runs_loop rd running ss limit start_byte False rs w1 pool1 out1"
        using real False run l(1) w64 by (simp add: Let_def)
      then show thesis using that l by blast
    qed
    have len: "written out1 = written out + min (limit - written out) (length ?c)"
      using grown_written [OF one(3)] by (simp add: min.commute)
    obtain w' out' cs where "data_runs_loop rd running ss limit start_byte False rs w1 pool1 out1 = Some (w', out')"
      "grown rb out1 out' cs (take (limit - written out1) ?rest)"
      using Cons.IH [of w1 pool1 False out1] Cons.prems(1) one(1,2) by auto
    then show ?thesis unfolding split one(4) using grown_trans [OF one(3)] len by auto
  qed
qed

end


definition demo_env :: recovery_env where
  "demo_env = \<lparr>en_path = \<lparr>po_filename = id, po_absolute = (\<lambda>_. True), po_parts = (\<lambda>p. [p]), po_normal = id,
       po_append = (\<lambda>a b. a @ ''/'' @ b)\<rparr>,
     en_parent = id, en_opens = (\<lambda>_. True), en_reads = (\<lambda>_. True), en_other = (\<lambda>_. False),
     en_validator = (\<lambda>_ _. 100), en_fix_jpeg = (\<lambda>_. None), en_fix_pdf = (\<lambda>_. None), en_fix_zip = (\<lambda>_. None)\<rparr>"

definition demo_run :: "u64 \<Rightarrow> u64 \<Rightarrow> data_run" where
  "demo_run start count = \<lparr>run_start = start, run_count = count, run_bytes = 0\<rparr>"

definition demo_file :: file_record where
  "demo_file = new_record\<lparr>fr_name := ''a'', fr_source := ''ntfs'', fr_size := 5, fr_runs := [demo_run 0 1, demo_run 1 1]\<rparr>"

definition demo_world :: recovery_world where
  "demo_world = \<lparr>w_fs = Map.empty, w_reader = demo_reader, w_tick = 0\<rparr>"

lemma demo_file_content: "memory_content demo_heap demo_reader = [1, 2, 3, 4, 5, 6, 7, 8]"
  by (simp add: memory_content_def memory_volume_def demo_heap_def demo_reader_def new_reader_def new_volume_def
      plain_volume_def plain_sector_def decrypting_def sector_bytes_def has_xts_fvek_def slice_def upt_rec)

lemma demo_dest: "unique_dest_path (en_path demo_env) (path_exists demo_env Map.empty) ''d'' ''a'' = ''d/a''"
  "dest_dir_is_safe (en_path demo_env) ''d''" "\<not> is_discovery_source ''ntfs''"
proof -
  have "safe_basename (en_path demo_env) ''a'' = ''a''" by code_simp
  moreover have "\<not> path_exists demo_env Map.empty p" for p by (simp add: path_exists_def demo_env_def)
  moreover have "po_append (en_path demo_env) ''d'' ''a'' = ''d/a''" by (simp add: demo_env_def)
  ultimately show "unique_dest_path (en_path demo_env) (path_exists demo_env Map.empty) ''d'' ''a'' = ''d/a''"
    by (simp only: unique_dest_path_def Let_def not_False_eq_True if_True)
qed (simp_all add: dest_dir_is_safe_def demo_env_def has_path_prefix_def is_discovery_source_def discovery_sources_def)


section \<open>A sparse gap in a compressed file\<close>

text \<open>In a compressed file a sparse run that is at least as long as all the data after it hides
  that data: the buffer has room for the stored bytes only, the zeros of the gap fill the rest
  of it, and the result is the one of the file without the later runs.\<close>

lemma sparse_gap_hides_later_runs:
  assumes "\<not> is_sparse a" "is_sparse gap" "run_phys ss a \<le> clen" "clen - run_phys ss a \<le> run_phys ss gap"
  shows "map_option (\<lambda>(w', filled, cbuf, zero). (w_fs w', w_reader w', take filled cbuf, zero))
        (gather_loop rd (\<lambda>_. True) ss clen (a # gap # later) 0 w cbuf zero)
    = map_option (\<lambda>(w', filled, cbuf, zero). (w_fs w', w_reader w', take filled cbuf, zero))
        (gather_loop rd (\<lambda>_. True) ss clen [a, gap] 0 w cbuf zero)"
proof -
  let ?view = "map_option (\<lambda>(w', filled, cbuf, zero). (w_fs w', w_reader w', take filled cbuf, zero))"
  have full: "?view (gather_loop rd (\<lambda>_. True) ss clen rs clen v c z) = Some (w_fs v, w_reader v, take clen c, z)" for rs v c z
  proof (induction rs arbitrary: v)
    case (Cons r rs)
    show ?case using Cons.IH [of "tick v"] by (simp add: splice_def tick_def)
  qed simp
  have gap: "?view (gather_loop rd (\<lambda>_. True) ss clen (gap # rs) (run_phys ss a) v c z)
      = Some (w_fs v, w_reader v, take clen (splice (run_phys ss a) (replicate (clen - run_phys ss a) 0) c), z)" for rs v c z
    using assms(2-4) by (simp add: full min_absorb2)
  let ?len = "w32 ((run_phys ss a + ss - 1) div ss * ss)"
  let ?bad = "\<lambda>res. \<not> success res \<or> bytes_read res < run_phys ss a \<or> padded_zeros res"
  have first: "gather_loop rd (\<lambda>_. True) ss clen (a # rs) 0 w cbuf zero =
      (if run_phys ss a = 0 then Some (tick w, 0, cbuf, zero)
       else if length cbuf < ?len then None
       else Option.bind (rd (w_reader w) (w64 (unat (run_start a) * ss)) ?len cbuf) (\<lambda>(r', res, tail).
         gather_loop rd (\<lambda>_. True) ss clen rs (run_phys ss a) ((tick w)\<lparr>w_reader := r'\<rparr>)
           (if ?bad res then splice 0 (replicate (run_phys ss a) 0) tail else tail) (?bad res \<or> zero)))" for rs
    using assms(1,3) by (auto simp: Let_def min_absorb1 intro!: Option.bind_cong split: prod.split)
  show ?thesis
    unfolding first
    by (cases "rd (w_reader w) (w64 (unat (run_start a) * ss)) ?len cbuf") (auto simp: gap simp del: gather_loop.simps)
qed

lemma sparse_gap_hides_later_runs_witness:
  "map_option (\<lambda>(w', filled, cbuf, zero). (w_fs w', w_reader w', take filled cbuf, zero))
        (gather_loop (read_sectors no_win demo_heap) (\<lambda>_. True) 4 8
          [demo_run 0 1, demo_run (- 1) 15, demo_run 1 1] 0 demo_world (replicate 12 0) False)
    = map_option (\<lambda>(w', filled, cbuf, zero). (w_fs w', w_reader w', take filled cbuf, zero))
        (gather_loop (read_sectors no_win demo_heap) (\<lambda>_. True) 4 8
          [demo_run 0 1, demo_run (- 1) 15] 0 demo_world (replicate 12 0) False)"
  by (rule sparse_gap_hides_later_runs) (simp_all add: demo_run_def is_sparse_def run_phys_def)

end
