(* ===== verification/Luks.thy ===== *)
theory Luks
  imports Partition_Scanner Aes Digests
begin

text \<open>
  LUKS1 volumes (fs/luks.cpp): the header and its key slots, the anti-forensic merge, the search
  for a LUKS partition, and the writer of test volumes.  The disk is read through \<open>readBytes\<close> over
  the argument \<open>rd\<close>; the read telemetry is not threaded.  \<open>None\<close> is an undefined access of the
  reader or a search that does not end.
\<close>

record luks_result =
  lk_success :: bool
  lk_error :: string
  lk_key :: buf
  lk_payload :: nat

definition luks_failed :: "string \<Rightarrow> luks_result" where
  "luks_failed e = \<lparr>lk_success = False, lk_error = e, lk_key = [], lk_payload = 0\<rparr>"

definition luks_magic :: buf where "luks_magic = [0x4C, 0x55, 0x4B, 0x53, 0xBA, 0xBE]"
definition key_enabled :: nat where "key_enabled = 0x00AC71F3"
definition key_disabled :: nat where "key_disabled = 0x0000DEAD"
definition luks_phdr :: nat where "luks_phdr = 592"
definition luks_digest :: nat where "luks_digest = 20"

section \<open>The anti-forensic splitter\<close>

definition hash_chunk :: "nat \<Rightarrow> buf \<Rightarrow> buf" where
  "hash_chunk idx src = take (length src) (sha256 (be_bytes 4 idx @ src))"

definition diffuse :: "buf \<Rightarrow> buf" where
  "diffuse p =
     (let blocks = length p div 32; pad = length p mod 32
      in concat (map (\<lambda>i. hash_chunk i (slice (i * 32) 32 p)) [0..<blocks])
         @ (if pad \<noteq> 0 then hash_chunk blocks (slice (blocks * 32) pad p) else []))"

text \<open>The loop that both directions share, over all stripes but the last.\<close>

definition af_state :: "buf \<Rightarrow> nat \<Rightarrow> nat \<Rightarrow> buf" where
  "af_state src block stripes =
     fold (\<lambda>i b. diffuse (xor_bytes b (slice (i * block) block src))) [0..<stripes - 1] (replicate block 0)"

definition af_merge :: "buf \<Rightarrow> nat \<Rightarrow> nat \<Rightarrow> buf" where
  "af_merge src block stripes =
     xor_bytes (slice ((stripes - 1) * block) block src) (af_state src block stripes)"

definition af_split_zeros :: "buf \<Rightarrow> nat \<Rightarrow> nat \<Rightarrow> buf" where
  "af_split_zeros src block stripes =
     (let dst = replicate (block * (stripes - 1)) 0
      in dst @ xor_bytes src (af_state dst block stripes))"

section \<open>Sectors\<close>

definition xts_sector :: "buf \<Rightarrow> nat \<Rightarrow> nat \<Rightarrow> buf \<Rightarrow> bool \<Rightarrow> buf" where
  "xts_sector key key_bytes sector sec enc =
     (let crypt = (if key_bytes = 64 then xts_aes256_crypt else xts_aes128_crypt)
      in case crypt key (xts_tweak sector) sec enc of Some s \<Rightarrow> s | None \<Rightarrow> sec)"

definition cstr_field :: "buf \<Rightarrow> string \<Rightarrow> bool" where
  "cstr_field p want \<longleftrightarrow> length want < length p \<and> take (length want) p = bytes_of want \<and> p ! length want = 0"

text \<open>\<open>readBytes\<close> and \<open>readComplete\<close>.\<close>

definition read_full :: "sector_reader \<Rightarrow> reader \<Rightarrow> nat \<Rightarrow> nat \<Rightarrow> buf option option" where
  "read_full rd r off n = (case read_bytes_via rd r off n (replicate n 0) of
     None \<Rightarrow> None
   | Some (_, res, b) \<Rightarrow> Some (if read_complete res n then Some b else None))"

definition luks_derive :: "buf \<Rightarrow> buf \<Rightarrow> nat \<Rightarrow> nat \<Rightarrow> buf" where
  "luks_derive pass salt iter n =
     (case pbkdf2_hmac_sha256 pass salt iter n of Some k \<Rightarrow> k | None \<Rightarrow> replicate n 0)"

section \<open>Key slots\<close>

text \<open>
  One slot: undefined, or no key, or the master key whose digest is the one of the header.  The
  key material is decrypted sector by sector.
\<close>

definition luks_slot :: "sector_reader \<Rightarrow> reader \<Rightarrow> string \<Rightarrow> nat \<Rightarrow> buf \<Rightarrow> nat \<Rightarrow> buf option option" where
  "luks_slot rd r password vol hdr s =
     (let key_bytes = be32 108 hdr; kb = slice (208 + s * 48) 48 hdr;
          pwd_iter = be32 4 kb; km_sec = be32 40 kb; stripes = be32 44 kb
      in if be32 0 kb \<noteq> key_enabled then Some None
         else if pwd_iter = 0 \<or> 5000000 < pwd_iter \<or> stripes < 2 \<or> 4000 < stripes then Some None
         else let af_secs = (key_bytes * stripes + 511) div 512
              in if af_secs = 0 \<or> 4096 < af_secs then Some None
                 else let pwd_key = luks_derive (bytes_of password) (slice 8 32 kb) pwd_iter key_bytes
                      in case read_full rd r (w64 (vol + km_sec * 512)) (af_secs * 512) of
                           None \<Rightarrow> None
                         | Some None \<Rightarrow> Some None
                         | Some (Some af) \<Rightarrow>
                             let plain = concat (map (\<lambda>i. xts_sector pwd_key key_bytes (km_sec + i) (slice (i * 512) 512 af) False) [0..<af_secs]);
                                 mk = af_merge plain key_bytes stripes;
                                 dig = luks_derive mk (slice 132 32 hdr) (be32 164 hdr) luks_digest
                             in Some (if dig \<noteq> slice 112 luks_digest hdr then None else Some mk))"

primrec luks_slots :: "sector_reader \<Rightarrow> reader \<Rightarrow> string \<Rightarrow> nat \<Rightarrow> buf \<Rightarrow> nat list \<Rightarrow> buf option option" where
  "luks_slots rd r password vol hdr [] = Some None"
| "luks_slots rd r password vol hdr (s # ss) =
     (case luks_slot rd r password vol hdr s of
        None \<Rightarrow> None
      | Some (Some mk) \<Rightarrow> Some (Some mk)
      | Some None \<Rightarrow> luks_slots rd r password vol hdr ss)"

text \<open>A volume whose header was recognized.\<close>

definition luks_open :: "sector_reader \<Rightarrow> reader \<Rightarrow> string \<Rightarrow> nat \<Rightarrow> buf \<Rightarrow> luks_result option" where
  "luks_open rd r password vol hdr =
     (if \<not> cstr_field (slice 8 32 hdr) ''aes'' \<or> \<not> cstr_field (slice 40 32 hdr) ''xts-plain64''
         \<or> \<not> cstr_field (slice 72 32 hdr) ''sha256''
      then Some (luks_failed ''LUKS cipher/hash not aes-xts-plain64/sha256'')
      else let payload_sec = be32 104 hdr; key_bytes = be32 108 hdr; mk_iter = be32 164 hdr
           in if key_bytes \<noteq> 32 \<and> key_bytes \<noteq> 64 \<or> payload_sec = 0 then Some (luks_failed ''invalid LUKS key size'')
              else if mk_iter = 0 \<or> 5000000 < mk_iter then Some (luks_failed ''invalid LUKS digest iterations'')
              else case luks_slots rd r password vol hdr [0..<8] of
                None \<Rightarrow> None
              | Some None \<Rightarrow> Some (luks_failed ''LUKS password did not open a keyslot'')
              | Some (Some mk) \<Rightarrow> Some \<lparr>lk_success = True, lk_error = [], lk_key = mk, lk_payload = w64 (vol + payload_sec * 512)\<rparr>)"

section \<open>The search\<close>

text \<open>The partitions that are tried when offset 0 holds no LUKS header.\<close>

definition luks_partitions :: "sector_reader \<Rightarrow> reader \<Rightarrow> partition list option" where
  "luks_partitions rd r = do {
     (gpt, _) \<leftarrow> parse_gpt rd r False;
     (mbr, _) \<leftarrow> parse_mbr rd r False;
     (apm, _) \<leftarrow> parse_apm rd r False;
     Some (if gpt \<noteq> [] then gpt else if mbr \<noteq> [] then mbr else apm)
   }"

definition used_partition :: "partition \<Rightarrow> bool" where
  "used_partition p \<longleftrightarrow> p_start p \<noteq> 0 \<and> p_size p \<noteq> 0"

definition partition_offset :: "reader \<Rightarrow> partition \<Rightarrow> nat" where
  "partition_offset r p = w64 (p_start p * (if sector_size r \<noteq> 0 then sector_size r else 512))"

text \<open>
  \<open>unlockLuks1WithPassword\<close> and its loop over the partitions, which calls it again: \<open>Inl\<close> is a
  call with an offset, \<open>Inr\<close> the loop at the partitions that are left.
\<close>

partial_function (option) luks_search ::
  "sector_reader \<Rightarrow> reader \<Rightarrow> string \<Rightarrow> nat + partition list \<Rightarrow> luks_result option" where
  "luks_search rd r password job =
     (if isl job then
        Option.bind (read_full rd r (projl job) luks_phdr) (\<lambda>hdr.
          if hdr \<noteq> None \<and> looks_like_luks1 (the hdr) then luks_open rd r password (projl job) (the hdr)
          else if projl job \<noteq> 0 then Some (luks_failed ''not LUKS1'')
          else Option.bind (luks_partitions rd r) (\<lambda>ps. luks_search rd r password (Inr ps)))
      else if projr job = [] then Some (luks_failed ''not LUKS1'')
      else if \<not> used_partition (hd (projr job)) then luks_search rd r password (Inr (tl (projr job)))
      else Option.bind (luks_search rd r password (Inl (partition_offset r (hd (projr job))))) (\<lambda>u.
        if lk_success u then Some u else luks_search rd r password (Inr (tl (projr job)))))"

definition unlock_luks1 :: "sector_reader \<Rightarrow> reader \<Rightarrow> string \<Rightarrow> nat \<Rightarrow> luks_result option" where
  "unlock_luks1 rd r password vol = luks_search rd r password (Inl vol)"

definition apply_luks_master_key :: "reader \<Rightarrow> luks_result \<Rightarrow> bool \<times> reader" where
  "apply_luks_master_key r u =
     (if \<not> lk_success u \<or> lk_key u = [] then (False, r)
      else let (ok, r1) = set_xts_fvek r (Some (lk_key u))
           in if \<not> ok then (False, r1) else (True, set_xts_decrypt_from r1 (lk_payload u)))"

section \<open>The writer\<close>

definition luks_master :: "nat \<Rightarrow> buf" where
  "luks_master key_bytes = map (\<lambda>i. word_of_nat (0xA0 + i)) [0..<key_bytes]"

text \<open>The writes to the header, in the order of the code: fields, eight disabled slots, slot 0.\<close>

definition luks_fields :: "nat \<Rightarrow> (nat \<times> buf) list" where
  "luks_fields key_bytes =
     [(0, luks_magic), (6, be_bytes 2 1), (8, bytes_of ''aes'' @ [0]), (40, bytes_of ''xts-plain64'' @ [0]),
      (72, bytes_of ''sha256'' @ [0]), (104, be_bytes 4 32), (108, be_bytes 4 key_bytes),
      (112, luks_derive (luks_master key_bytes) (replicate 32 0x11) 2 luks_digest),
      (132, replicate 32 0x11), (164, be_bytes 4 2), (168, bytes_of ''00000000-0000-0000-0000-000000000001'')]
     @ map (\<lambda>s. (208 + s * 48, be_bytes 4 key_disabled)) [0..<8]
     @ [(208, be_bytes 4 key_enabled), (212, be_bytes 4 2), (216, replicate 32 0x22), (248, be_bytes 4 8),
        (252, be_bytes 4 4)]"

definition luks_header :: "nat \<Rightarrow> buf" where
  "luks_header key_bytes = fold (\<lambda>(off, bs) h. splice off bs h) (luks_fields key_bytes) (replicate luks_phdr 0)"

definition luks_key_sector :: "string \<Rightarrow> nat \<Rightarrow> buf" where
  "luks_key_sector password key_bytes =
     (let pwd_key = luks_derive (bytes_of password) (replicate 32 0x22) 2 key_bytes;
          af = af_split_zeros (luks_master key_bytes) key_bytes 4
      in xts_sector pwd_key key_bytes 8 (splice 0 af (replicate 512 0)) True)"

definition luks_payload_sector :: "nat \<Rightarrow> buf \<Rightarrow> nat \<Rightarrow> buf" where
  "luks_payload_sector key_bytes payload k =
     xts_sector (luks_master key_bytes) key_bytes k
       (splice 0 (slice (k * 512) 512 payload) (replicate 512 0)) True"

text \<open>The header and the slots lie in the first 592 bytes of the image.\<close>

definition luks_image :: "buf \<Rightarrow> string \<Rightarrow> nat \<Rightarrow> buf" where
  "luks_image payload password key_bytes =
     splice 4096 (luks_key_sector password key_bytes) (splice 0 (luks_header key_bytes) (replicate (32 * 512) 0))
     @ concat (map (luks_payload_sector key_bytes payload) [0..<(length payload + 511) div 512])"

text \<open>
  \<open>payBytes\<close> has 32 bits: for a larger payload the image is too short for the sectors that are
  copied into it, and the call is undefined.
\<close>

definition wrap_luks1 :: "buf \<Rightarrow> string \<Rightarrow> nat \<Rightarrow> buf option" where
  "wrap_luks1 payload password key_bytes =
     (if key_bytes \<noteq> 32 \<and> key_bytes \<noteq> 64 then Some []
      else if w32 ((length payload + 511) div 512 * 512) < length payload then None
      else Some (luks_image payload password key_bytes))"

section \<open>When the search ends\<close>

lemma luks_search_Inl: "luks_search rd r password (Inl vol) =
    Option.bind (read_full rd r vol luks_phdr) (\<lambda>hdr.
      if hdr \<noteq> None \<and> looks_like_luks1 (the hdr) then luks_open rd r password vol (the hdr)
      else if vol \<noteq> 0 then Some (luks_failed ''not LUKS1'')
      else Option.bind (luks_partitions rd r) (\<lambda>ps. luks_search rd r password (Inr ps)))"
  by (subst luks_search.simps) (simp only: sum.sel sum.disc if_True)

lemma luks_search_Nil [simp]: "luks_search rd r password (Inr []) = Some (luks_failed ''not LUKS1'')"
  by (subst luks_search.simps) simp

lemma luks_search_Cons: "luks_search rd r password (Inr (p # ps)) =
    (if \<not> used_partition p then luks_search rd r password (Inr ps)
     else Option.bind (luks_search rd r password (Inl (partition_offset r p))) (\<lambda>u.
       if lk_success u then Some u else luks_search rd r password (Inr ps)))"
  by (subst luks_search.simps) (simp only: sum.sel sum.disc list.sel list.distinct if_False)

text \<open>A partition list whose tried part reaches an entry at offset 0.\<close>

fun comes_back :: "sector_reader \<Rightarrow> reader \<Rightarrow> string \<Rightarrow> partition list \<Rightarrow> bool" where
  "comes_back rd r password [] = False"
| "comes_back rd r password (p # ps) =
     (if \<not> used_partition p then comes_back rd r password ps
      else if partition_offset r p = 0 then True
      else case luks_search rd r password (Inl (partition_offset r p)) of
        None \<Rightarrow> True
      | Some u \<Rightarrow> if lk_success u then False else comes_back rd r password ps)"

lemma search_diverges:
  assumes "luks_search rd r password job = Some y"
    and at0: "read_full rd r 0 luks_phdr = Some hdr" "\<not> (hdr \<noteq> None \<and> looks_like_luks1 (the hdr))"
      "luks_partitions rd r = Some ps" "comes_back rd r password ps"
  shows "job \<noteq> Inl 0 \<and> (\<forall>qs. job = Inr qs \<longrightarrow> \<not> comes_back rd r password qs)"
proof -
  let ?P = "\<lambda>rd' r' password' job y. (rd', r', password') = (rd, r, password) \<longrightarrow>
      luks_search rd r password job = Some y \<and> job \<noteq> Inl 0 \<and> (\<forall>qs. job = Inr qs \<longrightarrow> \<not> comes_back rd r password qs)"
  have "?P rd r password job y"
  proof (rule luks_search.raw_induct [where P = ?P, OF _ assms(1)], goal_cases)
    case (1 f rd' r' password' job y)
    note IH = 1(1) and body = 1(2)
    show ?case
    proof (intro impI)
      assume same: "(rd', r', password') = (rd, r, password)"
      have IH': "luks_search rd r password j = Some z" "j \<noteq> Inl 0" "\<And>qs. j = Inr qs \<Longrightarrow> \<not> comes_back rd r password qs"
        if "f rd r password j = Some z" for j z
        using IH [of rd' r' password' j z] that same by auto
      show "luks_search rd r password job = Some y \<and> job \<noteq> Inl 0 \<and> (\<forall>qs. job = Inr qs \<longrightarrow> \<not> comes_back rd r password qs)"
      proof (cases job)
        case (Inl vol)
        have "vol \<noteq> 0"
        proof
          assume "vol = 0"
          then have "f rd r password (Inr ps) = Some y"
            using body at0 same Inl by (auto split: option.splits)
          then show False using IH'(3) at0(4) by blast
        qed
        then have "luks_search rd r password job = Some y"
          using body same Inl by (auto simp: luks_search_Inl bind_eq_Some_conv split: option.splits if_splits)
        then show ?thesis using Inl \<open>vol \<noteq> 0\<close> by simp
      next
        case (Inr qs)
        then show ?thesis
        proof (cases qs)
          case Nil
          then show ?thesis using body same Inr by simp
        next
          case (Cons q rest)
          show ?thesis
          proof (cases "used_partition q")
            case False
            then have "f rd r password (Inr rest) = Some y" using body same Inr Cons by simp
            from IH'(1,3) [OF this] show ?thesis using False Inr Cons by (simp add: luks_search_Cons)
          next
            case True
            then obtain u where u: "f rd r password (Inl (partition_offset r q)) = Some u"
              "(if lk_success u then Some u else f rd r password (Inr rest)) = Some y"
              using body same Inr Cons by (auto simp: bind_eq_Some_conv cong: if_cong)
            note first = IH' [OF u(1)]
            have "lk_success u \<or> f rd r password (Inr rest) = Some y" using u(2) by (auto split: if_splits)
            then show ?thesis
              using IH' [of "Inr rest" y] first u(2) True Inr Cons by (auto simp: luks_search_Cons split: if_splits)
          qed
        qed
      qed
    qed
  qed
  then show ?thesis by simp
qed

lemma search_returns: "\<not> comes_back rd r password ps \<Longrightarrow> luks_search rd r password (Inr ps) \<noteq> None"
proof (induction ps)
  case (Cons p ps)
  then show ?case
    by (auto simp: luks_search_Cons bind_eq_None_conv split: if_splits option.splits)
qed simp

text \<open>C29. On a disk without a LUKS header at its start, the search for a LUKS partition returns if and only
  if it does not reach a partition whose byte offset is 0 modulo \<open>2 ^ 64\<close> (or whose own header
  cannot be read without undefined behaviour) before one that opens: such an entry makes the
  function call itself with offset 0 again, without end.\<close>

theorem luks_search_ends_iff:
  assumes "read_full rd r 0 luks_phdr = Some hdr" "\<not> (hdr \<noteq> None \<and> looks_like_luks1 (the hdr))"
    and "luks_partitions rd r = Some ps"
  shows "unlock_luks1 rd r password 0 = None \<longleftrightarrow> comes_back rd r password ps"
proof
  assume "comes_back rd r password ps"
  then show "unlock_luks1 rd r password 0 = None"
    using search_diverges [OF _ assms] unfolding unlock_luks1_def by (metis not_None_eq)
next
  assume "unlock_luks1 rd r password 0 = None"
  then have "luks_search rd r password (Inr ps) = None"
    using assms by (auto simp: unlock_luks1_def luks_search_Inl)
  then show "comes_back rd r password ps" using search_returns by blast
qed

text \<open>A disk whose partition table has one entry that starts at sector \<open>2 ^ 55\<close>.\<close>

definition wrapping_entry :: buf where
  "wrapping_entry = 1 # replicate 31 0 @ nat_le 8 (2 ^ 55) @ nat_le 8 (2 ^ 55) @ replicate 464 0"

definition wrapping_disk :: buf where
  "wrapping_disk = replicate 512 0 @ demo_header 1 @ wrapping_entry"

lemma length_wrapping [simp]: "length wrapping_entry = 512" "length wrapping_disk = 1536"
  by (simp_all add: wrapping_entry_def wrapping_disk_def)

lemma wrapping_sectors: "slice 0 512 wrapping_disk = replicate 512 0" "slice 512 512 wrapping_disk = demo_header 1"
  "slice 1024 512 wrapping_disk = wrapping_entry"
  by (simp_all add: wrapping_disk_def slice_def)

definition wrapping_partition :: partition where
  "wrapping_partition = hd (gpt_entry (slice 0 128 wrapping_entry))"

lemma wrapping_entries:
  "entries_of 128 1 wrapping_entry = [wrapping_partition]" "p_start wrapping_partition = 2 ^ 55" "p_size wrapping_partition = 1"
proof -
  have "\<not> list_all (\<lambda>b. b = 0) (take 16 (slice 0 128 wrapping_entry))"
    "le_nat (slice 32 8 (slice 0 128 wrapping_entry)) = 2 ^ 55" "le_nat (slice 40 8 (slice 0 128 wrapping_entry)) = 2 ^ 55"
    by (simp_all add: wrapping_entry_def slice_def le_nat_nat_le take_Cons')
  then show "entries_of 128 1 wrapping_entry = [wrapping_partition]" "p_start wrapping_partition = 2 ^ 55" "p_size wrapping_partition = 1"
    by (simp_all add: wrapping_partition_def gpt_entry_def entries_of_def w32_def w64_def sub64_def)
qed

lemma wrapping_partitions: "luks_partitions (demo_disk wrapping_disk) demo_scan_reader = Some [wrapping_partition]"
proof -
  have fields: "gpt_fields (demo_header 1) = (2, 1, 128)" by (rule demo_header_fields) simp
  have read: "read_whole (demo_disk wrapping_disk) demo_scan_reader 0 512 = Some (Some (replicate 512 0))"
    "read_whole (demo_disk wrapping_disk) demo_scan_reader 512 512 = Some (Some (demo_header 1))"
    "read_whole (demo_disk wrapping_disk) demo_scan_reader 1024 512 = Some (Some wrapping_entry)"
    by (simp_all add: read_whole_demo wrapping_sectors)
  have "gpt_sectors (demo_disk wrapping_disk) demo_scan_reader 2 1 128 4 (Suc 0) 0 0 = Some ([wrapping_partition], False)"
    using wrapping_entries(1) by (simp add: read(3) w64_def min_def)
  then have "parse_gpt (demo_disk wrapping_disk) demo_scan_reader False = Some ([wrapping_partition], False)"
    using parse_gpt_primary [of demo_scan_reader "demo_disk wrapping_disk" "demo_header 1" 2 1 128 False]
      demo_header_fields(1) [of 1] read(2) fields by (simp add: w32_def)
  moreover have "parse_mbr (demo_disk wrapping_disk) demo_scan_reader False = Some ([], False)"
    by (simp add: parse_mbr_def read(1))
  moreover have "parse_apm (demo_disk wrapping_disk) demo_scan_reader False = Some ([], False)"
  proof -
    have "hd (replicate 2 (0 :: byte)) \<noteq> hd (bytes_of ''ER'')" by (simp add: bytes_of_def)
    then have "replicate 2 0 \<noteq> bytes_of ''ER''" by metis
    then show ?thesis by (simp add: parse_apm_def read(1))
  qed
  ultimately show ?thesis by (simp add: luks_partitions_def)
qed

theorem luks_search_ends_iff_witness: "unlock_luks1 (demo_disk wrapping_disk) demo_scan_reader ''secret'' 0 = None"
proof -
  have "read_full (demo_disk wrapping_disk) demo_scan_reader 0 luks_phdr = Some (Some (slice 0 592 wrapping_disk))"
    by (simp add: read_full_def read_bytes_via_def demo_disk_def luks_phdr_def read_complete_def sector_bytes_def slice_def splice_def)
  moreover have "\<not> looks_like_luks1 (slice 0 592 wrapping_disk)"
  proof -
    have "hd (replicate 6 (0 :: byte)) \<noteq> 0x4C" by simp
    then have "replicate 6 (0 :: byte) \<noteq> 0x4C # xs" for xs by (metis list.sel(1))
    then show ?thesis by (simp add: looks_like_luks1_def wrapping_disk_def slice_def)
  qed
  moreover have "comes_back (demo_disk wrapping_disk) demo_scan_reader ''secret'' [wrapping_partition]"
    by (simp add: used_partition_def wrapping_entries partition_offset_def w64_def)
  ultimately show ?thesis
    using luks_search_ends_iff [of "demo_disk wrapping_disk" demo_scan_reader "Some (slice 0 592 wrapping_disk)"] wrapping_partitions
    by simp
qed

end
