(* ===== verification/Luks_Wrap.thy ===== *)
theory Luks_Wrap
  imports Luks
begin

text \<open>
  What is written by \<open>wrapLuks1\<close> is opened by \<open>unlockLuks1WithPassword\<close>, and the reader then shows
  the payload.
\<close>

section \<open>Fields of a header that is written piece by piece\<close>

definition put_all :: "(nat \<times> buf) list \<Rightarrow> buf \<Rightarrow> buf" where
  "put_all ops h = fold (\<lambda>(off, bs) h. splice off bs h) ops h"

definition put_fits :: "nat \<Rightarrow> nat \<times> buf \<Rightarrow> bool" where
  "put_fits n op = (fst op + length (snd op) \<le> n)"

definition put_apart :: "nat \<Rightarrow> nat \<Rightarrow> nat \<times> buf \<Rightarrow> bool" where
  "put_apart off n op = (off + n \<le> fst op \<or> fst op + length (snd op) \<le> off)"

text \<open>The bytes that the last of the writes to exactly this range puts there.\<close>

fun put_value :: "nat \<Rightarrow> nat \<Rightarrow> (nat \<times> buf) list \<Rightarrow> buf option" where
  "put_value off n [] = None"
| "put_value off n (op # ops) =
     (case put_value off n ops of
        Some v \<Rightarrow> Some v
      | None \<Rightarrow> if fst op = off \<and> length (snd op) = n \<and> list_all (put_apart off n) ops then Some (snd op) else None)"

lemma slice_splice_apart:
  assumes "p + length bs \<le> length xs" "off + n \<le> p \<or> p + length bs \<le> off"
  shows "slice off n (splice p bs xs) = slice off n xs"
  using assms(2)
proof
  assume a: "off + n \<le> p"
  have p: "length (take p xs) = p" using assms(1) by simp
  have "slice off n (splice p bs xs) = slice off n (take p xs)"
    unfolding splice_def using a p by (intro slice_append_left) simp
  also have "\<dots> = slice off n (take p xs @ drop p xs)"
    using a p by (intro slice_append_left [symmetric]) simp
  finally show ?thesis by simp
next
  assume a: "p + length bs \<le> off"
  then have "drop off (splice p bs xs) = drop off xs"
    using assms(1) by (simp add: splice_def)
  then show ?thesis by (simp add: slice_def)
qed

lemma length_put_all: "list_all (put_fits (length h)) ops \<Longrightarrow> length (put_all ops h) = length h"
  by (induction ops arbitrary: h) (auto simp: put_all_def put_fits_def)

lemma put_all_Cons: "put_all ((p, bs) # ops) h = put_all ops (splice p bs h)"
  by (simp add: put_all_def)

lemma put_all_apart:
  "list_all (put_fits (length h)) ops \<Longrightarrow> list_all (put_apart off n) ops \<Longrightarrow> slice off n (put_all ops h) = slice off n h"
proof (induction ops arbitrary: h)
  case (Cons op ops)
  obtain p bs where op: "op = (p, bs)" by fastforce
  have fits: "p + length bs \<le> length h" using Cons.prems(1) by (simp add: op put_fits_def)
  have "slice off n (put_all ops (splice p bs h)) = slice off n (splice p bs h)"
    using Cons.IH [of "splice p bs h"] Cons.prems fits by (simp add: op)
  then show ?case
    using slice_splice_apart [OF fits] Cons.prems(2) by (simp add: op put_all_Cons put_apart_def)
qed (simp add: put_all_def)

lemma put_all_value:
  "list_all (put_fits (length h)) ops \<Longrightarrow> put_value off n ops = Some v \<Longrightarrow> slice off n (put_all ops h) = v"
proof (induction ops arbitrary: h)
  case (Cons op ops)
  obtain p bs where op: "op = (p, bs)" by fastforce
  have inside: "p + length bs \<le> length h" using Cons.prems(1) by (simp add: op put_fits_def)
  then have fits: "p + length bs \<le> length h" "list_all (put_fits (length (splice p bs h))) ops"
    using Cons.prems(1) by (simp_all add: op)
  show ?case
  proof (cases "put_value off n ops")
    case (Some w)
    then show ?thesis using Cons.IH [OF fits(2)] Cons.prems(2) by (simp add: op put_all_Cons)
  next
    case None
    then have here: "p = off" "length bs = n" "list_all (put_apart off n) ops" "v = bs"
      using Cons.prems(2) by (auto simp: op split: if_splits)
    have "slice off n (put_all ops (splice p bs h)) = slice off n (splice p bs h)"
      by (rule put_all_apart [OF fits(2) here(3)])
    also have "\<dots> = bs" using fits(1) here by (auto intro: slice_splice_same)
    finally show ?thesis by (simp add: op put_all_Cons here)
  qed
qed simp

section \<open>Derived keys, sectors and the splitter\<close>

lemma length_luks_derive [simp]: "length (luks_derive pass salt iter n) = n"
proof (cases "n = 0 \<or> iter = 0")
  case True
  then show ?thesis by (simp add: luks_derive_def pbkdf2_hmac_sha256_def)
next
  case False
  have "length (concat (map (\<lambda>j. pbkdf2_t pass salt iter (1 + of_nat j)) [0..<(n + 31) div 32])) = (n + 31) div 32 * 32"
    by (subst length_concat_uniform [where b = 32]) simp_all
  moreover have "n \<le> (n + 31) div 32 * 32" using div_mult_mod_eq [of "n + 31" 32] mod_less_divisor [of 32 "n + 31"] by linarith
  ultimately show ?thesis
    using False pbkdf2_blocks_spec [of iter pass salt 1 n] by (simp add: luks_derive_def pbkdf2_hmac_sha256_def)
qed

lemma xts_impl_total:
  "length s mod 16 = 0 \<Longrightarrow> xts_aes_crypt_impl n enc dec key t s e \<noteq> None"
  by (simp add: xts_aes_crypt_impl_def Let_def)

lemma xts_sector_roundtrip:
  assumes "length key = kb" "kb = 32 \<or> kb = 64" "length s = 512"
  shows "xts_sector key kb k (xts_sector key kb k s True) False = s \<and> length (xts_sector key kb k s True) = 512"
proof (cases "kb = 64")
  case True
  obtain c where c: "xts_aes256_crypt key (xts_tweak k) s True = Some c"
    using xts_impl_total [of s] assms(3) by (fastforce simp: xts_aes256_crypt_def)
  have "xts_aes256_crypt key (xts_tweak k) c False = Some s \<and> length c = length s"
    using aes256.xts_roundtrip [of key "xts_tweak k" s c] c assms(1) True
    by (simp add: xts_aes256_crypt_def xts_tweak_def)
  then show ?thesis using True c assms(3) by (simp add: xts_sector_def)
next
  case False
  then have kb: "kb = 32" using assms(2) by simp
  obtain c where c: "xts_aes128_crypt key (xts_tweak k) s True = Some c"
    using xts_impl_total [of s] assms(3) by (fastforce simp: xts_aes128_crypt_def)
  have "xts_aes128_crypt key (xts_tweak k) c False = Some s \<and> length c = length s"
    using aes128.xts_roundtrip [of key "xts_tweak k" s c] c assms(1) kb
    by (simp add: xts_aes128_crypt_def xts_tweak_def)
  then show ?thesis using kb c assms(3) by (simp add: xts_sector_def)
qed

lemma length_diffuse [simp]: "length (diffuse p) = length p"
proof -
  have chunk: "length (hash_chunk i (slice (i * 32) 32 p)) = 32" if "i < length p div 32" for i
  proof -
    have "i * 32 + 32 \<le> length p" using that by simp
    then show ?thesis by (simp add: hash_chunk_def min_def)
  qed
  have head: "length (concat (map (\<lambda>i. hash_chunk i (slice (i * 32) 32 p)) [0..<length p div 32])) = length p div 32 * 32"
    using chunk by (subst length_concat_uniform [where b = 32]) simp_all
  have tail: "length (hash_chunk i (slice (length p div 32 * 32) (length p mod 32) p)) = length p mod 32" for i
    using div_mult_mod_eq [of "length p" 32] mod_less_divisor [of 32 "length p"] by (simp add: hash_chunk_def minus_div_mult_eq_mod)
  show ?thesis
    using div_mult_mod_eq [of "length p" 32] by (simp only: diffuse_def Let_def length_append head tail length_map split: if_split) auto
qed

lemma length_af_state:
  "(stripes - 1) * block \<le> length src \<Longrightarrow> length (af_state src block stripes) = block"
proof -
  assume src: "(stripes - 1) * block \<le> length src"
  have "length (fold (\<lambda>i b. diffuse (xor_bytes b (slice (i * block) block src))) is b) = block"
    if "\<forall>i \<in> set is. i < stripes - 1" "length b = block" for "is" b
    using that
  proof (induction "is" arbitrary: b)
    case (Cons i js)
    have "(i + 1) * block \<le> (stripes - 1) * block" using Cons.prems(1) by (intro mult_le_mono1) simp
    then have "i * block + block \<le> length src" using src by simp
    then show ?case using Cons by simp
  qed simp
  then show ?thesis by (simp add: af_state_def)
qed

lemma af_state_cong:
  assumes "take ((stripes - 1) * block) src = take ((stripes - 1) * block) src'"
  shows "af_state src block stripes = af_state src' block stripes"
  unfolding af_state_def
proof (rule fold_cong)
  fix i assume "i \<in> set [0..<stripes - 1]"
  then have "(i + 1) * block \<le> (stripes - 1) * block" by (intro mult_le_mono1) simp
  then have "slice (i * block) block xs = slice (i * block) block (take ((stripes - 1) * block) xs)" for xs :: buf
    by (simp add: slice_def drop_take take_take min_def)
  then show "(\<lambda>b. diffuse (xor_bytes b (slice (i * block) block src))) = (\<lambda>b. diffuse (xor_bytes b (slice (i * block) block src')))"
    using assms by metis
qed simp_all

lemma af_merge_split:
  assumes "length mk = block" "0 < stripes"
  shows "af_merge (af_split_zeros mk block stripes @ rest) block stripes = mk"
proof -
  define z where "z = replicate (block * (stripes - 1)) (0 :: byte)"
  define st where "st = af_state z block stripes"
  have len: "length z = (stripes - 1) * block" by (simp add: z_def mult.commute)
  have st: "length st = block" unfolding st_def by (rule length_af_state) (simp add: len)
  have split: "af_split_zeros mk block stripes = z @ xor_bytes mk st"
    by (simp add: af_split_zeros_def z_def st_def Let_def)
  have "af_state ((z @ xor_bytes mk st) @ rest) block stripes = st"
    unfolding st_def by (rule af_state_cong) (simp add: len)
  moreover have "slice ((stripes - 1) * block) block ((z @ xor_bytes mk st) @ rest) = xor_bytes mk st"
    using assms(1) st by (simp add: slice_def len)
  ultimately show ?thesis using assms(1) st by (simp add: af_merge_def split xor_bytes_cancel)
qed

lemma length_af_split [simp]: "length mk = block \<Longrightarrow> length (af_split_zeros mk block 4) = 4 * block"
  by (simp add: af_split_zeros_def length_af_state Let_def)

section \<open>The written header\<close>

lemma length_luks_master [simp]: "length (luks_master kb) = kb"
  by (simp add: luks_master_def)

lemma luks_header_put: "luks_header kb = put_all (luks_fields kb) (replicate 592 0)"
  by (simp add: luks_header_def put_all_def luks_phdr_def)

lemma luks_fields_fit: "list_all (put_fits 592) (luks_fields kb)"
  by (simp add: luks_fields_def put_fits_def luks_magic_def luks_digest_def upt_rec)

lemma length_luks_header [simp]: "length (luks_header kb) = 592"
  using length_put_all [of "replicate 592 0" "luks_fields kb"] luks_fields_fit by (simp add: luks_header_put)

lemma header_value: "put_value off n (luks_fields kb) = Some v \<Longrightarrow> slice off n (luks_header kb) = v"
  unfolding luks_header_put by (rule put_all_value) (simp_all add: luks_fields_fit)

lemma luks_header_values:
  "slice 0 6 (luks_header kb) = luks_magic" "slice 6 2 (luks_header kb) = be_bytes 2 1"
  "slice 8 4 (luks_header kb) = bytes_of ''aes'' @ [0]" "slice 40 12 (luks_header kb) = bytes_of ''xts-plain64'' @ [0]"
  "slice 72 7 (luks_header kb) = bytes_of ''sha256'' @ [0]" "slice 104 4 (luks_header kb) = be_bytes 4 32"
  "slice 108 4 (luks_header kb) = be_bytes 4 kb"
  "slice 112 20 (luks_header kb) = luks_derive (luks_master kb) (replicate 32 0x11) 2 luks_digest"
  "slice 132 32 (luks_header kb) = replicate 32 0x11" "slice 164 4 (luks_header kb) = be_bytes 4 2"
  "slice 208 4 (luks_header kb) = be_bytes 4 key_enabled" "slice 212 4 (luks_header kb) = be_bytes 4 2"
  "slice 216 32 (luks_header kb) = replicate 32 0x22" "slice 248 4 (luks_header kb) = be_bytes 4 8"
  "slice 252 4 (luks_header kb) = be_bytes 4 4"
  by (rule header_value, simp add: luks_fields_def put_apart_def luks_magic_def luks_digest_def upt_rec)+

lemma be32_slice: "a + 4 \<le> n \<Longrightarrow> be32 a (slice off n xs) = be32 (off + a) xs"
  by (simp add: be32_def slice_slice)

lemma be_nat_acc: "be_nat acc bs = acc * 256 ^ length bs + be_nat 0 bs"
proof (induction bs arbitrary: acc)
  case (Cons b bs)
  show ?case using Cons.IH [of "256 * acc + unat b"] Cons.IH [of "unat b"] by (simp add: algebra_simps)
qed simp

lemma be_nat_bytes: "be_nat 0 (be_bytes n v) = v mod 256 ^ n"
proof -
  have rev: "be_nat 0 (rev bs) = le_nat bs" for bs
  proof (induction bs)
    case (Cons b bs)
    have "be_nat 0 (xs @ [b]) = 256 * be_nat 0 xs + unat b" for xs
    proof -
      have "be_nat acc (xs @ [b]) = 256 * be_nat acc xs + unat b" for acc by (induction xs arbitrary: acc) simp_all
      then show ?thesis .
    qed
    then show ?case using Cons.IH by simp
  qed simp
  show ?thesis by (simp add: be_bytes_def rev le_nat_nat_le)
qed

lemma cstr_field_slice:
  assumes slice: "slice off k h = bytes_of want @ [0]" and k: "k = length want + 1"
    and fits: "length want < n" "off + n \<le> length h"
  shows "cstr_field (slice off n h) want"
proof -
  have s: "slice 0 (length want + 1) (slice off n h) = bytes_of want @ [0]"
    using fits slice k by (subst slice_slice) simp_all
  then have "take (length want) (slice off n h) = bytes_of want"
    by (metis append_eq_conv_conj diff_add_inverse2 length_append length_bytes_of less_add_one min.absorb1 nat_less_le
        slice_def drop0 take_take)
  moreover have "slice off n h ! length want = (bytes_of want @ [0]) ! length want"
    unfolding s [symmetric] using fits by (subst nth_slice) simp_all
  ultimately show ?thesis using fits by (simp add: cstr_field_def nth_append)
qed


section \<open>The written image\<close>

definition luks_sectors :: "buf \<Rightarrow> nat" where
  "luks_sectors payload = (length payload + 511) div 512"

definition padded_payload :: "buf \<Rightarrow> buf" where
  "padded_payload payload = payload @ replicate (luks_sectors payload * 512 - length payload) 0"

lemma luks_sectors_fit: "length payload \<le> luks_sectors payload * 512"
  using div_mult_mod_eq [of "length payload + 511" 512] mod_less_divisor [of 512 "length payload + 511"]
  unfolding luks_sectors_def by linarith

lemma length_padded [simp]: "length (padded_payload payload) = luks_sectors payload * 512"
  using luks_sectors_fit [of payload] by (simp add: padded_payload_def)

lemma padded_sector:
  assumes "k < luks_sectors payload"
  shows "splice 0 (slice (k * 512) 512 payload) (replicate 512 0) = slice (k * 512) 512 (padded_payload payload)"
proof -
  have k: "(k + 1) * 512 \<le> luks_sectors payload * 512" using assms by (intro mult_le_mono1) simp
  show ?thesis
  proof (intro nth_equalityI)
    show "length (splice 0 (slice (k * 512) 512 payload) (replicate 512 0)) = length (slice (k * 512) 512 (padded_payload payload))"
      using k by (simp add: splice_def)
  next
    fix i assume "i < length (splice 0 (slice (k * 512) 512 payload) (replicate 512 (0 :: byte)))"
    then have i: "i < 512" by (simp add: splice_def split: if_splits)
    then have "k * 512 + i < luks_sectors payload * 512" using k by simp
    then show "splice 0 (slice (k * 512) 512 payload) (replicate 512 0) ! i = slice (k * 512) 512 (padded_payload payload) ! i"
      using i by (auto simp: splice_def nth_append nth_slice padded_payload_def)
  qed
qed

lemma key_sector_plain:
  assumes kb: "kb = 32 \<or> kb = 64"
  shows "xts_sector (luks_derive (bytes_of pw) (replicate 32 0x22) 2 kb) kb 8 (luks_key_sector pw kb) False
     = af_split_zeros (luks_master kb) kb 4 @ replicate (512 - 4 * kb) 0
   \<and> length (luks_key_sector pw kb) = 512"
proof -
  let ?s = "splice 0 (af_split_zeros (luks_master kb) kb 4) (replicate 512 (0 :: byte))"
  have s: "?s = af_split_zeros (luks_master kb) kb 4 @ replicate (512 - 4 * kb) 0"
    using kb by (auto simp: splice_def)
  have "length ?s = 512" using kb by (auto simp: s)
  from xts_sector_roundtrip [OF length_luks_derive kb this] show ?thesis
    by (simp add: luks_key_sector_def s Let_def)
qed

lemma payload_sector_plain:
  assumes kb: "kb = 32 \<or> kb = 64" and k: "k < luks_sectors payload"
  shows "xts_sector (luks_master kb) kb k (luks_payload_sector kb payload k) False = slice (k * 512) 512 (padded_payload payload)
    \<and> length (luks_payload_sector kb payload k) = 512"
proof -
  have "(k + 1) * 512 \<le> luks_sectors payload * 512" using k by (intro mult_le_mono1) simp
  then have "length (slice (k * 512) 512 (padded_payload payload)) = 512" by simp
  from xts_sector_roundtrip [OF length_luks_master kb this] show ?thesis
    by (simp only: luks_payload_sector_def padded_sector [OF k])
qed

abbreviation wrapped_head :: "string \<Rightarrow> nat \<Rightarrow> buf" where
  "wrapped_head pw kb \<equiv> splice 4096 (luks_key_sector pw kb) (splice 0 (luks_header kb) (replicate (32 * 512) 0))"

lemma wrapped: "luks_image payload pw kb
    = wrapped_head pw kb @ concat (map (luks_payload_sector kb payload) [0..<luks_sectors payload])"
  by (simp add: luks_image_def luks_sectors_def)

lemma length_head: "kb = 32 \<or> kb = 64 \<Longrightarrow> length (wrapped_head pw kb) = 16384"
  using key_sector_plain by simp

lemma length_wrapped:
  assumes kb: "kb = 32 \<or> kb = 64"
  shows "length (luks_image payload pw kb) = 16384 + luks_sectors payload * 512"
proof -
  have "length (concat (map (luks_payload_sector kb payload) [0..<luks_sectors payload])) = luks_sectors payload * 512"
    using payload_sector_plain [OF kb] by (subst length_concat_uniform [where b = 512]) auto
  then show ?thesis by (simp only: wrapped length_append length_head [OF kb])
qed

lemma wrapped_header:
  assumes kb: "kb = 32 \<or> kb = 64"
  shows "slice 0 592 (luks_image payload pw kb) = luks_header kb"
proof -
  have "slice 0 592 (luks_image payload pw kb) = slice 0 592 (wrapped_head pw kb)"
    unfolding wrapped by (rule slice_append_left) (simp only: length_head [OF kb])
  also have "\<dots> = slice 0 592 (splice 0 (luks_header kb) (replicate (32 * 512) 0))"
    using key_sector_plain [OF kb] by (intro slice_splice_apart) simp_all
  also have "\<dots> = luks_header kb"
    using slice_splice_same [of 0 "replicate (32 * 512) (0 :: byte)" "luks_header kb"] by simp
  finally show ?thesis .
qed

lemma wrapped_key:
  assumes kb: "kb = 32 \<or> kb = 64"
  shows "slice 4096 512 (luks_image payload pw kb) = luks_key_sector pw kb"
proof -
  have "slice 4096 512 (luks_image payload pw kb) = slice 4096 512 (wrapped_head pw kb)"
    unfolding wrapped by (rule slice_append_left) (simp only: length_head [OF kb])
  also have "\<dots> = luks_key_sector pw kb"
    using slice_splice_same [of 4096 "splice 0 (luks_header kb) (replicate (32 * 512) 0)" "luks_key_sector pw kb"]
      key_sector_plain [OF kb] by simp
  finally show ?thesis .
qed

lemma wrapped_payload:
  assumes kb: "kb = 32 \<or> kb = 64" and k: "k < luks_sectors payload"
  shows "slice ((32 + k) * 512) 512 (luks_image payload pw kb) = luks_payload_sector kb payload k"
proof -
  have "slice ((32 + k) * 512) 512 (luks_image payload pw kb)
      = slice (k * 512) (1 * 512) (concat (map (luks_payload_sector kb payload) [0..<luks_sectors payload]))"
    unfolding wrapped by (subst slice_append_right) (use length_head [OF kb] in \<open>simp_all add: add_mult_distrib\<close>)
  also have "\<dots> = luks_payload_sector kb payload k"
    using k payload_sector_plain [OF kb] by (subst slice_concat_uniform) auto
  finally show ?thesis .
qed

section \<open>Reading the image\<close>

text \<open>A memory volume without faults and without a key reads as it is.\<close>

definition plain_memory :: "heap \<Rightarrow> reader \<Rightarrow> buf \<Rightarrow> bool" where
  "plain_memory h r img \<longleftrightarrow> memory_ok h r \<and> memory_volume h r = new_volume img \<and> sector_bytes r = 512"

lemma plain_memory_live:
  assumes "plain_memory h r img" "off + n \<le> length img" "n + 1536 < 2 ^ 32" "n \<le> length buf"
  shows "\<exists>r'. read_bytes win h r off n buf = Some (r', ok_result n, splice 0 (slice off n (plain_volume r img)) buf)"
proof -
  have ok: "memory_ok h r" "memory_volume h r = new_volume img" "sector_bytes r = 512"
    using assms(1) by (simp_all add: plain_memory_def)
  then have "length img mod 512 = 0"
    by (auto simp: memory_ok_def memory_volume_def new_volume_def split: option.splits)
  then have content: "memory_content h r = plain_volume r img" "length (plain_volume r img) = length img"
    by (simp_all add: memory_content_def ok new_volume_def length_plain_volume)
  have "memory_readable h r a m" for a m
    by (simp add: memory_readable_def ok new_volume_def range_hit_def Let_def)
  from mem_source.bytes_live [OF ok(1) _ _ assms(4) this, of off win] show ?thesis
    using assms(2,3) by (simp add: read_bytes_def content ok(3))
qed

lemma read_full_plain:
  assumes "plain_memory h r img" "\<not> has_xts_fvek r" "off + n \<le> length img" "n + 1536 < 2 ^ 32"
  shows "read_full (read_sectors win h) r off n = Some (Some (slice off n img))"
proof -
  have "length img mod sector_bytes r = 0"
    using assms(1) by (auto simp: plain_memory_def memory_ok_def memory_volume_def new_volume_def split: option.splits)
  then have "plain_volume r img = img" using assms(2) by (intro plain_volume_plain) (simp_all add: decrypting_def)
  moreover obtain r' where "read_bytes win h r off n (replicate n 0)
      = Some (r', ok_result n, splice 0 (slice off n (plain_volume r img)) (replicate n 0))"
    using plain_memory_live [OF assms(1,3,4)] by force
  ultimately show ?thesis
    using assms(3) by (simp add: read_full_def read_bytes_def read_complete_def ok_result_def no_result_def splice_def)
qed

lemma wrapped_slot:
  assumes kb: "kb = 32 \<or> kb = 64" and mem: "plain_memory h r (luks_image payload pw kb)"
    and nokey: "\<not> has_xts_fvek r"
  shows "luks_slot (read_sectors win h) r pw 0 (luks_header kb) 0 = Some (Some (luks_master kb))"
proof -
  have vals: "be32 108 (luks_header kb) = kb" "be32 208 (luks_header kb) = key_enabled" "be32 212 (luks_header kb) = 2"
    "be32 248 (luks_header kb) = 8" "be32 252 (luks_header kb) = 4" "be32 164 (luks_header kb) = 2"
    using kb by (auto simp: be32_def luks_header_values be_nat_bytes key_enabled_def)
  have secs: "(kb * 4 + 511) div 512 = 1" using kb by auto
  have af: "read_full (read_sectors win h) r 4096 512 = Some (Some (luks_key_sector pw kb))"
    using read_full_plain [OF mem nokey, of 4096 512 win] length_wrapped [OF kb] by (simp add: wrapped_key [OF kb])
  have keysec: "slice 0 512 (luks_key_sector pw kb) = luks_key_sector pw kb"
    using key_sector_plain [OF kb, of pw] by (simp add: slice_def)
  show ?thesis
    unfolding luks_slot_def Let_def
    using key_sector_plain [OF kb, of pw]
    by (simp add: vals be32_slice slice_slice luks_header_values secs af w64_def keysec af_merge_split luks_digest_def)
qed

lemma wrapped_opens:
  assumes kb: "kb = 32 \<or> kb = 64" and mem: "plain_memory h r (luks_image payload pw kb)"
    and nokey: "\<not> has_xts_fvek r"
  shows "unlock_luks1 (read_sectors win h) r pw 0
    = Some \<lparr>lk_success = True, lk_error = [], lk_key = luks_master kb, lk_payload = 16384\<rparr>"
proof -
  have hdr: "read_full (read_sectors win h) r 0 592 = Some (Some (luks_header kb))"
    using read_full_plain [OF mem nokey, of 0 592 win] length_wrapped [OF kb] by (simp add: wrapped_header [OF kb])
  have looks: "looks_like_luks1 (luks_header kb)"
    using luks_header_values(1,2) [of kb] by (simp add: looks_like_luks1_def slice_def luks_magic_def be_nat_bytes)
  have fields: "cstr_field (slice 8 32 (luks_header kb)) ''aes''" "cstr_field (slice 40 32 (luks_header kb)) ''xts-plain64''"
    "cstr_field (slice 72 32 (luks_header kb)) ''sha256''"
    by (rule cstr_field_slice [OF luks_header_values(3)], simp_all)
      (rule cstr_field_slice [OF luks_header_values(4)], simp_all,
       rule cstr_field_slice [OF luks_header_values(5)], simp_all)
  have vals: "be32 104 (luks_header kb) = 32" "be32 108 (luks_header kb) = kb" "be32 164 (luks_header kb) = 2"
    using kb by (auto simp: be32_def luks_header_values be_nat_bytes)
  have slots: "luks_slots (read_sectors win h) r pw 0 (luks_header kb) [0..<8] = Some (Some (luks_master kb))"
    using wrapped_slot [OF assms] by (simp add: upt_conv_Cons)
  have "luks_open (read_sectors win h) r pw 0 (luks_header kb)
      = Some \<lparr>lk_success = True, lk_error = [], lk_key = luks_master kb, lk_payload = 16384\<rparr>"
    unfolding luks_open_def Let_def using kb by (auto simp: fields vals slots w64_def)
  then show ?thesis by (simp add: unlock_luks1_def luks_search_Inl luks_phdr_def hdr looks)
qed

lemma wrapped_content:
  assumes kb: "kb = 32 \<or> kb = 64" and mem: "plain_memory h r (luks_image payload pw kb)"
    and key: "xts_key_len r = kb" "take kb (xts_key r) = luks_master kb" "length (xts_key r) = 64" "xts_from r = 16384"
  shows "slice 16384 (luks_sectors payload * 512) (plain_volume r (luks_image payload pw kb)) = padded_payload payload"
proof -
  let ?S = "luks_sectors payload" and ?img = "luks_image payload pw kb"
  have ss: "sector_bytes r = 512" using mem by (simp add: plain_memory_def)
  have dec: "decrypting r" using key(1) kb by (auto simp: decrypting_def has_xts_fvek_def ss)
  have crypt: "xts_crypt_sector r t s False = (if kb = 64 then xts_aes256_crypt else xts_aes128_crypt) (luks_master kb) t s False" for t s
    using kb key by (auto simp: xts_crypt_sector_def)
  have sector: "plain_sector r (32 + q) (slice ((32 + q) * 512) 512 ?img) = slice (q * 512) 512 (padded_payload payload)"
    if "q < ?S" for q
  proof -
    have "plain_sector r (32 + q) s = xts_sector (luks_master kb) kb q s False" for s
      using dec key(4) by (simp add: plain_sector_def ss crypt xts_sector_def Let_def)
    then show ?thesis using that by (simp only: wrapped_payload [OF kb that] payload_sector_plain [OF kb that])
  qed
  have "slice (32 * 512) (?S * 512) (plain_volume r ?img)
      = concat (map (\<lambda>q. plain_sector r (32 + q) (slice ((32 + q) * 512) 512 ?img)) [0..<?S])"
    using slice_plain_volume [of ?img r 32 ?S] length_wrapped [OF kb] by (simp add: ss add_mult_distrib)
  also have "\<dots> = concat (map (\<lambda>q. slice (q * 512) 512 (padded_payload payload)) [0..<?S])"
    using sector by (intro arg_cong [where f = concat] map_cong) auto
  also have "\<dots> = padded_payload payload" by (simp add: concat_slices)
  finally show ?thesis by simp
qed

section \<open>The round trip\<close>

text \<open>C28. A volume written by \<open>wrapLuks1\<close> for a 32 or 64 byte key and a password, attached as a
  memory volume with 512-byte sectors, is opened by \<open>unlockLuks1WithPassword\<close> with that
  password: the master key comes back out of the key slot, and after \<open>applyLuksMasterKey\<close> every
  range of the payload, aligned or not, reads as the payload.\<close>

theorem luks_wrapped_volume_opens:
  assumes kb: "kb = 32 \<or> kb = 64"
    and wrap: "wrap_luks1 payload pw kb = Some img" and attach: "attach_memory_volume h r img 512 = (h', r1)"
    and r: "\<not> has_xts_fvek r" "length (xts_key r) = 64"
    and range: "off + n \<le> length payload" "n + 1536 < 2 ^ 32" "n \<le> length buf"
  shows "\<exists>u r2 r3. unlock_luks1 (read_sectors win h') r1 pw 0 = Some u \<and> lk_success u \<and> lk_key u = luks_master kb
    \<and> apply_luks_master_key r1 u = (True, r2)
    \<and> read_bytes win h' r2 (lk_payload u + off) n buf = Some (r3, ok_result n, splice 0 (slice off n payload) buf)"
proof -
  let ?img = "luks_image payload pw kb"
  have img: "img = ?img" using kb wrap by (auto simp: wrap_luks1_def split: if_splits)
  have "length payload < 2 ^ 32"
    using kb wrap w32_less unfolding wrap_luks1_def by (metis leI le_less_trans option.distinct(1))
  let ?u = "\<lparr>lk_success = True, lk_error = [], lk_key = luks_master kb, lk_payload = 16384\<rparr>"
  define r2 where "r2 = snd (apply_luks_master_key r1 ?u)"
  have len: "length ?img = 16384 + luks_sectors payload * 512" by (rule length_wrapped [OF kb])
  have "luks_sectors payload * 512 \<le> length payload + 511" by (simp add: luks_sectors_def)
  then have small: "length ?img + 2 ^ 32 \<le> 2 ^ 64" "length ?img mod 512 = 0" using len \<open>length payload < 2 ^ 32\<close> by simp_all
  have mem: "plain_memory h' r1 ?img" "\<not> has_xts_fvek r1" "length (xts_key r1) = 64"
    using attach r small unfolding img
    by (auto simp: plain_memory_def memory_ok_def memory_volume_def attach_memory_volume_def close_drive_def
        sector_bytes_def has_xts_fvek_def new_volume_def)
  have set: "set_xts_fvek r1 (Some (luks_master kb))
      = (True, r1\<lparr>xts_key := splice 0 (luks_master kb) (xts_key r1), xts_key_len := kb\<rparr>)"
    using kb by (auto simp: set_xts_fvek_def)
  have "luks_master kb \<noteq> []" using kb length_luks_master [of kb] by (metis list.size(3) numeral_neq_zero)
  then have apply': "apply_luks_master_key r1 ?u = (True, r2)"
    "r2 = r1\<lparr>xts_key := splice 0 (luks_master kb) (xts_key r1), xts_key_len := kb, xts_from := 16384\<rparr>"
    by (simp_all add: r2_def apply_luks_master_key_def set set_xts_decrypt_from_def)
  have same: "sector_bytes (r1\<lparr>xts_key := k, xts_key_len := l, xts_from := f\<rparr>) = sector_bytes r1" for k l f
    by (simp add: sector_bytes_def)
  have mem2: "plain_memory h' r2 ?img"
    using mem(1) by (auto simp: plain_memory_def memory_ok_def memory_volume_def same apply'(2) split: option.splits)
  have key2: "xts_key_len r2 = kb" "take kb (xts_key r2) = luks_master kb" "length (xts_key r2) = 64" "xts_from r2 = 16384"
    using mem(3) kb by (auto simp: apply'(2) splice_def)
  have inside: "16384 + off + n \<le> length ?img" using len range(1) luks_sectors_fit [of payload] by simp
  then obtain r3 where r3: "read_bytes win h' r2 (16384 + off) n buf
      = Some (r3, ok_result n, splice 0 (slice (16384 + off) n (plain_volume r2 ?img)) buf)"
    using plain_memory_live [OF mem2 _ range(2,3)] by blast
  have "slice (16384 + off) n (plain_volume r2 ?img)
      = slice off n (slice 16384 (luks_sectors payload * 512) (plain_volume r2 ?img))"
    using inside len by (subst slice_slice) simp_all
  also have "\<dots> = slice off n payload"
    using range(1) by (simp only: wrapped_content [OF kb mem2 key2]) (simp add: padded_payload_def slice_append_left)
  finally show ?thesis using wrapped_opens [OF kb mem(1,2)] apply'(1) r3 by fastforce
qed

definition demo_luks :: buf where "demo_luks = luks_image [1, 2, 3, 4] ''pw'' 64"

definition demo_attached :: "heap \<times> reader" where
  "demo_attached = attach_memory_volume [] new_reader demo_luks 512"

theorem luks_wrapped_volume_opens_witness:
  "\<exists>u r2 r3. unlock_luks1 (read_sectors no_win (fst demo_attached)) (snd demo_attached) ''pw'' 0 = Some u
    \<and> lk_success u \<and> lk_key u = luks_master 64 \<and> apply_luks_master_key (snd demo_attached) u = (True, r2)
    \<and> read_bytes no_win (fst demo_attached) r2 (lk_payload u + 1) 2 [0, 0] = Some (r3, ok_result 2, [2, 3])"
proof -
  have plain: "splice 0 (slice 1 2 [1, 2, 3, 4]) [0, 0] = [2, 3 :: byte]" by (simp add: splice_def slice_def)
  have attach: "attach_memory_volume [] new_reader demo_luks 512 = (fst demo_attached, snd demo_attached)"
    by (simp add: demo_attached_def)
  have wrap: "wrap_luks1 [1, 2, 3, 4] ''pw'' 64 = Some demo_luks"
    by (simp add: wrap_luks1_def demo_luks_def w32_def)
  show ?thesis
    unfolding plain [symmetric]
    by (rule luks_wrapped_volume_opens [OF _ wrap attach]) (simp_all add: new_reader_def has_xts_fvek_def)
qed

end
