(* ===== verification/Byte_Source.thy ===== *)
theory Byte_Source
  imports Disk_IO Runs_Codec Path_Util
begin

text \<open>
  Byte sources of image files (io/byte\_source.cpp): a file, a raw image that was split into
  numbered files, and the checks on HTTP sources.  A source gives its size and, for an offset
  and a length, the bytes or the error that \<open>lastError\<close> returns then.  A file system is a map
  from paths to contents; a path in its domain is a regular file that can be opened.  That a
  stream stays failed after a read whose end wraps is not modelled.
\<close>

type_synonym files = "string \<rightharpoonup> buf"

record byte_source =
  bs_size :: nat
  bs_read :: "nat \<Rightarrow> nat \<Rightarrow> string + buf"

section \<open>Positions in strings\<close>

definition last_index :: "(char \<Rightarrow> bool) \<Rightarrow> string \<Rightarrow> nat option" where
  "last_index P s = (case filter (\<lambda>i. P (s ! i)) (rev [0..<length s]) of [] \<Rightarrow> None | i # _ \<Rightarrow> Some i)"

definition find_string :: "string \<Rightarrow> string \<Rightarrow> nat option" where
  "find_string needle s =
     (case filter (\<lambda>i. take (length needle) (drop i s) = needle) [0..<length s] of [] \<Rightarrow> None | i # _ \<Rightarrow> Some i)"

definition starts_with :: "string \<Rightarrow> string \<Rightarrow> bool" where
  "starts_with prefix s \<longleftrightarrow> take (length prefix) s = prefix"

section \<open>Files and split images\<close>

definition file_read :: "buf \<Rightarrow> nat \<Rightarrow> nat \<Rightarrow> string + buf" where
  "file_read content off n =
     (if length content < w64 (off + n) then Inl ''read past end''
      else if length content < off + n then Inl ''file read failed''
      else Inr (slice off n content))"

definition file_source :: "files \<Rightarrow> string \<Rightarrow> string + byte_source" where
  "file_source fs path =
     (case fs path of
        None \<Rightarrow> Inl ''could not open file''
      | Some content \<Rightarrow> Inr \<lparr>bs_size = length content, bs_read = file_read content\<rparr>)"

definition parse_split_ext :: "string \<Rightarrow> (string \<times> nat) option" where
  "parse_split_ext path =
     (case last_index (\<lambda>c. c = dot) path of
        None \<Rightarrow> None
      | Some d \<Rightarrow>
          if d + 4 \<noteq> length path then None
          else if \<not> list_all is_digit (drop (d + 1) path) then None
          else Some (take d path, fold (\<lambda>c n. n * 10 + (of_char c - 48)) (drop (d + 1) path) 0))"

definition pad_left :: "nat \<Rightarrow> string \<Rightarrow> string" where
  "pad_left k s = replicate (k - length s) (CHR ''0'') @ s"

definition split_segment_path :: "string \<Rightarrow> nat \<Rightarrow> string" where
  "split_segment_path stem n = stem @ [dot] @ pad_left 3 (dec_string n)"

definition collect_split_segments :: "files \<Rightarrow> string \<Rightarrow> string list" where
  "collect_split_segments fs first =
     (case parse_split_ext first of
        None \<Rightarrow> [first]
      | Some (stem, start) \<Rightarrow>
          if start \<noteq> 0 \<and> start \<noteq> 1 then [first]
          else let out = takeWhile (\<lambda>p. fs p \<noteq> None) (map (split_segment_path stem) [start..<start + 256])
               in if length out < 2 then [first] else out)"

record split_part =
  sp_source :: byte_source
  sp_size :: nat
  sp_base :: nat

text \<open>The constructor; the first part that cannot be opened makes the source unusable.\<close>

primrec split_parts :: "files \<Rightarrow> string list \<Rightarrow> nat \<Rightarrow> string + split_part list" where
  "split_parts fs [] base = Inr []"
| "split_parts fs (p # ps) base =
     (case file_source fs p of
        Inl e \<Rightarrow> Inl e
      | Inr src \<Rightarrow>
          (case split_parts fs ps (w64 (base + bs_size src)) of
             Inl e \<Rightarrow> Inl e
           | Inr parts \<Rightarrow> Inr (\<lparr>sp_source = src, sp_size = bs_size src, sp_base = base\<rparr> # parts)))"

definition part_at :: "split_part list \<Rightarrow> nat \<Rightarrow> split_part option" where
  "part_at parts pos = find (\<lambda>p. sp_base p \<le> pos \<and> pos < w64 (sp_base p + sp_size p)) parts"

lemma part_at_SomeD: "part_at parts pos = Some p \<Longrightarrow> sp_base p \<le> pos \<and> pos < sp_base p + sp_size p"
  unfolding part_at_def find_Some_iff using w64_le [of "sp_base p + sp_size p"] by (auto dest: less_le_trans)

text \<open>A part that is missing leaves the error of the source as it was, here empty.\<close>

function split_loop :: "split_part list \<Rightarrow> nat \<Rightarrow> nat \<Rightarrow> string + buf" where
  "split_loop parts pos n =
     (if n = 0 then Inr []
      else case part_at parts pos of
        None \<Rightarrow> Inl []
      | Some p \<Rightarrow>
          let local = pos - sp_base p; k = min n (sp_size p - local)
          in case bs_read (sp_source p) local k of
               Inl e \<Rightarrow> Inl e
             | Inr bs \<Rightarrow> (case split_loop parts (pos + k) (n - k) of Inl e \<Rightarrow> Inl e | Inr rest \<Rightarrow> Inr (bs @ rest)))"
  by pat_completeness auto
termination
  by (relation "measure (\<lambda>(_, _, n). n)") (auto dest!: part_at_SomeD)

declare split_loop.simps [simp del]

definition split_read :: "split_part list \<Rightarrow> nat \<Rightarrow> nat \<Rightarrow> nat \<Rightarrow> string + buf" where
  "split_read parts total_size off n =
     (if parts = [] then Inl []
      else if n = 0 then Inr []
      else if total_size < w64 (off + n) then Inl ''read past end''
      else split_loop parts off n)"

definition split_source :: "files \<Rightarrow> string list \<Rightarrow> string + byte_source" where
  "split_source fs paths =
     (case split_parts fs paths 0 of
        Inl e \<Rightarrow> Inl e
      | Inr parts \<Rightarrow>
          let total_size = fold (\<lambda>p n. w64 (n + sp_size p)) parts 0
          in Inr \<lparr>bs_size = total_size, bs_read = split_read parts total_size\<rparr>)"

definition open_file_source :: "files \<Rightarrow> string \<Rightarrow> string + byte_source" where
  "open_file_source fs path =
     (let segs = collect_split_segments fs path
      in if 2 \<le> length segs then split_source fs segs else file_source fs path)"

section \<open>HTTP sources\<close>

definition http_range_read_status_ok :: "nat \<Rightarrow> nat \<Rightarrow> nat \<Rightarrow> nat \<Rightarrow> bool" where
  "http_range_read_status_ok status off n total_size \<longleftrightarrow> status = 206 \<or> status = 200 \<and> off = 0 \<and> n = total_size"

definition http_probe_status_ok :: "nat \<Rightarrow> bool" where
  "http_probe_status_ok status \<longleftrightarrow> status = 200 \<or> status = 206"

definition http_probe_needs_range_get_fallback :: "nat \<Rightarrow> bool" where
  "http_probe_needs_range_get_fallback status \<longleftrightarrow> status = 405 \<or> status = 501"

text \<open>\<open>%d\<close> of \<open>sscanf\<close>: blanks, a sign, digits; a value outside \<open>int\<close> is kept as it is.\<close>

definition digits_value :: "string \<Rightarrow> nat" where
  "digits_value ds = fold (\<lambda>c n. n * 10 + (of_char c - 48)) ds 0"

definition scan_int :: "string \<Rightarrow> (int \<times> string) option" where
  "scan_int s =
     (let t = dropWhile is_space s;
          neg = (t \<noteq> [] \<and> hd t = CHR ''-'');
          u = (if t \<noteq> [] \<and> (hd t = CHR ''-'' \<or> hd t = CHR ''+'') then tl t else t);
          ds = takeWhile is_digit u
      in if ds = [] then None
         else Some (if neg then - int (digits_value ds) else int (digits_value ds), dropWhile is_digit u))"

definition scan_dot :: "string \<Rightarrow> string option" where
  "scan_dot s = (if s \<noteq> [] \<and> hd s = dot then Some (tl s) else None)"

definition ipv4_octets :: "string \<Rightarrow> int list option" where
  "ipv4_octets host = do {
     (a, s) \<leftarrow> scan_int host; s \<leftarrow> scan_dot s;
     (b, s) \<leftarrow> scan_int s; s \<leftarrow> scan_dot s;
     (c, s) \<leftarrow> scan_int s; s \<leftarrow> scan_dot s;
     (d, s) \<leftarrow> scan_int s;
     if s = [] \<and> list_all (\<lambda>x. 0 \<le> x \<and> x \<le> 255) [a, b, c, d] then Some [a, b, c, d] else None
   }"

definition private_address :: "int list \<Rightarrow> bool" where
  "private_address os \<longleftrightarrow> os ! 0 = 127 \<or> os ! 0 = 10 \<or> os ! 0 = 172 \<and> 16 \<le> os ! 1 \<and> os ! 1 \<le> 31
     \<or> os ! 0 = 192 \<and> os ! 1 = 168 \<or> os ! 0 = 169 \<and> os ! 1 = 254 \<or> os ! 0 = 0"

definition is_blocked_host_literal :: "string \<Rightarrow> bool" where
  "is_blocked_host_literal host =
     (let h = map to_lower host
      in if h \<in> {''localhost'', ''0.0.0.0'', ''::1'', ''::''} then True
         else if 6 \<le> length h \<and> drop (length h - 6) h = ''.local'' then True
         else case ipv4_octets h of
           Some os \<Rightarrow> private_address os
         | None \<Rightarrow>
             (h \<noteq> [] \<and> hd h = CHR ''[''
              \<and> (let inner = butlast (tl h)
                 in inner = ''::1'' \<or> starts_with ''fe80:'' inner \<or> starts_with ''fc'' inner \<or> starts_with ''fd'' inner))
             \<or> starts_with ''fe80:'' h \<or> starts_with ''fc'' h \<or> starts_with ''fd'' h)"

definition parse_http_host :: "string \<Rightarrow> string option" where
  "parse_http_host url =
     (case find_string ''://'' url of
        None \<Rightarrow> None
      | Some i \<Rightarrow>
          let rest = drop (i + 3) url
          in if rest = [] then None
             else if hd rest = CHR ''[''
             then let h = takeWhile (\<lambda>c. c \<noteq> CHR '']'') (tl rest)
                  in if length h = length (tl rest) \<or> h = [] then None else Some h
             else let h = takeWhile (\<lambda>c. c \<noteq> CHR '':'' \<and> c \<noteq> slash) rest
                  in if h = [] then None else Some h)"

definition http_url_host_allowed :: "string \<Rightarrow> bool" where
  "http_url_host_allowed url \<longleftrightarrow> is_http_url url
     \<and> (case parse_http_host url of None \<Rightarrow> False | Some h \<Rightarrow> \<not> is_blocked_host_literal h)"

text \<open>\<open>strtoull\<close>: the value and whether a digit was consumed.\<close>

definition strtoull :: "string \<Rightarrow> nat \<times> bool" where
  "strtoull s = (case scan_int s of
     None \<Rightarrow> (0, False)
   | Some (v, _) \<Rightarrow> (if u64_max < nat \<bar>v\<bar> then u64_max else nat (v mod 2 ^ 64), True))"

definition http_parse_content_range_total :: "string \<Rightarrow> bool \<times> nat" where
  "http_parse_content_range_total header =
     (case last_index (\<lambda>c. c = slash) header of
        None \<Rightarrow> (False, 0)
      | Some i \<Rightarrow>
          if length header \<le> i + 1 then (False, 0)
          else if header ! (i + 1) = CHR ''*'' then (False, 0)
          else let (v, consumed) = strtoull (drop (i + 1) header) in (0 < v \<and> consumed, v))"

section \<open>A split image reads as the concatenation\<close>

fun laid_out :: "split_part list \<Rightarrow> nat \<Rightarrow> buf list \<Rightarrow> bool" where
  "laid_out [] base [] = True"
| "laid_out (p # ps) base (c # cs) =
     (sp_base p = base \<and> sp_size p = length c \<and> bs_read (sp_source p) = file_read c \<and> laid_out ps (base + length c) cs)"
| "laid_out _ _ _ = False"

lemma split_parts_laid:
  assumes "split_parts fs ps base = Inr parts" "base + length (concat (map (\<lambda>p. the (fs p)) ps)) < 2 ^ 64"
  shows "laid_out parts base (map (\<lambda>p. the (fs p)) ps)"
  using assms
  by (induction ps arbitrary: base parts)
    (auto simp: file_source_def w64_id split: option.splits sum.splits)

lemma laid_out_size:
  "laid_out parts base cs \<Longrightarrow> acc + length (concat cs) < 2 ^ 64
    \<Longrightarrow> fold (\<lambda>p n. w64 (n + sp_size p)) parts acc = acc + length (concat cs)"
  by (induction parts base cs arbitrary: acc rule: laid_out.induct) (auto simp: w64_id)

lemma file_read_inside: "off + n \<le> length c \<Longrightarrow> length c < 2 ^ 64 \<Longrightarrow> file_read c off n = Inr (slice off n c)"
  by (simp add: file_read_def w64_id)

lemma part_at_laid:
  assumes "laid_out parts base cs" "base + length (concat cs) < 2 ^ 64" "base \<le> pos" "pos < base + length (concat cs)"
  shows "\<exists>p. part_at parts pos = Some p \<and> sp_base p \<le> pos \<and> pos < sp_base p + sp_size p
    \<and> sp_base p + sp_size p \<le> base + length (concat cs)
    \<and> (\<forall>k \<le> sp_base p + sp_size p - pos. bs_read (sp_source p) (pos - sp_base p) k = Inr (slice (pos - base) k (concat cs)))"
  using assms
proof (induction parts base cs rule: laid_out.induct)
  case (2 p ps base c cs)
  have p: "sp_base p = base" "sp_size p = length c" "bs_read (sp_source p) = file_read c" and rest: "laid_out ps (base + length c) cs"
    using 2(2) by simp_all
  show ?case
  proof (cases "pos < base + length c")
    case True
    then have "part_at (p # ps) pos = Some p" using 2(3,4) p by (simp add: part_at_def w64_id)
    moreover have "file_read c (pos - base) k = Inr (slice (pos - base) k (concat (c # cs)))" if "k \<le> base + length c - pos" for k
    proof -
      have "pos - base + k \<le> length c" using that 2(4) True by simp
      then show ?thesis using 2(3) by (simp add: file_read_inside slice_append_left)
    qed
    ultimately show ?thesis using True p 2(4) by simp
  next
    case False
    then obtain q where q: "part_at ps pos = Some q" "sp_base q \<le> pos" "pos < sp_base q + sp_size q"
      "sp_base q + sp_size q \<le> base + length c + length (concat cs)"
      "\<And>k. k \<le> sp_base q + sp_size q - pos \<Longrightarrow> bs_read (sp_source q) (pos - sp_base q) k = Inr (slice (pos - (base + length c)) k (concat cs))"
      using 2(1) rest 2(3-5) by auto
    have "part_at (p # ps) pos = Some q" using False q(1) p 2(3) by (simp add: part_at_def w64_id)
    moreover have "slice (pos - base) k (concat (c # cs)) = slice (pos - (base + length c)) k (concat cs)" for k
      using False by (simp add: slice_append_right)
    ultimately show ?thesis using q by auto
  qed
qed simp_all

lemma split_loop_slice:
  assumes "laid_out parts base cs" "base + length (concat cs) < 2 ^ 64" "base \<le> pos" "pos + n \<le> base + length (concat cs)"
  shows "split_loop parts pos n = Inr (slice (pos - base) n (concat cs))"
  using assms
proof (induction parts pos n rule: split_loop.induct)
  case (1 parts pos n)
  show ?case
  proof (cases "n = 0")
    case True
    then show ?thesis by (simp add: split_loop.simps)
  next
    case False
    then have "pos < base + length (concat cs)" using 1(5) by simp
    then obtain p where p: "part_at parts pos = Some p" "sp_base p \<le> pos" "pos < sp_base p + sp_size p"
      "sp_base p + sp_size p \<le> base + length (concat cs)"
      "\<And>k. k \<le> sp_base p + sp_size p - pos \<Longrightarrow> bs_read (sp_source p) (pos - sp_base p) k = Inr (slice (pos - base) k (concat cs))"
      using part_at_laid [OF 1(2-4)] by auto
    define k where "k = min n (sp_size p - (pos - sp_base p))"
    have k: "k \<le> n" "k \<le> sp_base p + sp_size p - pos" using p(2) by (simp_all add: k_def)
    have read: "bs_read (sp_source p) (pos - sp_base p) k = Inr (slice (pos - base) k (concat cs))" by (rule p(5) [OF k(2)])
    have "split_loop parts (pos + k) (n - k) = Inr (slice (pos + k - base) (n - k) (concat cs))"
      using 1(1) [OF False p(1) refl k_def read] 1(2-5) k(1) by simp
    moreover have "slice (pos - base) k (concat cs) @ slice (pos + k - base) (n - k) (concat cs) = slice (pos - base) n (concat cs)"
      using slice_append_slice [of "pos - base" k "concat cs" "n - k"] k(1) 1(4) by simp
    ultimately show ?thesis
      using False p(1) read by (subst split_loop.simps) (simp add: k_def [symmetric] Let_def)
  qed
qed

text \<open>C30. An image that is opened from its first numbered part reads as the concatenation of the
  parts, across the boundaries too: every range inside it is returned, every other one refused.\<close>

theorem split_image_is_concatenation:
  assumes "open_file_source fs path = Inr src" "off + n < 2 ^ 64" "0 < n"
    and "length (concat (map (\<lambda>p. the (fs p)) (collect_split_segments fs path))) < 2 ^ 64"
  shows "bs_size src = length (concat (map (\<lambda>p. the (fs p)) (collect_split_segments fs path)))
    \<and> bs_read src off n = (if off + n \<le> bs_size src
        then Inr (slice off n (concat (map (\<lambda>p. the (fs p)) (collect_split_segments fs path))))
        else Inl ''read past end'')"
proof (cases "2 \<le> length (collect_split_segments fs path)")
  case True
  let ?cs = "map (\<lambda>p. the (fs p)) (collect_split_segments fs path)"
  obtain parts where parts: "split_parts fs (collect_split_segments fs path) 0 = Inr parts"
    "bs_size src = fold (\<lambda>p n. w64 (n + sp_size p)) parts 0" "bs_read src = split_read parts (bs_size src)"
    using assms(1) True by (auto simp: open_file_source_def split_source_def Let_def split: sum.splits)
  have laid: "laid_out parts 0 ?cs" using split_parts_laid [OF parts(1)] assms(4) by simp
  then have size': "bs_size src = length (concat ?cs)" using laid_out_size [OF laid, of 0] assms(4) by (simp add: parts(2))
  have "parts \<noteq> []" using laid True by (cases parts; cases ?cs) auto
  then show ?thesis
    using split_loop_slice [OF laid, of off n] assms(2-4) size' by (simp add: parts(3) split_read_def w64_id)
next
  case False
  have "collect_split_segments fs path = [path]"
    using False unfolding collect_split_segments_def by (auto simp: Let_def split: option.splits if_splits prod.splits)
  then show ?thesis
    using assms by (auto simp: open_file_source_def file_source_def file_read_def w64_id split: option.splits)
qed

definition demo_files :: files where
  "demo_files = [''a.001'' \<mapsto> [1, 2, 3], ''a.002'' \<mapsto> [4, 5]]"

lemma demo_segments: "collect_split_segments demo_files ''a.001'' = [''a.001'', ''a.002'']"
proof -
  have ext: "parse_split_ext ''a.001'' = Some (''a'', 1)" by code_simp
  have paths: "split_segment_path ''a'' 1 = ''a.001''" "split_segment_path ''a'' 2 = ''a.002''" "split_segment_path ''a'' 3 = ''a.003''"
    by code_simp+
  have "map f [1..<1 + 256] = f 1 # f 2 # f 3 # map f [4..<257 :: nat]" for f :: "nat \<Rightarrow> string"
    by (simp add: upt_conv_Cons del: upt_rec_numeral One_nat_def)
  then show ?thesis by (simp add: collect_split_segments_def ext paths demo_files_def Let_def del: One_nat_def)
qed

theorem split_image_is_concatenation_witness:
  "\<exists>src. open_file_source demo_files ''a.001'' = Inr src \<and> bs_size src = 5 \<and> bs_read src 2 2 = Inr [3, 4]"
proof -
  have "file_source demo_files ''a.001'' = Inr \<lparr>bs_size = 3, bs_read = file_read [1, 2, 3]\<rparr>"
    "file_source demo_files ''a.002'' = Inr \<lparr>bs_size = 2, bs_read = file_read [4, 5]\<rparr>"
    by (simp_all add: file_source_def demo_files_def)
  then obtain src where src: "open_file_source demo_files ''a.001'' = Inr src"
    by (simp add: open_file_source_def demo_segments split_source_def Let_def)
  show ?thesis
    using split_image_is_concatenation [OF src, of 2 2, unfolded demo_segments] src
    by (simp add: slice_def) (simp add: demo_files_def slice_def)
qed

section \<open>The guard against internal addresses\<close>

lemma digits_value_dec: "digits_value (dec_string n) = n"
proof (induction n rule: dec_string.induct)
  case (1 n)
  then show ?case by (subst dec_string.simps) (auto simp: digits_value_def)
qed

lemma digit_plain:
  assumes "is_digit c"
  shows "\<not> is_space c" "c \<noteq> CHR ''-''" "c \<noteq> CHR ''+''" "c \<noteq> dot" "c \<noteq> slash" "c \<noteq> CHR '':''" "c \<noteq> CHR ''[''" "c \<noteq> CHR ''l''"
    "to_lower c = c"
  using assms by (auto simp: is_digit_def is_space_def dot_def slash_def to_lower_def code_between_def)

lemma dec_string_hd: "\<exists>c cs. dec_string n = c # cs \<and> is_digit c"
  using dec_string_nonempty [of n] dec_string_digits [of _ n] by (cases "dec_string n") auto

lemma scan_int_dec:
  assumes "rest = [] \<or> \<not> is_digit (hd rest)"
  shows "scan_int (dec_string n @ rest) = Some (int n, rest)"
proof -
  obtain c cs where n: "dec_string n = c # cs" "is_digit c" using dec_string_hd by blast
  have all: "\<forall>x \<in> set (dec_string n). is_digit x" using dec_string_digits by blast
  have "takeWhile is_digit rest = []" "dropWhile is_digit rest = rest" using assms by (cases rest; auto)+
  then have "takeWhile is_digit (dec_string n @ rest) = dec_string n" "dropWhile is_digit (dec_string n @ rest) = rest"
    using all by (simp_all add: takeWhile_append dropWhile_append)
  moreover have "dropWhile is_space (dec_string n @ rest) = dec_string n @ rest"
    "hd (dec_string n @ rest) \<noteq> CHR ''-''" "hd (dec_string n @ rest) \<noteq> CHR ''+''"
    using digit_plain [OF n(2)] by (simp_all add: n(1))
  ultimately show ?thesis by (simp add: scan_int_def Let_def digits_value_dec)
qed

definition dotted :: "nat \<Rightarrow> nat \<Rightarrow> nat \<Rightarrow> nat \<Rightarrow> string" where
  "dotted a b c d = dec_string a @ dot # dec_string b @ dot # dec_string c @ dot # dec_string d"

lemma dot_no_digit [simp]: "\<not> is_digit dot"
  by (simp add: is_digit_def dot_def)

lemma ipv4_dotted:
  assumes "a < 256" "b < 256" "c < 256" "d < 256"
  shows "ipv4_octets (dotted a b c d) = Some [int a, int b, int c, int d]"
  using assms scan_int_dec [of "[]" d] by (simp add: ipv4_octets_def dotted_def scan_int_dec scan_dot_def)

lemma dotted_chars: "x \<in> set (dotted a b c d) \<Longrightarrow> is_digit x \<or> x = dot"
  unfolding dotted_def using dec_string_digits by auto

lemma dotted_lower: "map to_lower (dotted a b c d) = dotted a b c d"
proof (rule map_idI)
  fix x assume "x \<in> set (dotted a b c d)"
  then have "is_digit x \<or> x = dot" by (rule dotted_chars)
  then show "to_lower x = x" by (auto simp: is_digit_def dot_def to_lower_def code_between_def)
qed

lemma blocked_dotted:
  assumes "a < 256" "b < 256" "c < 256" "d < 256"
  shows "is_blocked_host_literal (dotted a b c d) \<longleftrightarrow> private_address [int a, int b, int c, int d]"
proof -
  let ?h = "dotted a b c d"
  have no: "x \<notin> set ?h" if "\<not> is_digit x" "x \<noteq> dot" for x using dotted_chars that by blast
  have "CHR ''l'' \<notin> set ?h" "CHR '':'' \<notin> set ?h" by (rule no; simp add: is_digit_def dot_def)+
  moreover from this have "CHR ''l'' \<notin> set (drop (length ?h - 6) ?h)" by (meson in_set_dropD)
  then have "drop (length ?h - 6) ?h \<noteq> ''.local''" by (metis list.set_intros(1) list.set_intros(2))
  ultimately have names: "?h \<noteq> ''localhost''" "?h \<noteq> ''::1''" "?h \<noteq> ''::''" "drop (length ?h - 6) ?h \<noteq> ''.local''"
    by auto
  have "private_address [int a, int b, int c, int d]" if "?h = ''0.0.0.0''"
  proof -
    have "ipv4_octets ''0.0.0.0'' = Some [0, 0, 0, 0]" by code_simp
    then show ?thesis using ipv4_dotted [OF assms] that by (simp add: private_address_def)
  qed
  then show ?thesis
    using names ipv4_dotted [OF assms] by (auto simp: is_blocked_host_literal_def dotted_lower Let_def)
qed

lemma host_of_url:
  assumes "h \<noteq> []" "\<forall>c \<in> set h. c \<noteq> CHR '':'' \<and> c \<noteq> slash" "hd h \<noteq> CHR ''[''" "rest = [] \<or> hd rest = CHR '':'' \<or> hd rest = slash"
  shows "parse_http_host (''http://'' @ h @ rest) = Some h"
proof -
  obtain c cs where h: "h = c # cs" using assms(1) by (cases h) auto
  have "[0..<n] = 0 # 1 # 2 # 3 # 4 # [5..<n]" if "5 \<le> n" for n
    using that by (simp add: upt_conv_Cons eval_nat_numeral del: upt_rec_numeral)
  then have "[0..<length (''http://'' @ h @ rest)] = 0 # 1 # 2 # 3 # 4 # [5..<length (''http://'' @ h @ rest)]"
    using length_append [of "''http://''" "h @ rest"] by (simp del: upt_Suc)
  then have "find_string ''://'' (''http://'' @ h @ rest) = Some 4"
    unfolding find_string_def by simp
  moreover have "takeWhile (\<lambda>c. c \<noteq> CHR '':'' \<and> c \<noteq> slash) (h @ rest) = h"
    using assms(2,4) by (cases rest) (auto simp: takeWhile_append)
  ultimately show ?thesis using assms(1,3) h by (simp add: parse_http_host_def)
qed

text \<open>For a URL whose host is an address in dotted decimal notation the guard refuses exactly
  the loopback, private, link-local and zero addresses.\<close>

lemma url_guard_decides_addresses:
  assumes "a < 256" "b < 256" "c < 256" "d < 256" "rest = [] \<or> hd rest = CHR '':'' \<or> hd rest = slash"
  shows "http_url_host_allowed (''http://'' @ dotted a b c d @ rest)
    \<longleftrightarrow> \<not> (a = 0 \<or> a = 10 \<or> a = 127 \<or> a = 169 \<and> b = 254 \<or> a = 172 \<and> 16 \<le> b \<and> b \<le> 31 \<or> a = 192 \<and> b = 168)"
proof -
  have chars: "\<forall>x \<in> set (dotted a b c d). x \<noteq> CHR '':'' \<and> x \<noteq> slash"
    using dotted_chars by (fastforce simp: is_digit_def dot_def slash_def)
  obtain x xs where "dec_string a = x # xs" "is_digit x" using dec_string_hd by blast
  then have "dotted a b c d \<noteq> []" "hd (dotted a b c d) \<noteq> CHR ''[''" using digit_plain(7) by (auto simp: dotted_def)
  then have host: "parse_http_host (''http://'' @ dotted a b c d @ rest) = Some (dotted a b c d)"
    using host_of_url chars assms(5) by blast
  have "is_http_url (''http://'' @ dotted a b c d @ rest)" by (simp add: is_http_url_def)
  then show ?thesis
    unfolding http_url_host_allowed_def host option.case blocked_dotted [OF assms(1-4)]
    by (auto simp: private_address_def)
qed

lemma url_guard_decides_addresses_witness:
  "\<not> http_url_host_allowed (''http://'' @ dotted 172 31 0 1 @ ''/image.E01'')"
  using url_guard_decides_addresses [of 172 31 0 1 "''/image.E01''"] by (simp add: slash_def)

text \<open>The guard takes user information for a part of the host.\<close>

lemma url_guard_passes_user_info: "http_url_host_allowed ''http://user@127.0.0.1/image.E01''"
  by code_simp

end
