(* ===== verification/Ewf_Writer.thy ===== *)
theory Ewf_Writer
  imports Byte_Source Digests
begin

text \<open>
  The writer of E01 images (imager/ewf\_writer.cpp).  \<open>ew_stream\<close> is the content of the open
  segment file, \<open>ew_fs\<close> the file system; a segment reaches it when it is closed.  Streams that
  were opened accept every byte, since the code does not test them.  Arguments: \<open>deflate\<close> is
  zlib at a level (\<open>None\<close>: refused), \<open>opens\<close> tells which paths can be opened
  for writing by their UTF-8 name, \<open>reopens\<close> which of them by the bytes of the name, as the last
  step of the writer does.
\<close>

type_synonym deflater = "nat \<Rightarrow> buf \<Rightarrow> buf option"

record ewf_options =
  eo_chunk :: nat
  eo_case :: string
  eo_evidence :: string
  eo_examiner :: string
  eo_notes :: string
  eo_serial :: string
  eo_level :: nat

definition default_options :: ewf_options where
  "default_options = \<lparr>eo_chunk = 128, eo_case = ''case1'', eo_evidence = ''evidence1'', eo_examiner = ''Byteback'',
     eo_notes = [], eo_serial = ''BYTEBACK01'', eo_level = 0\<rparr>"

record ewf_writer =
  ew_fs :: files
  ew_stream :: "buf option"
  ew_opts :: ewf_options
  ew_bps :: nat
  ew_total :: nat
  ew_written :: nat
  ew_md5hex :: string
  ew_offsets :: "nat list"
  ew_md5 :: md5_ctx
  ew_start :: nat
  ew_chunk_bytes :: nat
  ew_max :: nat
  ew_dest :: string
  ew_number :: nat
  ew_paths :: "string list"
  ew_pending :: buf
  ew_errors :: "(nat \<times> nat) list"

definition new_writer :: "files \<Rightarrow> ewf_writer" where
  "new_writer fs = \<lparr>ew_fs = fs, ew_stream = None, ew_opts = default_options, ew_bps = 512, ew_total = 0, ew_written = 0,
     ew_md5hex = [], ew_offsets = [], ew_md5 = md5_new, ew_start = 0, ew_chunk_bytes = 0, ew_max = 0xFFFF0000,
     ew_dest = [], ew_number = 1, ew_paths = [], ew_pending = [], ew_errors = []\<rparr>"

definition put_bytes :: "buf \<Rightarrow> ewf_writer \<Rightarrow> ewf_writer" where
  "put_bytes bs w = w\<lparr>ew_stream := map_option (\<lambda>s. s @ bs) (ew_stream w)\<rparr>"

section \<open>Headers and paths\<close>

definition ewf_file_header :: nat where "ewf_file_header = 76"
definition ewf_section_header :: nat where "ewf_section_header = 40"

definition section_type :: "string \<Rightarrow> buf" where
  "section_type ty = take 15 (bytes_of ty) @ replicate (16 - min 15 (length ty)) 0"

definition section_header :: "string \<Rightarrow> nat \<Rightarrow> nat \<Rightarrow> buf" where
  "section_header ty n flags = section_type ty @ nat_le 8 n @ nat_le 8 n @ [word_of_nat flags] @ replicate 7 0"

definition chunk_flag :: "ewf_options \<Rightarrow> nat" where
  "chunk_flag opts = (if eo_level opts > 0 then 1 else 0)"

definition path_base :: "string \<Rightarrow> string" where
  "path_base dest =
     (case last_index (\<lambda>c. c = dot) dest of
        None \<Rightarrow> dest
      | Some d \<Rightarrow>
          (case last_index (\<lambda>c. c = backslash \<or> c = slash) dest of
             None \<Rightarrow> take d dest
           | Some k \<Rightarrow> if k < d then take d dest else dest))"

text \<open>\<open>char\<close> arithmetic wraps at 256.\<close>

definition segment_path :: "string \<Rightarrow> nat \<Rightarrow> string" where
  "segment_path dest number =
     (if number \<le> 99 then path_base dest @ ''.E'' @ pad_left 2 (dec_string number)
      else let k = number - 100
           in path_base dest @ ''.E'' @ [char_of (65 + k div 26), char_of (65 + k mod 26)])"

text \<open>The checksum is over the first 68 bytes; only its first four bytes are stored.\<close>

definition header_checksum :: "buf \<Rightarrow> buf" where
  "header_checksum fh = take 4 (snd (md5_final_raw (md5_update md5_new (take 68 fh))))"

definition patch_segment_header :: "(string \<Rightarrow> bool) \<Rightarrow> nat \<Rightarrow> nat \<Rightarrow> string \<Rightarrow> files \<Rightarrow> files" where
  "patch_segment_header reopens number total_segments path fs =
     (case (if reopens path then fs path else None) of
        None \<Rightarrow> fs
      | Some content \<Rightarrow>
          let c1 = splice 16 (nat_le 2 number @ nat_le 2 total_segments) content;
              fh = take ewf_file_header c1
          in if length fh < ewf_file_header then fs(path \<mapsto> c1)
             else fs(path \<mapsto> splice 68 (header_checksum fh) c1))"

definition file_header :: "nat \<Rightarrow> buf" where
  "file_header number =
     [0x45, 0x56, 0x46, 0x09, 0x0D, 0x0A, 0xFF, 0x00] @ nat_le 4 ewf_file_header @ nat_le 2 1 @ nat_le 2 1
     @ nat_le 2 number @ nat_le 2 1 @ nat_le 4 0 @ nat_le 4 0 @ nat_le 4 1 @ replicate 36 0 @ nat_le 4 0 @ nat_le 4 0"

definition case_text :: "ewf_options \<Rightarrow> buf" where
  "case_text opts =
     (let nl = [0x0A]
      in nl @ bytes_of (eo_serial opts) @ nl @ bytes_of ''c'' @ nl @ bytes_of ''1'' @ nl @ bytes_of (eo_case opts) @ nl
         @ bytes_of ''n'' @ nl @ bytes_of ''1'' @ nl @ bytes_of (eo_notes opts) @ nl
         @ bytes_of ''t'' @ nl @ bytes_of ''1'' @ nl @ bytes_of (eo_examiner opts) @ nl
         @ bytes_of ''a'' @ nl @ bytes_of ''1'' @ nl @ bytes_of ''Byteback 0.1'' @ nl @ [0])"

definition header_text :: "ewf_options \<Rightarrow> buf" where
  "header_text opts =
     (let hd = case_text opts; padded = (length hd + 8 + 7) div 8 * 8
      in hd @ replicate (padded - length hd) 0)"

definition volume_data :: "nat \<Rightarrow> nat \<Rightarrow> nat \<Rightarrow> buf" where
  "volume_data spc bps sectors =
     (let cc = w64 (sectors + spc + (2 ^ 64 - 1)) div spc;
          vol = [0] @ nat_le 3 cc @ nat_le 4 spc @ nat_le 4 bps @ nat_le 8 sectors
      in vol @ replicate (104 - length vol) 0)"

section \<open>Segments\<close>

definition start_segment :: "(string \<Rightarrow> bool) \<Rightarrow> nat \<Rightarrow> bool \<Rightarrow> ewf_writer \<Rightarrow> bool \<times> ewf_writer" where
  "start_segment opens number first w =
     (let path = segment_path (ew_dest w) number
      in if \<not> opens path then (False, w)
         else let w1 = w\<lparr>ew_stream := Some [], ew_fs := (ew_fs w)(path \<mapsto> []), ew_number := number,
                        ew_paths := ew_paths w @ [path], ew_offsets := [], ew_chunk_bytes := 0\<rparr>;
                  w2 = put_bytes (file_header number) w1;
                  opts = ew_opts w;
                  text = header_text opts;
                  w3 = (if first
                        then put_bytes (volume_data (eo_chunk opts) (ew_bps w) (ew_total w))
                              (put_bytes (section_header ''disk'' (ewf_section_header + 104) 0)
                                (put_bytes text (put_bytes (section_header ''header'' (ewf_section_header + length text) 0) w2)))
                        else w2);
                  w4 = w3\<lparr>ew_start := length (the (ew_stream w3)) + ewf_section_header\<rparr>
              in (True, put_bytes (section_header ''sectors'' 0 (chunk_flag opts)) w4))"

definition stored_chunk :: "deflater \<Rightarrow> ewf_options \<Rightarrow> buf \<Rightarrow> buf option" where
  "stored_chunk deflate opts bs = (if eo_level opts > 0 then deflate (min (eo_level opts) 9) bs else Some bs)"

definition flush_chunk :: "deflater \<Rightarrow> ewf_writer \<Rightarrow> bool \<times> ewf_writer" where
  "flush_chunk deflate w =
     (if ew_pending w = [] then (True, w)
      else if ew_chunk_bytes w > 0xFFFFFFFF then (False, w)
      else let w1 = w\<lparr>ew_offsets := ew_offsets w @ [w32 (ew_chunk_bytes w)]\<rparr>
           in case stored_chunk deflate (ew_opts w) (ew_pending w) of
                None \<Rightarrow> (False, w1)
              | Some out \<Rightarrow>
                  (True, (put_bytes out w1)\<lparr>ew_chunk_bytes := w64 (ew_chunk_bytes w + length out), ew_pending := []\<rparr>))"

definition table_data :: "nat list \<Rightarrow> nat \<Rightarrow> buf" where
  "table_data offsets total_bytes =
     (let t = concat (map (nat_le 4) offsets) @ nat_le 4 (w32 total_bytes)
      in t @ replicate ((16 - length t mod 16) mod 16) 0)"

definition error_data :: "(nat \<times> nat) list \<Rightarrow> buf" where
  "error_data errs = nat_le 4 (w32 (length errs)) @ concat (map (\<lambda>(start, count). nat_le 8 start @ nat_le 8 count) errs)"

text \<open>The sections that only the last segment of a finished image has.\<close>

definition put_last_sections :: "ewf_writer \<Rightarrow> ewf_writer" where
  "put_last_sections w =
     (let w1 = (if ew_errors w \<noteq> []
                then put_bytes (error_data (ew_errors w)) (put_bytes (section_header ''error'' (ewf_section_header + length (error_data (ew_errors w))) 0) w)
                else w);
          (ctx, digest) = md5_final_raw (ew_md5 w1);
          w2 = w1\<lparr>ew_md5 := ctx, ew_md5hex := concat (map hex_byte digest)\<rparr>
      in put_bytes (section_header ''done'' ewf_section_header 0)
           (put_bytes digest (put_bytes (section_header ''digest'' (ewf_section_header + 16) 0) w2)))"

text \<open>The tables, the last sections, and the size in the header of the sectors section.\<close>

definition close_segment :: "deflater \<Rightarrow> bool \<Rightarrow> ewf_writer \<Rightarrow> bool \<times> ewf_writer" where
  "close_segment deflate last_one w =
     (if ew_stream w = None then (False, w)
      else let (ok, w1) = flush_chunk deflate w
           in if \<not> ok then (False, w1)
              else let n = w64 (ewf_section_header + ew_chunk_bytes w1);
                       flag = chunk_flag (ew_opts w1);
                       table = table_data (ew_offsets w1) (ew_chunk_bytes w1);
                       tn = ewf_section_header + length table;
                       w2 = put_bytes table (put_bytes (section_header ''table2'' tn flag)
                              (put_bytes table (put_bytes (section_header ''table'' tn flag) w1)));
                       w3 = (if last_one then put_last_sections w2 else w2);
                       content = splice (ew_start w3 - ewf_section_header) (section_header ''sectors'' n flag) (the (ew_stream w3))
                   in (True, w3\<lparr>ew_stream := None, ew_fs := (ew_fs w3)(last (ew_paths w3) \<mapsto> content)\<rparr>))"

definition rotate_segment :: "(string \<Rightarrow> bool) \<Rightarrow> deflater \<Rightarrow> ewf_writer \<Rightarrow> bool \<times> ewf_writer" where
  "rotate_segment opens deflate w =
     (let (ok, w1) = close_segment deflate False w
      in if \<not> ok then (False, w1) else start_segment opens (ew_number w1 + 1) False w1)"

section \<open>The interface\<close>

definition ewf_create :: "(string \<Rightarrow> bool) \<Rightarrow> string \<Rightarrow> nat \<Rightarrow> nat \<Rightarrow> ewf_options \<Rightarrow> ewf_writer \<Rightarrow> bool \<times> ewf_writer" where
  "ewf_create opens dest sectors bps opts w =
     (if ew_stream w \<noteq> None then (False, w)
      else if bps = 0 \<or> eo_chunk opts = 0 then (False, w)
      else start_segment opens 1 True
        (w\<lparr>ew_max := (if ew_max w < 4096 then 0xFFFF0000 else ew_max w), ew_dest := dest, ew_opts := opts, ew_bps := bps,
           ew_total := sectors, ew_written := 0, ew_chunk_bytes := 0, ew_pending := [], ew_offsets := [], ew_paths := [],
           ew_md5 := md5_new, ew_md5hex := []\<rparr>))"

text \<open>The loop of \<open>write\<close>; it turns without progress only while the staged chunk is full and refused.\<close>

partial_function (option) write_loop :: "(string \<Rightarrow> bool) \<Rightarrow> deflater \<Rightarrow> nat \<Rightarrow> buf \<Rightarrow> ewf_writer \<Rightarrow> (bool \<times> ewf_writer) option" where
  "write_loop opens deflate cb data w =
     (if data = [] then Some (True, w)
      else let k = min (cb - length (ew_pending w)) (length data);
               w1 = w\<lparr>ew_md5 := md5_update (ew_md5 w) (take k data), ew_pending := ew_pending w @ take k data,
                      ew_written := w64 (ew_written w + k)\<rparr>
           in if length (ew_pending w1) = cb
              then if 0 < ew_chunk_bytes w1 \<and> ew_max w1 < w64 (ew_chunk_bytes w1 + cb)
                   then if \<not> fst (rotate_segment opens deflate w1) then Some (False, snd (rotate_segment opens deflate w1))
                        else if \<not> fst (flush_chunk deflate (snd (rotate_segment opens deflate w1)))
                        then Some (False, snd (flush_chunk deflate (snd (rotate_segment opens deflate w1))))
                        else write_loop opens deflate cb (drop k data) (snd (flush_chunk deflate (snd (rotate_segment opens deflate w1))))
                   else if \<not> fst (flush_chunk deflate w1) then Some (False, snd (flush_chunk deflate w1))
                   else write_loop opens deflate cb (drop k data) (snd (flush_chunk deflate w1))
              else write_loop opens deflate cb (drop k data) w1)"

definition ewf_write :: "(string \<Rightarrow> bool) \<Rightarrow> deflater \<Rightarrow> buf \<Rightarrow> ewf_writer \<Rightarrow> (bool \<times> ewf_writer) option" where
  "ewf_write opens deflate data w =
     (if ew_stream w = None \<or> length data mod ew_bps w \<noteq> 0 then Some (False, w)
      else write_loop opens deflate (w64 (eo_chunk (ew_opts w) * ew_bps w)) data w)"

definition patch_all_segment_headers :: "(string \<Rightarrow> bool) \<Rightarrow> ewf_writer \<Rightarrow> ewf_writer" where
  "patch_all_segment_headers reopens w =
     w\<lparr>ew_fs := fold (\<lambda>(i, path). patch_segment_header reopens (w16 (i + 1)) (w16 (length (ew_paths w))) path)
         (enumerate 0 (ew_paths w)) (ew_fs w)\<rparr>"

definition ewf_close :: "(string \<Rightarrow> bool) \<Rightarrow> deflater \<Rightarrow> bool \<Rightarrow> ewf_writer \<Rightarrow> bool \<times> ewf_writer" where
  "ewf_close reopens deflate last_one w =
     (if ew_stream w = None \<and> ew_paths w = [] then (False, w)
      else let (ok, w1) = (if ew_stream w \<noteq> None then close_segment deflate last_one w else (True, w))
           in if \<not> ok then (False, w1) else (True, patch_all_segment_headers reopens w1))"

definition ewf_finish :: "(string \<Rightarrow> bool) \<Rightarrow> deflater \<Rightarrow> ewf_writer \<Rightarrow> bool \<times> ewf_writer" where
  "ewf_finish reopens deflate w = ewf_close reopens deflate True w"

definition ewf_abort :: "(string \<Rightarrow> bool) \<Rightarrow> deflater \<Rightarrow> ewf_writer \<Rightarrow> bool \<times> ewf_writer" where
  "ewf_abort reopens deflate w = ewf_close reopens deflate False w"

definition set_acquiry_errors :: "(nat \<times> nat) list \<Rightarrow> ewf_writer \<Rightarrow> ewf_writer" where
  "set_acquiry_errors errs w = w\<lparr>ew_errors := errs\<rparr>"

end
