(* ===== verification/Ewf_Reader.thy ===== *)
theory Ewf_Reader
  imports Ewf_Writer
begin

text \<open>
  The reader of E01 images (imager/ewf\_reader.cpp).  A source is opened by the argument \<open>open_src\<close>
  (a file or an HTTP source, by the form of the path) and \<open>inflate\<close> is zlib (\<open>None\<close>: the stream does not
  hold exactly this many bytes).  The cache of a segment after a failed read is not threaded; it
  only saves work.  Results are \<open>Inl\<close> the error; \<open>None\<close> is a loop that does not end,
  a vector that cannot be allocated or an access outside a buffer.
\<close>

type_synonym inflater = "buf \<Rightarrow> nat \<Rightarrow> buf option"
type_synonym opener = "string \<Rightarrow> string + byte_source"

record ewf_segment =
  es_source :: byte_source
  es_offset :: nat
  es_bytes :: nat
  es_base :: nat
  es_comp :: nat
  es_table :: "nat list"
  es_cached :: nat
  es_cache :: buf

record ewf_reader =
  er_bps :: nat
  er_spc :: nat
  er_bytes :: nat
  er_md5 :: string
  er_segments :: "ewf_segment list"
  er_errors :: "(nat \<times> nat) list"
  er_path :: string

definition new_ewf_reader :: ewf_reader where
  "new_ewf_reader = \<lparr>er_bps = 0, er_spc = 0, er_bytes = 0, er_md5 = [], er_segments = [], er_errors = [], er_path = []\<rparr>"

definition new_segment :: "byte_source \<Rightarrow> ewf_segment" where
  "new_segment src = \<lparr>es_source = src, es_offset = 0, es_bytes = 0, es_base = 0, es_comp = 0, es_table = [],
     es_cached = u64_max, es_cache = []\<rparr>"

definition close_ewf_reader :: "ewf_reader \<Rightarrow> ewf_reader" where
  "close_ewf_reader r = new_ewf_reader"

definition ewf_is_open :: "ewf_reader \<Rightarrow> bool" where
  "ewf_is_open r \<longleftrightarrow> er_bps r > 0 \<and> er_bytes r > 0"

text \<open>A read into an empty vector passes a null pointer, which the sources refuse.\<close>

definition read_exact :: "byte_source \<Rightarrow> nat \<Rightarrow> nat \<Rightarrow> string + buf" where
  "read_exact src off n =
     (if n = 0 then Inl ''read failed''
      else case bs_read src off n of
        Inl e \<Rightarrow> Inl (if e = [] then ''read failed'' else e)
      | Inr bs \<Rightarrow> Inr bs)"

definition rd_u32 :: "nat \<Rightarrow> buf \<Rightarrow> nat" where
  "rd_u32 off bs = le_nat (slice off 4 bs)"

definition rd_u64 :: "nat \<Rightarrow> buf \<Rightarrow> nat" where
  "rd_u64 off bs = le_nat (slice off 8 bs)"

section \<open>The sections of a segment\<close>

definition is_type :: "buf \<Rightarrow> string \<Rightarrow> bool" where
  "is_type sh ty \<longleftrightarrow> takeWhile (\<lambda>b. b \<noteq> 0) (take 16 sh) = bytes_of ty"

definition disk_section :: "byte_source \<Rightarrow> nat \<Rightarrow> ewf_reader \<Rightarrow> string + ewf_reader" where
  "disk_section src off r =
     (case read_exact src (w64 (off + ewf_section_header)) 104 of
        Inl e \<Rightarrow> Inl e
      | Inr vol \<Rightarrow>
          if rd_u32 8 vol = 0 then Inl ''invalid bytes per sector''
          else Inr (r\<lparr>er_bps := rd_u32 8 vol, er_spc := rd_u32 4 vol, er_bytes := w64 (rd_u64 12 vol * rd_u32 8 vol)\<rparr>))"

text \<open>The entries without the padding; the last one is the total and dropped.\<close>

definition table_entries :: "buf \<Rightarrow> nat list" where
  "table_entries tbl = map (\<lambda>i. rd_u32 (i * 4) tbl) [0..<length tbl div 4]"

fun strip_zeros :: "nat list \<Rightarrow> nat list" where
  "strip_zeros (e # es) = e # rev (dropWhile (\<lambda>x. x = 0) (rev es))"
| "strip_zeros [] = []"

definition table_section :: "byte_source \<Rightarrow> nat \<Rightarrow> nat \<Rightarrow> ewf_segment \<Rightarrow> (string + ewf_segment) option" where
  "table_section src off n sm =
     (if \<not> (8 \<le> n \<and> n mod 4 = 0) then Some (Inr sm)
      else if bs_size src < n then None
      else case read_exact src (w64 (off + ewf_section_header)) n of
        Inl e \<Rightarrow> Some (Inl e)
      | Inr tbl \<Rightarrow> Some (Inr (sm\<lparr>es_table := butlast (strip_zeros (table_entries tbl))\<rparr>)))"

definition error_pairs :: "buf \<Rightarrow> (nat \<times> nat) list" where
  "error_pairs ed =
     (if length ed < 4 then []
      else let count = rd_u32 0 ed
           in if 4 + 16 * count \<le> length ed
              then map (\<lambda>i. (rd_u64 (4 + 16 * i) ed, rd_u64 (4 + 16 * i + 8) ed)) [0..<count] else [])"

definition error_section :: "byte_source \<Rightarrow> nat \<Rightarrow> nat \<Rightarrow> ewf_reader \<Rightarrow> (string + ewf_reader) option" where
  "error_section src off n r =
     (if bs_size src < n then None
      else case read_exact src (w64 (off + ewf_section_header)) n of
        Inl e \<Rightarrow> Some (Inl e)
      | Inr ed \<Rightarrow> Some (Inr (r\<lparr>er_errors := er_errors r @ error_pairs ed\<rparr>)))"

definition digest_section :: "byte_source \<Rightarrow> nat \<Rightarrow> ewf_reader \<Rightarrow> string + ewf_reader" where
  "digest_section src off r =
     (case read_exact src (w64 (off + ewf_section_header)) 16 of
        Inl e \<Rightarrow> Inl e
      | Inr digest \<Rightarrow> Inr (r\<lparr>er_md5 := concat (map hex_byte digest)\<rparr>))"

text \<open>One section: the reader, the segment, and whether a sectors section was seen.\<close>

type_synonym parse_state = "ewf_reader \<times> ewf_segment \<times> bool"

definition parse_section :: "byte_source \<Rightarrow> bool \<Rightarrow> nat \<Rightarrow> buf \<Rightarrow> parse_state \<Rightarrow> (string + parse_state) option" where
  "parse_section src first off sh st =
     (let (r, sm, seen) = st; n = rd_u64 24 sh - ewf_section_header
      in if is_type sh ''disk'' \<and> first
         then Some (map_sum id (\<lambda>r'. (r', sm, seen)) (disk_section src off r))
         else if is_type sh ''sectors''
         then Some (Inr (r, sm\<lparr>es_offset := w64 (off + ewf_section_header), es_bytes := n, es_comp := unat (sh ! 32)\<rparr>, True))
         else if is_type sh ''table''
         then map_option (map_sum id (\<lambda>sm'. (r, sm', seen))) (table_section src off n sm)
         else if is_type sh ''error''
         then map_option (map_sum id (\<lambda>r'. (r', sm, seen))) (error_section src off n r)
         else if is_type sh ''digest''
         then Some (map_sum id (\<lambda>r'. (r', sm, seen)) (digest_section src off r))
         else Some (Inr st))"

text \<open>The loop; the offset of the next section is computed modulo \<open>2 ^ 64\<close>.\<close>

partial_function (option) section_loop :: "byte_source \<Rightarrow> bool \<Rightarrow> nat \<Rightarrow> parse_state \<Rightarrow> (string + parse_state) option" where
  "section_loop src first off st =
     (if bs_size src < w64 (off + ewf_section_header) then Some (Inr st)
      else let head = read_exact src off ewf_section_header
           in if isl head then Some (Inl (projl head))
              else let sh = projr head; n = rd_u64 24 sh
                   in if n < ewf_section_header \<or> bs_size src < w64 (off + n) then Some (Inl ''invalid section size'')
                      else if is_type sh ''done'' then Some (Inr st)
                      else Option.bind (parse_section src first off sh st) (\<lambda>st'.
                        if isl st' then Some st' else section_loop src first (w64 (off + n)) (projr st')))"

definition ewf_signature :: buf where
  "ewf_signature = [0x45, 0x56, 0x46, 0x09, 0x0D, 0x0A, 0xFF, 0x00]"

definition parse_segment :: "bool \<Rightarrow> ewf_reader \<Rightarrow> ewf_segment \<Rightarrow> (string + (ewf_reader \<times> ewf_segment)) option" where
  "parse_segment first r sm =
     (case read_exact (es_source sm) 0 ewf_file_header of
        Inl e \<Rightarrow> Some (Inl e)
      | Inr fh \<Rightarrow>
          if take 8 fh \<noteq> ewf_signature then Some (Inl ''not an EWF file'')
          else map_option (\<lambda>res. case res of
              Inl e \<Rightarrow> Inl e
            | Inr (r', sm', seen) \<Rightarrow>
                if \<not> seen then Inl ''missing sectors section''
                else if first \<and> er_bps r' = 0 then Inl ''missing disk geometry''
                else Inr (r', sm')) (section_loop (es_source sm) first ewf_file_header (r, sm, False)))"

section \<open>All segments\<close>

definition chunk_bytes :: "ewf_reader \<Rightarrow> nat" where
  "chunk_bytes r = w64 ((if er_spc r \<noteq> 0 then er_spc r else 128) * er_bps r)"

definition segment_image_bytes :: "ewf_reader \<Rightarrow> ewf_segment \<Rightarrow> nat" where
  "segment_image_bytes r sm = (if es_comp sm \<noteq> 0 then w64 (length (es_table sm) * chunk_bytes r) else es_bytes sm)"

primrec parse_segments :: "opener \<Rightarrow> string \<Rightarrow> nat list \<Rightarrow> nat \<Rightarrow> ewf_reader \<Rightarrow> (string + (nat \<times> ewf_reader)) option" where
  "parse_segments open_src path [] cursor r = Some (Inr (cursor, r))"
| "parse_segments open_src path (seg # segs) cursor r =
     (case open_src (if seg = 1 then path else segment_path path seg) of
        Inl e \<Rightarrow> Some (Inl e)
      | Inr src \<Rightarrow>
          (case parse_segment (seg = 1) r ((new_segment src)\<lparr>es_base := cursor\<rparr>) of
             None \<Rightarrow> None
           | Some (Inl e) \<Rightarrow> Some (Inl e)
           | Some (Inr (r', sm)) \<Rightarrow>
               parse_segments open_src path segs (w64 (cursor + segment_image_bytes r' sm))
                 (r'\<lparr>er_segments := er_segments r' @ [sm]\<rparr>)))"

text \<open>The counter of segments has 16 bits, so 65535 segments are never passed.\<close>

definition parse_all_segments :: "opener \<Rightarrow> string \<Rightarrow> ewf_reader \<Rightarrow> (string + ewf_reader) option" where
  "parse_all_segments open_src path r =
     (case open_src path of
        Inl e \<Rightarrow> Some (Inl e)
      | Inr src \<Rightarrow>
          (case read_exact src 0 ewf_file_header of
             Inl e \<Rightarrow> Some (Inl e)
           | Inr fh \<Rightarrow>
               let count = rd_u32 18 fh mod 2 ^ 16
               in if count = 0 then Some (Inl ''invalid segment count'')
                  else case parse_segments open_src path [1..<count + 1] 0 r of
                    None \<Rightarrow> None
                  | Some (Inl e) \<Rightarrow> Some (Inl e)
                  | Some (Inr (cursor, r')) \<Rightarrow>
                      if count = 65535 then None
                      else Some (Inr (if er_bytes r' = 0 then r'\<lparr>er_bytes := cursor\<rparr> else r'))))"

text \<open>A reader whose \<open>open\<close> fails is thrown away by its callers.\<close>

definition ewf_open :: "opener \<Rightarrow> string \<Rightarrow> (string + ewf_reader) option" where
  "ewf_open open_src path = parse_all_segments open_src path (new_ewf_reader\<lparr>er_path := path\<rparr>)"

section \<open>Reading\<close>

definition inflate_chunk :: "inflater \<Rightarrow> ewf_reader \<Rightarrow> ewf_segment \<Rightarrow> nat \<Rightarrow> string + ewf_segment" where
  "inflate_chunk inflate r sm idx =
     (if length (es_table sm) \<le> idx then Inl ''chunk index out of range''
      else let remaining = (if es_base sm < er_bytes r then er_bytes r - es_base sm else 0);
               off = w64 (idx * chunk_bytes r)
           in if remaining \<le> off then Inl ''chunk index past image end''
              else let expected = min (chunk_bytes r) (remaining - off);
                       start = es_table sm ! idx;
                       stop = (if idx + 1 < length (es_table sm) then es_table sm ! (idx + 1) else es_bytes sm)
                   in if stop < start \<or> es_bytes sm < stop then Inl ''invalid chunk extent''
                      else case read_exact (es_source sm) (w64 (es_offset sm + start)) (stop - start) of
                        Inl e \<Rightarrow> Inl e
                      | Inr packed \<Rightarrow>
                          (case inflate packed expected of
                             None \<Rightarrow> Inl ''chunk decompression failed''
                           | Some plain \<Rightarrow> Inr (sm\<lparr>es_cache := plain, es_cached := idx\<rparr>)))"

definition segment_end :: "ewf_reader \<Rightarrow> ewf_segment \<Rightarrow> nat" where
  "segment_end r sm = (if es_comp sm \<noteq> 0 then min (er_bytes r) (w64 (es_base sm + segment_image_bytes r sm))
     else w64 (es_base sm + es_bytes sm))"

definition segment_at :: "ewf_reader \<Rightarrow> nat \<Rightarrow> nat option" where
  "segment_at r pos =
     (case filter (\<lambda>i. es_base (er_segments r ! i) \<le> pos \<and> pos < segment_end r (er_segments r ! i)) [0..<length (er_segments r)] of
        [] \<Rightarrow> None
      | i # _ \<Rightarrow> Some i)"

text \<open>One turn of the loop: at most \<open>n\<close> bytes from position \<open>pos\<close> on; \<open>None\<close> is a copy behind the cache.\<close>

definition read_step :: "inflater \<Rightarrow> ewf_reader \<Rightarrow> nat \<Rightarrow> nat \<Rightarrow> (string + (buf \<times> ewf_reader)) option" where
  "read_step inflate r pos n =
     (case segment_at r pos of
        None \<Rightarrow> Some (Inl ''offset outside segment map'')
      | Some i \<Rightarrow>
          let sm = er_segments r ! i; local = pos - es_base sm
          in if es_comp sm = 0
             then (case bs_read (es_source sm) (w64 (es_offset sm + local)) (min n (es_bytes sm - local)) of
                     Inl e \<Rightarrow> Some (Inl e)
                   | Inr bs \<Rightarrow> Some (Inr (bs, r)))
             else let idx = local div chunk_bytes r
                  in case (if es_cached sm \<noteq> idx then inflate_chunk inflate r sm idx else Inr sm) of
                       Inl e \<Rightarrow> Some (Inl e)
                     | Inr sm' \<Rightarrow>
                         let r' = r\<lparr>er_segments := (er_segments r)[i := sm']\<rparr>; at = local - idx * chunk_bytes r
                         in if length (es_cache sm') < at then None
                            else Some (Inr (slice at (min n (length (es_cache sm') - at)) (es_cache sm'), r')))"

partial_function (option) read_loop :: "inflater \<Rightarrow> nat \<Rightarrow> nat \<Rightarrow> buf \<Rightarrow> ewf_reader \<Rightarrow> (string + (buf \<times> ewf_reader)) option" where
  "read_loop inflate pos n got r =
     (if n \<le> length got then Some (Inr (got, r))
      else Option.bind (read_step inflate r (pos + length got) (n - length got)) (\<lambda>res.
        if isl res then Some (Inl (projl res))
        else read_loop inflate pos n (got @ fst (projr res)) (snd (projr res))))"

definition ewf_read_bytes :: "inflater \<Rightarrow> ewf_reader \<Rightarrow> nat \<Rightarrow> nat \<Rightarrow> (string + (buf \<times> ewf_reader)) option" where
  "ewf_read_bytes inflate r off n =
     (if \<not> ewf_is_open r then Some (Inl ''ewf not open'')
      else if er_bytes r < w64 (off + n) then Some (Inl ''read past image end'')
      else read_loop inflate off n [] r)"

section \<open>The stored digest\<close>

partial_function (option) verify_loop :: "inflater \<Rightarrow> nat \<Rightarrow> nat \<Rightarrow> md5_ctx \<Rightarrow> ewf_reader \<Rightarrow> (bool \<times> md5_ctx \<times> ewf_reader) option" where
  "verify_loop inflate block off ctx r =
     (if er_bytes r \<le> off then Some (True, ctx, r)
      else Option.bind (ewf_read_bytes inflate r off (min block (er_bytes r - off))) (\<lambda>res.
        if isl res then Some (False, ctx, r)
        else verify_loop inflate block (off + min block (er_bytes r - off)) (md5_update ctx (fst (projr res))) (snd (projr res))))"

definition verify_digest :: "inflater \<Rightarrow> ewf_reader \<Rightarrow> bool option" where
  "verify_digest inflate r =
     (if \<not> ewf_is_open r \<or> er_md5 r = [] then Some False
      else map_option (\<lambda>(ok, ctx, _). ok \<and> snd (md5_final_hex ctx) = er_md5 r)
        (verify_loop inflate (min (er_bytes r) (2 ^ 20)) 0 md5_new r))"

end
