(* ===== verification/Ewf_Image.thy ===== *)
theory Ewf_Image
  imports Ewf_Reader
begin

text \<open>
  What \<open>EwfWriter\<close> writes, \<open>EwfReader\<close> reads: the layout of the segment files, the writer as a
  process that appends chunks, the reader as a view of the concatenated chunks, and the round trip.
\<close>

section \<open>Sections in a file\<close>

lemma length_section_type [simp]: "length (section_type ty) = 16"
  by (simp add: section_type_def min_def)

lemma length_section_header [simp]: "length (section_header ty n flags) = 40"
  by (simp add: section_header_def)

definition plain_type :: "string \<Rightarrow> bool" where
  "plain_type ty \<longleftrightarrow> length ty \<le> 15 \<and> 0 \<notin> set (bytes_of ty)"

lemma plain_types [simp]:
  "plain_type ''header''" "plain_type ''disk''" "plain_type ''sectors''" "plain_type ''table''" "plain_type ''table2''"
  "plain_type ''error''" "plain_type ''digest''" "plain_type ''done''"
  by (simp_all add: plain_type_def bytes_of_def)

lemma bytes_of_inj: "bytes_of s = bytes_of t \<longleftrightarrow> s = t"
proof -
  have "char_of (unat (word_of_nat (of_char c) :: byte)) = c" for c
    by (simp add: unat_of_nat)
  then have "map (char_of \<circ> unat) (bytes_of s) = s" for s
    by (simp add: bytes_of_def map_idI)
  then show ?thesis by metis
qed

lemma section_header_type:
  assumes "plain_type ty"
  shows "is_type (section_header ty n flags) ty' \<longleftrightarrow> ty = ty'"
proof -
  have "take 16 (section_header ty n flags) = section_type ty" by (simp add: section_header_def)
  moreover have "takeWhile (\<lambda>b. b \<noteq> 0) (section_type ty) = bytes_of ty"
  proof -
    have "\<forall>b \<in> set (bytes_of ty). b \<noteq> 0" "length ty \<le> 15" using assms by (auto simp: plain_type_def)
    then show ?thesis by (simp add: section_type_def takeWhile_append Suc_diff_le)
  qed
  ultimately show ?thesis by (simp add: is_type_def bytes_of_inj)
qed

lemma section_header_fields:
  shows "n < 2 ^ 64 \<Longrightarrow> rd_u64 24 (section_header ty n flags) = n"
    "flags < 256 \<Longrightarrow> unat (section_header ty n flags ! 32) = flags"
proof -
  have "slice 24 8 (section_header ty n flags) = nat_le 8 n"
    by (simp add: section_header_def slice_append_right slice_def)
  then show "n < 2 ^ 64 \<Longrightarrow> rd_u64 24 (section_header ty n flags) = n"
    by (simp add: rd_u64_def le_nat_nat_le)
  show "flags < 256 \<Longrightarrow> unat (section_header ty n flags ! 32) = flags"
    by (simp add: section_header_def nth_append unat_of_nat)
qed

definition file_bytes :: "byte_source \<Rightarrow> buf \<Rightarrow> bool" where
  "file_bytes src content \<longleftrightarrow> src = \<lparr>bs_size = length content, bs_read = file_read content\<rparr> \<and> length content < 2 ^ 63"

lemma read_exact_file:
  assumes "file_bytes src content" "off + n \<le> length content" "0 < n"
  shows "read_exact src off n = Inr (slice off n content)"
  using assms by (simp add: read_exact_def file_bytes_def file_read_inside)

text \<open>One turn of the section loop on a file that has a whole section at this offset.\<close>

lemma section_loop_step:
  assumes src: "file_bytes src (pre @ section_header ty (40 + length payload) flags @ payload @ rest)"
    and ty: "plain_type ty" "ty \<noteq> ''done''"
    and parse: "parse_section src first (length pre) (section_header ty (40 + length payload) flags) st = Some (Inr st')"
  shows "section_loop src first (length pre) st = section_loop src first (length pre + 40 + length payload) st'"
proof -
  let ?h = "section_header ty (40 + length payload) flags"
  let ?c = "pre @ ?h @ payload @ rest"
  have small: "length ?c < 2 ^ 63" "bs_size src = length ?c" using src by (simp_all add: file_bytes_def)
  then have w: "w64 (length pre + 40) = length pre + 40" "w64 (length pre + (40 + length payload)) = length pre + (40 + length payload)"
    by (simp_all add: w64_def)
  have head: "read_exact src (length pre) 40 = Inr ?h"
    using read_exact_file [OF src, of "length pre" 40] by (simp add: slice_append_right slice_append_left slice_def)
  have n: "rd_u64 24 ?h = 40 + length payload" using small(1) by (intro section_header_fields(1)) simp_all
  show ?thesis
    by (subst section_loop.simps)
      (simp add: ewf_section_header_def w head n small(2) section_header_type [OF ty(1)] ty(2) parse Let_def add.assoc)
qed

lemma section_loop_done:
  assumes src: "file_bytes src (pre @ section_header ''done'' 40 0 @ rest)"
  shows "section_loop src first (length pre) st = Some (Inr st)"
proof -
  let ?h = "section_header ''done'' 40 0"
  let ?c = "pre @ ?h @ rest"
  have small: "length ?c < 2 ^ 63" "bs_size src = length ?c" using src by (simp_all add: file_bytes_def)
  then have w: "w64 (length pre + 40) = length pre + 40" by (simp add: w64_def)
  have head: "read_exact src (length pre) 40 = Inr ?h"
    using read_exact_file [OF src, of "length pre" 40] by (simp add: slice_append_right slice_append_left slice_def)
  have n: "rd_u64 24 ?h = 40" by (intro section_header_fields(1)) simp_all
  show ?thesis
    by (subst section_loop.simps) (simp add: ewf_section_header_def w head n small(2) section_header_type Let_def)
qed

lemma section_loop_end:
  assumes "file_bytes src content"
  shows "section_loop src first (length content) st = Some (Inr st)"
proof -
  have "w64 (length content + 40) = length content + 40" "bs_size src = length content"
    using assms by (simp_all add: file_bytes_def w64_def)
  then show ?thesis by (subst section_loop.simps) (simp add: ewf_section_header_def)
qed

section \<open>Tables and errors\<close>

lemma slice_concat_fixed:
  assumes "\<And>x. x \<in> set xs \<Longrightarrow> length (f x) = b" "i < length xs"
  shows "slice (i * b) b (concat (map f xs) @ rest) = f (xs ! i)"
  using assms
proof (induction xs arbitrary: i)
  case (Cons x xs)
  show ?case
  proof (cases i)
    case 0
    then show ?thesis using Cons.prems by (simp add: slice_def)
  next
    case (Suc j)
    have "slice (i * b) b (concat (map f (x # xs)) @ rest) = slice (j * b) b (concat (map f xs) @ rest)"
      using Cons.prems Suc by (simp add: slice_append_right)
    then show ?thesis using Cons Suc by simp
  qed
qed simp

lemma length_concat_fixed: "(\<And>x. x \<in> set xs \<Longrightarrow> length (f x) = b) \<Longrightarrow> length (concat (map f xs)) = length xs * b"
  by (induction xs) simp_all

lemma concat_replicate_replicate: "concat (replicate j (replicate k x)) = replicate (j * k) x"
  by (induction j) (simp_all add: replicate_add [symmetric])

lemma nat_le_zero: "nat_le n 0 = replicate n 0"
  by (induction n) simp_all

lemma table_entries_words:
  assumes "\<forall>x \<in> set ys. x < 2 ^ 32"
  shows "table_entries (concat (map (nat_le 4) ys)) = ys"
proof -
  let ?T = "concat (map (nat_le 4) ys)"
  have "length ?T = length ys * 4" by (rule length_concat_fixed) simp
  then have len: "length ?T div 4 = length ys" by simp
  have "rd_u32 (i * 4) ?T = ys ! i" if i: "i < length ys" for i
  proof -
    have "slice (i * 4) 4 ?T = nat_le 4 (ys ! i)"
      using slice_concat_fixed [of ys "nat_le 4" 4 i "[]"] i by simp
    then show ?thesis using i assms by (simp only: rd_u32_def le_nat_nat_le) simp
  qed
  then have "map (\<lambda>i. rd_u32 (i * 4) ?T) [0..<length ys] = map (nth ys) [0..<length ys]" by (intro map_cong) auto
  then show ?thesis by (simp only: table_entries_def len map_nth)
qed

lemma table_data_entries:
  assumes "\<forall>x \<in> set offsets. x < 2 ^ 32"
  shows "\<exists>j. table_entries (table_data offsets n) = offsets @ [w32 n] @ replicate j 0"
    "8 \<le> length (table_data offsets n)" "length (table_data offsets n) mod 4 = 0"
proof -
  let ?xs = "offsets @ [w32 n]"
  define t where "t = concat (map (nat_le 4) ?xs)"
  define k where "k = (16 - length t mod 16) mod 16"
  have t: "length t = length ?xs * 4" unfolding t_def by (rule length_concat_fixed) simp
  have data: "table_data offsets n = t @ replicate k 0" by (simp add: table_data_def t_def k_def Let_def)
  have "length t mod 16 mod 4 = 0" "length t mod 16 < 16" using t by (simp_all add: mod_mod_cancel)
  moreover define q where "q = length t mod 16"
  ultimately have "q = 0 \<or> q = 4 \<or> q = 8 \<or> q = 12" by presburger
  then have k: "k mod 4 = 0" "(q + k) mod 16 = 0" by (auto simp: k_def q_def [symmetric])
  then obtain j where j: "k = j * 4" by (metis mod_eq_0_iff_dvd dvd_def mult.commute)
  have whole: "table_data offsets n = concat (map (nat_le 4) (?xs @ replicate j 0))"
    by (simp add: data t_def j nat_le_zero concat_replicate_replicate)
  have "table_entries (table_data offsets n) = ?xs @ replicate j 0"
    unfolding whole using assms w32_less [of n] by (intro table_entries_words) auto
  then show "\<exists>j. table_entries (table_data offsets n) = offsets @ [w32 n] @ replicate j 0" by auto
  have len: "length (table_data offsets n) = length t + k" by (simp add: data)
  moreover have "4 \<le> length t" using t by simp
  ultimately show "8 \<le> length (table_data offsets n)"
    using k by (cases "k = 0") (auto simp: q_def)
  show "length (table_data offsets n) mod 4 = 0" using len t k(1) by (simp add: mod_add_eq [symmetric])
qed

lemma strip_table: "(os \<noteq> [] \<Longrightarrow> w \<noteq> 0) \<Longrightarrow> butlast (strip_zeros (os @ [w] @ replicate j 0)) = os"
proof (cases os)
  case Nil
  have "dropWhile (\<lambda>x. x = 0) (replicate j (0 :: nat)) = []" by (simp add: dropWhile_eq_Nil_conv)
  then show ?thesis using Nil by simp
next
  case (Cons x xs)
  assume "os \<noteq> [] \<Longrightarrow> w \<noteq> 0"
  then have "w \<noteq> 0" using Cons by simp
  then have "dropWhile (\<lambda>x. x = 0) (replicate j (0 :: nat) @ w # rev xs) = w # rev xs"
    by (simp add: dropWhile_append3)
  then show ?thesis using Cons by simp
qed

lemma error_pairs_data:
  assumes "length errs < 2 ^ 32" "\<forall>(s, c) \<in> set errs. s < 2 ^ 64 \<and> c < 2 ^ 64"
  shows "error_pairs (error_data errs) = errs"
proof (rule nth_equalityI)
  let ?f = "\<lambda>(start, count). nat_le 8 start @ nat_le 8 count"
  let ?body = "concat (map ?f errs)"
  have body: "length ?body = length errs * 16" by (rule length_concat_fixed) auto
  have data: "error_data errs = nat_le 4 (length errs) @ ?body" using assms(1) by (simp add: error_data_def w32_id)
  have count: "rd_u32 0 (error_data errs) = length errs"
    using assms(1) by (simp add: data rd_u32_def slice_append_left slice_def le_nat_nat_le)
  then have pairs: "error_pairs (error_data errs)
      = map (\<lambda>i. (rd_u64 (4 + 16 * i) (error_data errs), rd_u64 (4 + 16 * i + 8) (error_data errs))) [0..<length errs]"
    using body by (simp only: error_pairs_def Let_def) (simp add: data)
  then show "length (error_pairs (error_data errs)) = length errs" by simp
  fix i assume "i < length (error_pairs (error_data errs))"
  then have i: "i < length errs" by (simp add: pairs)
  obtain s c where sc: "errs ! i = (s, c)" by fastforce
  then have fits: "s < 2 ^ 64" "c < 2 ^ 64" using assms(2) i nth_mem [OF i] by auto
  have "slice (4 + 16 * i) 16 (error_data errs) = slice (i * 16) 16 ?body"
    by (simp add: data slice_append_right mult.commute)
  also have "\<dots> = nat_le 8 s @ nat_le 8 c"
    using slice_concat_fixed [of errs ?f 16 i "[]"] i sc by auto
  finally have both: "slice (4 + 16 * i) 16 (error_data errs) = nat_le 8 s @ nat_le 8 c" .
  have "slice (4 + 16 * i) 8 (error_data errs) = slice 0 8 (slice (4 + 16 * i) 16 (error_data errs))"
    "slice (4 + 16 * i + 8) 8 (error_data errs) = slice 8 8 (slice (4 + 16 * i) 16 (error_data errs))"
    by (simp_all add: slice_slice)
  then have "slice (4 + 16 * i) 8 (error_data errs) = nat_le 8 s" "slice (4 + 16 * i + 8) 8 (error_data errs) = nat_le 8 c"
    unfolding both by (simp_all add: slice_def)
  then show "error_pairs (error_data errs) ! i = errs ! i"
    using i fits by (simp only: pairs rd_u64_def le_nat_nat_le nth_map length_upt diff_zero nth_upt add_0 sc) simp
qed

section \<open>The segments of an image\<close>

record ewf_setup =
  su_deflate :: deflater
  su_opts :: ewf_options
  su_bps :: nat
  su_sectors :: nat
  su_dest :: string
  su_max :: nat
  su_bound :: nat

definition setup_cb :: "ewf_setup \<Rightarrow> nat" where
  "setup_cb s = eo_chunk (su_opts s) * su_bps s"

text \<open>No chunk is refused, and no segment grows beyond what the table can hold before it is closed.\<close>

definition setup_ok :: "ewf_setup \<Rightarrow> bool" where
  "setup_ok s \<longleftrightarrow> 0 < su_bps s \<and> 0 < eo_chunk (su_opts s) \<and> su_bps s < 2 ^ 32 \<and> eo_chunk (su_opts s) < 2 ^ 32
     \<and> setup_cb s \<le> su_bound s \<and> su_bound s < 2 ^ 32 \<and> su_max s - setup_cb s + 2 * su_bound s < 2 ^ 32 \<and> 2 * su_bound s < 2 ^ 32 \<and> su_max s < 2 ^ 32
     \<and> (\<forall>x. x \<noteq> [] \<and> length x \<le> setup_cb s \<longrightarrow>
          (\<exists>y. stored_chunk (su_deflate s) (su_opts s) x = Some y \<and> y \<noteq> [] \<and> length y \<le> su_bound s))"

definition seg_data :: "ewf_setup \<Rightarrow> buf list \<Rightarrow> buf" where
  "seg_data s cs = concat (map (\<lambda>c. the (stored_chunk (su_deflate s) (su_opts s) c)) cs)"

definition seg_offsets :: "ewf_setup \<Rightarrow> buf list \<Rightarrow> nat list" where
  "seg_offsets s cs = map (\<lambda>i. length (seg_data s (take i cs))) [0..<length cs]"

definition seg_front :: "ewf_setup \<Rightarrow> nat \<Rightarrow> buf" where
  "seg_front s number = file_header number @
     (if number = 1
      then section_header ''header'' (40 + length (header_text (su_opts s))) 0 @ header_text (su_opts s)
           @ section_header ''disk'' 144 0 @ volume_data (eo_chunk (su_opts s)) (su_bps s) (su_sectors s)
      else [])"

definition seg_tables :: "ewf_setup \<Rightarrow> buf list \<Rightarrow> buf" where
  "seg_tables s cs =
     (let table = table_data (seg_offsets s cs) (length (seg_data s cs));
          h = (\<lambda>ty. section_header ty (40 + length table) (chunk_flag (su_opts s)))
      in h ''table'' @ table @ h ''table2'' @ table)"

definition closed_segment :: "ewf_setup \<Rightarrow> nat \<Rightarrow> buf list \<Rightarrow> buf \<Rightarrow> buf" where
  "closed_segment s number cs tail =
     seg_front s number @ section_header ''sectors'' (40 + length (seg_data s cs)) (chunk_flag (su_opts s))
     @ seg_data s cs @ seg_tables s cs @ tail"

definition final_sections :: "(nat \<times> nat) list \<Rightarrow> buf \<Rightarrow> buf" where
  "final_sections errs digest =
     (if errs = [] then [] else section_header ''error'' (40 + length (error_data errs)) 0 @ error_data errs)
     @ section_header ''digest'' 56 0 @ digest @ section_header ''done'' 40 0"

lemma seg_data_snoc: "seg_data s (cs @ [c]) = seg_data s cs @ the (stored_chunk (su_deflate s) (su_opts s) c)"
  by (simp add: seg_data_def)

lemma seg_offsets_snoc: "seg_offsets s (cs @ [c]) = seg_offsets s cs @ [length (seg_data s cs)]"
  by (simp add: seg_offsets_def)

lemma length_file_header [simp]: "length (file_header number) = 76"
  by (simp add: file_header_def)

section \<open>The writer as a process that appends chunks\<close>

text \<open>The files of the closed segments; the last name that is distinct from all others is that of segment 775.\<close>

definition segment_files :: "ewf_setup \<Rightarrow> files \<Rightarrow> buf list list \<Rightarrow> bool" where
  "segment_files s fs segs \<longleftrightarrow>
     (\<forall>i < length segs. fs (segment_path (su_dest s) (i + 1)) = Some (closed_segment s (i + 1) (segs ! i) []))"

definition staged :: "ewf_setup \<Rightarrow> buf list list \<Rightarrow> buf list \<Rightarrow> buf \<Rightarrow> ewf_writer \<Rightarrow> bool" where
  "staged s segs cur pend w \<longleftrightarrow>
     ew_opts w = su_opts s \<and> ew_bps w = su_bps s \<and> ew_total w = su_sectors s \<and> ew_dest w = su_dest s \<and> ew_max w = su_max s
     \<and> ew_stream w = Some (seg_front s (length segs + 1) @ section_header ''sectors'' 0 (chunk_flag (su_opts s)) @ seg_data s cur)
     \<and> ew_start w = length (seg_front s (length segs + 1)) + 40
     \<and> ew_offsets w = seg_offsets s cur \<and> ew_chunk_bytes w = length (seg_data s cur)
     \<and> ew_number w = length segs + 1 \<and> ew_paths w = map (segment_path (su_dest s)) [1..<length segs + 2]
     \<and> (length segs < 775 \<longrightarrow> segment_files s (ew_fs w) segs)
     \<and> md5_rel (ew_md5 w) (concat (concat segs) @ concat cur @ pend)
     \<and> ew_pending w = pend
     \<and> (\<forall>cs \<in> set segs \<union> {cur}. length (seg_data s cs) < 2 ^ 32)"

definition writing :: "ewf_setup \<Rightarrow> buf list list \<Rightarrow> buf list \<Rightarrow> buf \<Rightarrow> ewf_writer \<Rightarrow> bool" where
  "writing s segs cur pend w \<longleftrightarrow>
     staged s segs cur pend w \<and> (\<forall>c \<in> set (concat segs) \<union> set cur. length c = setup_cb s) \<and> [] \<notin> set segs"

text \<open>A closed segment, before the next one is opened or the headers are patched.\<close>

definition between :: "ewf_setup \<Rightarrow> buf list list \<Rightarrow> ewf_writer \<Rightarrow> bool" where
  "between s segs w \<longleftrightarrow>
     ew_opts w = su_opts s \<and> ew_bps w = su_bps s \<and> ew_total w = su_sectors s \<and> ew_dest w = su_dest s \<and> ew_max w = su_max s
     \<and> ew_stream w = None \<and> ew_number w = length segs \<and> ew_paths w = map (segment_path (su_dest s)) [1..<length segs + 1]
     \<and> (length segs \<le> 775 \<longrightarrow> segment_files s (ew_fs w) segs)
     \<and> md5_rel (ew_md5 w) (concat (concat segs)) \<and> ew_pending w = []
     \<and> (\<forall>c \<in> set (concat segs). length c = setup_cb s) \<and> [] \<notin> set segs \<and> (\<forall>cs \<in> set segs. length (seg_data s cs) < 2 ^ 32)"

lemma flush_staged:
  assumes "staged s segs cur pend w" "setup_ok s" "pend \<noteq> []" "length pend \<le> setup_cb s" "ew_chunk_bytes w + su_bound s < 2 ^ 32"
  shows "\<exists>w'. flush_chunk (su_deflate s) w = (True, w') \<and> staged s segs (cur @ [pend]) [] w'
    \<and> ew_chunk_bytes w' \<le> ew_chunk_bytes w + su_bound s \<and> ew_errors w' = ew_errors w"
proof -
  obtain y where y: "stored_chunk (su_deflate s) (su_opts s) pend = Some y" "length y \<le> su_bound s"
    using assms(2-4) by (auto simp: setup_ok_def)
  have bound: "su_bound s < 2 ^ 32" using assms(2) by (simp add: setup_ok_def)
  note wr = assms(1) [unfolded staged_def]
  have small: "length (seg_data s cur) < 2 ^ 32" using assms(5) wr by simp
  then have ids: "w32 (length (seg_data s cur)) = length (seg_data s cur)"
    "w64 (length (seg_data s cur) + length y) = length (seg_data s cur) + length y"
    using y(2) bound by (simp_all add: w32_id w64_id)
  have grown: "length (seg_data s cur) + length y < 2 ^ 32" using assms(5) wr y(2) by simp
  have "\<not> ew_chunk_bytes w > 0xFFFFFFFF" using assms(5) by simp
  then show ?thesis
    using wr y small ids assms(3) grown
    by (auto simp: flush_chunk_def staged_def put_bytes_def seg_data_snoc seg_offsets_snoc)
qed

lemma flush_writing:
  assumes "writing s segs cur pend w" "setup_ok s" "length pend = setup_cb s" "ew_chunk_bytes w + su_bound s < 2 ^ 32"
  shows "\<exists>w'. flush_chunk (su_deflate s) w = (True, w') \<and> writing s segs (cur @ [pend]) [] w'
    \<and> ew_chunk_bytes w' \<le> ew_chunk_bytes w + su_bound s \<and> ew_errors w' = ew_errors w"
proof -
  have "0 < setup_cb s" using assms(2) by (simp add: setup_ok_def setup_cb_def)
  then have "pend \<noteq> []" using assms(3) by auto
  then show ?thesis using flush_staged [of s segs cur pend w] assms by (auto simp: writing_def)
qed

lemma splice_middle: "length b' = length b \<Longrightarrow> splice (length a) b' (a @ b @ c) = a @ b' @ c"
  by (simp add: splice_def)

lemma put_fields [simp]:
  "ew_fs (put_bytes bs w) = ew_fs w" "ew_opts (put_bytes bs w) = ew_opts w" "ew_bps (put_bytes bs w) = ew_bps w" "ew_total (put_bytes bs w) = ew_total w"
  "ew_md5hex (put_bytes bs w) = ew_md5hex w" "ew_offsets (put_bytes bs w) = ew_offsets w" "ew_md5 (put_bytes bs w) = ew_md5 w"
  "ew_start (put_bytes bs w) = ew_start w" "ew_chunk_bytes (put_bytes bs w) = ew_chunk_bytes w" "ew_max (put_bytes bs w) = ew_max w"
  "ew_dest (put_bytes bs w) = ew_dest w" "ew_number (put_bytes bs w) = ew_number w" "ew_paths (put_bytes bs w) = ew_paths w"
  "ew_pending (put_bytes bs w) = ew_pending w" "ew_errors (put_bytes bs w) = ew_errors w"
  by (simp_all add: put_bytes_def)

lemma put_stream: "ew_stream w = Some st \<Longrightarrow> ew_stream (put_bytes bs w) = Some (st @ bs)"
  by (simp add: put_bytes_def)

lemma put_last_fields:
  assumes "md5_rel (ew_md5 w) m" "ew_stream w = Some st"
  shows "ew_stream (put_last_sections w) = Some (st @ final_sections (ew_errors w) (md5_spec m))"
    "ew_md5hex (put_last_sections w) = concat (map hex_byte (md5_spec m))"
    "ew_fs (put_last_sections w) = ew_fs w" "ew_opts (put_last_sections w) = ew_opts w" "ew_bps (put_last_sections w) = ew_bps w"
    "ew_total (put_last_sections w) = ew_total w" "ew_start (put_last_sections w) = ew_start w" "ew_max (put_last_sections w) = ew_max w"
    "ew_dest (put_last_sections w) = ew_dest w" "ew_number (put_last_sections w) = ew_number w"
    "ew_paths (put_last_sections w) = ew_paths w" "ew_pending (put_last_sections w) = ew_pending w"
    "ew_errors (put_last_sections w) = ew_errors w"
proof -
  obtain ctx where ctx: "md5_final_raw (ew_md5 w) = (ctx, md5_spec m)"
    using md5_final_rel(1) [OF assms(1)] by (metis prod.collapse)
  show "ew_stream (put_last_sections w) = Some (st @ final_sections (ew_errors w) (md5_spec m))"
    by (cases "ew_errors w = []")
      (simp_all add: put_last_sections_def ctx put_bytes_def assms(2) final_sections_def ewf_section_header_def Let_def)
  show "ew_md5hex (put_last_sections w) = concat (map hex_byte (md5_spec m))"
    using ctx by (simp add: put_last_sections_def Let_def)
qed (simp_all add: put_last_sections_def Let_def split: prod.split)

lemma close_writing:
  assumes "staged s segs cur [] w" "setup_ok s"
  shows "\<exists>w'. close_segment (su_deflate s) last_one w = (True, w')
    \<and> ew_opts w' = su_opts s \<and> ew_bps w' = su_bps s \<and> ew_total w' = su_sectors s \<and> ew_dest w' = su_dest s \<and> ew_max w' = su_max s
    \<and> ew_stream w' = None \<and> ew_number w' = ew_number w \<and> ew_paths w' = ew_paths w \<and> ew_pending w' = [] \<and> ew_errors w' = ew_errors w
    \<and> ew_fs w' = (ew_fs w)(segment_path (su_dest s) (length segs + 1) \<mapsto>
        closed_segment s (length segs + 1) cur
          (if last_one then final_sections (ew_errors w) (md5_spec (concat (concat segs) @ concat cur)) else []))
    \<and> (\<not> last_one \<longrightarrow> ew_md5 w' = ew_md5 w)
    \<and> (last_one \<longrightarrow> ew_md5hex w' = concat (map hex_byte (md5_spec (concat (concat segs) @ concat cur))))"
proof -
  note wr = assms(1) [unfolded writing_def staged_def]
  let ?data = "seg_data s cur" and ?front = "seg_front s (length segs + 1)" and ?flag = "chunk_flag (su_opts s)"
  define table where "table = table_data (seg_offsets s cur) (length ?data)"
  define m where "m = concat (concat segs) @ concat cur"
  define w2 where "w2 = put_bytes table (put_bytes (section_header ''table2'' (40 + length table) ?flag)
      (put_bytes table (put_bytes (section_header ''table'' (40 + length table) ?flag) w)))"
  define w3 where "w3 = (if last_one then put_last_sections w2 else w2)"
  define tail where "tail = (if last_one then final_sections (ew_errors w) (md5_spec m) else [])"
  have flush: "flush_chunk (su_deflate s) w = (True, w)" using wr by (simp add: flush_chunk_def)
  have n: "w64 (40 + length ?data) = 40 + length ?data"
    using wr by (intro w64_id) simp
  have path: "last (ew_paths w) = segment_path (su_dest s) (length segs + 1)" using wr by (simp add: last_map)
  have st2: "ew_stream w2 = Some (?front @ section_header ''sectors'' 0 ?flag @ ?data @ seg_tables s cur)"
    using wr by (simp add: w2_def put_bytes_def seg_tables_def table_def Let_def)
  have md5: "md5_rel (ew_md5 w2) m" using wr by (simp add: w2_def m_def)
  have fields2: "ew_fs w2 = ew_fs w" "ew_opts w2 = ew_opts w" "ew_bps w2 = ew_bps w" "ew_total w2 = ew_total w" "ew_md5 w2 = ew_md5 w"
    "ew_start w2 = ew_start w" "ew_max w2 = ew_max w" "ew_dest w2 = ew_dest w" "ew_number w2 = ew_number w" "ew_paths w2 = ew_paths w"
    "ew_pending w2 = ew_pending w" "ew_errors w2 = ew_errors w"
    by (simp_all add: w2_def)
  have fields3: "ew_fs w3 = ew_fs w" "ew_opts w3 = ew_opts w" "ew_bps w3 = ew_bps w" "ew_total w3 = ew_total w"
    "ew_start w3 = ew_start w" "ew_max w3 = ew_max w" "ew_dest w3 = ew_dest w" "ew_number w3 = ew_number w" "ew_paths w3 = ew_paths w"
    "ew_pending w3 = ew_pending w" "ew_errors w3 = ew_errors w"
    using put_last_fields [OF md5 st2] by (simp_all add: w3_def fields2)
  have st3: "ew_stream w3 = Some (?front @ section_header ''sectors'' 0 ?flag @ ?data @ seg_tables s cur @ tail)"
    using put_last_fields(1) [OF md5 st2] st2 by (simp add: w3_def tail_def fields2)
  have md5_3: "\<not> last_one \<longrightarrow> ew_md5 w3 = ew_md5 w" "last_one \<longrightarrow> ew_md5hex w3 = concat (map hex_byte (md5_spec m))"
    using put_last_fields(2) [OF md5 st2] by (simp_all add: w3_def fields2)
  have content: "splice (ew_start w - 40) (section_header ''sectors'' (40 + length ?data) ?flag) (the (ew_stream w3))
      = closed_segment s (length segs + 1) cur tail"
    using wr by (simp add: st3 fields3 closed_segment_def splice_middle)
  have "close_segment (su_deflate s) last_one w
      = (True, w3\<lparr>ew_stream := None, ew_fs := (ew_fs w)(segment_path (su_dest s) (length segs + 1) \<mapsto>
          closed_segment s (length segs + 1) cur tail)\<rparr>)"
  proof -
    have "ew_stream w \<noteq> None" "ew_chunk_bytes w = length ?data" "ew_offsets w = seg_offsets s cur" "ew_opts w = su_opts s"
      using wr by simp_all
    then show ?thesis
      unfolding close_segment_def flush Let_def prod.case ewf_section_header_def
      by (simp only: not_True_eq_False if_False n table_def [symmetric] w2_def [symmetric] w3_def [symmetric] content fields3 path)
  qed
  then show ?thesis
    using wr md5_3 by (intro exI conjI) (assumption, simp_all add: fields3 tail_def m_def [symmetric])
qed

section \<open>Names of segments\<close>

lemma two_digits: "n \<le> 99 \<Longrightarrow> pad_left 2 (dec_string n) = [dec_digit (n div 10), dec_digit (n mod 10)]"
proof (cases "n < 10")
  case True
  moreover have "CHR ''0'' = char_of (48 :: nat)" by code_simp
  ultimately show ?thesis by (subst dec_string.simps) (simp add: pad_left_def dec_digit_def)
next
  case False
  assume "n \<le> 99"
  then have "n div 10 < 10" by simp
  then have "dec_string (n div 10) = [dec_digit (n div 10)]" by (subst dec_string.simps) simp
  then show ?thesis using False by (subst dec_string.simps) (simp add: pad_left_def)
qed

lemma segment_path_inj:
  assumes "segment_path dest i = segment_path dest j" "i \<le> 775" "j \<le> 775"
  shows "i = j"
proof -
  define code :: "nat \<Rightarrow> nat list" where
    "code n = (if n \<le> 99 then [48 + n div 10, 48 + n mod 10] else [65 + (n - 100) div 26, 65 + (n - 100) mod 26])" for n
  have path: "map of_char (segment_path dest n) = map of_char (path_base dest @ ''.E'') @ code n" if "n \<le> 775" for n
  proof (cases "n \<le> 99")
    case True
    then show ?thesis by (simp add: segment_path_def two_digits code_def)
  next
    case False
    then have "(n - 100) div 26 \<le> 25" "(n - 100) mod 26 < 26" using that by auto
    then show ?thesis using False by (simp add: segment_path_def code_def Let_def)
  qed
  then have same: "code i = code j" using path [OF assms(2)] path [OF assms(3)] assms(1) by simp
  have small: "n div 10 \<le> 9" if "n \<le> 99" for n :: nat using that by simp
  show ?thesis
  proof (cases "i \<le> 99 \<longleftrightarrow> j \<le> 99")
    case True
    then have "i div 10 = j div 10 \<and> i mod 10 = j mod 10 \<or>
        99 < i \<and> 99 < j \<and> (i - 100) div 26 = (j - 100) div 26 \<and> (i - 100) mod 26 = (j - 100) mod 26"
      using same by (auto simp: code_def split: if_splits)
    moreover have eq: "a = b" if "a div k = b div k" "a mod k = b mod k" for a b k :: nat
      using that by (metis div_mult_mod_eq)
    ultimately have "i = j \<or> 99 < i \<and> 99 < j \<and> i - 100 = j - 100" by metis
    then show ?thesis by auto
  next
    case False
    then show ?thesis using same small [of i] small [of j] by (auto simp: code_def split: if_splits)
  qed
qed

lemma segment_files_update:
  assumes "segment_files s fs segs" "length segs < 775"
  shows "segment_files s (fs(segment_path (su_dest s) (length segs + 1) \<mapsto> c)) segs"
    "c = closed_segment s (length segs + 1) cur []
      \<Longrightarrow> segment_files s (fs(segment_path (su_dest s) (length segs + 1) \<mapsto> c)) (segs @ [cur])"
proof -
  have "segment_path (su_dest s) (i + 1) \<noteq> segment_path (su_dest s) (length segs + 1)" if "i < length segs" for i
    using segment_path_inj [of "su_dest s" "i + 1" "length segs + 1"] that assms(2) by auto
  then show "segment_files s (fs(segment_path (su_dest s) (length segs + 1) \<mapsto> c)) segs"
    "c = closed_segment s (length segs + 1) cur []
      \<Longrightarrow> segment_files s (fs(segment_path (su_dest s) (length segs + 1) \<mapsto> c)) (segs @ [cur])"
    using assms(1) by (auto simp: segment_files_def nth_append less_Suc_eq)
qed

lemma close_between:
  assumes "writing s segs cur [] w" "setup_ok s" "cur \<noteq> []"
  shows "\<exists>w'. close_segment (su_deflate s) False w = (True, w') \<and> between s (segs @ [cur]) w' \<and> ew_errors w' = ew_errors w"
proof -
  note wr = assms(1) [unfolded writing_def staged_def]
  obtain w' where w': "close_segment (su_deflate s) False w = (True, w')"
    "ew_opts w' = su_opts s" "ew_bps w' = su_bps s" "ew_total w' = su_sectors s" "ew_dest w' = su_dest s" "ew_max w' = su_max s"
    "ew_stream w' = None" "ew_number w' = ew_number w" "ew_paths w' = ew_paths w" "ew_pending w' = []" "ew_errors w' = ew_errors w"
    "ew_fs w' = (ew_fs w)(segment_path (su_dest s) (length segs + 1) \<mapsto> closed_segment s (length segs + 1) cur [])"
    "ew_md5 w' = ew_md5 w"
    using close_writing [OF _ assms(2), of segs cur w False] assms(1) unfolding writing_def by auto
  have "segment_files s (ew_fs w') (segs @ [cur])" if "length segs < 775"
    unfolding w'(12) using segment_files_update(2) wr that by blast
  then show ?thesis using w' wr assms(3) by (auto simp: between_def)
qed

lemma start_writing:
  assumes "between s segs w" "setup_ok s" "opens (segment_path (su_dest s) (length segs + 1))" "segs \<noteq> []"
  shows "\<exists>w'. start_segment opens (length segs + 1) False w = (True, w') \<and> writing s segs [] [] w' \<and> ew_errors w' = ew_errors w"
proof -
  note bw = assms(1) [unfolded between_def]
  have "segment_files s ((ew_fs w)(segment_path (su_dest s) (length segs + 1) \<mapsto> [])) segs" if "length segs < 775"
    using segment_files_update(1) bw that by simp
  then show ?thesis
    using bw assms(2-4)
    by (simp add: start_segment_def Let_def writing_def staged_def put_stream seg_front_def seg_data_def seg_offsets_def ewf_section_header_def
        setup_ok_def)
qed

lemma create_writing:
  assumes "ew_stream w = None" "setup_ok s" "opens (segment_path (su_dest s) 1)" "su_max s = (if ew_max w < 4096 then 0xFFFF0000 else ew_max w)"
  shows "\<exists>w'. ewf_create opens (su_dest s) (su_sectors s) (su_bps s) (su_opts s) w = (True, w') \<and> writing s [] [] [] w' \<and> ew_errors w' = ew_errors w"
  using assms
  by (simp add: ewf_create_def start_segment_def Let_def writing_def staged_def put_stream seg_front_def seg_data_def seg_offsets_def
      ewf_section_header_def setup_ok_def segment_files_def md5_rel_new)

lemma close_after_flush:
  assumes "flush_chunk d w = (True, w')" "ew_pending w' = []" "ew_stream w \<noteq> None" "ew_stream w' \<noteq> None"
  shows "close_segment d last_one w = close_segment d last_one w'"
proof -
  have "flush_chunk d w' = (True, w')" using assms(2) by (simp add: flush_chunk_def)
  moreover obtain a b where "ew_stream w = Some a" "ew_stream w' = Some b" using assms(3,4) by auto
  ultimately show ?thesis using assms(1) by (simp add: close_segment_def)
qed

definition roomy :: "ewf_setup \<Rightarrow> ewf_writer \<Rightarrow> bool" where
  "roomy s w \<longleftrightarrow> ew_chunk_bytes w \<le> max (su_bound s) (su_max s - setup_cb s + su_bound s)"

lemma rotate_writing:
  assumes "writing s segs cur pend w" "setup_ok s" "length pend = setup_cb s" "roomy s w" "\<And>p. opens p"
  shows "\<exists>w'. rotate_segment opens (su_deflate s) w = (True, w') \<and> writing s (segs @ [cur @ [pend]]) [] [] w' \<and> roomy s w'
    \<and> ew_errors w' = ew_errors w"
proof -
  have "ew_chunk_bytes w + su_bound s < 2 ^ 32" using assms(2,4) by (auto simp: roomy_def setup_ok_def)
  then obtain w1 where w1: "flush_chunk (su_deflate s) w = (True, w1)" "writing s segs (cur @ [pend]) [] w1" "ew_errors w1 = ew_errors w"
    using flush_writing [OF assms(1-3)] by blast
  obtain w2 where w2: "close_segment (su_deflate s) False w1 = (True, w2)" "between s (segs @ [cur @ [pend]]) w2" "ew_errors w2 = ew_errors w1"
    using close_between [OF w1(2) assms(2)] by auto
  have "close_segment (su_deflate s) False w = (True, w2)"
    using close_after_flush [OF w1(1)] w1(2) assms(1) w2(1) by (simp add: writing_def staged_def)
  moreover obtain w3 where w3: "start_segment opens (length (segs @ [cur @ [pend]]) + 1) False w2 = (True, w3)"
    "writing s (segs @ [cur @ [pend]]) [] [] w3" "ew_errors w3 = ew_errors w2"
    using start_writing [where opens = opens, OF w2(2) assms(2,5)] by auto
  moreover have "ew_number w2 = length (segs @ [cur @ [pend]])" using w2(2) by (simp add: between_def)
  moreover have "roomy s w3" using w3(2) by (simp add: writing_def staged_def roomy_def seg_data_def)
  ultimately show ?thesis using w1(3) w2(3) by (simp add: rotate_segment_def)
qed

definition written_bytes :: "buf list list \<Rightarrow> buf list \<Rightarrow> buf \<Rightarrow> buf" where
  "written_bytes segs cur pend = concat (concat segs) @ concat cur @ pend"

lemma write_loop_writing:
  assumes "setup_ok s" "\<And>p. opens p"
  shows "writing s segs cur pend w \<Longrightarrow> length pend < setup_cb s \<Longrightarrow> roomy s w \<Longrightarrow>
    \<exists>w' segs' cur' pend'. write_loop opens (su_deflate s) (setup_cb s) data w = Some (True, w')
      \<and> writing s segs' cur' pend' w' \<and> length pend' < setup_cb s \<and> roomy s w' \<and> ew_errors w' = ew_errors w
      \<and> written_bytes segs' cur' pend' = written_bytes segs cur pend @ data"
proof (induction data arbitrary: segs cur pend w rule: length_induct)
  case (1 data)
  show ?case
  proof (cases "data = []")
    case True
    then show ?thesis using 1(2-4) by (subst write_loop.simps) auto
  next
    case False
    define k where "k = min (setup_cb s - length pend) (length data)"
    have k: "0 < k" "k \<le> length data" "length pend + k \<le> setup_cb s" using False 1(3) by (auto simp: k_def)
    let ?p = "pend @ take k data"
    have pk: "ew_pending w = pend" using 1(2) by (simp add: writing_def staged_def)
    define w1 where "w1 = w\<lparr>ew_md5 := md5_update (ew_md5 w) (take k data), ew_pending := ?p, ew_written := w64 (ew_written w + k)\<rparr>"
    have w1: "writing s segs cur ?p w1" "roomy s w1" "ew_errors w1 = ew_errors w"
      using 1(2,4) md5_update_rel [of "ew_md5 w" _ "take k data"] unfolding w1_def writing_def staged_def roomy_def by force+
    have IH: "\<exists>w' segs' cur' pend'. write_loop opens (su_deflate s) (setup_cb s) (drop k data) w2 = Some (True, w')
      \<and> writing s segs' cur' pend' w' \<and> length pend' < setup_cb s \<and> roomy s w' \<and> ew_errors w' = ew_errors w
      \<and> written_bytes segs' cur' pend' = written_bytes segs cur pend @ data"
      if "writing s segs2 cur2 pend2 w2" "length pend2 < setup_cb s" "roomy s w2" "ew_errors w2 = ew_errors w1"
        "written_bytes segs2 cur2 pend2 = written_bytes segs cur ?p" for segs2 cur2 pend2 w2
    proof -
      note start = that
      have "length (drop k data) < length data" using k by simp
      then obtain w' segs' cur' pend' where "write_loop opens (su_deflate s) (setup_cb s) (drop k data) w2 = Some (True, w')"
        "writing s segs' cur' pend' w'" "length pend' < setup_cb s" "roomy s w'" "ew_errors w' = ew_errors w2"
        "written_bytes segs' cur' pend' = written_bytes segs2 cur2 pend2 @ drop k data"
        using 1(1) start(1-3) by blast
      moreover have "written_bytes segs cur ?p @ drop k data = written_bytes segs cur pend @ data" by (simp add: written_bytes_def)
      ultimately show ?thesis using start(4,5) w1(3) by auto
    qed
    note unroll = write_loop.simps [of opens "su_deflate s" "setup_cb s" data w, unfolded Let_def, unfolded pk, folded k_def, folded w1_def]
    have pw1: "ew_pending w1 = ?p" by (simp add: w1_def)
    have cb: "0 < setup_cb s" using 1(3) by simp
    show ?thesis
    proof (cases "length ?p = setup_cb s")
      case full: True
      have flushed: "written_bytes segs (cur @ [?p]) [] = written_bytes segs cur ?p" by (simp add: written_bytes_def)
      show ?thesis
      proof (cases "0 < ew_chunk_bytes w1 \<and> ew_max w1 < w64 (ew_chunk_bytes w1 + setup_cb s)")
        case True
        obtain w2 where w2: "rotate_segment opens (su_deflate s) w1 = (True, w2)" "writing s (segs @ [cur @ [?p]]) [] [] w2"
          "roomy s w2" "ew_errors w2 = ew_errors w1"
          using rotate_writing [where opens = opens, OF w1(1) assms(1) full w1(2) assms(2)] by blast
        have "flush_chunk (su_deflate s) w2 = (True, w2)" using w2(2) by (simp add: writing_def staged_def flush_chunk_def)
        then have "write_loop opens (su_deflate s) (setup_cb s) data w = write_loop opens (su_deflate s) (setup_cb s) (drop k data) w2"
          using False full True w2(1) by (subst unroll) (simp add: pw1)
        then show ?thesis using IH [OF w2(2) _ w2(3,4)] cb by (simp add: written_bytes_def)
      next
        case small: False
        have little: "ew_chunk_bytes w1 + su_bound s < 2 ^ 32" using assms(1) w1(2) by (auto simp: roomy_def setup_ok_def)
        then obtain w2 where w2: "flush_chunk (su_deflate s) w1 = (True, w2)" "writing s segs (cur @ [?p]) [] w2"
          "ew_chunk_bytes w2 \<le> ew_chunk_bytes w1 + su_bound s" "ew_errors w2 = ew_errors w1"
          using flush_writing [OF w1(1) assms(1) full] by blast
        have "setup_cb s < 2 ^ 32" using assms(1) by (simp add: setup_ok_def)
        then have "w64 (ew_chunk_bytes w1 + setup_cb s) = ew_chunk_bytes w1 + setup_cb s"
          using little by (intro w64_id) simp
        then have small_room: "roomy s w2" using small w2(3) w1(1) by (auto simp: roomy_def writing_def staged_def)
        have small_eq: "(0 < ew_chunk_bytes w1 \<and> ew_max w1 < w64 (ew_chunk_bytes w1 + setup_cb s)) = False" using small by blast
        have "write_loop opens (su_deflate s) (setup_cb s) data w = write_loop opens (su_deflate s) (setup_cb s) (drop k data) w2"
          using False full w2(1) by (subst unroll) (simp add: pw1 small_eq)
        then show ?thesis using IH [OF w2(2) _ small_room w2(4) flushed] cb by simp
      qed
    next
      case part: False
      then have "write_loop opens (su_deflate s) (setup_cb s) data w = write_loop opens (su_deflate s) (setup_cb s) (drop k data) w1"
        using False by (subst unroll) (simp add: pw1)
      moreover have "length ?p < setup_cb s" using part k by simp
      ultimately show ?thesis using IH [OF w1(1) _ w1(2) refl refl] by simp
    qed
  qed
qed

end
