(* ===== verification/Ewf_Roundtrip.thy ===== *)
theory Ewf_Roundtrip
  imports Ewf_Image
begin

text \<open>
  The reader on the files of the writer: every segment file parses back to its chunk table, the
  reader is a view of the concatenated chunks, and the round trip of a whole image.
\<close>

section \<open>Finished segment files\<close>

definition marked_header :: "nat \<Rightarrow> buf \<Rightarrow> bool" where
  "marked_header total_segments fh \<longleftrightarrow> length fh = 76 \<and> take 8 fh = ewf_signature \<and> rd_u32 18 fh mod 2 ^ 16 = total_segments"

lemma length_md5_spec [simp]: "length (md5_spec m) = 16"
  by (simp add: md5_spec_def md5_out_def split: prod.split)

lemma patch_marks:
  assumes "fs path = Some (file_header number @ rest)" "reopens path" "total_segments < 2 ^ 16"
  shows "\<exists>fh. patch_segment_header reopens n total_segments path fs = fs(path \<mapsto> fh @ rest) \<and> marked_header total_segments fh"
proof -
  let ?h = "file_header number"
  define mid where "mid = nat_le 2 n @ nat_le 2 total_segments"
  define c where "c = take 16 ?h @ mid @ drop 20 ?h"
  define ck where "ck = header_checksum c"
  define fh where "fh = take 68 c @ ck @ drop 72 c"
  have mid: "length mid = 4" by (simp add: mid_def)
  have c: "length c = 76" by (simp add: c_def mid)
  have ck: "length ck = 4"
    using md5_final_rel(1) [OF md5_update_rel [OF md5_rel_new]] by (simp add: ck_def header_checksum_def)
  have c1: "splice 16 mid (?h @ rest) = c @ rest" by (simp add: c_def splice_def mid)
  have c2: "splice 68 ck (c @ rest) = fh @ rest" by (simp add: fh_def splice_def ck c)
  have "take ewf_file_header (c @ rest) = c" by (simp add: ewf_file_header_def c)
  then have "patch_segment_header reopens n total_segments path fs = fs(path \<mapsto> fh @ rest)"
    using assms(1,2) c c2 unfolding patch_segment_header_def Let_def
    by (simp only: if_True option.case c1 [unfolded mid_def] ck_def [symmetric]) (simp add: ewf_file_header_def)
  moreover have "length fh = 76" using c ck by (simp add: fh_def)
  moreover have "take 8 fh = ewf_signature" using c by (simp add: fh_def c_def file_header_def ewf_signature_def)
  moreover have "rd_u32 18 fh mod 2 ^ 16 = total_segments"
  proof -
    have "slice 18 4 fh = slice 18 4 c" using c by (simp add: fh_def slice_def drop_take)
    also have "\<dots> = nat_le 2 total_segments @ take 2 (drop 20 ?h)"
      by (simp add: c_def mid_def slice_def)
    finally obtain x y z where xyz: "slice 18 4 fh = [x, y] @ z" "nat_le 2 total_segments = [x, y]"
      by (cases "nat_le 2 total_segments" rule: remdups_adj.cases) (auto simp: numeral_2_eq_2)
    then have "le_nat [x, y] = total_segments" using le_nat_nat_le [of 2 total_segments] assms(3) by simp
    then have "rd_u32 18 fh = total_segments + 2 ^ 16 * le_nat z" by (simp add: rd_u32_def xyz(1))
    then show ?thesis using assms(3) by simp
  qed
  ultimately show ?thesis by (auto simp: marked_header_def)
qed

section \<open>Parsing a segment\<close>

definition setup_geometry :: "ewf_setup \<Rightarrow> nat \<Rightarrow> ewf_reader \<Rightarrow> ewf_reader" where
  "setup_geometry s number r =
     (if number = 1 then r\<lparr>er_bps := su_bps s, er_spc := eo_chunk (su_opts s), er_bytes := su_sectors s * su_bps s\<rparr> else r)"

definition parsed_segment :: "ewf_setup \<Rightarrow> nat \<Rightarrow> buf list \<Rightarrow> ewf_segment \<Rightarrow> ewf_segment" where
  "parsed_segment s number cs sm = sm\<lparr>es_offset := length (seg_front s number) + 40, es_bytes := length (seg_data s cs),
     es_comp := chunk_flag (su_opts s), es_table := seg_offsets s cs\<rparr>"

lemma read_payload:
  assumes "file_bytes src (pre @ section_header ty (40 + length payload) flags @ payload @ rest)" "payload \<noteq> []"
  shows "read_exact src (w64 (length pre + ewf_section_header)) (length payload) = Inr payload" "length payload \<le> bs_size src"
    "w64 (length pre + ewf_section_header) = length pre + 40"
proof -
  have small: "length (pre @ section_header ty (40 + length payload) flags @ payload @ rest) < 2 ^ 63"
    "bs_size src = length (pre @ section_header ty (40 + length payload) flags @ payload @ rest)"
    using assms(1) by (simp_all add: file_bytes_def)
  then show w: "w64 (length pre + ewf_section_header) = length pre + 40" "length payload \<le> bs_size src"
    by (simp_all add: ewf_section_header_def w64_def)
  show "read_exact src (w64 (length pre + ewf_section_header)) (length payload) = Inr payload"
    unfolding w using read_exact_file [OF assms(1), of "length pre + 40" "length payload"] assms(2)
    by (simp add: slice_append_right slice_append_left slice_def)
qed

lemma volume_data_fields:
  assumes "spc < 2 ^ 32" "bps < 2 ^ 32" "sectors < 2 ^ 64"
  shows "length (volume_data spc bps sectors) = 104" "rd_u32 8 (volume_data spc bps sectors) = bps"
    "rd_u32 4 (volume_data spc bps sectors) = spc" "rd_u64 12 (volume_data spc bps sectors) = sectors"
  using assms
  by (simp_all add: volume_data_def Let_def rd_u32_def rd_u64_def slice_append_right slice_append_left slice_def le_nat_nat_le)

lemma chunk_flag_small: "chunk_flag opts < 256"
  by (simp add: chunk_flag_def)

lemma section_step_ignored:
  assumes "file_bytes src (pre @ section_header ty (40 + length payload) flags @ payload @ rest)"
    "ty \<in> {''header'', ''table2''}"
  shows "section_loop src first (length pre) st
    = section_loop src first (length (pre @ section_header ty (40 + length payload) flags @ payload)) st"
proof -
  have ty: "plain_type ty" "ty \<noteq> ''done''" using assms(2) by auto
  have "parse_section src first (length pre) (section_header ty (40 + length payload) flags) st = Some (Inr st)"
    using assms(2) by (auto simp: parse_section_def Let_def section_header_type split: prod.split)
  from section_loop_step [OF assms(1) ty this] show ?thesis by (simp add: add.assoc)
qed

lemma section_step_disk:
  assumes "file_bytes src (pre @ section_header ''disk'' (40 + length payload) 0 @ payload @ rest)" "setup_ok s"
    "payload = volume_data (eo_chunk (su_opts s)) (su_bps s) (su_sectors s)" "su_sectors s * su_bps s < 2 ^ 64"
  shows "section_loop src True (length pre) (r, sm, seen)
    = section_loop src True (length (pre @ section_header ''disk'' (40 + length payload) 0 @ payload)) (setup_geometry s 1 r, sm, seen)"
proof -
  have ok: "0 < su_bps s" "eo_chunk (su_opts s) < 2 ^ 32" "su_bps s < 2 ^ 32" using assms(2) by (simp_all add: setup_ok_def)
  then have "su_sectors s \<le> su_sectors s * su_bps s" by simp
  then have "su_sectors s < 2 ^ 64" using assms(4) by (rule le_less_trans)
  note vol = volume_data_fields [OF ok(2,3) this, folded assms(3)]
  have ne: "payload \<noteq> []" using vol(1) by auto
  have "disk_section src (length pre) r = Inr (setup_geometry s 1 r)"
    using read_payload(1) [OF assms(1) ne] vol ok(1) assms(4)
    by (simp add: disk_section_def setup_geometry_def w64_id)
  then have "parse_section src True (length pre) (section_header ''disk'' (40 + length payload) 0) (r, sm, seen)
      = Some (Inr (setup_geometry s 1 r, sm, seen))"
    by (simp add: parse_section_def Let_def section_header_type)
  from section_loop_step [OF assms(1) _ _ this] show ?thesis by (simp add: add.assoc)
qed

lemma section_step_sectors:
  assumes "file_bytes src (pre @ section_header ''sectors'' (40 + length payload) flags @ payload @ rest)" "flags < 256"
  shows "section_loop src first (length pre) (r, sm, seen)
    = section_loop src first (length (pre @ section_header ''sectors'' (40 + length payload) flags @ payload))
        (r, sm\<lparr>es_offset := length pre + 40, es_bytes := length payload, es_comp := flags\<rparr>, True)"
proof -
  have small: "length pre + 40 < 2 ^ 64" "40 + length payload < 2 ^ 64" using assms(1) by (simp_all add: file_bytes_def)
  have "parse_section src first (length pre) (section_header ''sectors'' (40 + length payload) flags) (r, sm, seen)
      = Some (Inr (r, sm\<lparr>es_offset := length pre + 40, es_bytes := length payload, es_comp := flags\<rparr>, True))"
    using assms(2) small
    by (simp add: parse_section_def Let_def section_header_type section_header_fields ewf_section_header_def w64_id)
  from section_loop_step [OF assms(1) _ _ this] show ?thesis by (simp add: add.assoc)
qed

lemma section_step_table:
  assumes "file_bytes src (pre @ section_header ''table'' (40 + length payload) flags @ payload @ rest)"
    "payload = table_data offsets n" "\<forall>x \<in> set offsets. x < 2 ^ 32" "offsets \<noteq> [] \<Longrightarrow> w32 n \<noteq> 0"
  shows "section_loop src first (length pre) (r, sm, seen)
    = section_loop src first (length (pre @ section_header ''table'' (40 + length payload) flags @ payload))
        (r, sm\<lparr>es_table := offsets\<rparr>, seen)"
proof -
  note td = table_data_entries [OF assms(3), of n, folded assms(2)]
  obtain j where j: "table_entries payload = offsets @ [w32 n] @ replicate j 0" using td(1) by blast
  have ne: "payload \<noteq> []" using td(2) by auto
  have small: "40 + length payload < 2 ^ 64" using assms(1) by (simp add: file_bytes_def)
  have "table_section src (length pre) (length payload) sm = Some (Inr (sm\<lparr>es_table := offsets\<rparr>))"
    using read_payload [OF assms(1) ne] td(2,3) strip_table [OF assms(4)]
    by (simp add: table_section_def j [simplified])
  then have "parse_section src first (length pre) (section_header ''table'' (40 + length payload) flags) (r, sm, seen)
      = Some (Inr (r, sm\<lparr>es_table := offsets\<rparr>, seen))"
    using small by (simp add: parse_section_def Let_def section_header_type section_header_fields ewf_section_header_def)
  from section_loop_step [OF assms(1) _ _ this] show ?thesis by (simp add: add.assoc)
qed

definition errors_ok :: "(nat \<times> nat) list \<Rightarrow> bool" where
  "errors_ok errs \<longleftrightarrow> length errs < 2 ^ 32 \<and> (\<forall>(start, count) \<in> set errs. start < 2 ^ 64 \<and> count < 2 ^ 64)"

lemma final_sections_parse:
  assumes "file_bytes src (pre @ final_sections errs digest)" "errors_ok errs" "length digest = 16"
  shows "section_loop src first (length pre) (r, sm, seen)
    = Some (Inr (r\<lparr>er_errors := er_errors r @ errs, er_md5 := concat (map hex_byte digest)\<rparr>, sm, seen))"
proof -
  define pre2 where "pre2 = pre @ (if errs = [] then [] else section_header ''error'' (40 + length (error_data errs)) 0 @ error_data errs)"
  let ?r = "r\<lparr>er_errors := er_errors r @ errs\<rparr>" and ?d = "section_header ''digest'' (40 + length digest) 0"
  let ?e = "section_header ''error'' (40 + length (error_data errs)) 0"
  have "section_loop src first (length pre) (r, sm, seen) = section_loop src first (length pre2) (?r, sm, seen)"
  proof (cases "errs = []")
    case False
    then have src: "file_bytes src (pre @ ?e @ error_data errs @ section_header ''digest'' 56 0 @ digest @ section_header ''done'' 40 0)"
      using assms(1) by (simp add: final_sections_def)
    have ne: "error_data errs \<noteq> []" by (simp add: error_data_def) (metis length_nat_le length_0_conv zero_neq_numeral)
    have small: "40 + length (error_data errs) < 2 ^ 64" using src by (simp add: file_bytes_def)
    have "error_section src (length pre) (length (error_data errs)) r = Some (Inr ?r)"
      using read_payload [OF src ne] error_pairs_data [of errs] assms(2) by (simp add: error_section_def errors_ok_def)
    then have "parse_section src first (length pre) ?e (r, sm, seen) = Some (Inr (?r, sm, seen))"
      using small by (simp add: parse_section_def Let_def section_header_type section_header_fields ewf_section_header_def)
    from section_loop_step [OF src _ _ this] show ?thesis using False by (simp add: pre2_def add.assoc)
  qed (simp add: pre2_def)
  also have "\<dots> = section_loop src first (length (pre2 @ ?d @ digest)) (?r\<lparr>er_md5 := concat (map hex_byte digest)\<rparr>, sm, seen)"
  proof -
    have src: "file_bytes src (pre2 @ ?d @ digest @ section_header ''done'' 40 0)"
      using assms(1,3) by (simp add: final_sections_def pre2_def)
    have ne: "digest \<noteq> []" using assms(3) by auto
    have "digest_section src (length pre2) ?r = Inr (?r\<lparr>er_md5 := concat (map hex_byte digest)\<rparr>)"
      using read_payload [OF src ne] assms(3) by (simp add: digest_section_def)
    then have "parse_section src first (length pre2) ?d (?r, sm, seen) = Some (Inr (?r\<lparr>er_md5 := concat (map hex_byte digest)\<rparr>, sm, seen))"
      by (simp add: parse_section_def Let_def section_header_type)
    from section_loop_step [OF src _ _ this] show ?thesis by (simp add: add.assoc)
  qed
  also have "\<dots> = Some (Inr (?r\<lparr>er_md5 := concat (map hex_byte digest)\<rparr>, sm, seen))"
  proof (rule section_loop_done)
    show "file_bytes src ((pre2 @ ?d @ digest) @ section_header ''done'' 40 0 @ [])"
      using assms(1,3) by (simp add: final_sections_def pre2_def)
  qed
  finally show ?thesis by simp
qed

text \<open>The whole segment; its header is the patched one.\<close>

lemma seg_offsets_small: "length (seg_data s cs) < 2 ^ 32 \<Longrightarrow> x \<in> set (seg_offsets s cs) \<Longrightarrow> x < 2 ^ 32"
proof -
  assume small: "length (seg_data s cs) < 2 ^ 32" and "x \<in> set (seg_offsets s cs)"
  then obtain i where x: "x = length (seg_data s (take i cs))" by (auto simp: seg_offsets_def)
  have "seg_data s cs = seg_data s (take i cs) @ seg_data s (drop i cs)"
    by (simp add: seg_data_def flip: concat_append map_append)
  then show "x < 2 ^ 32" using small x by simp
qed

definition segment_body :: "ewf_setup \<Rightarrow> nat \<Rightarrow> buf list \<Rightarrow> buf \<Rightarrow> buf" where
  "segment_body s number cs tail = drop 76 (closed_segment s number cs tail)"

lemma closed_segment_body: "closed_segment s number cs tail = file_header number @ segment_body s number cs tail"
  by (simp add: segment_body_def closed_segment_def seg_front_def)

lemma segment_prefix_parse:
  assumes src: "file_bytes src (fh @ segment_body s number cs tail)" "length fh = 76" and s: "setup_ok s"
    and data: "length (seg_data s cs) < 2 ^ 32" "cs \<noteq> [] \<Longrightarrow> seg_data s cs \<noteq> []" and geo: "su_sectors s * su_bps s < 2 ^ 64"
  shows "\<exists>pre. fh @ segment_body s number cs tail = pre @ tail
    \<and> section_loop src (number = 1) 76 (r, sm, False) = section_loop src (number = 1) (length pre) (setup_geometry s number r, parsed_segment s number cs sm, True)"
proof -
  let ?flag = "chunk_flag (su_opts s)" and ?ht = "header_text (su_opts s)" and ?D = "seg_data s cs"
  let ?vol = "volume_data (eo_chunk (su_opts s)) (su_bps s) (su_sectors s)"
  let ?T = "table_data (seg_offsets s cs) (length ?D)"
  let ?hh = "section_header ''header'' (40 + length ?ht) 0" and ?hd = "section_header ''disk'' (40 + length ?vol) 0"
  let ?hs = "section_header ''sectors'' (40 + length ?D) ?flag" and ?h1 = "section_header ''table'' (40 + length ?T) ?flag"
  let ?h2 = "section_header ''table2'' (40 + length ?T) ?flag"
  define p1 where "p1 = fh @ drop 76 (seg_front s number)"
  have vol: "length ?vol = 104" by (simp add: volume_data_def Let_def)
  have front: "length p1 = length (seg_front s number)" using src(2) by (simp add: p1_def seg_front_def)
  have whole: "fh @ segment_body s number cs tail = p1 @ ?hs @ ?D @ ?h1 @ ?T @ ?h2 @ ?T @ tail"
    by (simp add: segment_body_def closed_segment_def p1_def seg_front_def seg_tables_def Let_def)
  note src1 = src(1) [unfolded whole]
  have first: "section_loop src (number = 1) 76 (r, sm, False)
      = section_loop src (number = 1) (length p1) (setup_geometry s number r, sm, False)"
  proof (cases "number = 1")
    case True
    have p1: "p1 = fh @ ?hh @ ?ht @ ?hd @ ?vol" using True src(2) vol by (simp add: p1_def seg_front_def)
    have a: "file_bytes src (fh @ ?hh @ ?ht @ ?hd @ ?vol @ ?hs @ ?D @ ?h1 @ ?T @ ?h2 @ ?T @ tail)"
      using src1 by (simp add: p1)
    then have b: "file_bytes src ((fh @ ?hh @ ?ht) @ ?hd @ ?vol @ ?hs @ ?D @ ?h1 @ ?T @ ?h2 @ ?T @ tail)" by simp
    show ?thesis
      using section_step_ignored [OF a, of True "(r, sm, False)"] section_step_disk [OF b s refl geo, of r sm False] True src(2)
      by (simp add: p1)
  next
    case False
    then show ?thesis using src(2) by (simp add: p1_def seg_front_def setup_geometry_def)
  qed
  define p2 where "p2 = p1 @ ?hs @ ?D"
  define p3 where "p3 = p2 @ ?h1 @ ?T"
  have src2: "file_bytes src (p2 @ ?h1 @ ?T @ ?h2 @ ?T @ tail)" using src1 by (simp add: p2_def)
  have src3: "file_bytes src (p3 @ ?h2 @ ?T @ tail)" using src2 by (simp add: p3_def)
  have offs: "\<forall>x \<in> set (seg_offsets s cs). x < 2 ^ 32" using seg_offsets_small data(1) by blast
  have w: "w32 (length ?D) \<noteq> 0" if "seg_offsets s cs \<noteq> []"
    using that data by (cases cs) (simp_all add: seg_offsets_def w32_id)
  let ?r = "setup_geometry s number r"
  have "section_loop src (number = 1) (length p1) (?r, sm, False) = section_loop src (number = 1) (length p2)
      (?r, sm\<lparr>es_offset := length p1 + 40, es_bytes := length ?D, es_comp := ?flag\<rparr>, True)"
    using section_step_sectors [OF src1 chunk_flag_small] by (simp add: p2_def)
  also have "\<dots> = section_loop src (number = 1) (length p3) (?r, parsed_segment s number cs sm, True)"
    using section_step_table [OF src2 refl offs w] by (simp add: p3_def front parsed_segment_def)
  also have "\<dots> = section_loop src (number = 1) (length (p3 @ ?h2 @ ?T)) (?r, parsed_segment s number cs sm, True)"
    by (rule section_step_ignored [OF src3]) simp
  finally show ?thesis using first whole by (intro exI [of _ "p3 @ ?h2 @ ?T"]) (simp add: p2_def p3_def)
qed

definition finished_reader :: "(nat \<times> nat) list \<Rightarrow> buf \<Rightarrow> ewf_reader \<Rightarrow> ewf_reader" where
  "finished_reader errs digest r = r\<lparr>er_errors := er_errors r @ errs, er_md5 := concat (map hex_byte digest)\<rparr>"

lemma parse_segment_closed:
  assumes src: "file_bytes (es_source sm) (fh @ segment_body s number cs tail)" "marked_header n fh" and s: "setup_ok s"
    and data: "length (seg_data s cs) < 2 ^ 32" "cs \<noteq> [] \<Longrightarrow> seg_data s cs \<noteq> []" and geo: "su_sectors s * su_bps s < 2 ^ 64"
    and tail: "tail = [] \<and> f = (\<lambda>r. r) \<or> tail = final_sections errs digest \<and> errors_ok errs \<and> length digest = 16 \<and> f = finished_reader errs digest"
  shows "parse_segment (number = 1) r sm = Some (Inr (f (setup_geometry s number r), parsed_segment s number cs sm))"
proof -
  have fh: "length fh = 76" "take 8 fh = ewf_signature" using src(2) by (simp_all add: marked_header_def)
  obtain pre where pre: "fh @ segment_body s number cs tail = pre @ tail"
    "section_loop (es_source sm) (number = 1) 76 (r, sm, False)
      = section_loop (es_source sm) (number = 1) (length pre) (setup_geometry s number r, parsed_segment s number cs sm, True)"
    using segment_prefix_parse [OF src(1) fh(1) s data geo] by blast
  have fb: "file_bytes (es_source sm) (pre @ tail)" using src(1) pre(1) by simp
  have loop: "section_loop (es_source sm) (number = 1) 76 (r, sm, False)
      = Some (Inr (f (setup_geometry s number r), parsed_segment s number cs sm, True))"
    using tail
  proof
    assume nil: "tail = [] \<and> f = (\<lambda>r. r)"
    then have "file_bytes (es_source sm) pre" using fb by simp
    from section_loop_end [OF this] show ?thesis using pre(2) nil by simp
  next
    assume fin: "tail = final_sections errs digest \<and> errors_ok errs \<and> length digest = 16 \<and> f = finished_reader errs digest"
    then have "file_bytes (es_source sm) (pre @ final_sections errs digest)" using fb by simp
    from final_sections_parse [OF this] show ?thesis using pre(2) fin by (simp add: finished_reader_def)
  qed
  have "0 < su_bps s" using s by (simp add: setup_ok_def)
  moreover have "er_bps (f x) = er_bps x" for x using tail by (auto simp: finished_reader_def)
  moreover have "read_exact (es_source sm) 0 76 = Inr fh"
    using read_exact_file [OF src(1), of 0 76] fh(1) by (simp add: slice_def)
  ultimately show ?thesis using fh(2) loop
    by (cases "number = 1") (simp_all add: parse_segment_def ewf_file_header_def setup_geometry_def)
qed

section \<open>Opening an image\<close>

lemma last_index_snoc: "last_index P (xs @ [x]) = (if P x then Some (length xs) else last_index P xs)"
proof -
  have "filter (\<lambda>i. P ((xs @ [x]) ! i)) (rev [0..<length xs]) = filter (\<lambda>i. P (xs ! i)) (rev [0..<length xs])"
    by (rule filter_cong) (auto simp: nth_append)
  then show ?thesis by (simp add: last_index_def)
qed

lemma last_index_less: "last_index P xs = Some d \<Longrightarrow> d < length xs"
  by (induction xs rule: rev_induct) (auto simp: last_index_snoc last_index_def [of P "[]"] split: if_splits)

lemma last_index_append_none: "(\<forall>y \<in> set ys. \<not> P y) \<Longrightarrow> last_index P (xs @ ys) = last_index P xs"
proof (induction ys rule: rev_induct)
  case (snoc y ys)
  then show ?case by (simp add: last_index_snoc flip: append_assoc)
qed simp

lemma last_index_append_ge: "P x \<Longrightarrow> \<exists>d \<ge> length xs. last_index P (xs @ x # ys) = Some d"
proof (induction ys rule: rev_induct)
  case Nil
  then show ?case by (simp add: last_index_snoc)
next
  case (snoc y ys)
  have "last_index P (xs @ x # ys @ [y]) = last_index P ((xs @ x # ys) @ [y])" by simp
  then show ?case using snoc by (simp only: last_index_snoc) (auto intro!: exI [of _ "length (xs @ x # ys)"])
qed

lemma segment_path_text: "\<exists>a b. segment_path dest n = path_base dest @ [dot, CHR ''E'', a, b]"
proof (cases "n \<le> 99")
  case True
  then show ?thesis by (simp add: segment_path_def two_digits dot_def)
next
  case False
  then show ?thesis by (simp add: segment_path_def Let_def dot_def)
qed

lemma plain_segment_path: "open_file_source fs (segment_path dest n) = file_source fs (segment_path dest n)"
proof -
  obtain a b where path: "segment_path dest n = path_base dest @ dot # [CHR ''E'', a, b]"
    using segment_path_text by metis
  obtain d where d: "length (path_base dest) \<le> d" "last_index (\<lambda>c. c = dot) (segment_path dest n) = Some d"
    using last_index_append_ge [of "\<lambda>c. c = dot" dot] unfolding path by blast
  have "\<not> is_digit (CHR ''E'')" by code_simp
  then have "\<not> list_all is_digit (drop (d + 1) (segment_path dest n))" if "d + 4 = length (segment_path dest n)"
    using that by (simp add: path)
  then have "parse_split_ext (segment_path dest n) = None" using d(2) by (simp add: parse_split_ext_def)
  then show ?thesis by (simp add: open_file_source_def collect_split_segments_def)
qed

lemma segment_path_again: "segment_path (segment_path dest 1) n = segment_path dest n"
proof -
  have pth: "segment_path dest 1 = path_base dest @ dot # ''E01''"
  proof -
    have "dec_digit 0 = CHR ''0''" "dec_digit 1 = CHR ''1''" by code_simp+
    then show ?thesis by (simp add: segment_path_def two_digits dot_def)
  qed
  have marks: "\<forall>c \<in> set ''E01''. c \<noteq> dot" "\<forall>c \<in> set (dot # ''E01''). \<not> (c = backslash \<or> c = slash)" by code_simp+
  have "last_index (\<lambda>c. c = dot) (segment_path dest 1) = last_index (\<lambda>c. c = dot) (path_base dest @ [dot])"
    using last_index_append_none [OF marks(1), of "path_base dest @ [dot]"] unfolding pth by simp
  then have d: "last_index (\<lambda>c. c = dot) (segment_path dest 1) = Some (length (path_base dest))" by (simp add: last_index_snoc)
  have "last_index (\<lambda>c. c = backslash \<or> c = slash) (segment_path dest 1) = last_index (\<lambda>c. c = backslash \<or> c = slash) (path_base dest)"
    unfolding pth by (rule last_index_append_none [OF marks(2)])
  moreover have "take (length (path_base dest)) (segment_path dest 1) = path_base dest" unfolding pth by simp
  ultimately have "path_base (segment_path dest 1) = path_base dest"
    using last_index_less [of _ "path_base dest"]
    unfolding path_base_def [of "segment_path dest 1"] d option.case by (simp split: option.split)
  then show ?thesis by (simp add: segment_path_def)
qed

definition image_file :: "ewf_setup \<Rightarrow> files \<Rightarrow> buf list list \<Rightarrow> (nat \<times> nat) list \<Rightarrow> buf \<Rightarrow> nat \<Rightarrow> bool" where
  "image_file s fs css errs digest i \<longleftrightarrow>
     (\<exists>fh. marked_header (length css) fh \<and> length (fh @ segment_body s (i + 1) (css ! i) (if i + 1 = length css then final_sections errs digest else [])) < 2 ^ 63
       \<and> fs (segment_path (su_dest s) (i + 1))
          = Some (fh @ segment_body s (i + 1) (css ! i) (if i + 1 = length css then final_sections errs digest else [])))"

definition chunked :: "nat \<Rightarrow> buf list list \<Rightarrow> bool" where
  "chunked cb css \<longleftrightarrow> css \<noteq> [] \<and> (\<forall>cs \<in> set (butlast css). \<forall>c \<in> set cs. length c = cb)
     \<and> (\<forall>c \<in> set (butlast (last css)). length c = cb) \<and> (\<forall>c \<in> set (concat css). c \<noteq> [] \<and> length c \<le> cb)"

definition content_of :: "buf list list \<Rightarrow> buf" where
  "content_of css = concat (concat css)"

definition base_of :: "buf list list \<Rightarrow> nat \<Rightarrow> nat" where
  "base_of css i = length (content_of (take i css))"

definition image_segment :: "ewf_setup \<Rightarrow> files \<Rightarrow> buf list list \<Rightarrow> nat \<Rightarrow> ewf_segment" where
  "image_segment s fs css i =
     (let content = the (fs (segment_path (su_dest s) (i + 1)))
      in parsed_segment s (i + 1) (css ! i)
           ((new_segment \<lparr>bs_size = length content, bs_read = file_read content\<rparr>)\<lparr>es_base := base_of css i\<rparr>))"

definition reader_after :: "ewf_setup \<Rightarrow> files \<Rightarrow> buf list list \<Rightarrow> (nat \<times> nat) list \<Rightarrow> buf \<Rightarrow> nat \<Rightarrow> ewf_reader" where
  "reader_after s fs css errs digest i =
     \<lparr>er_bps = (if i = 0 then 0 else su_bps s), er_spc = (if i = 0 then 0 else eo_chunk (su_opts s)),
      er_bytes = (if i = 0 then 0 else su_sectors s * su_bps s),
      er_md5 = (if i = length css then concat (map hex_byte digest) else []), er_segments = map (image_segment s fs css) [0..<i],
      er_errors = (if i = length css then errs else []), er_path = segment_path (su_dest s) 1\<rparr>"

lemma base_of_Suc: "i < length css \<Longrightarrow> base_of css (Suc i) = base_of css i + length (concat (css ! i))"
  by (simp add: base_of_def content_of_def take_Suc_conv_app_nth)

lemma base_of_le: "base_of css i \<le> length (content_of css)"
proof -
  have "content_of css = content_of (take i css) @ content_of (drop i css)"
    by (simp add: content_of_def flip: concat_append)
  then show ?thesis by (simp add: base_of_def)
qed

lemma full_segment:
  assumes "chunked cb css" "Suc i < length css"
  shows "length (concat (css ! i)) = length (css ! i) * cb"
proof -
  have "css ! i \<in> set (butlast css)" using assms(2) by (metis length_butlast less_diff_conv Suc_eq_plus1 nth_butlast nth_mem)
  then have "\<And>c. c \<in> set (css ! i) \<Longrightarrow> length c = cb" using assms(1) by (auto simp: chunked_def)
  then show ?thesis using length_concat_fixed [of "css ! i" id cb] by simp
qed

definition image_ok :: "ewf_setup \<Rightarrow> files \<Rightarrow> buf list list \<Rightarrow> (nat \<times> nat) list \<Rightarrow> buf \<Rightarrow> bool" where
  "image_ok s fs css errs digest \<longleftrightarrow> setup_ok s \<and> chunked (setup_cb s) css \<and> length css \<le> 775
     \<and> errors_ok errs \<and> length digest = 16 \<and> length (content_of css) = su_sectors s * su_bps s \<and> length (content_of css) < 2 ^ 63
     \<and> (\<forall>cs \<in> set css. length (seg_data s cs) < 2 ^ 32) \<and> (\<forall>i < length css. image_file s fs css errs digest i)"

lemma uncompressed_data: "chunk_flag (su_opts s) = 0 \<Longrightarrow> seg_data s cs = concat cs"
  by (simp add: seg_data_def stored_chunk_def chunk_flag_def split: if_splits)

lemma segment_image_bytes_full:
  assumes ok: "image_ok s fs css errs digest" and i: "Suc i < length css"
    and r: "er_bps r = su_bps s" "er_spc r = eo_chunk (su_opts s)"
  shows "segment_image_bytes r (image_segment s fs css i) = length (concat (css ! i))"
proof -
  have "setup_cb s < 2 ^ 64" "0 < eo_chunk (su_opts s)" using ok by (simp_all add: image_ok_def setup_ok_def)
  then have cb: "chunk_bytes r = setup_cb s" using r by (simp add: chunk_bytes_def setup_cb_def w64_id)
  have len: "length (concat (css ! i)) = length (css ! i) * setup_cb s" using ok i by (intro full_segment) (simp_all add: image_ok_def)
  have "length (concat (css ! i)) \<le> base_of css (Suc i)" using i by (simp add: base_of_Suc)
  also have "\<dots> \<le> length (content_of css)" by (rule base_of_le)
  finally have "length (css ! i) * setup_cb s < 2 ^ 64" using ok len by (simp add: image_ok_def)
  then show ?thesis
    using len uncompressed_data [of s "css ! i"]
    by (simp add: segment_image_bytes_def image_segment_def parsed_segment_def Let_def cb seg_offsets_def w64_id)
qed

lemma parse_one:
  assumes ok: "image_ok s fs css errs digest" and i: "i < length css"
  shows "\<exists>src. open_file_source fs (if i + 1 = 1 then segment_path (su_dest s) 1 else segment_path (segment_path (su_dest s) 1) (i + 1)) = Inr src
    \<and> parse_segment (i + 1 = 1) (reader_after s fs css errs digest i) ((new_segment src)\<lparr>es_base := base_of css i\<rparr>)
      = Some (Inr ((reader_after s fs css errs digest (Suc i))\<lparr>er_segments := map (image_segment s fs css) [0..<i]\<rparr>, image_segment s fs css i))"
proof -
  let ?tail = "if i + 1 = length css then final_sections errs digest else []"
  let ?f = "if i + 1 = length css then finished_reader errs digest else (\<lambda>r. r)"
  obtain fh where fh: "marked_header (length css) fh" "length (fh @ segment_body s (i + 1) (css ! i) ?tail) < 2 ^ 63"
    "fs (segment_path (su_dest s) (i + 1)) = Some (fh @ segment_body s (i + 1) (css ! i) ?tail)"
    using ok i by (auto simp: image_ok_def image_file_def)
  define src where "src = \<lparr>bs_size = length (fh @ segment_body s (i + 1) (css ! i) ?tail), bs_read = file_read (fh @ segment_body s (i + 1) (css ! i) ?tail)\<rparr>"
  define sm where "sm = (new_segment src)\<lparr>es_base := base_of css i\<rparr>"
  have opened: "open_file_source fs (if i + 1 = 1 then segment_path (su_dest s) 1 else segment_path (segment_path (su_dest s) 1) (i + 1)) = Inr src"
    using fh(3) by (cases "i = 0") (simp_all add: plain_segment_path segment_path_again [unfolded One_nat_def] file_source_def src_def)
  have source: "file_bytes (es_source sm) (fh @ segment_body s (i + 1) (css ! i) ?tail)"
    using fh(2) unfolding file_bytes_def sm_def src_def by (simp add: new_segment_def)
  have cs: "css ! i \<in> set css" using i by simp
  have s: "setup_ok s" using ok by (simp add: image_ok_def)
  have nonempty: "seg_data s (css ! i) \<noteq> []" if "css ! i \<noteq> []"
  proof -
    obtain c cs' where c: "css ! i = c # cs'" using \<open>css ! i \<noteq> []\<close> by (cases "css ! i") auto
    then have "c \<noteq> []" "length c \<le> setup_cb s" using ok cs by (auto simp: image_ok_def chunked_def)
    then obtain y where "stored_chunk (su_deflate s) (su_opts s) c = Some y" "y \<noteq> []" using s by (auto simp: setup_ok_def)
    then show ?thesis by (simp add: c seg_data_def)
  qed
  have small: "length (seg_data s (css ! i)) < 2 ^ 32" "su_sectors s * su_bps s < 2 ^ 64" using ok cs by (simp_all add: image_ok_def)
  have "parse_segment (i + 1 = 1) (reader_after s fs css errs digest i) sm
      = Some (Inr (?f (setup_geometry s (i + 1) (reader_after s fs css errs digest i)), parsed_segment s (i + 1) (css ! i) sm))"
    using ok by (intro parse_segment_closed [OF source fh(1) s small(1) nonempty small(2)]) (auto simp: image_ok_def)
  moreover have "parsed_segment s (i + 1) (css ! i) sm = image_segment s fs css i"
    using fh(3) by (simp add: image_segment_def sm_def src_def)
  moreover have "?f (setup_geometry s (i + 1) (reader_after s fs css errs digest i))
      = (reader_after s fs css errs digest (Suc i))\<lparr>er_segments := map (image_segment s fs css) [0..<i]\<rparr>"
    using i by (simp add: reader_after_def setup_geometry_def finished_reader_def)
  ultimately show ?thesis using opened by (auto simp: sm_def)
qed

lemma parse_segments_image:
  assumes ok: "image_ok s fs css errs digest"
  shows "i \<le> length css \<Longrightarrow> i < length css \<longrightarrow> cursor = base_of css i \<Longrightarrow>
    \<exists>cursor'. parse_segments (open_file_source fs) (segment_path (su_dest s) 1) [i + 1..<length css + 1] cursor (reader_after s fs css errs digest i)
      = Some (Inr (cursor', reader_after s fs css errs digest (length css)))"
proof (induction "length css - i" arbitrary: i cursor)
  case (Suc k)
  then have i: "i < length css" "cursor = base_of css i" by simp_all
  let ?r = "reader_after s fs css errs digest" and ?sm = "image_segment s fs css i"
  obtain src where src: "open_file_source fs (if i + 1 = 1 then segment_path (su_dest s) 1 else segment_path (segment_path (su_dest s) 1) (i + 1)) = Inr src"
    "parse_segment (i + 1 = 1) (?r i) ((new_segment src)\<lparr>es_base := base_of css i\<rparr>)
      = Some (Inr ((?r (Suc i))\<lparr>er_segments := map (image_segment s fs css) [0..<i]\<rparr>, ?sm))"
    using parse_one [OF ok i(1)] by blast
  define r' where "r' = (?r (Suc i))\<lparr>er_segments := map (image_segment s fs css) [0..<i]\<rparr>"
  have r': "r'\<lparr>er_segments := er_segments r' @ [?sm]\<rparr> = ?r (Suc i)" by (simp add: r'_def reader_after_def)
  have "Suc i < length css \<longrightarrow> w64 (cursor + segment_image_bytes r' ?sm) = base_of css (Suc i)"
  proof
    assume next_one: "Suc i < length css"
    have "segment_image_bytes r' ?sm = length (concat (css ! i))"
      by (rule segment_image_bytes_full [OF ok next_one]) (simp_all add: r'_def reader_after_def)
    then have "cursor + segment_image_bytes r' ?sm = base_of css (Suc i)" using i by (simp add: base_of_Suc)
    then show "w64 (cursor + segment_image_bytes r' ?sm) = base_of css (Suc i)"
      using base_of_le [of css "Suc i"] ok by (simp add: image_ok_def w64_id)
  qed
  moreover have "k = length css - Suc i" "Suc i \<le> length css" using Suc i by simp_all
  ultimately obtain cursor' where rec: "parse_segments (open_file_source fs) (segment_path (su_dest s) 1) [Suc i + 1..<length css + 1]
      (w64 (cursor + segment_image_bytes r' ?sm)) (?r (Suc i)) = Some (Inr (cursor', ?r (length css)))"
    using Suc(1) by metis
  have upt: "[i + 1..<length css + 1] = (i + 1) # [Suc i + 1..<length css + 1]" using i(1) by (simp add: upt_conv_Cons)
  show ?case unfolding upt parse_segments.simps src(1) i(2)
    using src(2) rec by (simp add: i(2) r'_def [symmetric] r')
qed simp

lemma image_opens:
  assumes ok: "image_ok s fs css errs digest" and "content_of css \<noteq> []"
  shows "ewf_open (open_file_source fs) (segment_path (su_dest s) 1) = Some (Inr (reader_after s fs css errs digest (length css)))"
proof -
  let ?p = "segment_path (su_dest s) 1" and ?r = "reader_after s fs css errs digest"
  have n: "0 < length css" "length css \<le> 775" using ok by (simp_all add: image_ok_def chunked_def)
  then obtain fh rest where fh: "marked_header (length css) fh" "length (fh @ rest) < 2 ^ 63" "fs ?p = Some (fh @ rest)"
    using ok by (auto simp: image_ok_def image_file_def dest: spec [of _ 0])
  define src where "src = \<lparr>bs_size = length (fh @ rest), bs_read = file_read (fh @ rest)\<rparr>"
  have opened: "open_file_source fs ?p = Inr src" using fh(3) by (simp add: plain_segment_path file_source_def src_def)
  have source: "file_bytes src (fh @ rest)" using fh(2) by (simp add: file_bytes_def src_def)
  have len: "length fh = 76" "rd_u32 18 fh mod 2 ^ 16 = length css" using fh(1) by (simp_all add: marked_header_def)
  have "read_exact src 0 ewf_file_header = Inr fh"
    using read_exact_file [OF source, of 0 76] len(1) by (simp add: slice_def ewf_file_header_def)
  moreover obtain cursor where "parse_segments (open_file_source fs) ?p [0 + 1..<length css + 1] 0 (?r 0) = Some (Inr (cursor, ?r (length css)))"
    using parse_segments_image [OF ok, of 0 0] n by (auto simp: base_of_def content_of_def)
  moreover have "?r 0 = new_ewf_reader\<lparr>er_path := ?p\<rparr>" using n by (simp add: reader_after_def new_ewf_reader_def)
  moreover have "er_bytes (?r (length css)) \<noteq> 0"
    using ok assms(2) n by (simp add: reader_after_def image_ok_def flip: length_greater_0_conv)
  ultimately show ?thesis using n len(2) by (simp add: ewf_open_def parse_all_segments_def opened del: upt_Suc One_nat_def)
qed

section \<open>Reading an image\<close>

text \<open>Every segment as parsed, with an empty or a valid cache.\<close>

definition segment_view :: "ewf_setup \<Rightarrow> files \<Rightarrow> buf list list \<Rightarrow> nat \<Rightarrow> ewf_segment \<Rightarrow> bool" where
  "segment_view s fs css i sm \<longleftrightarrow>
     (let sm0 = image_segment s fs css i
      in es_source sm = es_source sm0 \<and> es_offset sm = es_offset sm0 \<and> es_bytes sm = es_bytes sm0 \<and> es_base sm = es_base sm0
         \<and> es_comp sm = es_comp sm0 \<and> es_table sm = es_table sm0)
     \<and> (es_cached sm = u64_max \<or> es_cached sm < length (css ! i) \<and> es_cache sm = css ! i ! es_cached sm)"

definition reader_view :: "ewf_setup \<Rightarrow> files \<Rightarrow> buf list list \<Rightarrow> ewf_reader \<Rightarrow> bool" where
  "reader_view s fs css r \<longleftrightarrow>
     er_bps r = su_bps s \<and> er_spc r = eo_chunk (su_opts s) \<and> er_bytes r = length (content_of css) \<and> length (er_segments r) = length css
     \<and> (\<forall>i < length css. segment_view s fs css i (er_segments r ! i))"

lemma reader_view_opened:
  assumes "image_ok s fs css errs digest"
  shows "reader_view s fs css (reader_after s fs css errs digest (length css))"
proof -
  have "es_cached (image_segment s fs css i) = u64_max" for i
    by (simp add: image_segment_def parsed_segment_def new_segment_def Let_def)
  then show ?thesis using assms by (auto simp: reader_view_def reader_after_def image_ok_def chunked_def segment_view_def)
qed

text \<open>The place of a chunk in the content.\<close>

lemma chunk_place:
  assumes "chunked cb css" "i < length css" "k < length (css ! i)"
  shows "\<exists>rest. content_of css = content_of (take i css) @ concat (take k (css ! i)) @ css ! i ! k @ rest
    \<and> (length (css ! i ! k) < cb \<longrightarrow> rest = [])"
    "length (concat (take k (css ! i))) = k * cb" "css ! i ! k \<noteq> []" "length (css ! i ! k) \<le> cb"
proof -
  let ?cs = "css ! i"
  have css: "css = take i css @ ?cs # drop (Suc i) css" using assms(2) by (simp add: id_take_nth_drop [symmetric])
  have cs: "?cs = take k ?cs @ ?cs ! k # drop (Suc k) ?cs" using assms(3) by (simp add: id_take_nth_drop [symmetric])
  have full: "length c = cb" if "c \<in> set ?cs" "i \<noteq> length css - 1 \<or> c \<in> set (butlast ?cs)" for c
  proof (cases "i = length css - 1")
    case True
    then have "?cs = last css" using assms(1,2) by (simp add: last_conv_nth chunked_def)
    then show ?thesis using that True assms(1) by (simp add: chunked_def)
  next
    case False
    then have "?cs \<in> set (butlast css)" using assms(2) by (metis (no_types) Suc_lessI diff_Suc_1 length_butlast less_diff_conv Suc_eq_plus1 nth_butlast nth_mem)
    then show ?thesis using that(1) assms(1) by (auto simp: chunked_def)
  qed
  have member: "?cs ! k \<in> set (concat css)" using assms(2,3) nth_mem by fastforce
  show "?cs ! k \<noteq> []" "length (?cs ! k) \<le> cb" using assms(1) member unfolding chunked_def by blast+
  have "set (take k ?cs) \<subseteq> set (butlast ?cs)" using assms(3)
    by (metis Suc_diff_1 butlast_conv_take length_pos_if_in_set less_Suc_eq_le min.absorb1 nth_mem set_take_subset_set_take take_take)
  then have "\<And>c. c \<in> set (take k ?cs) \<Longrightarrow> length c = cb" using full by (meson in_set_takeD subsetD)
  then show "length (concat (take k ?cs)) = k * cb"
    using length_concat_fixed [of "take k ?cs" id cb] assms(3) by simp
  have whole: "content_of css = content_of (take i css) @ concat (take k ?cs) @ ?cs ! k @ concat (drop (Suc k) ?cs) @ content_of (drop (Suc i) css)"
    using arg_cong [OF css, of "\<lambda>css. concat (concat css)"] arg_cong [OF cs, of concat] unfolding content_of_def
    by (simp only: concat_append concat.simps append_assoc)
  moreover have "concat (drop (Suc k) ?cs) @ content_of (drop (Suc i) css) = []" if short: "length (?cs ! k) < cb"
  proof -
    have not_full: "i = length css - 1" "?cs ! k \<notin> set (butlast ?cs)" using full [of "?cs ! k"] assms(3) short by auto
    then have "k = length ?cs - 1" using assms(3) by (metis Suc_diff_1 Suc_lessI length_butlast less_Suc_eq length_pos_if_in_set nth_butlast nth_mem)
    then have "length ?cs \<le> Suc k" by arith
    moreover have "length css \<le> Suc i" using not_full(1) by arith
    ultimately have "drop (Suc k) ?cs = []" "drop (Suc i) css = []" by simp_all
    then show ?thesis by (simp only: content_of_def concat.simps append_Nil)
  qed
  ultimately show "\<exists>rest. content_of css = content_of (take i css) @ concat (take k ?cs) @ ?cs ! k @ rest \<and> (length (?cs ! k) < cb \<longrightarrow> rest = [])"
    by blast
qed

lemma segment_length_le:
  assumes "chunked cb css" "i < length css"
  shows "length (concat (css ! i)) \<le> length (css ! i) * cb"
proof -
  have "length c \<le> cb" if "c \<in> set (css ! i)" for c using that assms nth_mem [OF assms(2)] by (auto simp: chunked_def)
  then have "length (concat xs) \<le> length xs * cb" if "set xs \<subseteq> set (css ! i)" for xs using that by (induction xs) force+
  then show ?thesis by blast
qed

lemma segment_length_ge:
  assumes "chunked cb css" "i < length css"
  shows "length (css ! i) * cb \<le> length (concat (css ! i)) + cb"
proof (cases "css ! i = []")
  case False
  define k where "k = length (css ! i) - 1"
  have k: "k < length (css ! i)" "length (css ! i) = Suc k" using False by (simp_all add: k_def)
  have "concat (css ! i) = concat (take k (css ! i)) @ concat (drop k (css ! i))" by (metis append_take_drop_id concat_append)
  then have "k * cb \<le> length (concat (css ! i))" using chunk_place(2) [OF assms k(1)] by simp
  then show ?thesis by (simp add: k(2))
qed simp

text \<open>Facts about segment \<open>i\<close> of an image.\<close>

lemma chunk_bytes_view:
  assumes "image_ok s fs css errs digest" "reader_view s fs css r"
  shows "chunk_bytes r = setup_cb s" "0 < setup_cb s" "setup_cb s < 2 ^ 32"
proof -
  have "setup_cb s \<le> su_bound s" "su_bound s < 2 ^ 32" "0 < eo_chunk (su_opts s)" "0 < su_bps s"
    using assms(1) by (simp_all add: image_ok_def setup_ok_def)
  then show "0 < setup_cb s" "setup_cb s < 2 ^ 32" by (simp_all add: setup_cb_def)
  then show "chunk_bytes r = setup_cb s"
    using assms(2) \<open>0 < eo_chunk (su_opts s)\<close> by (simp add: chunk_bytes_def reader_view_def setup_cb_def w64_id)
qed

lemma segment_fields:
  assumes "reader_view s fs css r" "i < length css"
  shows "es_base (er_segments r ! i) = base_of css i" "es_comp (er_segments r ! i) = chunk_flag (su_opts s)"
    "es_bytes (er_segments r ! i) = length (seg_data s (css ! i))" "es_table (er_segments r ! i) = seg_offsets s (css ! i)"
    "es_offset (er_segments r ! i) = length (seg_front s (i + 1)) + 40"
    "es_source (er_segments r ! i) = \<lparr>bs_size = length (the (fs (segment_path (su_dest s) (i + 1)))), bs_read = file_read (the (fs (segment_path (su_dest s) (i + 1))))\<rparr>"
  using assms by (auto simp: reader_view_def segment_view_def image_segment_def parsed_segment_def new_segment_def Let_def)

lemma segment_end_view:
  assumes ok: "image_ok s fs css errs digest" and r: "reader_view s fs css r" and i: "i < length css"
  shows "segment_end r (er_segments r ! i) = base_of css (Suc i)"
proof -
  let ?cs = "css ! i" and ?cb = "setup_cb s"
  note f = segment_fields [OF r i] and cb = chunk_bytes_view [OF ok r]
  have ch: "chunked ?cb css" and big: "length (content_of css) < 2 ^ 63" using ok by (simp_all add: image_ok_def)
  have total: "er_bytes r = length (content_of css)" using r by (simp add: reader_view_def)
  have next_base: "base_of css (Suc i) = base_of css i + length (concat ?cs)" "base_of css (Suc i) \<le> length (content_of css)"
    by (rule base_of_Suc [OF i], rule base_of_le)
  show ?thesis
  proof (cases "chunk_flag (su_opts s) = 0")
    case True
    then have "seg_data s ?cs = concat ?cs" by (rule uncompressed_data)
    then show ?thesis using f True next_base big by (simp add: segment_end_def w64_id)
  next
    case False
    have rounded: "length (concat ?cs) \<le> length ?cs * ?cb" "length ?cs * ?cb \<le> length (concat ?cs) + ?cb"
      using segment_length_le [OF ch i] segment_length_ge [OF ch i] by simp_all
    then have small: "base_of css i + length ?cs * ?cb < 2 ^ 64" using next_base big cb(3) by simp
    then have "w64 (length ?cs * ?cb) = length ?cs * ?cb" "w64 (base_of css i + length ?cs * ?cb) = base_of css i + length ?cs * ?cb"
      by (simp_all add: w64_id)
    then have "segment_end r (er_segments r ! i) = min (length (content_of css)) (base_of css i + length ?cs * ?cb)"
      using f False by (simp add: segment_end_def segment_image_bytes_def cb(1) seg_offsets_def total)
    also have "\<dots> = base_of css (Suc i)"
    proof (cases "Suc i < length css")
      case True
      then show ?thesis using full_segment [OF ch True] next_base by simp
    next
      case False
      then have "base_of css (Suc i) = length (content_of css)" using i by (simp add: base_of_def)
      then show ?thesis using rounded(1) next_base by simp
    qed
    finally show ?thesis .
  qed
qed

lemma base_of_mono: "i \<le> j \<Longrightarrow> base_of css i \<le> base_of css j"
proof -
  assume "i \<le> j"
  then have "take i css = take i (take j css)" by (simp add: min_def)
  then show ?thesis using base_of_le [of "take j css" i] by (simp add: base_of_def)
qed

lemma segment_at_view:
  assumes ok: "image_ok s fs css errs digest" and r: "reader_view s fs css r" and pos: "pos < length (content_of css)"
  shows "\<exists>i < length css. segment_at r pos = Some i \<and> base_of css i \<le> pos \<and> pos < base_of css (Suc i)"
proof -
  let ?hits = "filter (\<lambda>i. es_base (er_segments r ! i) \<le> pos \<and> pos < segment_end r (er_segments r ! i)) [0..<length (er_segments r)]"
  have n: "length (er_segments r) = length css" using r by (simp add: reader_view_def)
  have hits: "set ?hits = {i. i < length css \<and> base_of css i \<le> pos \<and> pos < base_of css (Suc i)}"
    using segment_fields(1) [OF r] segment_end_view [OF ok r] by (auto simp: n)
  define j where "j = (LEAST j. pos < base_of css j)"
  have "pos < base_of css (length css)" using pos by (simp add: base_of_def)
  then have j: "pos < base_of css j" "j \<le> length css" unfolding j_def by (rule LeastI, rule Least_le)
  have "j \<noteq> 0" using j(1) by (cases j) (auto simp: base_of_def content_of_def)
  then obtain i where i: "j = Suc i" by (cases j) auto
  have "\<not> pos < base_of css i" using not_less_Least [of i "\<lambda>j. pos < base_of css j"] i by (simp add: j_def)
  then have "i \<in> set ?hits" using i j by (subst hits) simp
  then obtain k ks where "?hits = k # ks" by (cases ?hits) auto
  then have "segment_at r pos = Some k" "k \<in> set ?hits" by (simp_all add: segment_at_def)
  then show ?thesis using hits by blast
qed

lemma segment_content:
  assumes "i < length css" "base_of css i \<le> pos" "pos + n \<le> base_of css (Suc i)"
  shows "slice pos n (content_of css) = slice (pos - base_of css i) n (concat (css ! i))"
proof -
  have "css = take i css @ css ! i # drop (Suc i) css" using assms(1) by (simp add: id_take_nth_drop [symmetric])
  then have "content_of css = content_of (take i css) @ concat (css ! i) @ content_of (drop (Suc i) css)"
    unfolding content_of_def by (metis concat.simps(2) concat_append)
  then show ?thesis using assms(2,3) base_of_Suc [OF assms(1)]
    by (simp add: slice_append_right slice_append_left base_of_def)
qed

lemma file_read_part:
  assumes "x + n \<le> length b" "length (a @ b @ c) < 2 ^ 63"
  shows "file_read (a @ b @ c) (length a + x) n = Inr (slice x n b)"
proof -
  have "slice (length a + x) n (a @ b @ c) = slice x n b" using assms(1) by (simp add: slice_append_right slice_append_left)
  then show ?thesis using assms by (subst file_read_inside) simp_all
qed

text \<open>The file of segment \<open>i\<close> has the data at the offset of the segment.\<close>

lemma segment_file_read:
  assumes ok: "image_ok s fs css errs digest" and r: "reader_view s fs css r" and i: "i < length css"
    and range: "x + n \<le> length (seg_data s (css ! i))"
  shows "bs_read (es_source (er_segments r ! i)) (w64 (es_offset (er_segments r ! i) + x)) n = Inr (slice x n (seg_data s (css ! i)))"
    "w64 (es_offset (er_segments r ! i) + x) = es_offset (er_segments r ! i) + x"
proof -
  let ?D = "seg_data s (css ! i)" and ?tail = "if i + 1 = length css then final_sections errs digest else []"
  obtain fh where fh: "marked_header (length css) fh" "length (fh @ segment_body s (i + 1) (css ! i) ?tail) < 2 ^ 63"
    "fs (segment_path (su_dest s) (i + 1)) = Some (fh @ segment_body s (i + 1) (css ! i) ?tail)"
    using ok i by (auto simp: image_ok_def image_file_def)
  define pre where "pre = fh @ drop 76 (seg_front s (i + 1)) @ section_header ''sectors'' (40 + length ?D) (chunk_flag (su_opts s))"
  have len: "length pre = length (seg_front s (i + 1)) + 40" using fh(1) by (simp add: pre_def marked_header_def seg_front_def)
  have body: "fh @ segment_body s (i + 1) (css ! i) ?tail = pre @ ?D @ seg_tables s (css ! i) @ ?tail"
    by (simp add: segment_body_def closed_segment_def pre_def seg_front_def)
  note f = segment_fields(5,6) [OF r i]
  have small: "length (pre @ ?D @ seg_tables s (css ! i) @ ?tail) < 2 ^ 63" using fh(2) unfolding body .
  then show w: "w64 (es_offset (er_segments r ! i) + x) = es_offset (er_segments r ! i) + x"
    unfolding f len [symmetric] using range by (intro w64_id) simp
  show "bs_read (es_source (er_segments r ! i)) (w64 (es_offset (er_segments r ! i) + x)) n = Inr (slice x n ?D)"
    unfolding w unfolding f len [symmetric] fh(3) option.sel body byte_source.simps by (rule file_read_part [OF range small])
qed

definition inverts :: "inflater \<Rightarrow> ewf_setup \<Rightarrow> bool" where
  "inverts inflate s \<longleftrightarrow>
     (\<forall>x y. x \<noteq> [] \<and> length x \<le> setup_cb s \<and> su_deflate s (min (eo_level (su_opts s)) 9) x = Some y \<longrightarrow> inflate y (length x) = Some x)"

lemma seg_data_split:
  assumes "k < length cs"
  shows "seg_data s cs = seg_data s (take k cs) @ the (stored_chunk (su_deflate s) (su_opts s) (cs ! k)) @ seg_data s (drop (Suc k) cs)"
    "seg_data s (take (Suc k) cs) = seg_data s (take k cs) @ the (stored_chunk (su_deflate s) (su_opts s) (cs ! k))"
proof -
  have "cs = take k cs @ cs ! k # drop (Suc k) cs" using assms by (simp add: id_take_nth_drop [symmetric])
  from arg_cong [OF this, of "seg_data s"]
  show "seg_data s cs = seg_data s (take k cs) @ the (stored_chunk (su_deflate s) (su_opts s) (cs ! k)) @ seg_data s (drop (Suc k) cs)"
    by (simp only: seg_data_def map_append list.map concat_append concat.simps)
  show "seg_data s (take (Suc k) cs) = seg_data s (take k cs) @ the (stored_chunk (su_deflate s) (su_opts s) (cs ! k))"
    using assms by (simp add: take_Suc_conv_app_nth seg_data_snoc)
qed

lemma inflate_chunk_view:
  assumes ok: "image_ok s fs css errs digest" and r: "reader_view s fs css r" and i: "i < length css" and k: "k < length (css ! i)"
    and inv: "inverts inflate s" "chunk_flag (su_opts s) \<noteq> 0"
  shows "inflate_chunk inflate r (er_segments r ! i) k = Inr ((er_segments r ! i)\<lparr>es_cache := css ! i ! k, es_cached := k\<rparr>)"
proof -
  let ?cs = "css ! i" and ?cb = "setup_cb s" and ?sm = "er_segments r ! i" and ?c = "css ! i ! k"
  note f = segment_fields [OF r i] and cb = chunk_bytes_view [OF ok r]
  have ch: "chunked ?cb css" and big: "length (content_of css) < 2 ^ 63" using ok by (simp_all add: image_ok_def)
  note place = chunk_place [OF ch i k]
  obtain rest where rest: "content_of css = content_of (take i css) @ concat (take k ?cs) @ ?c @ rest" "length ?c < ?cb \<longrightarrow> rest = []"
    using place(1) by blast
  have total: "er_bytes r = base_of css i + k * ?cb + length ?c + length rest"
    using r arg_cong [OF rest(1), of length] place(2) by (simp add: reader_view_def base_of_def)
  have small: "base_of css i + k * ?cb + length ?c < 2 ^ 63" using total big r by (simp add: reader_view_def)
  then have off: "w64 (k * ?cb) = k * ?cb" by (simp add: w64_id)
  have remaining: "er_bytes r - base_of css i = k * ?cb + (length ?c + length rest)" "base_of css i < er_bytes r"
    using total place(3) by simp_all
  have expected: "min ?cb (k * ?cb + (length ?c + length rest) - k * ?cb) = length ?c"
    using place(4) rest(2) by (cases "length ?c < ?cb") simp_all
  obtain y where y: "stored_chunk (su_deflate s) (su_opts s) ?c = Some y" "y \<noteq> []"
    using ok place(3,4) by (auto simp: image_ok_def setup_ok_def)
  have plain: "inflate y (length ?c) = Some ?c"
    using inv y(1) place(3,4) by (auto simp: inverts_def stored_chunk_def chunk_flag_def split: if_splits)
  define start where "start = length (seg_data s (take k ?cs))"
  have data: "seg_data s ?cs = seg_data s (take k ?cs) @ y @ seg_data s (drop (Suc k) ?cs)"
    using seg_data_split(1) [OF k, of s] y(1) by simp
  have stop: "(if k + 1 < length (es_table ?sm) then es_table ?sm ! (k + 1) else es_bytes ?sm) = start + length y"
  proof (cases "k + 1 < length ?cs")
    case True
    then show ?thesis using seg_data_split(2) [OF k, of s] y(1) by (simp add: f seg_offsets_def start_def)
  next
    case False
    then show ?thesis using data k by (simp add: f seg_offsets_def start_def seg_data_def)
  qed
  have head: "es_table ?sm ! k = start" "k < length (es_table ?sm)" using k by (simp_all add: f seg_offsets_def start_def)
  have inside: "start + length y \<le> es_bytes ?sm" using data by (simp add: f start_def)
  have "read_exact (es_source ?sm) (w64 (es_offset ?sm + start)) (length y) = Inr y"
  proof -
    have "bs_read (es_source ?sm) (w64 (es_offset ?sm + start)) (length y) = Inr (slice start (length y) (seg_data s ?cs))"
      using inside by (intro segment_file_read(1) [OF ok r i]) (simp add: f)
    moreover have "slice start (length y) (seg_data s ?cs) = y" by (simp add: data start_def slice_append_right slice_append_left slice_all)
    ultimately show ?thesis using y(2) by (simp add: read_exact_def)
  qed
  then show ?thesis
    using head inside remaining place(3) plain expected off
    unfolding inflate_chunk_def Let_def stop cb(1) f(1) off remaining(1)
    by (simp add: not_le)
qed

definition step_ok :: "inflater \<Rightarrow> ewf_setup \<Rightarrow> bool" where
  "step_ok inflate s \<longleftrightarrow> chunk_flag (su_opts s) = 0 \<or> inverts inflate s"

lemma read_step_view:
  assumes ok: "image_ok s fs css errs digest" and r: "reader_view s fs css r" and inv: "step_ok inflate s"
    and range: "0 < n" "pos + n \<le> length (content_of css)"
  shows "\<exists>k r'. 0 < k \<and> k \<le> n \<and> read_step inflate r pos n = Some (Inr (slice pos k (content_of css), r')) \<and> reader_view s fs css r'"
proof -
  have ch: "chunked (setup_cb s) css" and big: "length (content_of css) < 2 ^ 63" using ok by (simp_all add: image_ok_def)
  note cb = chunk_bytes_view [OF ok r]
  have "pos < length (content_of css)" using range by simp
  then obtain i where i: "i < length css" "segment_at r pos = Some i" "base_of css i \<le> pos" "pos < base_of css (Suc i)"
    using segment_at_view [OF ok r] by blast
  let ?sm = "er_segments r ! i" and ?cs = "css ! i"
  note f = segment_fields [OF r i(1)]
  define local where "local = pos - base_of css i"
  have inside: "local < length (concat ?cs)" using i(3,4) base_of_Suc [OF i(1)] by (simp add: local_def)
  show ?thesis
  proof (cases "chunk_flag (su_opts s) = 0")
    case True
    then have D: "seg_data s ?cs = concat ?cs" by (rule uncompressed_data)
    define k where "k = min n (length (concat ?cs) - local)"
    have k: "0 < k" "k \<le> n" "local + k \<le> length (concat ?cs)" using range(1) inside by (auto simp: k_def)
    have "bs_read (es_source ?sm) (w64 (es_offset ?sm + local)) k = Inr (slice local k (concat ?cs))"
      using segment_file_read(1) [OF ok r i(1), of local k] k(3) by (simp add: D)
    moreover have "slice local k (concat ?cs) = slice pos k (content_of css)"
      using segment_content [OF i(1,3), of k] k(3) i(3) base_of_Suc [OF i(1)] by (simp add: local_def)
    ultimately have "read_step inflate r pos n = Some (Inr (slice pos k (content_of css), r))"
      using True by (simp add: read_step_def i(2) f D Let_def local_def [symmetric] k_def [symmetric])
    then show ?thesis using k r by blast
  next
    case False
    then have inv': "inverts inflate s" using inv by (simp add: step_ok_def)
    define idx where "idx = local div setup_cb s"
    define at where "at = local - idx * setup_cb s"
    have local: "local = idx * setup_cb s + at" "at < setup_cb s"
      using cb(2) by (simp_all add: at_def idx_def minus_div_mult_eq_mod)
    have "local < length ?cs * setup_cb s" using inside segment_length_le [OF ch i(1)] by simp
    then have idx: "idx < length ?cs" unfolding idx_def by (simp add: less_mult_imp_div_less)
    let ?c = "?cs ! idx"
    note place = chunk_place [OF ch i(1) idx]
    obtain rest where rest: "content_of css = content_of (take i css) @ concat (take idx ?cs) @ ?c @ rest" "length ?c < setup_cb s \<longrightarrow> rest = []"
      using place(1) by blast
    have pos: "pos = base_of css i + idx * setup_cb s + at" using local(1) i(3) by (simp add: local_def)
    have "at < length ?c"
    proof (rule ccontr)
      assume "\<not> at < length ?c"
      then have "length ?c < setup_cb s" using local(2) by simp
      then have "length (content_of css) = base_of css i + idx * setup_cb s + length ?c"
        using arg_cong [OF rest(1), of length] rest(2) place(2) by (simp add: base_of_def)
      then show False using pos range \<open>\<not> at < length ?c\<close> by simp
    qed
    define k where "k = min n (length ?c - at)"
    have k: "0 < k" "k \<le> n" "at + k \<le> length ?c" using range(1) \<open>at < length ?c\<close> by (auto simp: k_def)
    have "slice pos k (content_of css) = slice at k (?c @ rest)"
      unfolding rest(1) pos using place(2) by (simp add: slice_append_right base_of_def)
    then have out: "slice pos k (content_of css) = slice at k ?c" using k(3) by (simp add: slice_append_left)
    define sm' where "sm' = (if es_cached ?sm \<noteq> idx then ?sm\<lparr>es_cache := ?c, es_cached := idx\<rparr> else ?sm)"
    have view: "segment_view s fs css i ?sm" using r i(1) by (simp add: reader_view_def)
    have "idx \<le> idx * setup_cb s" using cb(2) by simp
    then have "idx < 2 ^ 63" using pos range big by linarith
    then have hit: "es_cache ?sm = ?c" if "es_cached ?sm = idx" using view that by (auto simp: segment_view_def u64_max_def)
    then have cache: "es_cache sm' = ?c" by (simp add: sm'_def)
    have "(if es_cached ?sm \<noteq> idx then inflate_chunk inflate r ?sm idx else Inr ?sm) = Inr sm'"
      using inflate_chunk_view [OF ok r i(1) idx inv' False] by (simp add: sm'_def)
    then have "read_step inflate r pos n
        = Some (Inr (slice pos k (content_of css), r\<lparr>er_segments := (er_segments r)[i := sm']\<rparr>))"
      using False \<open>at < length ?c\<close> unfolding read_step_def i(2) option.case Let_def f(1,2) cb(1) local_def [symmetric] idx_def [symmetric]
      by (simp add: cache at_def [symmetric] k_def [symmetric] out)
    moreover have "segment_view s fs css i sm'" using view idx unfolding sm'_def segment_view_def Let_def by (cases "es_cached ?sm = idx") simp_all
    then have "reader_view s fs css (r\<lparr>er_segments := (er_segments r)[i := sm']\<rparr>)"
      using r i(1) by (auto simp: reader_view_def nth_list_update)
    ultimately show ?thesis using k(1,2) by blast
  qed
qed

lemma read_loop_view:
  assumes ok: "image_ok s fs css errs digest" and inv: "step_ok inflate s" and range: "pos + n \<le> length (content_of css)"
  shows "reader_view s fs css r \<Longrightarrow> got = slice pos (length got) (content_of css) \<Longrightarrow> length got \<le> n \<Longrightarrow>
    \<exists>r'. read_loop inflate pos n got r = Some (Inr (slice pos n (content_of css), r')) \<and> reader_view s fs css r'"
proof (induction "n - length got" arbitrary: got r rule: less_induct)
  case less
  show ?case
  proof (cases "n \<le> length got")
    case True
    then have "length got = n" using less(4) by simp
    then show ?thesis using less(2,3) by (subst read_loop.simps) auto
  next
    case False
    then obtain k r' where step: "0 < k" "k \<le> n - length got"
      "read_step inflate r (pos + length got) (n - length got) = Some (Inr (slice (pos + length got) k (content_of css), r'))" "reader_view s fs css r'"
      using read_step_view [OF ok less(2) inv, of "n - length got" "pos + length got"] range by auto
    let ?got = "got @ slice (pos + length got) k (content_of css)"
    have len: "length ?got = length got + k" using step(2) range by simp
    have "?got = slice pos (length got + k) (content_of css)"
      using less(3) by (metis slice_append_slice)
    moreover have "n - length ?got < n - length got" "length ?got \<le> n" using step(1,2) False unfolding len by arith+
    ultimately obtain r'' where "read_loop inflate pos n ?got r' = Some (Inr (slice pos n (content_of css), r''))" "reader_view s fs css r''"
      using less(1) [of ?got r'] step(4) len by metis
    then show ?thesis using False step(3) by (subst read_loop.simps) simp
  qed
qed

lemma image_reads:
  assumes ok: "image_ok s fs css errs digest" and r: "reader_view s fs css r" and inv: "step_ok inflate s"
    and range: "off + n \<le> length (content_of css)" "content_of css \<noteq> []"
  shows "\<exists>r'. ewf_read_bytes inflate r off n = Some (Inr (slice off n (content_of css), r')) \<and> reader_view s fs css r'"
proof -
  have "off + n < 2 ^ 64" "0 < su_bps s" using ok range(1) by (simp_all add: image_ok_def setup_ok_def)
  then have "ewf_is_open r" "\<not> er_bytes r < w64 (off + n)"
    using r range by (simp_all add: ewf_is_open_def reader_view_def w64_id)
  then show ?thesis
    using read_loop_view [OF ok inv range(1) r, of "[]"] by (simp add: ewf_read_bytes_def slice_zero)
qed

lemma verify_loop_view:
  assumes ok: "image_ok s fs css errs digest" and inv: "step_ok inflate s" and ne: "content_of css \<noteq> []" "0 < block"
  shows "reader_view s fs css r \<Longrightarrow> off \<le> length (content_of css) \<Longrightarrow> md5_rel ctx (take off (content_of css)) \<Longrightarrow>
    \<exists>ctx' r'. verify_loop inflate block off ctx r = Some (True, ctx', r') \<and> md5_rel ctx' (content_of css)"
proof (induction "length (content_of css) - off" arbitrary: off ctx r rule: less_induct)
  case less
  have total: "er_bytes r = length (content_of css)" using less(2) by (simp add: reader_view_def)
  show ?case
  proof (cases "length (content_of css) \<le> off")
    case True
    then show ?thesis using less(4) total by (subst verify_loop.simps) simp
  next
    case False
    define n where "n = min block (er_bytes r - off)"
    have n: "0 < n" "off + n \<le> length (content_of css)" using False ne(2) total by (auto simp: n_def)
    obtain r' where r': "ewf_read_bytes inflate r off n = Some (Inr (slice off n (content_of css), r'))" "reader_view s fs css r'"
      using image_reads [OF ok less(2) inv n(2) ne(1)] by blast
    have "md5_rel (md5_update ctx (slice off n (content_of css))) (take (off + n) (content_of css))"
      using md5_update_rel [OF less(4)] by (simp add: slice_def take_add)
    moreover have "length (content_of css) - (off + n) < length (content_of css) - off" using n by arith
    ultimately obtain ctx' r'' where "verify_loop inflate block (off + n) (md5_update ctx (slice off n (content_of css))) r' = Some (True, ctx', r'')"
      "md5_rel ctx' (content_of css)"
      using less(1) [of "off + n" r'] r'(2) n(2) by blast
    moreover have "\<not> er_bytes r \<le> off" using False total by simp
    ultimately show ?thesis using r'(1) by (subst verify_loop.simps) (simp add: n_def [symmetric])
  qed
qed

lemma image_digest_verifies:
  assumes ok: "image_ok s fs css errs (md5_spec (content_of css))" and inv: "step_ok inflate s" and ne: "content_of css \<noteq> []"
  shows "verify_digest inflate (reader_after s fs css errs (md5_spec (content_of css)) (length css)) = Some True"
proof -
  let ?r = "reader_after s fs css errs (md5_spec (content_of css)) (length css)"
  have view: "reader_view s fs css ?r" by (rule reader_view_opened [OF ok])
  have bps: "0 < su_bps s" using ok by (simp add: image_ok_def setup_ok_def)
  have open_now: "ewf_is_open ?r" "er_md5 ?r \<noteq> []"
  proof -
    show "ewf_is_open ?r" using view ne bps by (simp add: ewf_is_open_def reader_view_def)
    obtain b bs where "md5_spec (content_of css) = b # bs" using length_md5_spec by (metis length_0_conv neq_Nil_conv zero_neq_numeral)
    then show "er_md5 ?r \<noteq> []" by (simp add: reader_after_def hex_byte_def)
  qed
  have "0 < min (er_bytes ?r) (2 ^ 20)" using view ne by (simp add: reader_view_def)
  moreover have "md5_rel md5_new (take 0 (content_of css))" by (simp add: md5_rel_new)
  ultimately obtain ctx r' where loop: "verify_loop inflate (min (er_bytes ?r) (2 ^ 20)) 0 md5_new ?r = Some (True, ctx, r')"
    "md5_rel ctx (content_of css)"
    using verify_loop_view [OF ok inv ne _ view] by blast
  have "snd (md5_final_hex ctx) = concat (map hex_byte (md5_spec (content_of css)))"
    using md5_final_rel(1) [OF loop(2)] by (cases "md5_final_raw ctx") (simp add: md5_final_hex_def)
  moreover have "er_md5 ?r = concat (map hex_byte (md5_spec (content_of css)))" by (simp add: reader_after_def)
  ultimately show ?thesis using open_now loop(1) by (simp add: verify_digest_def)
qed

section \<open>The image that the writer leaves\<close>

definition last_chunks :: "buf list \<Rightarrow> buf \<Rightarrow> buf list" where
  "last_chunks cur pend = (if pend = [] then cur else cur @ [pend])"

lemma last_chunks_bytes: "concat (last_chunks cur pend) = concat cur @ pend"
  by (simp add: last_chunks_def)

lemma flush_last:
  assumes "staged s segs cur pend w" "setup_ok s" "length pend < setup_cb s" "roomy s w"
  shows "\<exists>w'. close_segment (su_deflate s) last_one w = close_segment (su_deflate s) last_one w'
    \<and> staged s segs (last_chunks cur pend) [] w' \<and> ew_errors w' = ew_errors w"
proof (cases "pend = []")
  case True
  then show ?thesis using assms(1) by (auto simp: last_chunks_def)
next
  case False
  have "ew_chunk_bytes w + su_bound s < 2 ^ 32" using assms(2,4) by (auto simp: roomy_def setup_ok_def)
  then obtain w' where w': "flush_chunk (su_deflate s) w = (True, w')" "staged s segs (cur @ [pend]) [] w'" "ew_errors w' = ew_errors w"
    using flush_staged [OF assms(1,2) False] assms(3) by auto
  moreover have "close_segment (su_deflate s) last_one w = close_segment (su_deflate s) last_one w'"
    using w'(2) assms(1) by (intro close_after_flush [OF w'(1)]) (simp_all add: staged_def)
  ultimately show ?thesis using False by (auto simp: last_chunks_def)
qed

lemma fold_patch:
  assumes "\<And>p. reopens p" "n < 2 ^ 16"
  shows "distinct (map snd xs) \<Longrightarrow> \<forall>(i, p) \<in> set xs. \<exists>k. fs p = Some (file_header k @ rest p) \<Longrightarrow>
    \<forall>(i, p) \<in> set xs. \<exists>fh. marked_header n fh
      \<and> fold (\<lambda>(i, path). patch_segment_header reopens (w16 (i + 1)) n path) xs fs p = Some (fh @ rest p)"
proof (induction xs arbitrary: fs)
  case (Cons x xs)
  let ?patch = "\<lambda>(i, path). patch_segment_header reopens (w16 (i + 1)) n path"
  obtain i p where x: "x = (i, p)" by force
  obtain k where k: "fs p = Some (file_header k @ rest p)" using Cons.prems(2) x by auto
  obtain fh where fh: "patch_segment_header reopens (w16 (i + 1)) n p fs = fs(p \<mapsto> fh @ rest p)" "marked_header n fh"
    using patch_marks [of fs p k "rest p" reopens n, OF k assms(1,2)] by blast
  let ?fs = "fs(p \<mapsto> fh @ rest p)"
  have others: "p \<noteq> q" if "(j, q) \<in> set xs" for j q using Cons.prems(1) that x by force
  have "\<forall>(i, q) \<in> set xs. \<exists>k. ?fs q = Some (file_header k @ rest q)" using Cons.prems(2) others by auto
  then have tail: "\<forall>(i, q) \<in> set xs. \<exists>fh. marked_header n fh \<and> fold ?patch xs ?fs q = Some (fh @ rest q)"
    using Cons.prems(1) x by (intro Cons.IH) simp_all
  have keep: "fold ?patch ys gs q = gs q" if "q \<notin> snd ` set ys" for ys q and gs :: files
    using that by (induction ys arbitrary: gs) (auto simp: patch_segment_header_def Let_def split: option.splits)
  have "p \<notin> snd ` set xs" using others by force
  then have "fold ?patch xs ?fs p = Some (fh @ rest p)" by (subst keep) simp_all
  then show ?case using tail fh by (auto simp: x)
qed simp

lemma segment_size:
  assumes "setup_ok s" "length (seg_data s cs) < 2 ^ 32" "\<forall>c \<in> set cs. c \<noteq> [] \<and> length c \<le> setup_cb s"
    and "length (header_text (su_opts s)) < 2 ^ 32" "errors_ok errs" "length digest = 16"
  shows "length (closed_segment s number cs (if b then final_sections errs digest else [])) < 2 ^ 63"
proof -
  have "\<exists>y. stored_chunk (su_deflate s) (su_opts s) c = Some y \<and> y \<noteq> []" if "c \<in> set cs" for c
    using assms(1,3) that by (auto simp: setup_ok_def)
  then have "length cs \<le> length (seg_data s cs)"
  proof (induction cs)
    case (Cons c cs)
    then obtain y where "stored_chunk (su_deflate s) (su_opts s) c = Some y" "y \<noteq> []" by auto
    then show ?case using Cons by (simp add: seg_data_def Suc_leI add_increasing) (metis One_nat_def Suc_leI add_mono length_greater_0_conv plus_1_eq_Suc)
  qed simp
  then have "length (table_data (seg_offsets s cs) n) \<le> 2 ^ 34 + 20" for n
  proof -
    assume le: "length cs \<le> length (seg_data s cs)"
    have "length (concat (map (nat_le 4) (seg_offsets s cs))) = length cs * 4"
      using length_concat_fixed [of "seg_offsets s cs" "nat_le 4" 4] by (simp add: seg_offsets_def)
    moreover have "(16 - x mod 16) mod 16 \<le> (16 :: nat)" for x :: nat by simp
    ultimately show ?thesis using le assms(2) by (simp add: table_data_def Let_def add_mono)
  qed
  then have tables: "length (seg_tables s cs) \<le> 2 ^ 35 + 120" by (simp add: seg_tables_def Let_def)
  have "length (concat (map (\<lambda>(a, b). nat_le 8 a @ nat_le 8 b) errs)) = length errs * 16"
    by (rule length_concat_fixed) auto
  then have errors: "length (error_data errs) < 2 ^ 36 + 4" using assms(5) by (simp add: error_data_def errors_ok_def)
  then have "length (final_sections errs digest) < 2 ^ 36 + 200" using assms(6) by (simp add: final_sections_def)
  moreover have "length (seg_front s number) < 2 ^ 32 + 400"
    using assms(4) by (simp add: seg_front_def volume_data_def Let_def)
  ultimately show ?thesis using assms(2) tables by (simp add: closed_segment_def)
qed

text \<open>What the imager does with the writer, and a client with the reader.\<close>

primrec write_blocks :: "(string \<Rightarrow> bool) \<Rightarrow> deflater \<Rightarrow> buf list \<Rightarrow> ewf_writer \<Rightarrow> (bool \<times> ewf_writer) option" where
  "write_blocks opens deflate [] w = Some (True, w)"
| "write_blocks opens deflate (b # bs) w =
     (case ewf_write opens deflate b w of
        Some (True, w') \<Rightarrow> write_blocks opens deflate bs w'
      | res \<Rightarrow> res)"

primrec read_ranges :: "inflater \<Rightarrow> (nat \<times> nat) list \<Rightarrow> ewf_reader \<Rightarrow> (string + buf list) option" where
  "read_ranges inflate [] r = Some (Inr [])"
| "read_ranges inflate (x # xs) r =
     (case ewf_read_bytes inflate r (fst x) (snd x) of
        None \<Rightarrow> None
      | Some (Inl e) \<Rightarrow> Some (Inl e)
      | Some (Inr (bs, r')) \<Rightarrow> map_option (map_sum id (\<lambda>out. bs # out)) (read_ranges inflate xs r'))"

lemma write_blocks_writing:
  assumes "setup_ok s" "\<And>p. opens p"
  shows "writing s segs cur pend w \<Longrightarrow> length pend < setup_cb s \<Longrightarrow> roomy s w \<Longrightarrow> \<forall>b \<in> set blocks. length b mod su_bps s = 0 \<Longrightarrow>
    \<exists>w' segs' cur' pend'. write_blocks opens (su_deflate s) blocks w = Some (True, w')
      \<and> writing s segs' cur' pend' w' \<and> length pend' < setup_cb s \<and> roomy s w' \<and> ew_errors w' = ew_errors w
      \<and> written_bytes segs' cur' pend' = written_bytes segs cur pend @ concat blocks"
proof (induction blocks arbitrary: segs cur pend w)
  case Nil
  then show ?case by auto
next
  case (Cons b bs)
  have w: "ew_stream w \<noteq> None" "ew_bps w = su_bps s" "ew_opts w = su_opts s" using Cons.prems(1) by (simp_all add: writing_def staged_def)
  have "setup_cb s < 2 ^ 64" using assms(1) by (simp add: setup_ok_def)
  then have cb: "w64 (eo_chunk (ew_opts w) * ew_bps w) = setup_cb s" by (simp add: w setup_cb_def w64_id)
  obtain w1 segs1 cur1 pend1 where step: "write_loop opens (su_deflate s) (setup_cb s) b w = Some (True, w1)"
    "writing s segs1 cur1 pend1 w1" "length pend1 < setup_cb s" "roomy s w1" "ew_errors w1 = ew_errors w"
    "written_bytes segs1 cur1 pend1 = written_bytes segs cur pend @ b"
    using write_loop_writing [where opens = opens, OF assms Cons.prems(1-3)] by blast
  have "ewf_write opens (su_deflate s) b w = Some (True, w1)" using w cb step(1) Cons.prems(4) by (simp add: ewf_write_def)
  moreover obtain w' segs' cur' pend' where "write_blocks opens (su_deflate s) bs w1 = Some (True, w')" "writing s segs' cur' pend' w'"
    "length pend' < setup_cb s" "roomy s w'" "ew_errors w' = ew_errors w1"
    "written_bytes segs' cur' pend' = written_bytes segs1 cur1 pend1 @ concat bs"
    using Cons.IH [OF step(2-4)] Cons.prems(4) by auto
  ultimately show ?case using step(5,6) by auto
qed

lemma read_ranges_view:
  assumes ok: "image_ok s fs css errs digest" and inv: "step_ok inflate s" and ne: "content_of css \<noteq> []"
  shows "reader_view s fs css r \<Longrightarrow> \<forall>(off, n) \<in> set ranges. off + n \<le> length (content_of css) \<Longrightarrow>
    read_ranges inflate ranges r = Some (Inr (map (\<lambda>(off, n). slice off n (content_of css)) ranges))"
proof (induction ranges arbitrary: r)
  case (Cons x xs)
  obtain off n where x: "x = (off, n)" by force
  then obtain r' where "ewf_read_bytes inflate r off n = Some (Inr (slice off n (content_of css), r'))" "reader_view s fs css r'"
    using image_reads [OF ok Cons.prems(1) inv _ ne, of off n] Cons.prems(2) by auto
  then show ?case using Cons.IH [of r'] Cons.prems(2) x by simp
qed simp

lemma finish_image:
  assumes w: "writing s segs cur pend w" "length pend < setup_cb s" "roomy s w" and s: "setup_ok s" and reopens: "\<And>p. reopens p"
    and content: "written_bytes segs cur pend = content" "length content = su_sectors s * su_bps s" "length content < 2 ^ 63"
    and sizes: "length (header_text (su_opts s)) < 2 ^ 32" "errors_ok (ew_errors w)"
  defines "css \<equiv> segs @ [last_chunks cur pend]"
  shows "\<exists>w'. ewf_finish reopens (su_deflate s) w = (True, w') \<and> length (ew_paths w') = length css
    \<and> ew_md5hex w' = concat (map hex_byte (md5_spec content)) \<and> content_of css = content
    \<and> length css \<le> length content div setup_cb s + 1
    \<and> (length css \<le> 775 \<longrightarrow> image_ok s (ew_fs w') css (ew_errors w) (md5_spec content))"
proof -
  let ?last = "last_chunks cur pend" and ?N = "length css" and ?digest = "md5_spec content" and ?errs = "ew_errors w"
  have staged: "staged s segs cur pend w" using w(1) by (simp add: writing_def)
  obtain w1 where w1: "close_segment (su_deflate s) True w = close_segment (su_deflate s) True w1" "staged s segs ?last [] w1" "ew_errors w1 = ?errs"
    using flush_last [OF staged s w(2,3)] by blast
  have content': "concat (concat segs) @ concat ?last = content" using content(1) by (simp add: written_bytes_def last_chunks_bytes)
  obtain w2 where w2: "close_segment (su_deflate s) True w1 = (True, w2)" "ew_paths w2 = ew_paths w1" "ew_stream w2 = None"
    "ew_fs w2 = (ew_fs w1)(segment_path (su_dest s) (length segs + 1) \<mapsto> closed_segment s (length segs + 1) ?last (final_sections ?errs ?digest))"
    "ew_md5hex w2 = concat (map hex_byte ?digest)"
    using close_writing [OF w1(2) s, of True] by (auto simp: content' w1(3))
  define w3 where "w3 = patch_all_segment_headers reopens w2"
  have paths: "ew_paths w2 = map (segment_path (su_dest s)) [1..<?N + 1]" using w1(2) w2(2) by (simp add: staged_def css_def)
  have fin: "ewf_finish reopens (su_deflate s) w = (True, w3)"
    using staged w1(1) w2(1) by (simp add: ewf_finish_def ewf_close_def staged_def w3_def)
  have bytes: "content_of css = content" using content' by (simp add: content_of_def css_def)
  have ok: "image_ok s (ew_fs w3) css ?errs ?digest" if few: "?N \<le> 775"
  proof -
    define rest where "rest p = (let i = (SOME i. i < ?N \<and> p = segment_path (su_dest s) (i + 1))
      in segment_body s (i + 1) (css ! i) (if i + 1 = ?N then final_sections ?errs ?digest else []))" for p
    have rest: "rest (segment_path (su_dest s) (i + 1)) = segment_body s (i + 1) (css ! i) (if i + 1 = ?N then final_sections ?errs ?digest else [])"
      if "i < ?N" for i
    proof -
      have "(SOME j. j < ?N \<and> segment_path (su_dest s) (i + 1) = segment_path (su_dest s) (j + 1)) = i"
      proof (intro some_equality conjI refl that)
        fix j assume "j < ?N \<and> segment_path (su_dest s) (i + 1) = segment_path (su_dest s) (j + 1)"
        then show "j = i" using segment_path_inj [of "su_dest s" "i + 1" "j + 1"] few that by simp
      qed
      then show ?thesis by (simp add: rest_def)
    qed
    have N: "?N = Suc (length segs)" by (simp add: css_def)
    have files: "ew_fs w2 (segment_path (su_dest s) (i + 1))
        = Some (file_header (i + 1) @ rest (segment_path (su_dest s) (i + 1)))" if i: "i < ?N" for i
    proof (cases "i = length segs")
      case True
      then show ?thesis unfolding rest [OF i] using w2(4) by (simp add: closed_segment_body css_def)
    next
      case False
      then have "i < length segs" "segment_path (su_dest s) (i + 1) \<noteq> segment_path (su_dest s) (length segs + 1)"
        using i N few segment_path_inj [of "su_dest s" "i + 1" "length segs + 1"] by auto
      then show ?thesis unfolding rest [OF i]
        using w2(4) w1(2) few N by (simp add: staged_def segment_files_def closed_segment_body css_def nth_append)
    qed
    have distinct: "distinct (map (segment_path (su_dest s)) [1..<?N + 1])"
      using segment_path_inj few by (auto simp: distinct_map inj_on_def simp del: upt_Suc)
    have "w16 ?N = ?N" "?N < 2 ^ 16" using few by (simp_all add: w16_id)
    then have fs3: "ew_fs w3 = fold (\<lambda>(i, path). patch_segment_header reopens (w16 (i + 1)) ?N path)
        (enumerate 0 (map (segment_path (su_dest s)) [1..<?N + 1])) (ew_fs w2)"
      by (simp add: w3_def patch_all_segment_headers_def paths del: upt_Suc)
    have marked: "\<exists>fh. marked_header ?N fh \<and> ew_fs w3 (segment_path (su_dest s) (i + 1)) = Some (fh @ rest (segment_path (su_dest s) (i + 1)))"
      if i: "i < ?N" for i
    proof -
      let ?xs = "enumerate 0 (map (segment_path (su_dest s)) [1..<?N + 1])"
      have "\<forall>(j, p) \<in> set ?xs. \<exists>k. ew_fs w2 p = Some (file_header k @ rest p)"
        using files by (auto simp: in_set_enumerate_eq simp del: upt_Suc)
      then have "\<forall>(j, p) \<in> set ?xs. \<exists>fh. marked_header ?N fh \<and> ew_fs w3 p = Some (fh @ rest p)"
        unfolding fs3 using distinct \<open>?N < 2 ^ 16\<close> reopens by (intro fold_patch) (simp_all del: upt_Suc)
      moreover have "(i, segment_path (su_dest s) (i + 1)) \<in> set ?xs"
        using i by (simp add: in_set_enumerate_eq del: upt_Suc)
      ultimately show ?thesis by blast
    qed
    have last: "\<forall>c \<in> set ?last. c \<noteq> [] \<and> length c \<le> setup_cb s" "\<forall>c \<in> set (butlast ?last). length c = setup_cb s"
      "\<forall>cs \<in> set segs. \<forall>c \<in> set cs. length c = setup_cb s"
    proof -
      have "0 < setup_cb s" using w(2) by simp
      have full: "\<forall>c \<in> set (concat segs) \<union> set cur. length c = setup_cb s" using w(1) by (simp add: writing_def)
      then have "c \<noteq> [] \<and> length c \<le> setup_cb s" if "c \<in> set cur" for c
        using bspec [OF full, of c] that \<open>0 < setup_cb s\<close> by (cases c) auto
      then show "\<forall>c \<in> set ?last. c \<noteq> [] \<and> length c \<le> setup_cb s" using w(2) by (auto simp: last_chunks_def)
      show "\<forall>c \<in> set (butlast ?last). length c = setup_cb s" "\<forall>cs \<in> set segs. \<forall>c \<in> set cs. length c = setup_cb s"
        using full by (auto simp: last_chunks_def dest: in_set_butlastD split: if_splits)
    qed
    have cb: "0 < setup_cb s" using w(2) by simp
    have chunked: "chunked (setup_cb s) css" using last cb by (fastforce simp: chunked_def css_def)
    have small: "\<forall>cs \<in> set css. length (seg_data s cs) < 2 ^ 32" using w1(2) by (auto simp: staged_def css_def)
    have "image_file s (ew_fs w3) css ?errs ?digest i" if i: "i < ?N" for i
    proof -
      obtain fh where fh: "marked_header ?N fh" "ew_fs w3 (segment_path (su_dest s) (i + 1)) = Some (fh @ rest (segment_path (su_dest s) (i + 1)))"
        using marked [OF i] by blast
      have "css ! i \<in> set css" using i by simp
      then have "\<forall>c \<in> set (css ! i). c \<noteq> [] \<and> length c \<le> setup_cb s" "length (seg_data s (css ! i)) < 2 ^ 32"
        using chunked small by (auto simp: chunked_def)
      then have "length (file_header (i + 1) @ segment_body s (i + 1) (css ! i) (if i + 1 = ?N then final_sections ?errs ?digest else [])) < 2 ^ 63"
        using segment_size [OF s _ _ sizes] by (simp only: closed_segment_body [symmetric] length_md5_spec)
      then show ?thesis unfolding image_file_def using fh rest [OF i] by (intro exI [of _ fh]) (simp add: marked_header_def)
    qed
    then show ?thesis
      using s chunked few sizes(2) content small bytes by (simp add: image_ok_def)
  qed
  have few: "?N \<le> length content div setup_cb s + 1"
  proof -
    have "length (concat (concat xs)) \<ge> length xs * setup_cb s" if "set xs \<subseteq> set segs" for xs
      using that
    proof (induction xs)
      case (Cons cs xs)
      then have "cs \<noteq> []" "\<forall>c \<in> set cs. length c = setup_cb s" using w(1) by (auto simp: writing_def)
      then have "setup_cb s \<le> length (concat cs)" by (cases cs) simp_all
      then show ?case using Cons by simp
    qed simp
    then have "length segs * setup_cb s \<le> length content" using content'
      by (metis le_add1 length_append order.refl order.trans)
    then have "length segs \<le> length content div setup_cb s" using w(2) by (simp add: less_eq_div_iff_mult_less_eq)
    then show ?thesis by (simp add: css_def)
  qed
  have "length (ew_paths w3) = ?N" "ew_md5hex w3 = concat (map hex_byte ?digest)"
    using paths w2(5) by (simp_all add: w3_def patch_all_segment_headers_def del: upt_Suc)
  then show ?thesis using fin bytes ok few by blast
qed


definition demo_setup :: ewf_setup where
  "demo_setup = \<lparr>su_deflate = (\<lambda>level bs. Some (0 # bs)), su_opts = default_options\<lparr>eo_chunk := 1, eo_level := 6\<rparr>, su_bps = 2,
     su_sectors = 2, su_dest = ''a.E01'', su_max = 0xFFFF0000, su_bound = 3\<rparr>"


end
