(* ===== verification/Size_Parsers.thy ===== *)
theory Size_Parsers
  imports Prelude
begin

text \<open>
  The parsers that bound the size of a carved file by its own structure
  (carver/parsers/*.cpp).  A buffer is a list; the code checks its size before it reads, and where a
  check is insufficient the model reads with \<open>rd_slice\<close>, whose \<open>None\<close> is an access outside the buffer.
  \<open>read_at\<close> fetches bytes of the disk beyond the probe; \<open>None\<close> as a whole is the null function, as a
  result it is a failed read.  Addresses are those of a disk, far below \<open>2 ^ 64\<close>; the comparisons keep
  their wrap-around.
\<close>

section \<open>Results and fetches\<close>

record parse_result =
  pr_valid :: bool
  pr_size :: nat
  pr_ext :: string
  pr_conf :: nat

definition no_bound :: parse_result where
  "no_bound = \<lparr>pr_valid = False, pr_size = 0, pr_ext = [], pr_conf = 0\<rparr>"

definition bounded_by :: "nat \<Rightarrow> nat \<Rightarrow> parse_result" where
  "bounded_by n conf = no_bound\<lparr>pr_valid := True, pr_size := n, pr_conf := conf\<rparr>"

type_synonym box_reader = "(nat \<Rightarrow> nat \<Rightarrow> buf option) option"

definition fetch_budget :: nat where "fetch_budget = 65536"

definition fetch_at :: "buf \<Rightarrow> nat \<Rightarrow> box_reader \<Rightarrow> nat \<Rightarrow> nat \<Rightarrow> nat \<Rightarrow> nat \<times> buf option" where
  "fetch_at probe base read_at budget addr n =
     (if base \<le> addr \<and> w64 (addr + n) \<le> w64 (base + length probe) then (budget, Some (slice (addr - base) n probe))
      else if budget = 0 \<or> read_at = None then (budget, None)
      else (budget - 1, the read_at addr n))"

definition rd_end :: "bool \<Rightarrow> buf \<Rightarrow> nat" where
  "rd_end le bs = (if le then le_nat bs else be_nat 0 bs)"

section \<open>Headers that declare the size\<close>

definition parse_riff :: "buf \<Rightarrow> parse_result" where
  "parse_riff data =
     (if length data < 12 \<or> take 4 data \<noteq> bytes_of ''RIFF'' then no_bound
      else let declared = le_nat (slice 4 4 data) + 8
           in if declared < 12 then no_bound else bounded_by declared 65)"

definition parse_seven_zip :: "buf \<Rightarrow> parse_result" where
  "parse_seven_zip data =
     (if length data < 32 \<or> take 6 data \<noteq> [0x37, 0x7A, 0xBC, 0xAF, 0x27, 0x1C] then no_bound
      else let nho = le_nat (slice 12 8 data); nhs = le_nat (slice 20 8 data)
           in if nhs = 0 \<or> 64 * 2 ^ 30 < w64 (nho + nhs) then no_bound
              else bounded_by (w64 (32 + w64 (nho + nhs))) 70)"

definition parse_cab :: "buf \<Rightarrow> parse_result" where
  "parse_cab data =
     (if length data < 24 \<or> take 4 data \<noteq> bytes_of ''MSCF'' then no_bound
      else let declared = le_nat (slice 8 4 data)
           in if declared < 24 then no_bound else bounded_by declared 70)"

definition valid_btree_page_type :: "byte \<Rightarrow> bool" where
  "valid_btree_page_type t \<longleftrightarrow> t \<in> {0x02, 0x05, 0x0A, 0x0D, 0x0F, 0x10}"

definition sqlite_page_size :: "buf \<Rightarrow> nat" where
  "sqlite_page_size hdr = (let r = be_nat 0 (slice 16 2 hdr) in if r = 1 then 65536 else r)"

text \<open>\<open>kMagic\<close> includes the terminating zero.\<close>

definition parse_sqlite_db :: "buf \<Rightarrow> parse_result" where
  "parse_sqlite_db data =
     (if length data < 100 \<or> take 16 data \<noteq> bytes_of ''SQLite format 3'' @ [0] then no_bound
      else let ps = sqlite_page_size data; pc = be_nat 0 (slice 28 4 data)
           in if ps < 512 \<or> 65536 < ps \<or> (\<forall>k \<le> 16. ps \<noteq> 2 ^ k) then no_bound
              else if pc = 0 \<or> 0x0FFFFFFF < pc then no_bound
              else let n = ps * pc
                   in if n < 100 \<or> 2 ^ 40 < n then no_bound
                      else no_bound\<lparr>pr_valid := True, pr_size := n, pr_ext := ''sqlite'',
                        pr_conf := (if n \<le> length data then 90
                                    else if 101 \<le> length data \<and> valid_btree_page_type (data ! 100) then 80 else 65)\<rparr>)"

text \<open>The packets of a transport stream: three lost sync bytes in a row end the walk, fewer are passed over.
  The stride is 188 or 192.\<close>

function ts_loop :: "buf \<Rightarrow> nat \<Rightarrow> nat \<Rightarrow> nat \<Rightarrow> nat \<Rightarrow> nat" where
  "ts_loop data stride pos packets bad =
     (if length data < pos + 188 \<or> stride = 0 then packets
      else if data ! pos = 0x47 then ts_loop data stride (pos + stride) (packets + 1) 0
      else if 3 \<le> bad + 1 then packets
      else ts_loop data stride (pos + stride) packets (bad + 1))"
  by pat_completeness auto
termination by (relation "measure (\<lambda>(data, stride, pos, _). length data - pos)") auto

declare ts_loop.simps [simp del]

definition ts_stride :: "buf \<Rightarrow> nat \<Rightarrow> parse_result option" where
  "ts_stride data stride =
     (let off = (if stride = 192 then 4 else 0)
      in if length data < off + 4 \<or> data ! off \<noteq> 0x47 then None
         else let packets = ts_loop data stride off 0 0
              in if 4 \<le> packets then Some (bounded_by (packets * stride) 65) else None)"

definition parse_mpeg_ts :: "buf \<Rightarrow> parse_result" where
  "parse_mpeg_ts data =
     (if length data < 4 * 188 then no_bound
      else case ts_stride data 188 of
        Some r \<Rightarrow> r
      | None \<Rightarrow> (case ts_stride data 192 of Some r \<Rightarrow> r | None \<Rightarrow> no_bound))"

section \<open>MP4 boxes: the walk in memory\<close>

record atom_walk =
  aw_end :: nat
  aw_ftyp :: bool
  aw_moov :: bool
  aw_mdat :: bool
  aw_mdat_end :: nat

definition new_walk :: atom_walk where
  "new_walk = \<lparr>aw_end = 0, aw_ftyp = False, aw_moov = False, aw_mdat = False, aw_mdat_end = 0\<rparr>"

definition note_atom :: "buf \<Rightarrow> nat \<Rightarrow> atom_walk \<Rightarrow> atom_walk" where
  "note_atom ty e w =
     (let w1 = w\<lparr>aw_ftyp := aw_ftyp w \<or> ty = bytes_of ''ftyp'', aw_moov := aw_moov w \<or> ty = bytes_of ''moov''\<rparr>;
          w2 = (if ty = bytes_of ''mdat'' then w1\<lparr>aw_mdat := True, aw_mdat_end := e\<rparr> else w1)
      in w2\<lparr>aw_end := max (aw_end w2) e\<rparr>)"

text \<open>
  The size of a box in 64 bits is added to the offset modulo \<open>2 ^ 64\<close>.  \<open>None\<close>: the walk never ends;
  \<open>Some None\<close>: it reads outside the buffer.
\<close>

partial_function (option) walk_atoms :: "buf \<Rightarrow> nat \<Rightarrow> atom_walk \<Rightarrow> atom_walk option option" where
  "walk_atoms data i w =
     (if length data < w64 (i + 8) then Some (Some w)
      else if length data < i + 8 then Some None
      else let small = be_nat 0 (slice i 4 data); ty = slice (i + 4) 4 data
           in if small = 1 \<and> length data < i + 16 then Some (Some w)
              else let n = (if small = 1 then be_nat 0 (slice (i + 8) 8 data) else if small = 0 then length data - i else small)
                   in if n < (if small = 1 then 16 else 8) then Some (Some w)
                      else walk_atoms data (w64 (i + n))
                        (note_atom ty (if length data < w64 (i + n) then length data else w64 (i + n)) w))"

text \<open>The search for a moov box in the last 64 KiB, from the end.\<close>

definition find_tail_moov :: "buf \<Rightarrow> bool" where
  "find_tail_moov data =
     (length data \<ge> 16 \<and> (\<exists>i \<in> set [length data - 65536..<length data - 7].
        slice (i + 4) 4 data = bytes_of ''moov'' \<and> 4 \<le> i \<and> 8 \<le> be_nat 0 (slice i 4 data) \<and> i + be_nat 0 (slice i 4 data) \<le> length data))"

definition mp4_result :: "buf \<Rightarrow> atom_walk \<Rightarrow> parse_result" where
  "mp4_result data w =
     (let conf = (if aw_moov w then 80 else if find_tail_moov data then 70 else 55);
          n = (if aw_mdat w \<and> 0 < aw_mdat_end w then aw_mdat_end w else aw_end w);
          n' = (if n = 0 then length data else n)
      in no_bound\<lparr>pr_valid := True, pr_ext := ''mp4'', pr_size := n',
           pr_conf := (if aw_moov w \<and> aw_mdat w \<and> n' \<le> length data then 90 else if aw_mdat w then max conf 75 else conf)\<rparr>)"

definition parse_mp4_mov :: "buf \<Rightarrow> parse_result option option" where
  "parse_mp4_mov data =
     (if length data < 12 then Some (Some no_bound)
      else map_option (map_option (\<lambda>w. if aw_ftyp w then mp4_result data w else no_bound)) (walk_atoms data 0 new_walk))"

section \<open>MP4 boxes: the walk with targeted reads\<close>

record box_state =
  bx_ftyp :: bool
  bx_moov :: bool
  bx_mdat :: bool
  bx_end :: nat

definition new_boxes :: box_state where
  "new_boxes = \<lparr>bx_ftyp = False, bx_moov = False, bx_mdat = False, bx_end = 0\<rparr>"

definition box_in_probe :: "buf \<Rightarrow> nat \<Rightarrow> nat" where
  "box_in_probe probe off = (if w64 (off + 16) \<le> length probe then 16 else if w64 (off + 8) \<le> length probe then 8 else 0)"

text \<open>The first 8 (or, when the probe has them, 16) bytes of a box; then 16 bytes for a 64 bit size.\<close>

definition box_head :: "buf \<Rightarrow> nat \<Rightarrow> box_reader \<Rightarrow> nat \<Rightarrow> nat \<Rightarrow> nat \<times> buf option" where
  "box_head probe base read_at budget off =
     (if 0 < box_in_probe probe off then (budget, Some (slice off (box_in_probe probe off) probe))
      else if read_at = None \<or> budget = 0 then (budget, None)
      else (budget - 1, the read_at (base + off) 8))"

definition box_wide :: "buf \<Rightarrow> nat \<Rightarrow> box_reader \<Rightarrow> nat \<Rightarrow> nat \<Rightarrow> nat \<times> buf option" where
  "box_wide probe base read_at budget off =
     (if 16 \<le> box_in_probe probe off then (budget, Some (slice off 16 probe))
      else if read_at = None \<or> budget = 0 then (budget, None)
      else (budget - 1, the read_at (base + off) 16))"

definition note_box :: "buf \<Rightarrow> bool \<Rightarrow> box_state \<Rightarrow> box_state" where
  "note_box ty is_mdat b =
     (if ty = bytes_of ''ftyp'' then b\<lparr>bx_ftyp := True\<rparr>
      else if ty = bytes_of ''moov'' then b\<lparr>bx_moov := True\<rparr>
      else if is_mdat then b\<lparr>bx_mdat := True\<rparr> else b)"

text \<open>One header: the size, the size of the header, whether it is mdat, and the type.\<close>

definition box_header :: "buf \<Rightarrow> nat \<Rightarrow> box_reader \<Rightarrow> nat \<Rightarrow> nat \<Rightarrow> nat \<times> (nat \<times> nat \<times> bool \<times> buf) option" where
  "box_header probe base read_at budget off =
     (case box_head probe base read_at budget off of
        (b1, None) \<Rightarrow> (b1, None)
      | (b1, Some h) \<Rightarrow>
          let is_mdat = (slice 4 4 h = bytes_of ''mdat'')
          in if be_nat 0 (take 4 h) \<noteq> 1 then (b1, Some (be_nat 0 (take 4 h), 8, is_mdat, slice 4 4 h))
             else case box_wide probe base read_at b1 off of
               (b2, None) \<Rightarrow> (b2, None)
             | (b2, Some h2) \<Rightarrow> (b2, Some (be_nat 0 (slice 8 8 h2), 16, is_mdat, slice 4 4 h2)))"

function box_loop :: "buf \<Rightarrow> nat \<Rightarrow> box_reader \<Rightarrow> nat \<Rightarrow> nat \<Rightarrow> nat \<Rightarrow> box_state \<Rightarrow> box_state \<times> nat" where
  "box_loop probe base read_at limit budget off b =
     (if limit < w64 (off + 8) then (b, off)
      else case box_header probe base read_at budget off of
        (b2, None) \<Rightarrow> (b, off)
      | (b2, Some (n, hs, is_mdat, ty)) \<Rightarrow>
          if n = 0 then (if is_mdat \<or> ty = bytes_of ''moov'' then (b\<lparr>bx_end := limit\<rparr>, limit) else (b, off))
          else if n < hs then (b, off)
          else let b' = note_box ty is_mdat b
               in if limit - off < n then (if is_mdat then (b'\<lparr>bx_end := limit\<rparr>, limit) else (b', off))
                  else box_loop probe base read_at limit b2 (off + n) (b'\<lparr>bx_end := off + n\<rparr>))"
  by pat_completeness auto
termination by (relation "measure (\<lambda>(probe, base, read_at, limit, budget, off, b). limit - off)") auto

declare box_loop.simps [simp del]

definition parse_isobmff_bounded :: "buf \<Rightarrow> nat \<Rightarrow> nat \<Rightarrow> box_reader \<Rightarrow> parse_result" where
  "parse_isobmff_bounded probe base limit read_at =
     (if length probe < 8 then no_bound
      else let (b, off) = box_loop probe base read_at limit 8192 0 new_boxes
           in if \<not> bx_ftyp b then no_bound
              else no_bound\<lparr>pr_valid := True, pr_ext := ''mp4'', pr_conf := (if bx_moov b then 90 else if bx_mdat b then 80 else 65),
                pr_size := (if 0 < bx_end b then bx_end b else off)\<rparr>)"

section \<open>Matroska\<close>

text \<open>The value, the number of bytes, and whether all value bits are set.\<close>

definition ebml_length :: "byte \<Rightarrow> nat" where
  "ebml_length p = (case filter (\<lambda>k. p AND push_bit (8 - k) 1 \<noteq> 0) [1..<9] of [] \<Rightarrow> 9 | k # _ \<Rightarrow> k)"

definition read_ebml_vint :: "buf \<Rightarrow> (nat \<times> nat \<times> bool) option" where
  "read_ebml_vint p =
     (if p = [] \<or> p ! 0 = 0 then None
      else let len = ebml_length (p ! 0)
           in if 8 < len \<or> length p < len then None
              else let value = be_nat (unat (p ! 0 AND mask (8 - len))) (slice 1 (len - 1) p)
                   in Some (value, len, value = 2 ^ (7 * len) - 1))"

definition parse_mkv_bounded :: "buf \<Rightarrow> nat \<Rightarrow> nat \<Rightarrow> box_reader \<Rightarrow> parse_result" where
  "parse_mkv_bounded probe base limit read_at =
     (if length probe < 8 then no_bound
      else case fetch_at probe base read_at fetch_budget base 12 of
        (b1, None) \<Rightarrow> no_bound
      | (b1, Some hdr) \<Rightarrow>
          if take 4 hdr \<noteq> [0x1A, 0x45, 0xDF, 0xA3] then no_bound
          else case read_ebml_vint (slice 4 8 hdr) of
            None \<Rightarrow> no_bound
          | Some (hsize, hlen, unknown) \<Rightarrow>
              if unknown then no_bound
              else let seg_off = 4 + hlen + hsize
                   in case fetch_at probe base read_at b1 (w64 (base + seg_off)) 12 of
                     (b2, None) \<Rightarrow> no_bound
                   | (b2, Some seg) \<Rightarrow>
                       if take 4 seg \<noteq> [0x18, 0x53, 0x80, 0x67] then no_bound
                       else case read_ebml_vint (slice 4 8 seg) of
                         None \<Rightarrow> no_bound
                       | Some (ssize, slen, unknown2) \<Rightarrow>
                           if unknown2 \<or> ssize = 0 then no_bound
                           else if limit < seg_off + 4 + slen + ssize then no_bound
                           else bounded_by (seg_off + 4 + slen + ssize) 80)"

section \<open>Ogg\<close>

definition ogg_crc_bit :: "32 word \<Rightarrow> 32 word" where
  "ogg_crc_bit crc = (if bit crc 31 then push_bit 1 crc XOR 0x04C11DB7 else push_bit 1 crc)"

definition ogg_crc_byte :: "byte \<Rightarrow> 32 word \<Rightarrow> 32 word" where
  "ogg_crc_byte b crc = (ogg_crc_bit ^^ 8) (crc XOR push_bit 24 (ucast b))"

definition ogg_crc32 :: "buf \<Rightarrow> 32 word" where
  "ogg_crc32 data = fold ogg_crc_byte data 0"

text \<open>One page at this offset: its header, lacing table and body in three fetches, and its checksum.\<close>

definition ogg_header_ok :: "buf \<Rightarrow> bool" where
  "ogg_header_ok hdr \<longleftrightarrow> take 4 hdr = bytes_of ''OggS'' \<and> hdr ! 4 = 0 \<and> hdr ! 5 AND 0xF8 = 0 \<and> hdr ! 26 \<noteq> 0"

definition ogg_page :: "buf \<Rightarrow> nat \<Rightarrow> box_reader \<Rightarrow> nat \<Rightarrow> nat \<Rightarrow> nat \<Rightarrow> nat \<times> (nat \<times> bool) option" where
  "ogg_page probe base read_at limit budget off =
     (case fetch_at probe base read_at budget (base + off) 27 of
        (b1, None) \<Rightarrow> (b1, None)
      | (b1, Some hdr) \<Rightarrow>
          if \<not> ogg_header_ok hdr then (b1, None)
          else let nseg = unat (hdr ! 26)
               in case fetch_at probe base read_at b1 (base + off + 27) nseg of
                 (b2, None) \<Rightarrow> (b2, None)
               | (b2, Some lacing) \<Rightarrow>
                   let body = sum_list (map unat lacing); page_len = 27 + nseg + body
                   in if limit < off + page_len then (b2, None)
                      else case (if 0 < body then fetch_at probe base read_at b2 (base + off + 27 + nseg) body else (b2, Some [])) of
                        (b3, None) \<Rightarrow> (b3, None)
                      | (b3, Some payload) \<Rightarrow>
                          if ogg_crc32 (splice 22 [0, 0, 0, 0] (hdr @ lacing @ payload)) \<noteq> word_of_nat (le_nat (slice 22 4 hdr)) then (b3, None)
                          else (b3, Some (page_len, hdr ! 5 AND 0x04 \<noteq> 0)))"

lemma ogg_page_length: "ogg_page probe base read_at limit budget off = (b, Some (n, e)) \<Longrightarrow> 27 \<le> n \<and> off + n \<le> limit"
  by (auto simp: ogg_page_def Let_def split: prod.splits option.splits if_splits)

function ogg_loop :: "buf \<Rightarrow> nat \<Rightarrow> box_reader \<Rightarrow> nat \<Rightarrow> nat \<Rightarrow> nat \<Rightarrow> nat" where
  "ogg_loop probe base read_at limit budget off =
     (if limit < off + 27 then off
      else case ogg_page probe base read_at limit budget off of
        (b, None) \<Rightarrow> off
      | (b, Some (n, eos)) \<Rightarrow> if eos then off + n else ogg_loop probe base read_at limit b (off + n))"
  by pat_completeness auto
termination
  by (relation "measure (\<lambda>(probe, base, read_at, limit, budget, off). limit - off)")
    (auto dest!: ogg_page_length [OF sym])

declare ogg_loop.simps [simp del]

definition parse_ogg_bounded :: "buf \<Rightarrow> nat \<Rightarrow> nat \<Rightarrow> box_reader \<Rightarrow> parse_result" where
  "parse_ogg_bounded probe base limit read_at =
     (if length probe < 27 then no_bound
      else let e = ogg_loop probe base read_at limit fetch_budget 0
           in if e < 28 then no_bound else bounded_by e 80)"

section \<open>MP3\<close>

record mp3_frame =
  mf_len :: nat
  mf_version :: nat
  mf_layer :: nat
  mf_samp :: nat

definition mp3_sampling :: "nat list list" where
  "mp3_sampling = [[11025, 12000, 8000, 0], [0, 0, 0, 0], [22050, 24000, 16000, 0], [44100, 48000, 32000, 0]]"

definition mp3_bitrate1 :: "nat list list" where
  "mp3_bitrate1 = [replicate 16 0,
     [0, 32, 40, 48, 56, 64, 80, 96, 112, 128, 160, 192, 224, 256, 320, 0],
     [0, 32, 48, 56, 64, 80, 96, 112, 128, 160, 192, 224, 256, 320, 384, 0],
     [0, 32, 64, 96, 128, 160, 192, 224, 256, 288, 320, 352, 384, 416, 448, 0]]"

definition mp3_bitrate2 :: "nat list list" where
  "mp3_bitrate2 = [replicate 16 0,
     [0, 8, 16, 24, 32, 40, 48, 56, 64, 80, 96, 112, 128, 144, 160, 0],
     [0, 8, 16, 24, 32, 40, 48, 56, 64, 80, 96, 112, 128, 144, 160, 0],
     [0, 32, 48, 56, 64, 80, 96, 112, 128, 144, 160, 176, 192, 224, 256, 0]]"

definition mp3_header :: "buf \<Rightarrow> mp3_frame option" where
  "mp3_header h =
     (if h ! 0 \<noteq> 0xFF \<or> h ! 1 AND 0xE0 \<noteq> 0xE0 then None
      else let version = unat (drop_bit 3 (h ! 1) AND 3); layer = unat (drop_bit 1 (h ! 1) AND 3);
               bitrate_idx = unat (drop_bit 4 (h ! 2)); samp = unat (drop_bit 2 (h ! 2) AND 3); padding = unat (drop_bit 1 (h ! 2) AND 1)
           in if version = 1 \<or> layer = 0 \<or> bitrate_idx = 0 \<or> bitrate_idx = 15 \<or> samp = 3 then None
              else let bitrate = (if version = 3 then mp3_bitrate1 else mp3_bitrate2) ! layer ! bitrate_idx;
                       sampling = mp3_sampling ! version ! samp
                   in if bitrate = 0 \<or> sampling = 0 then None
                      else let len = (if layer = 3 then (12 * bitrate * 1000 div sampling + padding) * 4
                                      else (if layer = 2 \<or> version = 3 then 144 else 72) * bitrate * 1000 div sampling + padding)
                           in if len < 24 \<or> 2048 < len then None
                              else Some \<lparr>mf_len = len, mf_version = version, mf_layer = layer, mf_samp = samp\<rparr>)"

lemma mp3_header_length: "mp3_header h = Some f \<Longrightarrow> 24 \<le> mf_len f \<and> mf_len f \<le> 2048"
  by (auto simp: mp3_header_def Let_def split: if_splits)

definition same_stream :: "mp3_frame \<Rightarrow> mp3_frame \<Rightarrow> bool" where
  "same_stream f g \<longleftrightarrow> mf_version f = mf_version g \<and> mf_layer f = mf_layer g \<and> mf_samp f = mf_samp g"

definition mp3_bytes :: "buf \<Rightarrow> nat \<Rightarrow> box_reader \<Rightarrow> nat \<Rightarrow> nat \<Rightarrow> nat \<times> buf option" where
  "mp3_bytes probe base read_at budget pos =
     (if pos + 4 \<le> length probe then (budget, Some (slice pos 4 probe))
      else fetch_at probe base read_at budget (base + pos) 4)"

text \<open>The offset of the first frame, behind an ID3v2 tag.\<close>

definition id3_size :: "buf \<Rightarrow> nat" where
  "id3_size hdr =
     10 + (unat (hdr ! 6 AND 0x7F) * 2 ^ 21 + unat (hdr ! 7 AND 0x7F) * 2 ^ 14 + unat (hdr ! 8 AND 0x7F) * 2 ^ 7 + unat (hdr ! 9 AND 0x7F))
     + (if hdr ! 5 AND 0x10 \<noteq> 0 then 10 else 0)"

definition mp3_start :: "buf \<Rightarrow> nat \<Rightarrow> nat \<Rightarrow> box_reader \<Rightarrow> (nat \<times> nat) option" where
  "mp3_start probe base limit read_at =
     (if take 3 probe \<noteq> bytes_of ''ID3'' then Some (fetch_budget, 0)
      else let off = id3_size probe
           in if limit < off + 4 then None
              else case mp3_bytes probe base read_at fetch_budget off of
                (b, None) \<Rightarrow> None
              | (b, Some t) \<Rightarrow> if t ! 0 \<noteq> 0xFF \<or> t ! 1 AND 0xE0 \<noteq> 0xE0 then None else Some (b, off))"

text \<open>Four frames of one stream in a row, before the walk is accepted.\<close>

primrec mp3_run :: "nat \<Rightarrow> buf \<Rightarrow> nat \<Rightarrow> box_reader \<Rightarrow> nat \<Rightarrow> nat \<Rightarrow> nat \<Rightarrow> mp3_frame option \<Rightarrow> (nat \<times> nat \<times> mp3_frame option) option" where
  "mp3_run 0 probe base read_at limit budget pos first = Some (budget, pos, first)"
| "mp3_run (Suc k) probe base read_at limit budget pos first =
     (if limit < pos + 4 then None
      else case mp3_bytes probe base read_at budget pos of
        (b, None) \<Rightarrow> None
      | (b, Some h) \<Rightarrow>
          (case mp3_header h of
             None \<Rightarrow> None
           | Some f \<Rightarrow>
               (case first of
                  None \<Rightarrow> mp3_run k probe base read_at limit b (pos + mf_len f) (Some f)
                | Some f0 \<Rightarrow> if \<not> same_stream f f0 then None else mp3_run k probe base read_at limit b (pos + mf_len f) first)))"

function mp3_walk :: "buf \<Rightarrow> nat \<Rightarrow> box_reader \<Rightarrow> nat \<Rightarrow> mp3_frame \<Rightarrow> nat \<Rightarrow> nat \<Rightarrow> nat \<Rightarrow> nat \<times> nat" where
  "mp3_walk probe base read_at limit first budget pos frames =
     (if limit < pos + 4 then (pos, frames)
      else case mp3_bytes probe base read_at budget pos of
        (b, None) \<Rightarrow> (pos, frames)
      | (b, Some h) \<Rightarrow>
          (case mp3_header h of
             None \<Rightarrow> (pos, frames)
           | Some f \<Rightarrow>
               if \<not> same_stream f first \<or> limit - pos < mf_len f then (pos, frames)
               else mp3_walk probe base read_at limit first b (pos + mf_len f) (frames + 1)))"
  by pat_completeness auto
termination
  by (relation "measure (\<lambda>(probe, base, read_at, limit, first, budget, pos, frames). limit - pos)")
    (auto dest!: mp3_header_length)

declare mp3_walk.simps [simp del]

definition parse_mp3_bounded :: "buf \<Rightarrow> nat \<Rightarrow> nat \<Rightarrow> box_reader \<Rightarrow> parse_result" where
  "parse_mp3_bounded probe base limit read_at =
     (if length probe < 16 then no_bound
      else case mp3_start probe base limit read_at of
        None \<Rightarrow> no_bound
      | Some (b1, off) \<Rightarrow>
          (case mp3_run 4 probe base read_at limit b1 off None of
             Some (b2, pos, Some first) \<Rightarrow>
               let (e, frames) = mp3_walk probe base read_at limit first b2 pos 4
               in if frames < 20 \<or> e < 4 then no_bound else bounded_by e 85
           | _ \<Rightarrow> no_bound))"

section \<open>X3F\<close>

definition x3f_load :: "buf \<Rightarrow> nat \<Rightarrow> nat \<Rightarrow> box_reader \<Rightarrow> nat \<Rightarrow> nat \<Rightarrow> nat \<Rightarrow> nat \<times> buf option" where
  "x3f_load probe base limit read_at budget rel n =
     (if limit < rel + n then (budget, None) else fetch_at probe base read_at budget (base + rel) n)"

text \<open>The directory at this offset: its entries and the pointer behind them, which must point back to it.\<close>

definition x3f_dir :: "buf \<Rightarrow> nat \<Rightarrow> nat \<Rightarrow> box_reader \<Rightarrow> nat \<Rightarrow> nat \<Rightarrow> nat \<times> parse_result option" where
  "x3f_dir probe base limit read_at budget dir_off =
     (if dir_off < 32 \<or> limit < dir_off + 12 then (budget, None)
      else case x3f_load probe base limit read_at budget dir_off 12 of
        (b1, None) \<Rightarrow> (b1, None)
      | (b1, Some sh) \<Rightarrow>
          let count = le_nat (slice 8 4 sh); ents_off = dir_off + 12; ents_bytes = count * 12; bound = ents_off + ents_bytes + 4
          in if take 4 sh \<noteq> bytes_of ''SECd'' \<or> count = 0 \<or> 256 < count \<or> limit < bound then (b1, None)
             else case x3f_load probe base limit read_at b1 ents_off ents_bytes of
               (b2, None) \<Rightarrow> (b2, None)
             | (b2, Some ents) \<Rightarrow>
                 if \<exists>i \<in> set [0..<count]. let e_off = le_nat (slice (i * 12) 4 ents); sz = le_nat (slice (i * 12 + 4) 4 ents)
                      in bound < sz \<or> bound < e_off + sz
                 then (b2, None)
                 else case x3f_load probe base limit read_at b2 (bound - 4) 4 of
                   (b3, None) \<Rightarrow> (b3, None)
                 | (b3, Some tail) \<Rightarrow>
                     if le_nat tail \<noteq> dir_off then (b3, None)
                     else (b3, Some (no_bound\<lparr>pr_valid := True, pr_size := bound, pr_ext := ''x3f'', pr_conf := 70\<rparr>)))"

definition x3f_ptr :: "buf \<Rightarrow> nat \<Rightarrow> nat \<Rightarrow> box_reader \<Rightarrow> nat \<Rightarrow> nat \<Rightarrow> nat \<times> parse_result option" where
  "x3f_ptr probe base limit read_at budget rel =
     (if limit < rel + 4 then (budget, None)
      else case x3f_load probe base limit read_at budget rel 4 of
        (b, None) \<Rightarrow> (b, None)
      | (b, Some p) \<Rightarrow> x3f_dir probe base limit read_at b (le_nat p))"

primrec x3f_scan :: "buf \<Rightarrow> nat \<Rightarrow> nat \<Rightarrow> box_reader \<Rightarrow> nat \<Rightarrow> nat list \<Rightarrow> parse_result" where
  "x3f_scan probe base limit read_at budget [] = no_bound"
| "x3f_scan probe base limit read_at budget (i # offs) =
     (if slice i 4 probe \<noteq> bytes_of ''SECd'' then x3f_scan probe base limit read_at budget offs
      else case x3f_dir probe base limit read_at budget (w32 i) of
        (b, Some r) \<Rightarrow> r
      | (b, None) \<Rightarrow> x3f_scan probe base limit read_at b offs)"

definition parse_x3f_bounded :: "buf \<Rightarrow> nat \<Rightarrow> nat \<Rightarrow> box_reader \<Rightarrow> parse_result" where
  "parse_x3f_bounded probe base limit read_at =
     (if length probe < 4 \<or> limit < 8 \<or> take 4 probe \<noteq> bytes_of ''FOVb'' then no_bound
      else case x3f_ptr probe base limit read_at fetch_budget (limit - 4) of
        (b1, Some r) \<Rightarrow> r
      | (b1, None) \<Rightarrow>
          (case (if length probe \<noteq> limit then x3f_ptr probe base limit read_at b1 (length probe - 4) else (b1, None)) of
             (b2, Some r) \<Rightarrow> r
           | (b2, None) \<Rightarrow> x3f_scan probe base limit read_at b2 [32..<length probe - 11]))"

section \<open>TIFF\<close>

text \<open>
  Here the checks of the code do not cover every read, so each read is checked by the model.
  \<open>None\<close>: an access outside the buffer; \<open>Some None\<close>: the parser gives up.
\<close>

definition give_up :: "'a option option" where
  "give_up = Some None"

definition carry_on :: "'a \<Rightarrow> 'a option option" where
  "carry_on x = Some (Some x)"

definition then_with :: "'a option option \<Rightarrow> ('a \<Rightarrow> 'b option option) \<Rightarrow> 'b option option" where
  "then_with m f = (case m of None \<Rightarrow> None | Some None \<Rightarrow> Some None | Some (Some x) \<Rightarrow> f x)"

definition tiff_rd :: "bool \<Rightarrow> nat \<Rightarrow> buf \<Rightarrow> nat \<Rightarrow> nat option" where
  "tiff_rd le n data off = map_option (rd_end le) (rd_slice data off n)"

record tiff_walk =
  tw_end :: nat
  tw_strips :: bool
  tw_dng :: bool
  tw_make :: string

definition tiff_endian :: "buf \<Rightarrow> bool option" where
  "tiff_endian data =
     (if data ! 0 = 0x49 \<and> data ! 1 = 0x49 \<and> (data ! 2 = 0x2A \<and> data ! 3 = 0 \<or> data ! 2 = 0x52 \<and> (data ! 3 = 0x4F \<or> data ! 3 = 0x53)
           \<or> data ! 2 = 0x55 \<and> data ! 3 = 0) then Some True
      else if take 4 data = [0x4D, 0x4D, 0x00, 0x2A] then Some False else None)"

text \<open>The values of an entry lie in the entry itself when they fit into four bytes.\<close>

definition tiff_place :: "bool \<Rightarrow> buf \<Rightarrow> nat \<Rightarrow> nat \<Rightarrow> nat option" where
  "tiff_place le data ent n = (if n \<le> 4 then Some (ent + 8) else tiff_rd le 4 data (ent + 8))"

definition tiff_values :: "bool \<Rightarrow> buf \<Rightarrow> nat \<Rightarrow> nat \<Rightarrow> nat \<Rightarrow> nat list option" where
  "tiff_values le data val vsz n = those (map (\<lambda>k. tiff_rd le vsz data (val + vsz * k)) [0..<n])"

definition value_size :: "nat \<Rightarrow> nat" where
  "value_size ty = (if ty = 3 then 2 else 4)"

text \<open>The byte counts of the directory: those of the last suitable entry.\<close>

primrec tiff_counts :: "bool \<Rightarrow> buf \<Rightarrow> nat \<Rightarrow> nat list \<Rightarrow> nat list \<Rightarrow> nat list option" where
  "tiff_counts le data ifd [] counts = Some counts"
| "tiff_counts le data ifd (j # js) counts =
     Option.bind (tiff_rd le 2 data (ifd + 2 + 12 * j)) (\<lambda>t2.
       if t2 \<noteq> 279 \<and> t2 \<noteq> 325 then tiff_counts le data ifd js counts
       else Option.bind (tiff_rd le 2 data (ifd + 2 + 12 * j + 2)) (\<lambda>ty2.
         if ty2 \<noteq> 3 \<and> ty2 \<noteq> 4 then tiff_counts le data ifd js counts
         else Option.bind (tiff_rd le 4 data (ifd + 2 + 12 * j + 4)) (\<lambda>c2.
           if 4096 < c2 then tiff_counts le data ifd js counts
           else Option.bind (tiff_place le data (ifd + 2 + 12 * j) (value_size ty2 * c2)) (\<lambda>v2.
             if length data < v2 + value_size ty2 * c2 then tiff_counts le data ifd js counts
             else Option.bind (tiff_values le data v2 (value_size ty2) c2) (\<lambda>vs. tiff_counts le data ifd js vs)))))"

text \<open>The ends of the strips; an offset beyond the buffer ends the parser.\<close>

definition strip_ends :: "nat list \<Rightarrow> nat list \<Rightarrow> nat list" where
  "strip_ends offs counts = map (\<lambda>k. offs ! k + (if k < length counts then counts ! k else 0)) [0..<length offs]"

definition tiff_strips :: "bool \<Rightarrow> buf \<Rightarrow> nat \<Rightarrow> nat \<Rightarrow> nat \<Rightarrow> nat \<Rightarrow> nat \<Rightarrow> nat \<Rightarrow> nat option option" where
  "tiff_strips le data ifd count val vsz cnt e =
     Option.bind (tiff_counts le data ifd [0..<count] []) (\<lambda>counts.
       Option.bind (tiff_values le data val vsz (min cnt 4096)) (\<lambda>offs.
         if \<exists>off \<in> set offs. length data < off then give_up
         else carry_on (fold max (strip_ends offs counts) e)))"

definition tiff_make :: "bool \<Rightarrow> buf \<Rightarrow> nat \<Rightarrow> nat \<Rightarrow> string \<Rightarrow> string option" where
  "tiff_make le data ent cnt old =
     Option.bind (tiff_place le data ent cnt) (\<lambda>val.
       if length data < val + cnt then Some old
       else Some (map (char_of \<circ> unat) (takeWhile (\<lambda>b. b \<noteq> 0) (slice val cnt data))))"

definition tiff_entry :: "bool \<Rightarrow> buf \<Rightarrow> nat \<Rightarrow> nat \<Rightarrow> nat \<Rightarrow> tiff_walk \<Rightarrow> tiff_walk option option" where
  "tiff_entry le data ifd count i w =
     (let ent = ifd + 2 + 12 * i
      in Option.bind (tiff_rd le 2 data ent) (\<lambda>tag.
         Option.bind (tiff_rd le 2 data (ent + 2)) (\<lambda>ty.
         Option.bind (tiff_rd le 4 data (ent + 4)) (\<lambda>cnt.
         Option.bind (if tag = 271 \<and> ty = 2 \<and> 0 < cnt \<and> cnt < 256 then tiff_make le data ent cnt (tw_make w) else Some (tw_make w)) (\<lambda>make.
           let w1 = w\<lparr>tw_make := make, tw_dng := tw_dng w \<or> tag = 0xC612 \<and> ty = 1 \<and> 4 \<le> cnt\<rparr>
           in if ty \<noteq> 3 \<and> ty \<noteq> 4 then carry_on w1
              else if length data < value_size ty * cnt then give_up
              else Option.bind (tiff_place le data ent (value_size ty * cnt)) (\<lambda>val.
                if length data < val + value_size ty * cnt then give_up
                else if (tag = 273 \<or> tag = 324) \<and> 0 < cnt
                then then_with (tiff_strips le data ifd count val (value_size ty) cnt (tw_end w1))
                       (\<lambda>e. carry_on (w1\<lparr>tw_strips := True, tw_end := e\<rparr>))
                else carry_on w1))))))"

primrec tiff_entries :: "bool \<Rightarrow> buf \<Rightarrow> nat \<Rightarrow> nat \<Rightarrow> nat list \<Rightarrow> tiff_walk \<Rightarrow> tiff_walk option option" where
  "tiff_entries le data ifd count [] w = carry_on w"
| "tiff_entries le data ifd count (i # idx) w = then_with (tiff_entry le data ifd count i w) (tiff_entries le data ifd count idx)"

text \<open>At most eight directories; the test \<open>ifd + 2 <= size\<close> is made modulo \<open>2 ^ 32\<close>.\<close>

primrec tiff_chain :: "nat \<Rightarrow> bool \<Rightarrow> buf \<Rightarrow> nat \<Rightarrow> tiff_walk \<Rightarrow> tiff_walk option option" where
  "tiff_chain 0 le data ifd w = (if ifd \<noteq> 0 then give_up else carry_on w)"
| "tiff_chain (Suc k) le data ifd w =
     (if ifd = 0 \<or> length data < w32 (ifd + 2) then carry_on w
      else Option.bind (tiff_rd le 2 data ifd) (\<lambda>count.
        if count = 0 \<or> 4096 < count \<or> length data < w32 (ifd + 2) + 12 * count + 4 then give_up
        else then_with (tiff_entries le data ifd count [0..<count] (w\<lparr>tw_end := max (tw_end w) (ifd + 2 + 12 * count + 4)\<rparr>)) (\<lambda>w'.
          Option.bind (tiff_rd le 4 data (ifd + 2 + 12 * count)) (\<lambda>ifd'. tiff_chain k le data ifd' w'))))"

definition ascii_upper :: "char \<Rightarrow> nat" where
  "ascii_upper c = (let k = of_char c in if 97 \<le> k \<and> k \<le> 122 then k - 32 else k)"

definition starts_ignoring_case :: "string \<Rightarrow> string \<Rightarrow> bool" where
  "starts_ignoring_case pre s \<longleftrightarrow> map ascii_upper (take (length pre) s) = map ascii_upper pre"

definition tiff_result :: "tiff_walk \<Rightarrow> parse_result" where
  "tiff_result w =
     (if \<not> tw_strips w \<or> tw_end w < 8 \<or> 100 * 2 ^ 30 < tw_end w then no_bound
      else (bounded_by (tw_end w) 85)\<lparr>pr_ext :=
        (if tw_dng w \<or> starts_ignoring_case ''Adobe'' (tw_make w) then ''dng''
         else if starts_ignoring_case ''Nikon'' (tw_make w) then ''nef''
         else if starts_ignoring_case ''Sony'' (tw_make w) then ''arw'' else [])\<rparr>)"

definition parse_tiff :: "buf \<Rightarrow> parse_result option" where
  "parse_tiff data =
     (if length data < 8 then Some no_bound
      else case tiff_endian data of
        None \<Rightarrow> Some no_bound
      | Some le \<Rightarrow>
          Option.bind (tiff_rd le 4 data 4) (\<lambda>ifd.
            map_option (\<lambda>res. case res of None \<Rightarrow> no_bound | Some w \<Rightarrow> tiff_result w)
              (tiff_chain 8 le data ifd \<lparr>tw_end = 0, tw_strips = False, tw_dng = False, tw_make = []\<rparr>)))"

section \<open>Sizes stay within their limit\<close>

lemma box_loop_bounds:
  "off \<le> limit \<Longrightarrow> bx_end b \<le> limit \<Longrightarrow>
    bx_end (fst (box_loop probe base read_at limit budget off b)) \<le> limit \<and> snd (box_loop probe base read_at limit budget off b) \<le> limit"
proof (induction "limit - off" arbitrary: budget off b rule: less_induct)
  case less
  have keep: "bx_end (note_box ty m b) = bx_end b" for ty m by (simp add: note_box_def)
  obtain b2 h where head: "box_header probe base read_at budget off = (b2, h)" by force
  show ?case
  proof (cases h)
    case None
    then show ?thesis using less(2,3) head by (subst (1 2) box_loop.simps) simp
  next
    case (Some x)
    obtain n hs m ty where x: "x = (n, hs, m, ty)" by (cases x)
    show ?thesis
    proof (cases "limit < w64 (off + 8) \<or> n = 0 \<or> n < hs \<or> limit - off < n")
      case True
      then show ?thesis using less(2,3) head Some x by (subst (1 2) box_loop.simps) (auto simp: Let_def keep)
    next
      case False
      then have "box_loop probe base read_at limit budget off b = box_loop probe base read_at limit b2 (off + n) ((note_box ty m b)\<lparr>bx_end := off + n\<rparr>)"
        using head Some x by (subst box_loop.simps) (simp add: Let_def)
      moreover have "limit - (off + n) < limit - off" "off + n \<le> limit" using False less(2) by arith+
      ultimately show ?thesis using less(1) [of "off + n" "(note_box ty m b)\<lparr>bx_end := off + n\<rparr>" b2] by simp
    qed
  qed
qed

lemma ogg_loop_bounds: "off \<le> limit \<Longrightarrow> ogg_loop probe base read_at limit budget off \<le> limit"
proof (induction "limit - off" arbitrary: budget off rule: less_induct)
  case less
  obtain b p where page: "ogg_page probe base read_at limit budget off = (b, p)" by force
  show ?case
  proof (cases "limit < off + 27 \<or> p = None")
    case True
    then show ?thesis using less(2) page by (subst ogg_loop.simps) auto
  next
    case False
    then obtain n eos where p: "p = Some (n, eos)" by auto
    then have n: "27 \<le> n" "off + n \<le> limit" using ogg_page_length page by auto
    have "ogg_loop probe base read_at limit budget off = (if eos then off + n else ogg_loop probe base read_at limit b (off + n))"
      using False page p by (subst ogg_loop.simps) simp
    then show ?thesis using less(1) [of "off + n" b] n by simp
  qed
qed

lemma mp3_walk_bounds:
  "mp3_walk probe base read_at limit first budget pos frames = (pos, frames)
   \<or> fst (mp3_walk probe base read_at limit first budget pos frames) \<le> limit"
proof (induction "limit - pos" arbitrary: budget pos frames rule: less_induct)
  case less
  obtain b h where bytes: "mp3_bytes probe base read_at budget pos = (b, h)" by force
  show ?case
  proof (cases "limit < pos + 4 \<or> h = None \<or> mp3_header (the h) = None")
    case True
    then show ?thesis using bytes by (cases h; subst mp3_walk.simps) auto
  next
    case False
    then obtain x f where f: "h = Some x" "mp3_header x = Some f" by auto
    show ?thesis
    proof (cases "\<not> same_stream f first \<or> limit - pos < mf_len f")
      case True
      then show ?thesis using False bytes f by (subst mp3_walk.simps) auto
    next
      case go: False
      have "mp3_walk probe base read_at limit first budget pos frames = mp3_walk probe base read_at limit first b (pos + mf_len f) (frames + 1)"
        using False go bytes f by (subst mp3_walk.simps) auto
      moreover have "pos + mf_len f \<le> limit" "limit - (pos + mf_len f) < limit - pos" using False go mp3_header_length [OF f(2)] by auto
      ultimately show ?thesis using less [of "pos + mf_len f" b "frames + 1"] by auto
    qed
  qed
qed

lemma ts_loop_bounds:
  assumes "188 \<le> stride"
  shows "packets * stride + off + 188 \<le> length data + stride \<Longrightarrow> packets * stride + off \<le> pos \<Longrightarrow>
    ts_loop data stride pos packets bad * stride + off + 188 \<le> length data + stride"
proof (induction "length data - pos" arbitrary: pos packets bad rule: less_induct)
  case less
  show ?case
  proof (cases "length data < pos + 188 \<or> data ! pos \<noteq> 0x47 \<and> 3 \<le> bad + 1")
    case True
    then show ?thesis using less(2) by (subst ts_loop.simps) auto
  next
    case False
    then have "ts_loop data stride pos packets bad
        = (if data ! pos = 0x47 then ts_loop data stride (pos + stride) (packets + 1) 0 else ts_loop data stride (pos + stride) packets (bad + 1))"
      using assms by (subst ts_loop.simps) auto
    moreover have "(packets + 1) * stride + off + 188 \<le> length data + stride" "(packets + 1) * stride + off \<le> pos + stride"
      "packets * stride + off \<le> pos + stride" "length data - (pos + stride) < length data - pos"
      using False less(3) assms by auto
    ultimately show ?thesis using less(1) [of "pos + stride" "packets + 1" 0] less(1) [of "pos + stride" packets "bad + 1"] less(2) by auto
  qed
qed

lemma x3f_dir_bounds: "x3f_dir probe base limit read_at budget d = (b, Some r) \<Longrightarrow> pr_size r \<le> limit"
  by (auto simp: x3f_dir_def Let_def split: prod.splits option.splits if_splits)

lemma x3f_ptr_bounds: "x3f_ptr probe base limit read_at budget rel = (b, Some r) \<Longrightarrow> pr_size r \<le> limit"
  by (auto simp: x3f_ptr_def dest: x3f_dir_bounds split: prod.splits option.splits if_splits)

lemma x3f_scan_bounds: "pr_size (x3f_scan probe base limit read_at budget offs) \<le> limit"
  by (induction offs arbitrary: budget) (auto simp: no_bound_def dest: x3f_dir_bounds split: prod.splits option.splits)

text \<open>C32. No parser with targeted reads claims more than the limit of its signature, and the packets of
  a transport stream lie in the buffer, whatever the disk holds and however reads fail.\<close>

theorem bounded_parsers_respect_limit:
  "pr_size (parse_isobmff_bounded probe base limit read_at) \<le> limit
   \<and> pr_size (parse_mkv_bounded probe base limit read_at) \<le> limit
   \<and> pr_size (parse_ogg_bounded probe base limit read_at) \<le> limit
   \<and> pr_size (parse_mp3_bounded probe base limit read_at) \<le> limit
   \<and> pr_size (parse_x3f_bounded probe base limit read_at) \<le> limit
   \<and> pr_size (parse_mpeg_ts probe) \<le> length probe"
proof (intro conjI)
  obtain b off where loop: "box_loop probe base read_at limit 8192 0 new_boxes = (b, off)" by force
  then have "bx_end b \<le> limit" "off \<le> limit" using box_loop_bounds [of 0 limit new_boxes probe base read_at 8192] by (simp_all add: new_boxes_def)
  then show "pr_size (parse_isobmff_bounded probe base limit read_at) \<le> limit"
    by (simp add: parse_isobmff_bounded_def loop no_bound_def)
  show "pr_size (parse_mkv_bounded probe base limit read_at) \<le> limit"
    by (auto simp: parse_mkv_bounded_def no_bound_def bounded_by_def Let_def split: prod.splits option.splits)
  show "pr_size (parse_ogg_bounded probe base limit read_at) \<le> limit"
    using ogg_loop_bounds [of 0 limit probe base read_at fetch_budget] by (simp add: parse_ogg_bounded_def no_bound_def bounded_by_def Let_def)
  show "pr_size (parse_mp3_bounded probe base limit read_at) \<le> limit"
  proof -
    have "e \<le> limit" if "mp3_walk probe base read_at limit first b pos 4 = (e, k)" "\<not> k < 20" for first b pos e k
      using mp3_walk_bounds [of probe base read_at limit first b pos 4] that by auto
    then show ?thesis
      by (auto simp: parse_mp3_bounded_def no_bound_def bounded_by_def Let_def split: prod.splits option.splits)
  qed
  show "pr_size (parse_x3f_bounded probe base limit read_at) \<le> limit"
    using x3f_scan_bounds
    by (auto simp: parse_x3f_bounded_def no_bound_def dest: x3f_ptr_bounds split: prod.splits option.splits if_splits)
  have ts: "pr_size r \<le> length probe" if "ts_stride probe stride = Some r" "stride = 188 \<or> stride = 192" for stride r
  proof -
    define packets where "packets = ts_loop probe stride (if stride = 192 then 4 else 0) 0 0"
    have "4 \<le> packets" "pr_size r = packets * stride"
      using that(1) by (auto simp: ts_stride_def packets_def bounded_by_def Let_def split: if_splits)
    moreover have "packets * stride + (if stride = 192 then 4 else 0) + 188 \<le> length probe + stride"
      unfolding packets_def using that(2) by (intro ts_loop_bounds) auto
    ultimately show ?thesis using that(2) by auto
  qed
  show "pr_size (parse_mpeg_ts probe) \<le> length probe"
    using ts [of 188] ts [of 192] by (auto simp: parse_mpeg_ts_def no_bound_def split: option.splits)
qed

end
