(* ===== verification/Size_Walks.thy ===== *)
theory Size_Walks
  imports Size_Parsers
begin

text \<open>
  What the walks of \<open>Size_Parsers\<close> find: the box walk sees the file through probe and fetches as if it
  were in memory; the walk in memory returns unless a box claims a size near \<open>2 ^ 64\<close>; the directory
  walk of TIFF stays in the buffer unless a directory offset wraps.
\<close>

section \<open>The box walk against the whole file\<close>

text \<open>A reader that gives the file \<open>c\<close>, which begins at \<open>base\<close>.\<close>

definition serves :: "box_reader \<Rightarrow> nat \<Rightarrow> buf \<Rightarrow> bool" where
  "serves read_at base c \<longleftrightarrow> read_at \<noteq> None
     \<and> (\<forall>rel n. the read_at (base + rel) n = (if rel + n \<le> length c then Some (slice rel n c) else None))"

text \<open>The header of the box at this offset of a file: total size, header size, type.\<close>

definition box_of :: "buf \<Rightarrow> nat \<Rightarrow> (nat \<times> nat \<times> buf) option" where
  "box_of c off =
     (if length c < off + 8 then None
      else let small = be_nat 0 (slice off 4 c); ty = slice (off + 4) 4 c
           in if small \<noteq> 1 then Some (small, 8, ty)
              else if length c < off + 16 then None else Some (be_nat 0 (slice (off + 8) 8 c), 16, ty))"

text \<open>The sizes and types of the boxes that lie whole before the limit.\<close>

function whole_boxes :: "buf \<Rightarrow> nat \<Rightarrow> nat \<Rightarrow> (nat \<times> buf) list" where
  "whole_boxes c limit off =
     (if limit < off + 8 then []
      else case box_of c off of
        None \<Rightarrow> []
      | Some (n, hs, ty) \<Rightarrow> if n = 0 \<or> n < hs \<or> limit < off + n then [] else (n, ty) # whole_boxes c limit (off + n))"
  by pat_completeness auto
termination by (relation "measure (\<lambda>(c, limit, off). limit - off)") auto

declare whole_boxes.simps [simp del]

text \<open>
  What ends the walk at \<open>stop\<close>: the type that still counts and the end of the file.  A media box that
  is cut, or whose size is 0, reaches to the limit.
\<close>

definition last_box :: "buf \<Rightarrow> nat \<Rightarrow> nat \<Rightarrow> buf list \<times> nat" where
  "last_box c limit stop =
     (case (if limit < stop + 8 then None else box_of c stop) of
        None \<Rightarrow> ([], stop)
      | Some (n, hs, ty) \<Rightarrow>
          if n = 0 then ([], if ty = bytes_of ''mdat'' \<or> ty = bytes_of ''moov'' then limit else stop)
          else if n < hs then ([], stop)
          else ([ty], if ty = bytes_of ''mdat'' then limit else stop))"

definition isobmff_spec :: "buf \<Rightarrow> nat \<Rightarrow> parse_result" where
  "isobmff_spec c limit =
     (let boxes = whole_boxes c limit 0; (tail, e) = last_box c limit (sum_list (map fst boxes)); types = map snd boxes @ tail
      in if bytes_of ''ftyp'' \<notin> set types then no_bound
         else no_bound\<lparr>pr_valid := True, pr_ext := ''mp4'', pr_size := e,
           pr_conf := (if bytes_of ''moov'' \<in> set types then 90 else if bytes_of ''mdat'' \<in> set types then 80 else 65)\<rparr>)"

lemma box_header_served:
  assumes "serves read_at base c" "off + 16 < 2 ^ 64" "2 \<le> budget"
  shows "\<exists>b. budget - 2 \<le> b \<and> box_header (take p c) base read_at budget off
    = (b, map_option (\<lambda>(n, hs, ty). (n, hs, ty = bytes_of ''mdat'', ty)) (box_of c off))"
proof -
  obtain f where f: "read_at = Some f" "\<And>rel n. f (base + rel) n = (if rel + n \<le> length c then Some (slice rel n c) else None)"
    using assms(1) by (auto simp: serves_def)
  have w: "w64 (off + 16) = off + 16" "w64 (off + 8) = off + 8" using assms(2) by (simp_all add: w64_id)
  have sl: "slice a k (take p c) = slice a k c" if "a + k \<le> length (take p c)" for a k
    using that by (auto simp: slice_def drop_take min_def split: if_splits)
  have inner: "slice x y (slice off k c) = slice (off + x) y c" if "x + y \<le> k" for x y k
    using that by (simp add: slice_slice)
  have take4: "take 4 (slice off k c) = slice off 4 c" if "4 \<le> k" for k using that by (simp add: slice_def min_def)
  show ?thesis
  proof (cases "off + 16 \<le> length (take p c)")
    case True
    then have "box_in_probe (take p c) off = 16" by (simp add: box_in_probe_def w)
    then show ?thesis using True sl [of off 16]
      by (auto simp: box_header_def box_head_def box_wide_def box_of_def Let_def inner take4)
  next
    case False
    show ?thesis
    proof (cases "off + 8 \<le> length (take p c)")
      case True
      then have "box_in_probe (take p c) off = 8" using False by (simp add: box_in_probe_def w)
      then show ?thesis using True False sl [of off 8] assms(3) f
        by (auto simp: box_header_def box_head_def box_wide_def box_of_def Let_def inner take4)
    next
      case small: False
      then have "box_in_probe (take p c) off = 0" using False by (simp add: box_in_probe_def w)
      then show ?thesis using assms(3) f
        by (auto simp: box_header_def box_head_def box_wide_def box_of_def Let_def inner take4)
    qed
  qed
qed

definition note_types :: "buf list \<Rightarrow> box_state \<Rightarrow> box_state" where
  "note_types types b = fold (\<lambda>ty. note_box ty (ty = bytes_of ''mdat'')) types b"

lemma box_types_distinct:
  "bytes_of ''ftyp'' \<noteq> bytes_of ''moov''" "bytes_of ''ftyp'' \<noteq> bytes_of ''mdat''" "bytes_of ''moov'' \<noteq> bytes_of ''mdat''"
  by (simp_all add: bytes_of_def)

lemma note_types_flags:
  "bx_ftyp (note_types types b) \<longleftrightarrow> bx_ftyp b \<or> bytes_of ''ftyp'' \<in> set types"
  "bx_moov (note_types types b) \<longleftrightarrow> bx_moov b \<or> bytes_of ''moov'' \<in> set types"
  "bx_mdat (note_types types b) \<longleftrightarrow> bx_mdat b \<or> bytes_of ''mdat'' \<in> set types"
  by (induction types arbitrary: b) (auto simp: note_types_def note_box_def box_types_distinct box_types_distinct [symmetric])

lemma note_box_end: "(note_box ty m b)\<lparr>bx_end := e\<rparr> = note_box ty m (b\<lparr>bx_end := e\<rparr>)"
  by (simp add: note_box_def)

lemma note_types_end: "note_types types (b\<lparr>bx_end := e\<rparr>) = (note_types types b)\<lparr>bx_end := e\<rparr>"
  by (induction types arbitrary: b) (simp_all add: note_types_def note_box_end [symmetric])

lemma box_loop_served:
  assumes s: "serves read_at base c" and big: "limit + 16 < 2 ^ 64"
  shows "off \<le> limit \<Longrightarrow> bx_end b = off \<Longrightarrow> 2 * length (whole_boxes c limit off) + 2 \<le> budget \<Longrightarrow>
    box_loop (take p c) base read_at limit budget off b =
      (let boxes = whole_boxes c limit off; (tail, e) = last_box c limit (off + sum_list (map fst boxes))
       in ((note_types (map snd boxes @ tail) b)\<lparr>bx_end := e\<rparr>, e))"
proof (induction "limit - off" arbitrary: off b budget rule: less_induct)
  case less
  have w: "w64 (off + 8) = off + 8" "off + 16 < 2 ^ 64" using less(2) big by (simp_all add: w64_id)
  have "2 \<le> budget" using less(4) by simp
  then obtain b2 where head: "budget - 2 \<le> b2" "box_header (take p c) base read_at budget off
      = (b2, map_option (\<lambda>(n, hs, ty). (n, hs, ty = bytes_of ''mdat'', ty)) (box_of c off))"
    using box_header_served [OF s w(2)] by blast
  show ?case
  proof (cases "limit < off + 8 \<or> box_of c off = None")
    case True
    then show ?thesis using head less(3)
      by (subst box_loop.simps, subst whole_boxes.simps) (auto simp: w last_box_def note_types_def)
  next
    case False
    then obtain n hs ty where box: "box_of c off = Some (n, hs, ty)" by auto
    show ?thesis
    proof (cases "n = 0 \<or> n < hs \<or> limit < off + n")
      case True
      then show ?thesis using False head less(2,3) box
        by (subst box_loop.simps, subst whole_boxes.simps)
          (auto simp: w last_box_def note_types_def Let_def note_box_def box_types_distinct)
    next
      case go: False
      let ?b = "(note_box ty (ty = bytes_of ''mdat'') b)\<lparr>bx_end := off + n\<rparr>"
      have boxes: "whole_boxes c limit off = (n, ty) # whole_boxes c limit (off + n)"
        using False go box by (subst whole_boxes.simps) auto
      have "box_loop (take p c) base read_at limit budget off b = box_loop (take p c) base read_at limit b2 (off + n) ?b"
        using False go head(2) box less(2) by (subst box_loop.simps) (auto simp: w Let_def)
      also have "\<dots> = (let boxes = whole_boxes c limit (off + n); (tail, e) = last_box c limit (off + n + sum_list (map fst boxes))
          in ((note_types (map snd boxes @ tail) ?b)\<lparr>bx_end := e\<rparr>, e))"
      proof (rule less(1))
        show "limit - (off + n) < limit - off" "off + n \<le> limit" using go False by auto
        show "2 * length (whole_boxes c limit (off + n)) + 2 \<le> b2" using less(4) head(1) by (simp add: boxes)
      qed simp
      finally show ?thesis
        by (simp add: boxes Let_def note_types_end add.assoc split: prod.split) (simp add: note_types_def)
    qed
  qed
qed

text \<open>C33. Whatever part of the file the probe holds, the box walk gives the result of the walk over the
  whole file, as long as the disk is readable and the file has at most 4095 boxes.\<close>

theorem box_walk_sees_whole_file:
  assumes "serves read_at base c" "limit + 16 < 2 ^ 64" "8 \<le> p" "8 \<le> length c" "length (whole_boxes c limit 0) \<le> 4095"
  shows "parse_isobmff_bounded (take p c) base limit read_at = isobmff_spec c limit"
proof -
  obtain tail e where last: "last_box c limit (sum_list (map fst (whole_boxes c limit 0))) = (tail, e)" by force
  let ?types = "map snd (whole_boxes c limit 0) @ tail"
  have loop: "box_loop (take p c) base read_at limit 8192 0 new_boxes = ((note_types ?types new_boxes)\<lparr>bx_end := e\<rparr>, e)"
    using box_loop_served [OF assms(1,2), of 0 new_boxes 8192 p] assms(5) last by (simp add: new_boxes_def Let_def)
  have flags: "bx_ftyp ((note_types ?types new_boxes)\<lparr>bx_end := e\<rparr>) = (bytes_of ''ftyp'' \<in> set ?types)"
    "bx_moov ((note_types ?types new_boxes)\<lparr>bx_end := e\<rparr>) = (bytes_of ''moov'' \<in> set ?types)"
    "bx_mdat ((note_types ?types new_boxes)\<lparr>bx_end := e\<rparr>) = (bytes_of ''mdat'' \<in> set ?types)"
    using note_types_flags [of ?types new_boxes] by (simp_all add: new_boxes_def)
  have "\<not> length (take p c) < 8" using assms(3,4) by simp
  then show ?thesis
    unfolding parse_isobmff_bounded_def isobmff_spec_def Let_def loop last prod.case flags by simp
qed

definition demo_mp4 :: buf where
  "demo_mp4 = [0, 0, 0, 12] @ bytes_of ''ftyp'' @ bytes_of ''isom'' @ [0, 0, 0, 9] @ bytes_of ''mdat'' @ [7] @ [0, 0, 0, 8] @ bytes_of ''moov'' @ [0, 0, 0, 0]"

theorem box_walk_sees_whole_file_witness:
  "parse_isobmff_bounded (take 8 demo_mp4) 512 1000
     (Some (\<lambda>addr n. if addr - 512 + n \<le> length demo_mp4 then Some (slice (addr - 512) n demo_mp4) else None))
   = no_bound\<lparr>pr_valid := True, pr_ext := ''mp4'', pr_size := 29, pr_conf := 90\<rparr>"
proof -
  have boxes: "whole_boxes demo_mp4 1000 0 = [(12, bytes_of ''ftyp''), (9, bytes_of ''mdat''), (8, bytes_of ''moov'')]"
    by (subst whole_boxes.simps, simp add: box_of_def demo_mp4_def slice_def bytes_of_def)+
  have "parse_isobmff_bounded (take 8 demo_mp4) 512 1000
     (Some (\<lambda>addr n. if addr - 512 + n \<le> length demo_mp4 then Some (slice (addr - 512) n demo_mp4) else None)) = isobmff_spec demo_mp4 1000"
    by (rule box_walk_sees_whole_file) (simp_all add: serves_def boxes, simp add: demo_mp4_def)
  also have "\<dots> = no_bound\<lparr>pr_valid := True, pr_ext := ''mp4'', pr_size := 29, pr_conf := 90\<rparr>"
  proof -
    have "last_box demo_mp4 1000 29 = ([], 29)" by (simp add: last_box_def box_of_def demo_mp4_def slice_def bytes_of_def)
    then show ?thesis by (simp add: isobmff_spec_def boxes)
  qed
  finally show ?thesis .
qed

section \<open>The walk in memory\<close>

definition walk_inside :: "buf \<Rightarrow> atom_walk \<Rightarrow> bool" where
  "walk_inside data w \<longleftrightarrow> aw_end w \<le> length data \<and> aw_mdat_end w \<le> length data"

lemma walk_inside_note: "walk_inside data w \<Longrightarrow> e \<le> length data \<Longrightarrow> walk_inside data (note_atom ty e w)"
  by (simp add: walk_inside_def note_atom_def Let_def)

text \<open>No box, at whatever offset, has a 64 bit size of \<open>2 ^ 63\<close> or more.\<close>

definition no_huge_box :: "buf \<Rightarrow> bool" where
  "no_huge_box data \<longleftrightarrow>
     (\<forall>i. i + 16 \<le> length data \<and> be_nat 0 (slice i 4 data) = 1 \<longrightarrow> be_nat 0 (slice (i + 8) 8 data) < 2 ^ 63)"

lemma be_nat_less: "be_nat 0 bs < 256 ^ length bs"
proof -
  have "be_nat acc bs < (acc + 1) * 256 ^ length bs" for acc
  proof (induction bs arbitrary: acc)
    case (Cons b bs)
    have "be_nat (256 * acc + unat b) bs < (256 * acc + unat b + 1) * 256 ^ length bs" by (rule Cons.IH)
    also have "\<dots> \<le> (256 * (acc + 1)) * 256 ^ length bs"
    proof (intro mult_le_mono1)
      obtain u where u: "unat b = u" "u < 256" using unat_byte_less by blast
      show "256 * acc + unat b + 1 \<le> 256 * (acc + 1)" unfolding u(1) using u(2) by simp
    qed
    finally show ?case by (simp add: algebra_simps)
  qed simp
  from this [of 0] show ?thesis by simp
qed

lemma walk_atoms_returns:
  assumes data: "length data < 2 ^ 62" "no_huge_box data"
  shows "i < 2 ^ 64 - 8 \<Longrightarrow> walk_inside data w \<Longrightarrow> \<exists>w'. walk_atoms data i w = Some (Some w') \<and> walk_inside data w'"
proof (induction "2 ^ 64 - i" arbitrary: i w rule: less_induct)
  case less
  have w8: "w64 (i + 8) = i + 8" using less(2) by (simp add: w64_id)
  show ?case
  proof (cases "length data < i + 8")
    case True
    then show ?thesis using less(3) by (subst walk_atoms.simps) (simp add: w8)
  next
    case False
    define small where "small = be_nat 0 (slice i 4 data)"
    define n where "n = (if small = 1 then be_nat 0 (slice (i + 8) 8 data) else if small = 0 then length data - i else small)"
    have turn: "walk_atoms data i w = (if small = 1 \<and> length data < i + 16 then Some (Some w)
        else if n < (if small = 1 then 16 else 8) then Some (Some w)
        else walk_atoms data (w64 (i + n))
          (note_atom (slice (i + 4) 4 data) (if length data < w64 (i + n) then length data else w64 (i + n)) w))"
      unfolding walk_atoms.simps [of data i w] w8 Let_def small_def n_def using False by (simp only: if_False)
    show ?thesis
    proof (cases "small = 1 \<and> length data < i + 16 \<or> n < (if small = 1 then 16 else 8)")
      case True
      then have "walk_atoms data i w = Some (Some w)" unfolding turn by auto
      then show ?thesis using less(3) by simp
    next
      case go: False
      have "small < 2 ^ 32" using be_nat_less [of "slice i 4 data"] False by (simp add: small_def)
      moreover have "be_nat 0 (slice (i + 8) 8 data) < 2 ^ 63" if "small = 1"
        using data(2) that go by (auto simp: no_huge_box_def small_def)
      ultimately have "n < 2 ^ 63" using data(1) by (auto simp: n_def)
      then have wn: "w64 (i + n) = i + n" "i + n < 2 ^ 64 - 8" using False data(1) by (simp_all add: w64_id)
      let ?e = "if length data < i + n then length data else i + n"
      have "walk_atoms data i w = walk_atoms data (i + n) (note_atom (slice (i + 4) 4 data) ?e w)"
        unfolding turn wn(1) using go by (simp only: de_Morgan_disj if_False)
      moreover have "0 < n" using go by (auto split: if_splits)
      then have "2 ^ 64 - (i + n) < 2 ^ 64 - i" using less(2) by simp
      ultimately show ?thesis using less(1) [of "i + n"] wn(2) walk_inside_note [OF less(3)] by simp
    qed
  qed
qed

text \<open>The crafted file: a box of 16 bytes, then a box whose 64 bit size leads back to the start.\<close>

definition looping_mp4 :: "buf \<Rightarrow> buf \<Rightarrow> buf \<Rightarrow> buf \<Rightarrow> buf" where
  "looping_mp4 ty1 fill ty2 tail = [0, 0, 0, 16] @ ty1 @ fill @ [0, 0, 0, 1] @ ty2 @ [0xFF, 0xFF, 0xFF, 0xFF, 0xFF, 0xFF, 0xFF, 0xF0] @ tail"

lemma looping_walk:
  assumes "length ty1 = 4" "length fill = 8" "length ty2 = 4"
  shows "walk_atoms (looping_mp4 ty1 fill ty2 tail) 0 w = None"
proof -
  let ?d = "looping_mp4 ty1 fill ty2 tail"
  have fields: "be_nat 0 (slice 0 4 ?d) = 16" "be_nat 0 (slice 16 4 ?d) = 1" "be_nat 0 (slice 24 8 ?d) = 2 ^ 64 - 16" "32 \<le> length ?d"
    using assms by (simp_all add: looping_mp4_def slice_def)
  have "i \<noteq> 0 \<and> i \<noteq> 16" if "walk_atoms ?d i w = Some y" for i w y
  proof -
    let ?P = "\<lambda>data i w y. data = ?d \<longrightarrow> i \<noteq> 0 \<and> i \<noteq> 16"
    have "?P ?d i w y"
    proof (rule walk_atoms.raw_induct [where P = ?P, OF _ that], goal_cases)
      case (1 f data i w y)
      note IH = 1(1) and body = 1(2)
      have wrap: "w64 18446744073709551616 = 0" by (simp add: w64_def)
      show ?case
      proof (intro impI conjI notI)
        assume "data = ?d" "i = 0"
        then have "f ?d 16 (note_atom (slice 4 4 ?d) 16 w) = Some y" using body fields by (simp add: w64_id)
        from IH [OF this] show False by simp
      next
        assume "data = ?d" "i = 16"
        then have "f ?d 0 (note_atom (slice 20 4 ?d) 0 w) = Some y" using body fields by (simp add: w64_id wrap)
        from IH [OF this] show False by simp
      qed
    qed
    then show ?thesis by simp
  qed
  then show ?thesis by (cases "walk_atoms ?d 0 w") auto
qed

text \<open>C34. The walk over a file in memory returns, with a size inside the buffer, if no box claims a 64 bit
  size of \<open>2 ^ 63\<close> or more; on a file whose second box claims \<open>2 ^ 64 - 16\<close> bytes it never returns.\<close>

theorem mp4_walk_returns_unless_size_wraps:
  "(\<forall>data. length data < 2 ^ 62 \<and> no_huge_box data \<longrightarrow> (\<exists>r. parse_mp4_mov data = Some (Some r) \<and> pr_size r \<le> length data))
   \<and> (\<forall>ty1 fill ty2 tail. length ty1 = 4 \<and> length fill = 8 \<and> length ty2 = 4 \<longrightarrow> parse_mp4_mov (looping_mp4 ty1 fill ty2 tail) = None)"
proof (intro conjI allI impI)
  fix data :: buf
  assume data: "length data < 2 ^ 62 \<and> no_huge_box data"
  have "walk_inside data new_walk" by (simp add: walk_inside_def new_walk_def)
  then obtain w where w: "walk_atoms data 0 new_walk = Some (Some w)" "walk_inside data w"
    using walk_atoms_returns [of data 0 new_walk] data by auto
  then have "pr_size (mp4_result data w) \<le> length data" by (simp add: mp4_result_def walk_inside_def Let_def)
  then show "\<exists>r. parse_mp4_mov data = Some (Some r) \<and> pr_size r \<le> length data"
    using w(1) by (simp add: parse_mp4_mov_def no_bound_def)
next
  fix ty1 fill ty2 tail :: buf
  assume "length ty1 = 4 \<and> length fill = 8 \<and> length ty2 = 4"
  then show "parse_mp4_mov (looping_mp4 ty1 fill ty2 tail) = None"
    using looping_walk [of ty1 fill ty2 tail new_walk] by (simp add: parse_mp4_mov_def looping_mp4_def)
qed

theorem mp4_walk_returns_unless_size_wraps_witness:
  "(\<exists>r. parse_mp4_mov demo_mp4 = Some (Some r) \<and> pr_size r \<le> 33)
   \<and> parse_mp4_mov (looping_mp4 (bytes_of ''ftyp'') (replicate 8 0) (bytes_of ''free'') []) = None"
proof -
  have len: "length demo_mp4 = 33" by (simp add: demo_mp4_def)
  have "be_nat 0 (slice i 4 demo_mp4) \<noteq> 1" if "i + 16 \<le> length demo_mp4" for i
  proof -
    have "i < 18" using that by (simp add: len)
    then consider "i \<in> set [0..<18]" by auto
    moreover have "\<forall>i \<in> set [0..<18]. be_nat 0 (slice i 4 demo_mp4) \<noteq> 1"
      by (simp add: upt_rec demo_mp4_def slice_def bytes_of_def)
    ultimately show ?thesis by blast
  qed
  then have "no_huge_box demo_mp4" by (auto simp: no_huge_box_def)
  then show ?thesis
    using conjunct1 [OF mp4_walk_returns_unless_size_wraps, rule_format, of demo_mp4]
      conjunct2 [OF mp4_walk_returns_unless_size_wraps, rule_format, of "bytes_of ''ftyp''" "replicate 8 0" "bytes_of ''free''" "[]"]
    by (simp add: len)
qed

section \<open>TIFF directories\<close>

lemma tiff_rd_inside: "off + n \<le> length data \<Longrightarrow> tiff_rd le n data off = Some (rd_end le (slice off n data))"
  by (simp add: tiff_rd_def)

lemma tiff_values_inside: "val + vsz * n \<le> length data \<Longrightarrow> \<exists>vs. tiff_values le data val vsz n = Some vs"
proof -
  assume fits: "val + vsz * n \<le> length data"
  have some: "\<exists>vs. those (map f ks) = Some vs" if "\<forall>k \<in> set ks. f k \<noteq> None" for f :: "nat \<Rightarrow> nat option" and ks
    using that by (induction ks) (auto split: option.splits)
  have "tiff_rd le vsz data (val + vsz * k) \<noteq> None" if "k < n" for k
  proof -
    have "vsz * k + vsz \<le> vsz * n" using that by (metis Suc_leI add.commute mult_Suc_right mult_le_mono2)
    then show ?thesis using fits by (subst tiff_rd_inside) simp_all
  qed
  then show ?thesis unfolding tiff_values_def by (intro some) auto
qed

lemma tiff_place_inside: "ent + 12 \<le> length data \<Longrightarrow> \<exists>v. tiff_place le data ent n = Some v \<and> (n \<le> 4 \<longrightarrow> v = ent + 8)"
  by (simp add: tiff_place_def tiff_rd_inside)

lemma tiff_counts_inside:
  "\<forall>j \<in> set js. ifd + 2 + 12 * j + 12 \<le> length data \<Longrightarrow> \<exists>counts'. tiff_counts le data ifd js counts = Some counts'"
proof (induction js arbitrary: counts)
  case (Cons j js)
  let ?e = "ifd + 2 + 12 * j"
  have inside: "?e + 12 \<le> length data" using Cons.prems by simp
  have IH: "\<exists>counts'. tiff_counts le data ifd js cs = Some counts'" for cs using Cons by simp
  obtain t ty c where fields: "tiff_rd le 2 data ?e = Some t" "tiff_rd le 2 data (?e + 2) = Some ty" "tiff_rd le 4 data (?e + 4) = Some c"
    using inside by (simp add: tiff_rd_inside)
  obtain v where v: "tiff_place le data ?e (value_size ty * c) = Some v" using tiff_place_inside [OF inside] by blast
  have last: "\<exists>counts'. Option.bind (tiff_values le data v (value_size ty) c) (\<lambda>vs. tiff_counts le data ifd js vs) = Some counts'"
    if "\<not> length data < v + value_size ty * c"
  proof -
    obtain vs where "tiff_values le data v (value_size ty) c = Some vs"
      using tiff_values_inside [of v "value_size ty" c data le] \<open>\<not> length data < v + value_size ty * c\<close> by auto
    then show ?thesis by (simp add: IH)
  qed
  show ?case
    unfolding tiff_counts.simps fields v Option.bind.bind_lunit using IH last by (simp only: split: if_split) blast
qed simp

lemma tiff_entry_inside:
  assumes "\<forall>j < count. ifd + 2 + 12 * j + 12 \<le> length data" "i < count"
  shows "tiff_entry le data ifd count i w \<noteq> None"
proof -
  let ?e = "ifd + 2 + 12 * i"
  have inside: "?e + 12 \<le> length data" using assms by simp
  obtain tag ty cnt where fields: "tiff_rd le 2 data ?e = Some tag" "tiff_rd le 2 data (?e + 2) = Some ty" "tiff_rd le 4 data (?e + 4) = Some cnt"
    using inside by (simp add: tiff_rd_inside)
  have "tiff_make le data ?e cnt old \<noteq> None" for old
  proof -
    obtain v where "tiff_place le data ?e cnt = Some v" using tiff_place_inside [OF inside] by blast
    then show ?thesis by (simp add: tiff_make_def)
  qed
  then obtain make where make: "(if tag = 271 \<and> ty = 2 \<and> 0 < cnt \<and> cnt < 256 then tiff_make le data ?e cnt (tw_make w) else Some (tw_make w)) = Some make"
    by fastforce
  obtain v where v: "tiff_place le data ?e (value_size ty * cnt) = Some v" using tiff_place_inside [OF inside] by blast
  have strips: "tiff_strips le data ifd count v (value_size ty) cnt e \<noteq> None" if "v + value_size ty * cnt \<le> length data" for e
  proof -
    obtain counts where "tiff_counts le data ifd [0..<count] [] = Some counts" using tiff_counts_inside [of "[0..<count]" ifd data le "[]"] assms(1) by auto
    moreover have "v + value_size ty * min cnt 4096 \<le> length data"
      using that by (meson add_le_cancel_left le_trans min.cobounded1 mult_le_mono2)
    then obtain offs where "tiff_values le data v (value_size ty) (min cnt 4096) = Some offs" using tiff_values_inside by blast
    ultimately show ?thesis by (simp add: tiff_strips_def give_up_def carry_on_def)
  qed
  define vsz where "vsz = value_size ty"
  show ?thesis
  proof (cases "length data < v + vsz * cnt")
    case True
    then show ?thesis
      unfolding tiff_entry_def Let_def fields make vsz_def [symmetric] v [folded vsz_def] Option.bind.bind_lunit by (simp add: give_up_def carry_on_def)
  next
    case False
    then obtain x where x: "tiff_strips le data ifd count v (value_size ty) cnt (tw_end w) = Some x"
      using strips [of "tw_end w"] by (auto simp: vsz_def)
    have step: "then_with (Some x) (\<lambda>e. carry_on (f e)) \<noteq> None" for f :: "nat \<Rightarrow> tiff_walk"
      by (cases x) (simp_all add: then_with_def carry_on_def)
    show ?thesis
      unfolding tiff_entry_def Let_def fields make vsz_def [symmetric] v [folded vsz_def] Option.bind.bind_lunit
      using False step by (simp add: x [folded vsz_def] give_up_def carry_on_def)
  qed
qed

lemma tiff_entries_inside:
  assumes "\<forall>j < count. ifd + 2 + 12 * j + 12 \<le> length data"
  shows "\<forall>i \<in> set idx. i < count \<Longrightarrow> tiff_entries le data ifd count idx w \<noteq> None"
proof (induction idx arbitrary: w)
  case (Cons i idx)
  then show ?case using tiff_entry_inside [OF assms, of i le w] by (auto simp: then_with_def split: option.splits)
qed (simp add: carry_on_def)

text \<open>Four bytes that, read as a directory offset, pass the test modulo \<open>2 ^ 32\<close> although they lie outside.\<close>

definition wrapping_offset :: "nat \<Rightarrow> bool" where
  "wrapping_offset ifd \<longleftrightarrow> ifd = 0xFFFFFFFE \<or> ifd = 0xFFFFFFFF"

lemma rd_end_less: "rd_end le bs < 256 ^ length bs"
  using be_nat_less le_nat_less by (simp add: rd_end_def)

lemma tiff_chain_inside:
  assumes "\<forall>off. off + 4 \<le> length data \<longrightarrow> \<not> wrapping_offset (rd_end le (slice off 4 data))"
  shows "ifd < 2 ^ 32 \<Longrightarrow> \<not> wrapping_offset ifd \<Longrightarrow> tiff_chain k le data ifd w \<noteq> None"
proof (induction k arbitrary: ifd w)
  case (Suc k)
  have "ifd + 2 < 2 ^ 32" using Suc.prems by (auto simp: wrapping_offset_def)
  then have w32: "w32 (ifd + 2) = ifd + 2" by (simp add: w32_id)
  show ?case
  proof (cases "ifd = 0 \<or> length data < ifd + 2")
    case True
    then show ?thesis unfolding tiff_chain.simps w32 by (simp add: carry_on_def)
  next
    case False
    then have count: "tiff_rd le 2 data ifd = Some (rd_end le (slice ifd 2 data))" by (intro tiff_rd_inside) simp
    define n where "n = rd_end le (slice ifd 2 data)"
    show ?thesis
    proof (cases "n = 0 \<or> 4096 < n \<or> length data < ifd + 2 + 12 * n + 4")
      case True
      then show ?thesis
        using False count unfolding tiff_chain.simps w32 count n_def [symmetric] Option.bind.bind_lunit by (simp add: give_up_def)
    next
      case go: False
      then have room: "\<forall>j < n. ifd + 2 + 12 * j + 12 \<le> length data" by auto
      let ?w = "w\<lparr>tw_end := max (tw_end w) (ifd + 2 + 12 * n + 4)\<rparr>" and ?next = "ifd + 2 + 12 * n"
      have entries: "tiff_entries le data ifd n [0..<n] ?w \<noteq> None" by (rule tiff_entries_inside [OF room]) simp
      have rd: "tiff_rd le 4 data ?next = Some (rd_end le (slice ?next 4 data))" using go by (intro tiff_rd_inside) simp
      have "?next + 4 \<le> length data" using go by simp
      then have four: "length (slice ?next 4 data) = 4" unfolding length_slice by arith
      have "rd_end le (slice ?next 4 data) < 2 ^ 32" using rd_end_less [of le "slice ?next 4 data"] unfolding four by simp
      moreover have "\<not> wrapping_offset (rd_end le (slice ?next 4 data))" using assms go by simp
      ultimately have "tiff_chain k le data (rd_end le (slice ?next 4 data)) w' \<noteq> None" for w' by (rule Suc.IH)
      then have "then_with (tiff_entries le data ifd n [0..<n] ?w)
          (\<lambda>w'. Option.bind (tiff_rd le 4 data ?next) (\<lambda>ifd'. tiff_chain k le data ifd' w')) \<noteq> None"
        using entries rd by (auto simp: then_with_def split: option.splits)
      then show ?thesis
        unfolding tiff_chain.simps w32 if_not_P [OF False] count n_def [symmetric] Option.bind.bind_lunit if_not_P [OF go] .
    qed
  qed
qed (simp add: give_up_def carry_on_def)

text \<open>C35. Every read of the TIFF parser lies in the buffer if no four bytes of it read as \<open>0xFFFFFFFE\<close> or
  \<open>0xFFFFFFFF\<close>; with such a first directory offset the parser reads outside the buffer, because the
  offset is checked modulo \<open>2 ^ 32\<close>.\<close>

theorem tiff_reads_inside_unless_offset_wraps:
  "(\<forall>data. (\<forall>le off. off + 4 \<le> length data \<longrightarrow> \<not> wrapping_offset (rd_end le (slice off 4 data))) \<longrightarrow> parse_tiff data \<noteq> None)
   \<and> (\<forall>b tail. b \<ge> 0xFE \<and> length tail < 2 ^ 31 \<longrightarrow> parse_tiff ([0x49, 0x49, 0x2A, 0, b, 0xFF, 0xFF, 0xFF] @ tail) = None)"
proof (intro conjI allI impI)
  fix data :: buf
  assume safe: "\<forall>le off. off + 4 \<le> length data \<longrightarrow> \<not> wrapping_offset (rd_end le (slice off 4 data))"
  show "parse_tiff data \<noteq> None"
  proof (cases "length data < 8 \<or> tiff_endian data = None")
    case True
    then show ?thesis by (auto simp: parse_tiff_def split: option.split)
  next
    case False
    then obtain le where le: "tiff_endian data = Some le" "8 \<le> length data" by auto
    then have rd: "tiff_rd le 4 data 4 = Some (rd_end le (slice 4 4 data))" by (intro tiff_rd_inside) simp
    have four: "length (slice 4 4 data) = 4" using le(2) by simp
    have "rd_end le (slice 4 4 data) < 2 ^ 32" using rd_end_less [of le "slice 4 4 data"] unfolding four by simp
    moreover have "\<not> wrapping_offset (rd_end le (slice 4 4 data))" using safe le(2) by simp
    ultimately have "tiff_chain 8 le data (rd_end le (slice 4 4 data)) w \<noteq> None" for w
      using safe by (intro tiff_chain_inside) simp_all
    then show ?thesis using le rd by (auto simp: parse_tiff_def)
  qed
next
  fix b :: byte and tail :: buf
  assume b: "b \<ge> 0xFE \<and> length tail < 2 ^ 31"
  let ?d = "[0x49, 0x49, 0x2A, 0, b, 0xFF, 0xFF, 0xFF] @ tail"
  have "unat b \<ge> 254" using b by (simp add: word_le_nat_alt)
  then have "unat b = 254 \<or> unat b = 255" using unat_byte_less [of b] by linarith
  then have ifd: "rd_end True (slice 4 4 ?d) = 0xFFFFFFFE \<or> rd_end True (slice 4 4 ?d) = 0xFFFFFFFF"
    by (auto simp: slice_def rd_end_def)
  then have "\<not> length ?d < w32 (rd_end True (slice 4 4 ?d) + 2)" by (auto simp: w32_def)
  moreover have "tiff_rd True 2 ?d (rd_end True (slice 4 4 ?d)) = None" using ifd b by (auto simp: tiff_rd_def rd_slice_def)
  ultimately have "tiff_chain (Suc 7) True ?d (rd_end True (slice 4 4 ?d)) w = None" for w
    unfolding tiff_chain.simps using ifd by auto
  then have chain: "tiff_chain 8 True ?d (rd_end True (slice 4 4 ?d)) w = None" for w by (simp add: numeral_eq_Suc)
  have "tiff_endian ?d = Some True" "\<not> length ?d < 8" by (simp_all add: tiff_endian_def)
  moreover have "tiff_rd True 4 ?d 4 = Some (rd_end True (slice 4 4 ?d))" by (intro tiff_rd_inside) simp
  ultimately show "parse_tiff ?d = None" unfolding parse_tiff_def using chain by (simp only: if_False option.case Option.bind.bind_lunit) simp
qed

theorem tiff_reads_inside_unless_offset_wraps_witness:
  "parse_tiff (replicate 20 1) \<noteq> None \<and> parse_tiff ([0x49, 0x49, 0x2A, 0, 0xFE, 0xFF, 0xFF, 0xFF] @ []) = None"
proof -
  have "rd_end le (slice off 4 (replicate 20 (1 :: byte))) = 0x01010101" if "off + 4 \<le> 20" for le off
  proof -
    have "slice off 4 (replicate 20 (1 :: byte)) = replicate 4 1" using that by (simp add: slice_def min_def)
    also have "\<dots> = [1, 1, 1, 1]" by (simp add: numeral_eq_Suc)
    finally show ?thesis by (simp add: rd_end_def)
  qed
  then show ?thesis
    using conjunct1 [OF tiff_reads_inside_unless_offset_wraps, rule_format, of "replicate 20 1"]
      conjunct2 [OF tiff_reads_inside_unless_offset_wraps, rule_format, of "0xFE" "[]"]
    by (simp add: wrapping_offset_def)
qed

end
