(* ===== verification/Aho_Corasick.thy ===== *)
theory Aho_Corasick
  imports Prelude "HOL-Library.Sublist"
begin

text \<open>
  The pattern automaton of the carver (carver/signature\_engine.cpp, \<open>CarvingEngine\<close>): the trie of all
  headers and footers, failure links and match lists by a breadth-first walk, and the compiled
  transition table of the scan loop.  A loop over a queue or along failure links is a
  \<open>partial_function\<close>: \<open>None\<close> would be a loop that does not end.
\<close>

section \<open>Signatures and the trie\<close>

record file_signature =
  sg_id :: nat
  sg_format :: string
  sg_extension :: string
  sg_category :: string
  sg_header :: buf
  sg_footer :: buf
  sg_max :: nat

record ac_node =
  ac_children :: "byte \<Rightarrow> nat option"
  ac_fail :: nat
  ac_headers :: "nat list"
  ac_footers :: "nat list"

definition new_ac_node :: ac_node where
  "new_ac_node = \<lparr>ac_children = (\<lambda>b. None), ac_fail = 0, ac_headers = [], ac_footers = []\<rparr>"

fun trie_insert :: "ac_node list \<Rightarrow> nat \<Rightarrow> buf \<Rightarrow> ac_node list \<times> nat" where
  "trie_insert nodes current [] = (nodes, current)"
| "trie_insert nodes current (b # bs) =
     (case ac_children (nodes ! current) b of
        Some t \<Rightarrow> trie_insert nodes t bs
      | None \<Rightarrow> trie_insert
          (nodes[current := (nodes ! current)\<lparr>ac_children := (ac_children (nodes ! current))(b \<mapsto> length nodes)\<rparr>] @ [new_ac_node])
          (length nodes) bs)"

definition add_header :: "file_signature \<Rightarrow> ac_node list \<Rightarrow> ac_node list" where
  "add_header sig nodes =
     (if sg_header sig = [] then nodes
      else let (ns, t) = trie_insert nodes 0 (sg_header sig) in ns[t := (ns ! t)\<lparr>ac_headers := ac_headers (ns ! t) @ [sg_id sig]\<rparr>])"

definition add_footer :: "file_signature \<Rightarrow> ac_node list \<Rightarrow> ac_node list" where
  "add_footer sig nodes =
     (if sg_footer sig = [] then nodes
      else let (ns, t) = trie_insert nodes 0 (sg_footer sig) in ns[t := (ns ! t)\<lparr>ac_footers := ac_footers (ns ! t) @ [sg_id sig]\<rparr>])"

definition build_trie :: "file_signature list \<Rightarrow> ac_node list" where
  "build_trie sigs = fold (\<lambda>sig nodes. add_footer sig (add_header sig nodes)) sigs [new_ac_node]"

text \<open>The children of a node in the order of \<open>std::map\<close>.\<close>

definition kids :: "ac_node \<Rightarrow> (byte \<times> nat) list" where
  "kids node = concat (map (\<lambda>b. case ac_children node b of None \<Rightarrow> [] | Some t \<Rightarrow> [(b, t)]) (map word_of_nat [0..<256]))"

section \<open>Failure links\<close>

partial_function (option) fail_state :: "ac_node list \<Rightarrow> byte \<Rightarrow> nat \<Rightarrow> nat option" where
  "fail_state nodes b s =
     (if s \<noteq> 0 \<and> ac_children (nodes ! s) b = None then fail_state nodes b (ac_fail (nodes ! s)) else Some s)"

definition link_child :: "ac_node list \<Rightarrow> nat \<Rightarrow> byte \<times> nat \<Rightarrow> ac_node list option" where
  "link_child nodes current kid =
     map_option (\<lambda>f.
       let target = (case ac_children (nodes ! f) (fst kid) of Some u \<Rightarrow> u | None \<Rightarrow> 0); t = snd kid
       in nodes[t := (nodes ! t)\<lparr>ac_fail := target, ac_headers := ac_headers (nodes ! t) @ ac_headers (nodes ! target),
            ac_footers := ac_footers (nodes ! t) @ ac_footers (nodes ! target)\<rparr>])
       (fail_state nodes (fst kid) (ac_fail (nodes ! current)))"

primrec link_kids :: "ac_node list \<Rightarrow> nat \<Rightarrow> (byte \<times> nat) list \<Rightarrow> ac_node list option" where
  "link_kids nodes current [] = Some nodes"
| "link_kids nodes current (kid # ks) = Option.bind (link_child nodes current kid) (\<lambda>nodes'. link_kids nodes' current ks)"

partial_function (option) link_nodes :: "ac_node list \<Rightarrow> nat list \<Rightarrow> ac_node list option" where
  "link_nodes nodes queue =
     (if queue = [] then Some nodes
      else Option.bind (link_kids nodes (hd queue) (kids (nodes ! hd queue)))
        (\<lambda>nodes'. link_nodes nodes' (tl queue @ map snd (kids (nodes ! hd queue)))))"

definition root_links :: "ac_node list \<Rightarrow> ac_node list" where
  "root_links nodes = fold (\<lambda>t ns. ns[t := (ns ! t)\<lparr>ac_fail := 0\<rparr>]) (map snd (kids (nodes ! 0))) nodes"

section \<open>The compiled table\<close>

definition next_row :: "ac_node list \<Rightarrow> nat \<Rightarrow> nat list \<Rightarrow> nat list" where
  "next_row nodes s table =
     fold (\<lambda>c tb. tb[s * 256 + c := (case ac_children (nodes ! s) (word_of_nat c) of
         Some t \<Rightarrow> t | None \<Rightarrow> tb ! (ac_fail (nodes ! s) * 256 + c))]) [0..<256] table"

partial_function (option) fill_next :: "ac_node list \<Rightarrow> nat list \<Rightarrow> bool list \<Rightarrow> nat list \<Rightarrow> nat list option" where
  "fill_next nodes queue visited table =
     (if queue = [] then Some table
      else if hd queue = 0 \<or> length nodes \<le> hd queue \<or> visited ! hd queue then fill_next nodes (tl queue) visited table
      else fill_next nodes (tl queue @ map snd (kids (nodes ! hd queue))) (visited[hd queue := True]) (next_row nodes (hd queue) table))"

definition root_row :: "ac_node list \<Rightarrow> nat list" where
  "root_row nodes =
     fold (\<lambda>c tb. tb[c := (case ac_children (nodes ! 0) (word_of_nat c) of Some t \<Rightarrow> t | None \<Rightarrow> 0)]) [0..<256]
       (replicate (length nodes * 256) 0)"

text \<open>The nodes with their match lists, and the table.\<close>

definition build_aho_corasick :: "file_signature list \<Rightarrow> (ac_node list \<times> nat list) option" where
  "build_aho_corasick sigs =
     (let trie0 = root_links (build_trie sigs)
      in Option.bind (link_nodes trie0 (map snd (kids (trie0 ! 0)))) (\<lambda>nodes.
           map_option (\<lambda>table. (nodes, table))
             (fill_next nodes (map snd (kids (nodes ! 0))) (replicate (length nodes) False) (root_row nodes))))"

text \<open>The scan loop: one transition for each byte.\<close>

definition ac_next :: "nat list \<Rightarrow> nat \<Rightarrow> byte \<Rightarrow> nat" where
  "ac_next table state b = table ! (state * 256 + unat b)"

definition ac_run :: "nat list \<Rightarrow> buf \<Rightarrow> nat" where
  "ac_run table bs = fold (\<lambda>b state. ac_next table state b) bs 0"

section \<open>The longest suffix in a prefix-closed set\<close>

fun longest :: "buf set \<Rightarrow> buf \<Rightarrow> buf" where
  "longest W [] = []"
| "longest W (a # x) = (if a # x \<in> W then a # x else longest W x)"

definition prefix_closed :: "buf set \<Rightarrow> bool" where
  "prefix_closed W \<longleftrightarrow> [] \<in> W \<and> (\<forall>x b. x @ [b] \<in> W \<longrightarrow> x \<in> W)"

lemma best_in: "[] \<in> W \<Longrightarrow> longest W x \<in> W"
  by (induction x) auto

lemma best_suffix: "suffix (longest W x) x"
  by (induction x) (auto intro: suffix_ConsI)

lemma best_longest: "y \<in> W \<Longrightarrow> suffix y x \<Longrightarrow> suffix y (longest W x)"
  by (induction x) (auto simp: suffix_Cons)

lemma best_id: "x \<in> W \<Longrightarrow> longest W x = x"
  by (cases x) auto

lemma best_snoc: "prefix_closed W \<Longrightarrow> longest W (x @ [b]) = longest W (longest W x @ [b])"
proof (induction x)
  case (Cons a x)
  show ?case
  proof (cases "a # x \<in> W")
    case False
    then have "(a # x) @ [b] \<notin> W" using Cons.prems by (auto simp: prefix_closed_def simp del: append_Cons)
    then show ?thesis using False Cons by simp
  qed simp
qed simp

lemma suffix_best: "p \<in> W \<Longrightarrow> suffix p (longest W x) \<longleftrightarrow> suffix p x"
  using best_longest [of p W x] suffix_order.trans [OF _ best_suffix [of W x]] by blast

section \<open>The nodes as the prefixes of the patterns\<close>

text \<open>\<open>path\<close> gives the bytes that lead from the root to a node.\<close>

definition trie :: "ac_node list \<Rightarrow> (nat \<Rightarrow> buf) \<Rightarrow> bool" where
  "trie nodes path \<longleftrightarrow> nodes \<noteq> [] \<and> path 0 = [] \<and> inj_on path {..<length nodes}
     \<and> (\<forall>s < length nodes. \<forall>b t. ac_children (nodes ! s) b = Some t \<longrightarrow> t < length nodes \<and> path t = path s @ [b])
     \<and> (\<forall>t < length nodes. t \<noteq> 0 \<longrightarrow> (\<exists>s < length nodes. \<exists>b. ac_children (nodes ! s) b = Some t))"

definition trie_words :: "ac_node list \<Rightarrow> (nat \<Rightarrow> buf) \<Rightarrow> buf set" where
  "trie_words nodes path = path ` {..<length nodes}"

lemma path_in_words: "t < length nodes \<Longrightarrow> path t \<in> trie_words nodes path"
  by (simp add: trie_words_def)

lemma trie_root: "trie nodes path \<Longrightarrow> 0 < length nodes \<and> path 0 = []"
  by (simp add: trie_def)

lemma trie_inj: "trie nodes path \<Longrightarrow> s < length nodes \<Longrightarrow> t < length nodes \<Longrightarrow> path s = path t \<Longrightarrow> s = t"
  unfolding trie_def inj_on_def by blast

lemma trie_child: "trie nodes path \<Longrightarrow> s < length nodes \<Longrightarrow> ac_children (nodes ! s) b = Some t \<Longrightarrow> t < length nodes \<and> path t = path s @ [b]"
  unfolding trie_def by blast

lemma trie_parent:
  assumes "trie nodes path" "t < length nodes" "t \<noteq> 0"
  obtains s b where "s < length nodes" "ac_children (nodes ! s) b = Some t" "path t = path s @ [b]"
proof -
  obtain s b where s: "s < length nodes" "ac_children (nodes ! s) b = Some t" using assms unfolding trie_def by blast
  then show thesis using that trie_child [OF assms(1) s] by blast
qed

lemma trie_nonempty: "trie nodes path \<Longrightarrow> t < length nodes \<Longrightarrow> path t = [] \<longleftrightarrow> t = 0"
  using trie_inj [of nodes path t 0] trie_root [of nodes path] by auto

lemma trie_snoc_nonzero: "trie nodes path \<Longrightarrow> path t = x @ [b] \<Longrightarrow> t \<noteq> 0"
  using trie_root [of nodes path] by (metis append_is_Nil_conv not_Cons_self2)

lemma trie_child_iff:
  assumes "trie nodes path" "s < length nodes"
  shows "ac_children (nodes ! s) b = Some t \<longleftrightarrow> t < length nodes \<and> path t = path s @ [b]"
proof
  assume t: "t < length nodes \<and> path t = path s @ [b]"
  then have "t \<noteq> 0" using trie_snoc_nonzero [OF assms(1)] by blast
  then obtain u c where u: "u < length nodes" "ac_children (nodes ! u) c = Some t" "path t = path u @ [c]"
    using trie_parent assms t by metis
  then show "ac_children (nodes ! s) b = Some t" using t trie_inj [OF assms(1) u(1) assms(2)] by simp
qed (use trie_child assms in blast)

lemma trie_child_none:
  assumes "trie nodes path" "s < length nodes"
  shows "ac_children (nodes ! s) b = None \<longleftrightarrow> path s @ [b] \<notin> trie_words nodes path"
proof -
  have "(\<exists>t. ac_children (nodes ! s) b = Some t) \<longleftrightarrow> (\<exists>t < length nodes. path t = path s @ [b])"
    by (simp add: trie_child_iff [OF assms])
  also have "\<dots> \<longleftrightarrow> path s @ [b] \<in> trie_words nodes path"
    unfolding trie_words_def image_def by (simp add: eq_commute [of "path s @ [b]"] Bex_def)
  finally have "(\<exists>t. ac_children (nodes ! s) b = Some t) \<longleftrightarrow> path s @ [b] \<in> trie_words nodes path" .
  then show ?thesis by auto
qed

lemma trie_words_closed: "trie nodes path \<Longrightarrow> prefix_closed (trie_words nodes path)"
  unfolding prefix_closed_def
proof (intro conjI allI impI)
  assume t: "trie nodes path"
  then show "[] \<in> trie_words nodes path" using trie_root [OF t] unfolding trie_words_def by (metis image_eqI lessThan_iff)
  fix x b assume "x @ [b] \<in> trie_words nodes path"
  then obtain u where u: "u < length nodes" "path u = x @ [b]" by (auto simp: trie_words_def)
  then have "u \<noteq> 0" using trie_snoc_nonzero [OF t] by blast
  then obtain s c where "s < length nodes" "path u = path s @ [c]" using trie_parent t u by metis
  then show "x \<in> trie_words nodes path" using u by (auto simp: trie_words_def)
qed

lemma trie_cong:
  assumes "trie nodes path" "length nodes' = length nodes" "\<And>s. s < length nodes \<Longrightarrow> ac_children (nodes' ! s) = ac_children (nodes ! s)"
  shows "trie nodes' path"
proof -
  have "nodes' \<noteq> []" using assms(1,2) by (auto simp: trie_def)
  moreover have "(\<exists>s < length nodes. \<exists>b. ac_children (nodes' ! s) b = Some t) = (\<exists>s < length nodes. \<exists>b. ac_children (nodes ! s) b = Some t)" for t
    using assms(3) by fastforce
  ultimately show ?thesis using assms(1) unfolding trie_def assms(2) by (simp add: assms(3))
qed

section \<open>Building the trie\<close>

text \<open>Nodes keep their place, their path, and what they hold; new nodes hold nothing.\<close>

definition grows :: "ac_node list \<Rightarrow> (nat \<Rightarrow> buf) \<Rightarrow> ac_node list \<Rightarrow> (nat \<Rightarrow> buf) \<Rightarrow> bool" where
  "grows nodes path nodes' path' \<longleftrightarrow> trie nodes' path' \<and> length nodes \<le> length nodes' \<and> (\<forall>s < length nodes. path' s = path s)
     \<and> (\<forall>s < length nodes'. let old = (if s < length nodes then nodes ! s else new_ac_node)
          in ac_headers (nodes' ! s) = ac_headers old \<and> ac_footers (nodes' ! s) = ac_footers old \<and> ac_fail (nodes' ! s) = ac_fail old)"

lemma grows_refl: "trie nodes path \<Longrightarrow> grows nodes path nodes path"
  by (simp add: grows_def Let_def)

lemma grows_old:
  assumes "grows nodes path nodes' path'" "s < length nodes"
  shows "path' s = path s" "ac_headers (nodes' ! s) = ac_headers (nodes ! s)" "ac_footers (nodes' ! s) = ac_footers (nodes ! s)"
    "ac_fail (nodes' ! s) = ac_fail (nodes ! s)" "s < length nodes'"
  using assms by (simp_all add: grows_def Let_def)

lemma grows_trans:
  assumes "grows n1 p1 n2 p2" "grows n2 p2 n3 p3"
  shows "grows n1 p1 n3 p3"
proof -
  have len: "length n1 \<le> length n2" "length n2 \<le> length n3" and t: "trie n3 p3" using assms by (simp_all add: grows_def)
  have "p3 s = p1 s" if "s < length n1" for s using assms that len by (simp add: grows_def)
  moreover have "let old = (if s < length n1 then n1 ! s else new_ac_node)
     in ac_headers (n3 ! s) = ac_headers old \<and> ac_footers (n3 ! s) = ac_footers old \<and> ac_fail (n3 ! s) = ac_fail old" if "s < length n3" for s
  proof (cases "s < length n2")
    case True
    then show ?thesis using assms that by (simp add: grows_def Let_def)
  next
    case False
    then show ?thesis using assms(2) that len by (simp add: grows_def Let_def)
  qed
  ultimately show ?thesis using len t by (simp add: grows_def)
qed

lemma grows_words:
  assumes "grows nodes path nodes' path'"
  shows "trie_words nodes path \<subseteq> trie_words nodes' path'"
proof
  fix x assume "x \<in> trie_words nodes path"
  then obtain s where "s < length nodes" "x = path s" by (auto simp: trie_words_def)
  then have "s < length nodes'" "x = path' s" using assms by (simp_all add: grows_def)
  then show "x \<in> trie_words nodes' path'" by (simp add: trie_words_def)
qed

lemma trie_extend:
  assumes "trie nodes path" "cur < length nodes" "ac_children (nodes ! cur) b = None"
  shows "grows nodes path
    (nodes[cur := (nodes ! cur)\<lparr>ac_children := (ac_children (nodes ! cur))(b \<mapsto> length nodes)\<rparr>] @ [new_ac_node])
    (path(length nodes := path cur @ [b]))"
    (is "grows _ _ ?nodes ?path")
proof -
  let ?n = "length nodes"
  have kid: "ac_children (?nodes ! s) c = Some t \<longleftrightarrow>
      s < ?n \<and> (ac_children (nodes ! s) c = Some t \<or> s = cur \<and> c = b \<and> t = ?n)" if "s < Suc ?n" for s c t
    using that assms(2,3) by (cases "s = ?n") (auto simp: nth_append nth_list_update new_ac_node_def)
  have fresh: "path t \<noteq> path cur @ [b]" if "t < ?n" for t
    using assms that trie_child_iff [OF assms(1,2), of b t] by auto
  have "inj_on ?path {..<Suc ?n}"
    using trie_inj [OF assms(1)] fresh by (auto simp: inj_on_def less_Suc_eq) metis+
  moreover have "t < Suc ?n \<and> ?path t = ?path s @ [c]" if "s < Suc ?n" "ac_children (?nodes ! s) c = Some t" for s c t
  proof -
    have "s < ?n \<and> ac_children (nodes ! s) c = Some t \<or> s = cur \<and> c = b \<and> t = ?n" using kid [OF that(1)] that(2) by blast
    then show ?thesis using trie_child [OF assms(1), of s c t] assms(2) by auto
  qed
  moreover have "\<exists>s < Suc ?n. \<exists>c. ac_children (?nodes ! s) c = Some t" if "t < Suc ?n" "t \<noteq> 0" for t
  proof (cases "t = ?n")
    case True
    then show ?thesis using assms(2) kid [of cur b t] less_SucI by blast
  next
    case False
    then have t: "t < ?n" "t \<noteq> 0" using that by simp_all
    obtain s c where "s < ?n" "ac_children (nodes ! s) c = Some t" using trie_parent [OF assms(1) t] by blast
    then show ?thesis using kid [of s c t] less_SucI by blast
  qed
  ultimately have "trie ?nodes ?path" unfolding trie_def using assms(2) trie_root [OF assms(1)] by simp
  moreover have "ac_headers (?nodes ! s) = ac_headers (if s < ?n then nodes ! s else new_ac_node)
      \<and> ac_footers (?nodes ! s) = ac_footers (if s < ?n then nodes ! s else new_ac_node)
      \<and> ac_fail (?nodes ! s) = ac_fail (if s < ?n then nodes ! s else new_ac_node)" if "s < Suc ?n" for s
    using that assms(2) by (cases "s = ?n") (auto simp: nth_append nth_list_update)
  ultimately show ?thesis by (simp add: grows_def Let_def)
qed

lemma trie_insert_grows:
  assumes "trie nodes path" "cur < length nodes" "trie_insert nodes cur bs = (nodes', t)"
  shows "\<exists>path'. grows nodes path nodes' path' \<and> t < length nodes' \<and> path' t = path cur @ bs"
  using assms
proof (induction nodes cur bs arbitrary: path rule: trie_insert.induct)
  case (1 nodes cur)
  then show ?case using grows_refl by auto
next
  case (2 nodes cur b bs)
  show ?case
  proof (cases "ac_children (nodes ! cur) b")
    case None
    let ?nodes = "nodes[cur := (nodes ! cur)\<lparr>ac_children := (ac_children (nodes ! cur))(b \<mapsto> length nodes)\<rparr>] @ [new_ac_node]"
    let ?path = "path(length nodes := path cur @ [b])"
    have ext: "grows nodes path ?nodes ?path" using trie_extend 2(3,4) None by blast
    then have "trie ?nodes ?path" "length nodes < length ?nodes" by (simp_all add: grows_def)
    moreover have "trie_insert ?nodes (length nodes) bs = (nodes', t)" using 2(5) None by simp
    ultimately obtain path' where "grows ?nodes ?path nodes' path'" "t < length nodes'" "path' t = ?path (length nodes) @ bs"
      using 2(1) [OF None] by blast
    then show ?thesis using grows_trans [OF ext] by auto
  next
    case (Some u)
    then have u: "u < length nodes" "path u = path cur @ [b]" using trie_child 2(3,4) by blast+
    then show ?thesis using 2(2) [OF Some 2(3) u(1)] 2(5) Some by auto
  qed
qed

text \<open>The identifiers of the signatures whose pattern satisfies \<open>R\<close>.\<close>

definition matching :: "(file_signature \<Rightarrow> buf) \<Rightarrow> file_signature set \<Rightarrow> (buf \<Rightarrow> bool) \<Rightarrow> nat set" where
  "matching pat sigs R = sg_id ` {sig \<in> sigs. pat sig \<noteq> [] \<and> R (pat sig)}"

lemma matching_insert:
  "matching pat (insert sig sigs) R = (if pat sig \<noteq> [] \<and> R (pat sig) then insert (sg_id sig) (matching pat sigs R) else matching pat sigs R)"
  by (auto simp: matching_def)

text \<open>A trie that holds the headers of \<open>hs\<close> and the footers of \<open>fs\<close>, before the links.\<close>

definition holds :: "ac_node list \<Rightarrow> (nat \<Rightarrow> buf) \<Rightarrow> file_signature set \<Rightarrow> file_signature set \<Rightarrow> bool" where
  "holds nodes path hs fs \<longleftrightarrow> trie nodes path
     \<and> sg_header ` hs \<subseteq> trie_words nodes path \<and> sg_footer ` fs \<subseteq> trie_words nodes path
     \<and> (\<forall>s < length nodes. ac_fail (nodes ! s) = 0
          \<and> set (ac_headers (nodes ! s)) = matching sg_header hs (\<lambda>p. p = path s)
          \<and> set (ac_footers (nodes ! s)) = matching sg_footer fs (\<lambda>p. p = path s))"

lemma holds_trie: "holds nodes path hs fs \<Longrightarrow> trie nodes path"
  by (simp add: holds_def)

lemma holds_words: "holds nodes path hs fs \<Longrightarrow> sg_header ` hs \<subseteq> trie_words nodes path \<and> sg_footer ` fs \<subseteq> trie_words nodes path"
  by (simp add: holds_def)

lemma holds_node:
  assumes "holds nodes path hs fs" "s < length nodes"
  shows "ac_fail (nodes ! s) = 0" "set (ac_headers (nodes ! s)) = matching sg_header hs (\<lambda>p. p = path s)"
    "set (ac_footers (nodes ! s)) = matching sg_footer fs (\<lambda>p. p = path s)"
  using assms unfolding holds_def by blast+

lemma holdsI:
  assumes "trie nodes path" "sg_header ` hs \<subseteq> trie_words nodes path" "sg_footer ` fs \<subseteq> trie_words nodes path"
    "\<And>s. s < length nodes \<Longrightarrow> ac_fail (nodes ! s) = 0 \<and> set (ac_headers (nodes ! s)) = matching sg_header hs (\<lambda>p. p = path s)
       \<and> set (ac_footers (nodes ! s)) = matching sg_footer fs (\<lambda>p. p = path s)"
  shows "holds nodes path hs fs"
  unfolding holds_def using assms by blast

lemma trie_words_root: "trie nodes path \<Longrightarrow> [] \<in> trie_words nodes path"
  using trie_words_closed by (simp add: prefix_closed_def)

lemma fresh_path:
  assumes "grows nodes path nodes' path'" "s < length nodes'" "\<not> s < length nodes"
  shows "path' s \<notin> trie_words nodes path"
proof
  assume "path' s \<in> trie_words nodes path"
  then obtain t where t: "t < length nodes" "path' s = path t" unfolding trie_words_def by blast
  then have "path' s = path' t" using assms(1) by (simp add: grows_def)
  moreover have "trie nodes' path'" "t < length nodes'" using assms(1) t by (simp_all add: grows_def)
  ultimately have "s = t" using trie_inj assms(2) by blast
  then show False using assms(3) t by simp
qed

lemma holds_grows:
  assumes "holds nodes path hs fs" "grows nodes path nodes' path'"
  shows "holds nodes' path' hs fs"
proof -
  have "ac_fail (nodes' ! s) = 0 \<and> set (ac_headers (nodes' ! s)) = matching sg_header hs (\<lambda>p. p = path' s)
      \<and> set (ac_footers (nodes' ! s)) = matching sg_footer fs (\<lambda>p. p = path' s)" if s: "s < length nodes'" for s
  proof (cases "s < length nodes")
    case True
    then show ?thesis unfolding grows_old [OF assms(2) True] using holds_node [OF assms(1) True] by blast
  next
    case False
    then have "path' s \<notin> trie_words nodes path" using fresh_path [OF assms(2) s] by blast
    then have "sg_header g \<noteq> path' s" if "g \<in> hs" for g using subsetD [OF conjunct1 [OF holds_words [OF assms(1)]] imageI [OF that]] \<open>path' s \<notin> trie_words nodes path\<close> by metis
    moreover have "sg_footer g \<noteq> path' s" if "g \<in> fs" for g using subsetD [OF conjunct2 [OF holds_words [OF assms(1)]] imageI [OF that]] \<open>path' s \<notin> trie_words nodes path\<close> by metis
    ultimately have "matching sg_header hs (\<lambda>p. p = path' s) = {}" "matching sg_footer fs (\<lambda>p. p = path' s) = {}"
      unfolding matching_def by blast+
    then show ?thesis using assms(2) s False by (simp add: grows_def Let_def new_ac_node_def)
  qed
  moreover have "sg_header ` hs \<subseteq> trie_words nodes' path'" "sg_footer ` fs \<subseteq> trie_words nodes' path'"
    using holds_words [OF assms(1)] grows_words [OF assms(2)] by blast+
  ultimately show ?thesis using assms(2) by (simp add: holds_def grows_def)
qed

lemma holds_inserted:
  assumes "holds nodes path hs fs" "trie_insert nodes 0 bs = (nodes', t)"
  obtains path' where "holds nodes' path' hs fs" "t < length nodes'" "path' t = bs"
proof -
  have "trie nodes path" using assms(1) by (simp add: holds_def)
  then obtain path' where "grows nodes path nodes' path'" "t < length nodes'" "path' t = bs"
    using trie_insert_grows [OF _ _ assms(2)] trie_root by fastforce
  then show thesis using that holds_grows [OF assms(1)] by blast
qed

lemma same_children_words:
  assumes "length nodes' = length nodes"
  shows "trie_words nodes' path = trie_words nodes path"
  using assms by (simp add: trie_words_def)

lemma add_header_holds:
  assumes "holds nodes path hs fs"
  shows "\<exists>path'. holds (add_header sig nodes) path' (insert sig hs) fs"
proof (cases "sg_header sig = []")
  case True
  have "[] \<in> trie_words nodes path" using trie_words_root holds_trie assms by blast
  then have "holds nodes path (insert sig hs) fs" using assms True by (simp add: holds_def matching_insert)
  then show ?thesis using True by (auto simp: add_header_def)
next
  case False
  obtain ns t where ins: "trie_insert nodes 0 (sg_header sig) = (ns, t)" by force
  then obtain path' where h: "holds ns path' hs fs" and t: "t < length ns" "path' t = sg_header sig" using holds_inserted assms by blast
  let ?ns = "ns[t := (ns ! t)\<lparr>ac_headers := ac_headers (ns ! t) @ [sg_id sig]\<rparr>]"
  have tr: "trie ns path'" using h by (simp add: holds_def)
  have "trie ?ns path'" by (rule trie_cong [OF tr]) (use t in \<open>auto simp: nth_list_update\<close>)
  moreover have "ac_fail (?ns ! s) = 0 \<and> set (ac_headers (?ns ! s)) = matching sg_header (insert sig hs) (\<lambda>p. p = path' s)
      \<and> set (ac_footers (?ns ! s)) = matching sg_footer fs (\<lambda>p. p = path' s)" if s: "s < length ns" for s
  proof -
    have "sg_header sig = path' s \<longleftrightarrow> s = t" using trie_inj [OF tr s t(1)] t(2) by auto
    then show ?thesis using holds_node [OF h s] s False by (cases "s = t") (simp_all only: matching_insert nth_list_update_eq nth_list_update_neq, simp_all)
  qed
  moreover have "sg_header sig \<in> trie_words ns path'" using path_in_words [OF t(1), of path'] t(2) by simp
  ultimately have "holds ?ns path' (insert sig hs) fs"
    using holds_words [OF h] by (intro holdsI) (simp_all only: same_children_words [of ?ns ns path'] image_insert insert_subset length_list_update)
  then show ?thesis using False ins by (auto simp: add_header_def)
qed

lemma add_footer_holds:
  assumes "holds nodes path hs fs"
  shows "\<exists>path'. holds (add_footer sig nodes) path' hs (insert sig fs)"
proof (cases "sg_footer sig = []")
  case True
  have "[] \<in> trie_words nodes path" using trie_words_root holds_trie assms by blast
  then have "holds nodes path hs (insert sig fs)" using assms True by (simp add: holds_def matching_insert)
  then show ?thesis using True by (auto simp: add_footer_def)
next
  case False
  obtain ns t where ins: "trie_insert nodes 0 (sg_footer sig) = (ns, t)" by force
  then obtain path' where h: "holds ns path' hs fs" and t: "t < length ns" "path' t = sg_footer sig" using holds_inserted assms by blast
  let ?ns = "ns[t := (ns ! t)\<lparr>ac_footers := ac_footers (ns ! t) @ [sg_id sig]\<rparr>]"
  have tr: "trie ns path'" using h by (simp add: holds_def)
  have "trie ?ns path'" by (rule trie_cong [OF tr]) (use t in \<open>auto simp: nth_list_update\<close>)
  moreover have "ac_fail (?ns ! s) = 0 \<and> set (ac_headers (?ns ! s)) = matching sg_header hs (\<lambda>p. p = path' s)
      \<and> set (ac_footers (?ns ! s)) = matching sg_footer (insert sig fs) (\<lambda>p. p = path' s)" if s: "s < length ns" for s
  proof -
    have "sg_footer sig = path' s \<longleftrightarrow> s = t" using trie_inj [OF tr s t(1)] t(2) by auto
    then show ?thesis using holds_node [OF h s] s False by (cases "s = t") (simp_all only: matching_insert nth_list_update_eq nth_list_update_neq, simp_all)
  qed
  moreover have "sg_footer sig \<in> trie_words ns path'" using path_in_words [OF t(1), of path'] t(2) by simp
  ultimately have "holds ?ns path' hs (insert sig fs)"
    using holds_words [OF h] by (intro holdsI) (simp_all only: same_children_words [of ?ns ns path'] image_insert insert_subset length_list_update)
  then show ?thesis using False ins by (auto simp: add_footer_def)
qed

lemma build_trie_holds: "\<exists>path. holds (build_trie sigs) path (set sigs) (set sigs)"
proof -
  have "\<exists>path'. holds (fold (\<lambda>sig nodes. add_footer sig (add_header sig nodes)) sigs nodes) path' (D \<union> set sigs) (D \<union> set sigs)"
    if "holds nodes path D D" for nodes path D
    using that
  proof (induction sigs arbitrary: nodes path D)
    case Nil
    then show ?case by auto
  next
    case (Cons sig sigs)
    obtain p1 where "holds (add_header sig nodes) p1 (insert sig D) D" using add_header_holds Cons.prems by blast
    then obtain p2 where "holds (add_footer sig (add_header sig nodes)) p2 (insert sig D) (insert sig D)" using add_footer_holds by blast
    then show ?case using Cons.IH by fastforce
  qed
  moreover have "holds [new_ac_node] (\<lambda>s. []) {} {}"
    by (simp add: holds_def trie_def matching_def new_ac_node_def inj_on_def)
  ultimately show ?thesis unfolding build_trie_def by fastforce
qed

section \<open>The breadth-first order\<close>

lemma all_bytes: "set (map word_of_nat [0..<256]) = (UNIV :: byte set)"
proof -
  have "b \<in> set (map word_of_nat [0..<256])" for b :: byte
    using unat_byte_less [of b] by (force intro!: image_eqI [of _ _ "unat b"])
  then show ?thesis by blast
qed

lemma distinct_bytes: "distinct (map word_of_nat [0..<256] :: byte list)"
  by (simp add: distinct_map inj_on_def word_unat_eq_iff take_bit_nat_def unat_of_nat)

lemma kids_filter:
  "kids node = map (\<lambda>b. (b, the (ac_children node b))) (filter (\<lambda>b. ac_children node b \<noteq> None) (map word_of_nat [0..<256]))"
proof -
  have "concat (map (\<lambda>b. case ac_children node b of None \<Rightarrow> [] | Some t \<Rightarrow> [(b, t)]) bs)
      = map (\<lambda>b. (b, the (ac_children node b))) (filter (\<lambda>b. ac_children node b \<noteq> None) bs)" for bs
    by (induction bs) (auto split: option.splits)
  then show ?thesis unfolding kids_def by blast
qed

lemma kids_iff: "(b, t) \<in> set (kids node) \<longleftrightarrow> ac_children node b = Some t"
  unfolding kids_filter set_map [of _ "filter _ _"] set_filter all_bytes by auto

lemma kids_distinct:
  assumes "trie nodes path" "s < length nodes"
  shows "distinct (map snd (kids (nodes ! s)))"
proof -
  have "inj_on (\<lambda>b. the (ac_children (nodes ! s) b)) {b. ac_children (nodes ! s) b \<noteq> None}"
  proof (rule inj_onI)
    fix b c assume bc: "b \<in> {b. ac_children (nodes ! s) b \<noteq> None}" "c \<in> {b. ac_children (nodes ! s) b \<noteq> None}"
      "the (ac_children (nodes ! s) b) = the (ac_children (nodes ! s) c)"
    then obtain t where t: "ac_children (nodes ! s) b = Some t" "ac_children (nodes ! s) c = Some t" by auto
    then have "path s @ [b] = path s @ [c]" using trie_child [OF assms t(1)] trie_child [OF assms t(2)] by metis
    then show "b = c" by simp
  qed
  then show ?thesis unfolding kids_filter using distinct_bytes by (simp add: distinct_map o_def inj_on_def)
qed

text \<open>\<open>P\<close> has left the queue \<open>q\<close>: a node is in one of them exactly if its parent is in \<open>P\<close>, and the depths in
  the queue grow by at most one.\<close>

definition bfs :: "ac_node list \<Rightarrow> (nat \<Rightarrow> buf) \<Rightarrow> nat set \<Rightarrow> nat list \<Rightarrow> bool" where
  "bfs nodes path P q \<longleftrightarrow> 0 \<in> P \<and> P \<union> set q \<subseteq> {..<length nodes} \<and> distinct q \<and> set q \<inter> P = {}
     \<and> (\<forall>s < length nodes. \<forall>b t. ac_children (nodes ! s) b = Some t \<longrightarrow> (t \<in> P \<union> set q \<longleftrightarrow> s \<in> P))
     \<and> sorted (map (\<lambda>x. length (path x)) q)
     \<and> (q \<noteq> [] \<longrightarrow> (\<forall>x \<in> set q. length (path x) \<le> Suc (length (path (hd q)))) \<and> (\<forall>p \<in> P. length (path p) \<le> length (path (hd q))))"

lemma sorted_constant: "(\<And>x. x \<in> set xs \<Longrightarrow> f x = (c :: nat)) \<Longrightarrow> sorted (map f xs)"
  by (induction xs) auto

lemma kids_snd: "t \<in> set (map snd (kids node)) \<longleftrightarrow> (\<exists>b. ac_children node b = Some t)"
  unfolding set_map image_def Bex_def by (simp flip: kids_iff)

lemma bfs_start:
  assumes "trie nodes path"
  shows "bfs nodes path {0} (map snd (kids (nodes ! 0)))"
proof -
  define ks where "ks = map snd (kids (nodes ! 0))"
  have root: "0 < length nodes" "path 0 = []" using trie_root [OF assms] by blast+
  have kid: "t \<in> set ks \<longleftrightarrow> (\<exists>b. ac_children (nodes ! 0) b = Some t)" for t unfolding ks_def by (rule kids_snd)
  have depth: "t < length nodes \<and> length (path t) = 1 \<and> t \<noteq> 0" if kt: "t \<in> set ks" for t
  proof -
    obtain b where b: "ac_children (nodes ! 0) b = Some t" using kt unfolding kid by blast
    then have "t < length nodes" "path t = [] @ [b]" using trie_child [OF assms root(1) b] root(2) by simp_all
    then show ?thesis using trie_snoc_nonzero [OF assms] by simp
  qed
  have parent: "t \<in> {0} \<union> set ks \<longleftrightarrow> s = 0" if "s < length nodes" "ac_children (nodes ! s) b = Some t" for s b t
  proof -
    have t: "t < length nodes" "path t = path s @ [b]" using trie_child [OF assms that] by blast+
    then have "t \<noteq> 0" using trie_snoc_nonzero [OF assms] by blast
    moreover have "path s = []" if "t \<in> set ks" using depth [OF that] t(2) by simp
    ultimately show ?thesis using that kid trie_nonempty [OF assms that(1)] by auto
  qed
  have "sorted (map (\<lambda>x. length (path x)) ks)" by (rule sorted_constant [of _ _ 1]) (use depth in auto)
  moreover have "distinct ks" unfolding ks_def by (rule kids_distinct [OF assms root(1)])
  moreover have "length (path x) \<le> Suc (length (path (hd ks)))" "length (path 0) \<le> length (path (hd ks))" if "x \<in> set ks" for x
    using depth [OF that] root(2) by simp_all
  moreover have "{0} \<union> set ks \<subseteq> {..<length nodes}" "set ks \<inter> {0} = {}" using depth root(1) by auto
  ultimately show ?thesis unfolding bfs_def ks_def [symmetric] using parent root(2) by simp
qed

lemma bfs_bound: "bfs nodes path P q \<Longrightarrow> P \<union> set q \<subseteq> {..<length nodes} \<and> set q \<inter> P = {} \<and> distinct q \<and> 0 \<in> P"
  by (simp add: bfs_def)

lemma bfs_parent: "bfs nodes path P q \<Longrightarrow> s < length nodes \<Longrightarrow> ac_children (nodes ! s) b = Some t \<Longrightarrow> t \<in> P \<union> set q \<longleftrightarrow> s \<in> P"
  unfolding bfs_def by blast

lemma bfs_order:
  assumes "bfs nodes path P (s # q)"
  shows "sorted (map (\<lambda>x. length (path x)) q)" "\<And>x. x \<in> set q \<Longrightarrow> length (path s) \<le> length (path x) \<and> length (path x) \<le> Suc (length (path s))"
    "\<And>p. p \<in> P \<Longrightarrow> length (path p) \<le> length (path s)"
  using assms by (simp_all add: bfs_def)

lemma bfs_step:
  assumes "trie nodes path" "bfs nodes path P (s # q)"
  shows "bfs nodes path (insert s P) (q @ map snd (kids (nodes ! s)))" (is "bfs _ _ ?P (q @ ?ks)")
proof -
  note bound = bfs_bound [OF assms(2)]
  have s: "s < length nodes" "s \<notin> P" "s \<notin> set q" using bound by auto
  have kid: "t < length nodes \<and> length (path t) = Suc (length (path s)) \<and> t \<notin> ?P \<union> set q" if kt: "t \<in> set ?ks" for t
  proof -
    obtain b where b: "ac_children (nodes ! s) b = Some t" using kt unfolding kids_snd by blast
    then show ?thesis using trie_child [OF assms(1) s(1) b] bfs_parent [OF assms(2) s(1) b] s(2) by auto
  qed
  have parent: "t \<in> ?P \<union> set (q @ ?ks) \<longleftrightarrow> u \<in> ?P" if u: "u < length nodes" "ac_children (nodes ! u) b = Some t" for u b t
  proof (cases "u = s")
    case True
    then show ?thesis using u kids_snd by auto
  next
    case False
    have "t \<notin> set ?ks"
    proof
      assume "t \<in> set ?ks"
      then obtain c where "ac_children (nodes ! s) c = Some t" unfolding kids_snd by blast
      then have "path s @ [c] = path u @ [b]" using trie_child [OF assms(1) s(1)] trie_child [OF assms(1) u] by metis
      then show False using False trie_inj [OF assms(1) u(1) s(1)] by simp
    qed
    then show ?thesis using bfs_parent [OF assms(2) u] False by auto
  qed
  have order: "sorted (map (\<lambda>x. length (path x)) (q @ ?ks))"
  proof -
    have "sorted (map (\<lambda>x. length (path x)) ?ks)"
      using kid by (intro sorted_constant [of _ _ "Suc (length (path s))"]) blast
    then show ?thesis using bfs_order(1,2) [OF assms(2)] kid by (auto simp: sorted_append)
  qed
  have near: "length (path s) \<le> length (path x) \<and> length (path x) \<le> Suc (length (path s))" if "x \<in> set (q @ ?ks)" for x
    using that bfs_order(2) [OF assms(2), of x] kid [of x] unfolding set_append by fastforce
  have early: "length (path p) \<le> length (path s)" if "p \<in> ?P" for p
    using that bfs_order(3) [OF assms(2)] by auto
  have "length (path x) \<le> Suc (length (path (hd (q @ ?ks))))" if "x \<in> set (q @ ?ks)" for x
    using near [OF that] near [OF hd_in_set] that by fastforce
  moreover have "length (path p) \<le> length (path (hd (q @ ?ks)))" if "q @ ?ks \<noteq> []" "p \<in> ?P" for p
    using early [OF that(2)] near [OF hd_in_set [OF that(1)]] by linarith
  moreover have "?P \<union> set (q @ ?ks) \<subseteq> {..<length nodes}" "distinct (q @ ?ks)" "set (q @ ?ks) \<inter> ?P = {}"
    using kid bound s kids_distinct [OF assms(1) s(1)] by (auto simp del: set_map)
  ultimately show ?thesis unfolding bfs_def using bound parent order by blast
qed

lemma bfs_shallow:
  assumes "trie nodes path" "bfs nodes path P q" "s < length nodes" "q = [] \<or> length (path s) < length (path (hd q))"
  shows "s \<in> P"
  using assms(3,4)
proof (induction "length (path s)" arbitrary: s)
  case 0
  then show ?case using trie_nonempty [OF assms(1)] bfs_bound [OF assms(2)] by simp
next
  case (Suc k)
  then have "s \<noteq> 0" using trie_root [OF assms(1)] by (metis list.size(3) nat.distinct(1))
  then obtain u b where u: "u < length nodes" "ac_children (nodes ! u) b = Some s" "path s = path u @ [b]"
    using trie_parent [OF assms(1) Suc(3)] by blast
  then have "u \<in> P" using Suc(1) [of u] Suc(2,4) by auto
  then have "s \<in> P \<union> set q" using bfs_parent [OF assms(2) u(1,2)] by blast
  moreover have "s \<notin> set q"
  proof
    assume "s \<in> set q"
    then obtain a as where q: "q = a # as" by (cases q) auto
    then have "length (path a) \<le> length (path s)" using bfs_order(2) [of nodes path P a as s] assms(2) \<open>s \<in> set q\<close> by auto
    then show False using Suc(4) q by simp
  qed
  ultimately show ?case by blast
qed

lemma bfs_reached:
  assumes "trie nodes path" "bfs nodes path P (s # q)" "t < length nodes" "length (path t) \<le> length (path s)"
  shows "t \<in> P \<union> set (s # q)"
proof (cases "t = 0")
  case False
  then obtain u b where u: "u < length nodes" "ac_children (nodes ! u) b = Some t" "path t = path u @ [b]"
    using trie_parent [OF assms(1,3)] by blast
  then have "u \<in> P" using bfs_shallow [OF assms(1,2) u(1)] assms(4) by simp
  then show ?thesis using bfs_parent [OF assms(2) u(1,2)] by blast
qed (use bfs_bound [OF assms(2)] in blast)

lemma bfs_end:
  assumes "trie nodes path" "bfs nodes path P []" "s < length nodes"
  shows "s \<in> P"
  using bfs_shallow assms by blast

lemma bfs_measure:
  assumes "bfs nodes path P (s # q)"
  shows "length nodes - card (insert s P) < length nodes - card P"
proof -
  have "P \<subseteq> {..<length nodes}" "s < length nodes" "s \<notin> P" using bfs_bound [OF assms] by auto
  moreover have "finite P" using calculation(1) finite_subset by blast
  moreover have "card (insert s P) \<le> length nodes" using calculation(1,2) card_mono [of "{..<length nodes}" "insert s P"] by auto
  ultimately show ?thesis by simp
qed

lemma bfs_cong:
  assumes "bfs nodes path P q" "length nodes' = length nodes" "\<And>s. s < length nodes \<Longrightarrow> ac_children (nodes' ! s) = ac_children (nodes ! s)"
  shows "bfs nodes' path P q"
  using assms(1) unfolding bfs_def assms(2) by (simp add: assms(3))

section \<open>The links\<close>

text \<open>A node with its final link and match lists: the link leads to the longest proper suffix that is a
  prefix of a pattern, and the lists hold every pattern that is a suffix.\<close>

definition linked :: "ac_node list \<Rightarrow> (nat \<Rightarrow> buf) \<Rightarrow> file_signature set \<Rightarrow> nat \<Rightarrow> bool" where
  "linked nodes path sigs t \<longleftrightarrow> ac_fail (nodes ! t) < length nodes
     \<and> path (ac_fail (nodes ! t)) = longest (trie_words nodes path) (tl (path t))
     \<and> set (ac_headers (nodes ! t)) = matching sg_header sigs (\<lambda>p. suffix p (path t))
     \<and> set (ac_footers (nodes ! t)) = matching sg_footer sigs (\<lambda>p. suffix p (path t))"

definition unlinked :: "ac_node list \<Rightarrow> (nat \<Rightarrow> buf) \<Rightarrow> file_signature set \<Rightarrow> nat \<Rightarrow> bool" where
  "unlinked nodes path sigs t \<longleftrightarrow>
     set (ac_headers (nodes ! t)) = matching sg_header sigs (\<lambda>p. p = path t)
     \<and> set (ac_footers (nodes ! t)) = matching sg_footer sigs (\<lambda>p. p = path t)"

definition patterns_in :: "buf set \<Rightarrow> file_signature set \<Rightarrow> bool" where
  "patterns_in W sigs \<longleftrightarrow> sg_header ` sigs \<subseteq> W \<and> sg_footer ` sigs \<subseteq> W"

definition links :: "ac_node list \<Rightarrow> (nat \<Rightarrow> buf) \<Rightarrow> file_signature set \<Rightarrow> nat set \<Rightarrow> bool" where
  "links nodes path sigs G \<longleftrightarrow> trie nodes path \<and> patterns_in (trie_words nodes path) sigs
     \<and> (\<forall>t < length nodes. if t \<in> G then linked nodes path sigs t else unlinked nodes path sigs t)"

lemma links_trie: "links nodes path sigs G \<Longrightarrow> trie nodes path"
  by (simp add: links_def)

lemma links_linked: "links nodes path sigs G \<Longrightarrow> t \<in> G \<Longrightarrow> t < length nodes \<Longrightarrow> linked nodes path sigs t"
  by (auto simp: links_def)

lemma links_unlinked: "links nodes path sigs G \<Longrightarrow> t \<notin> G \<Longrightarrow> t < length nodes \<Longrightarrow> unlinked nodes path sigs t"
  by (auto simp: links_def)

lemma matching_suffix:
  assumes "pat ` sigs \<subseteq> W"
  shows "matching pat sigs (\<lambda>p. p = a # z) \<union> matching pat sigs (\<lambda>p. suffix p (longest W z)) = matching pat sigs (\<lambda>p. suffix p (a # z))"
proof -
  have "pat sig = a # z \<or> suffix (pat sig) (longest W z) \<longleftrightarrow> suffix (pat sig) (a # z)" if "sig \<in> sigs" for sig
    using suffix_best [of "pat sig" W z] assms that by (auto simp: suffix_Cons)
  then have "{sig \<in> sigs. pat sig \<noteq> [] \<and> pat sig = a # z} \<union> {sig \<in> sigs. pat sig \<noteq> [] \<and> suffix (pat sig) (longest W z)}
      = {sig \<in> sigs. pat sig \<noteq> [] \<and> suffix (pat sig) (a # z)}" by blast
  then show ?thesis unfolding matching_def by (simp flip: image_Un)
qed

text \<open>Where the search along the links ends.\<close>

lemma fail_state_finds:
  assumes "trie nodes path" "\<And>u. u < length nodes \<Longrightarrow> length (path u) \<le> k \<Longrightarrow>
      ac_fail (nodes ! u) < length nodes \<and> path (ac_fail (nodes ! u)) = longest (trie_words nodes path) (tl (path u))"
  shows "s < length nodes \<Longrightarrow> length (path s) \<le> k \<Longrightarrow> \<exists>f target. fail_state nodes b s = Some f
    \<and> target = (case ac_children (nodes ! f) b of Some u \<Rightarrow> u | None \<Rightarrow> 0)
    \<and> target < length nodes \<and> path target = longest (trie_words nodes path) (path s @ [b])"
proof (induction "length (path s)" arbitrary: s rule: less_induct)
  case less
  let ?W = "trie_words nodes path"
  note root = trie_root [OF assms(1)]
  show ?case
  proof (cases "ac_children (nodes ! s) b")
    case (Some u)
    then have u: "u < length nodes" "path u = path s @ [b]" using trie_child [OF assms(1) less(2)] by blast+
    then have "longest ?W (path s @ [b]) = path s @ [b]" using best_id path_in_words by metis
    moreover have "fail_state nodes b s = Some s" using Some by (subst fail_state.simps) simp
    ultimately show ?thesis using Some u by auto
  next
    case None
    then have out: "path s @ [b] \<notin> ?W" using trie_child_none [OF assms(1) less(2)] by blast
    show ?thesis
    proof (cases "s = 0")
      case True
      then have "longest ?W (path s @ [b]) = []" using out root by simp
      moreover have "fail_state nodes b s = Some 0" using True by (subst fail_state.simps) simp
      ultimately show ?thesis using True None root by auto
    next
      case False
      then obtain a x where x: "path s = a # x" using trie_nonempty [OF assms(1) less(2)] by (cases "path s") auto
      let ?f = "ac_fail (nodes ! s)"
      have f: "?f < length nodes" "path ?f = longest ?W x" using assms(2) [OF less(2,3)] x by simp_all
      have "length (longest ?W x) \<le> length x" using best_suffix suffix_length_le by blast
      then have short: "length (path ?f) < length (path s)" "length (path ?f) \<le> k" using f x less(3) by simp_all
      have "longest ?W (path s @ [b]) = longest ?W (x @ [b])" using out x by simp
      also have "\<dots> = longest ?W (path ?f @ [b])" using best_snoc [OF trie_words_closed [OF assms(1)]] f(2) by simp
      finally have "longest ?W (path s @ [b]) = longest ?W (path ?f @ [b])" .
      moreover have "fail_state nodes b s = fail_state nodes b ?f" using False None by (subst fail_state.simps) simp
      ultimately show ?thesis using less(1) [OF short(1) f(1) short(2)] by simp
    qed
  qed
qed

lemma link_child_links:
  assumes "links nodes path sigs G" "c \<in> G" "c < length nodes" "c \<noteq> 0" "ac_children (nodes ! c) b = Some t" "t \<notin> G"
    "\<And>u. u < length nodes \<Longrightarrow> length (path u) \<le> length (path c) \<Longrightarrow> u \<in> G"
  shows "\<exists>nodes'. link_child nodes c (b, t) = Some nodes' \<and> links nodes' path sigs (insert t G)
    \<and> length nodes' = length nodes \<and> (\<forall>s < length nodes. ac_children (nodes' ! s) = ac_children (nodes ! s))"
proof -
  let ?W = "trie_words nodes path"
  note trie = links_trie [OF assms(1)]
  have lk: "linked nodes path sigs u" if "u < length nodes" "length (path u) \<le> length (path c)" for u
    using links_linked [OF assms(1) assms(7) [OF that] that(1)] .
  obtain a x where x: "path c = a # x" using trie_nonempty [OF trie assms(3)] assms(4) by (cases "path c") auto
  have t: "t < length nodes" "path t = a # (x @ [b])" using trie_child [OF trie assms(3,5)] x by simp_all
  let ?fc = "ac_fail (nodes ! c)"
  have fc: "?fc < length nodes" "path ?fc = longest ?W x" using lk [OF assms(3)] x by (simp_all add: linked_def)
  have "length (longest ?W x) \<le> length x" using best_suffix suffix_length_le by blast
  then have shallow: "length (path ?fc) \<le> length (path c)" using fc x by simp
  obtain f target where f: "fail_state nodes b ?fc = Some f"
    and target: "target = (case ac_children (nodes ! f) b of Some u \<Rightarrow> u | None \<Rightarrow> 0)" "target < length nodes"
      "path target = longest ?W (path ?fc @ [b])"
    using fail_state_finds [OF trie, of "length (path c)" ?fc b] lk fc shallow unfolding linked_def by blast
  have pt: "path target = longest ?W (x @ [b])" using target(3) fc(2) best_snoc [OF trie_words_closed [OF trie]] by simp
  have "length (path target) \<le> length (x @ [b])" unfolding pt using best_suffix suffix_length_le by blast
  then have "linked nodes path sigs target" using lk target(2) x by simp
  then have tg: "set (ac_headers (nodes ! target)) = matching sg_header sigs (\<lambda>p. suffix p (longest ?W (x @ [b])))"
    "set (ac_footers (nodes ! target)) = matching sg_footer sigs (\<lambda>p. suffix p (longest ?W (x @ [b])))"
    unfolding linked_def pt by simp_all
  let ?node = "(nodes ! t)\<lparr>ac_fail := target, ac_headers := ac_headers (nodes ! t) @ ac_headers (nodes ! target),
      ac_footers := ac_footers (nodes ! t) @ ac_footers (nodes ! target)\<rparr>"
  let ?nodes = "nodes[t := ?node]"
  have step: "link_child nodes c (b, t) = Some ?nodes"
    unfolding link_child_def using f target(1) by (simp add: Let_def)
  have kids: "ac_children (?nodes ! s) = ac_children (nodes ! s)" if "s < length nodes" for s
    using t(1) by (auto simp: nth_list_update)
  have W: "trie_words ?nodes path = ?W" by (rule same_children_words) simp
  have pats: "sg_header ` sigs \<subseteq> ?W" "sg_footer ` sigs \<subseteq> ?W" using assms(1) by (simp_all add: links_def patterns_in_def)
  have own: "set (ac_headers (nodes ! t)) = matching sg_header sigs (\<lambda>p. p = path t)"
    "set (ac_footers (nodes ! t)) = matching sg_footer sigs (\<lambda>p. p = path t)"
    using links_unlinked [OF assms(1,6) t(1)] by (simp_all add: unlinked_def)
  have here: "linked ?nodes path sigs t"
    unfolding linked_def W
    using t target(2) pt own tg matching_suffix [OF pats(1), of a "x @ [b]"] matching_suffix [OF pats(2), of a "x @ [b]"] by simp
  have others: "linked ?nodes path sigs s = linked nodes path sigs s" "unlinked ?nodes path sigs s = unlinked nodes path sigs s"
    if "s \<noteq> t" for s
    using that unfolding linked_def unlinked_def W by simp_all
  have "if s \<in> insert t G then linked ?nodes path sigs s else unlinked ?nodes path sigs s" if s: "s < length nodes" for s
  proof (cases "s = t")
    case True
    then show ?thesis using here by simp
  next
    case False
    then show ?thesis unfolding others [OF False] using links_linked [OF assms(1) _ s] links_unlinked [OF assms(1) _ s] by simp
  qed
  moreover have "trie ?nodes path" by (rule trie_cong [OF trie]) (simp_all add: kids)
  ultimately have "links ?nodes path sigs (insert t G)" using pats unfolding links_def W patterns_in_def by simp
  then show ?thesis using step kids by auto
qed

lemma link_kids_links:
  assumes "links nodes path sigs G" "c \<in> G" "c < length nodes" "c \<noteq> 0" "distinct (map snd ks)"
    "\<And>b t. (b, t) \<in> set ks \<Longrightarrow> ac_children (nodes ! c) b = Some t \<and> t \<notin> G"
    "\<And>u. u < length nodes \<Longrightarrow> length (path u) \<le> length (path c) \<Longrightarrow> u \<in> G"
  shows "\<exists>nodes'. link_kids nodes c ks = Some nodes' \<and> links nodes' path sigs (G \<union> set (map snd ks))
    \<and> length nodes' = length nodes \<and> (\<forall>s < length nodes. ac_children (nodes' ! s) = ac_children (nodes ! s))"
  using assms
proof (induction ks arbitrary: nodes G)
  case (Cons kid ks)
  obtain b t where kid: "kid = (b, t)" by force
  then have t: "ac_children (nodes ! c) b = Some t" "t \<notin> G" using Cons.prems(6) [of b t] by simp_all
  obtain n1 where n1: "link_child nodes c (b, t) = Some n1" "links n1 path sigs (insert t G)" "length n1 = length nodes"
      "\<forall>s < length nodes. ac_children (n1 ! s) = ac_children (nodes ! s)"
    using link_child_links [OF Cons.prems(1-4) t Cons.prems(7)] by blast
  have "ac_children (n1 ! c) b' = Some t' \<and> t' \<notin> insert t G" if "(b', t') \<in> set ks" for b' t'
    using Cons.prems(3,5) Cons.prems(6) [of b' t'] n1(4) that kid by force
  then obtain n2 where "link_kids n1 c ks = Some n2" "links n2 path sigs (insert t G \<union> set (map snd ks))" "length n2 = length n1"
      "\<forall>s < length n1. ac_children (n2 ! s) = ac_children (n1 ! s)"
    using Cons.IH [OF n1(2)] Cons.prems(2-5,7) n1(3) by fastforce
  then show ?case using n1 kid by (auto simp: insert_commute)
qed auto

lemma link_nodes_links:
  assumes "links nodes path sigs (P \<union> set q)" "bfs nodes path P q"
  shows "\<exists>nodes'. link_nodes nodes q = Some nodes' \<and> links nodes' path sigs {..<length nodes'}"
  using assms
proof (induction "length nodes - card P" arbitrary: nodes P q rule: less_induct)
  case less
  note trie = links_trie [OF less(2)]
  show ?case
  proof (cases q)
    case Nil
    have "P = {..<length nodes}" using bfs_end [OF trie] bfs_bound less(3) Nil by blast
    then have "links nodes path sigs {..<length nodes}" using less(2) Nil by simp
    moreover have "link_nodes nodes q = Some nodes" using Nil by (subst link_nodes.simps) simp
    ultimately show ?thesis by blast
  next
    case (Cons c q')
    let ?ks = "kids (nodes ! c)"
    have b: "bfs nodes path P (c # q')" using less(3) Cons by simp
    note bound = bfs_bound [OF b]
    have c: "c < length nodes" "c \<noteq> 0" "c \<notin> P" using bound by auto
    have kid: "ac_children (nodes ! c) b = Some t \<and> t \<notin> P \<union> set q" if "(b, t) \<in> set ?ks" for b t
    proof -
      have "ac_children (nodes ! c) b = Some t" using that kids_iff by blast
      then show ?thesis using bfs_parent [OF less(3) c(1)] c(3) by blast
    qed
    have shallow: "u \<in> P \<union> set q" if "u < length nodes" "length (path u) \<le> length (path c)" for u
      using bfs_reached [OF trie b that] Cons by simp
    have "c \<in> P \<union> set q" using Cons by simp
    then obtain n1 where n1: "link_kids nodes c ?ks = Some n1" "links n1 path sigs (P \<union> set q \<union> set (map snd ?ks))" "length n1 = length nodes"
        "\<forall>s < length nodes. ac_children (n1 ! s) = ac_children (nodes ! s)"
      using link_kids_links [OF less(2) _ c(1,2) kids_distinct [OF trie c(1)] kid shallow] by blast
    have "bfs n1 path (insert c P) (q' @ map snd ?ks)" using n1(4) by (intro bfs_cong [OF bfs_step [OF trie b] n1(3)]) blast
    moreover have "P \<union> set q \<union> set (map snd ?ks) = insert c P \<union> set (q' @ map snd ?ks)" using Cons by auto
    then have "links n1 path sigs (insert c P \<union> set (q' @ map snd ?ks))" using n1(2) by simp
    moreover have "length n1 - card (insert c P) < length nodes - card P" using bfs_measure [OF b] n1(3) by simp
    ultimately obtain n2 where "link_nodes n1 (q' @ map snd ?ks) = Some n2" "links n2 path sigs {..<length n2}"
      using less(1) [of n1 "insert c P" "q' @ map snd ?ks"] by blast
    moreover have "link_nodes nodes q = link_nodes n1 (q' @ map snd ?ks)" using n1(1) Cons by (subst link_nodes.simps) simp
    ultimately show ?thesis by simp
  qed
qed

section \<open>The table\<close>

text \<open>The row of a state: the longest suffix, one byte further.\<close>

definition row_ok :: "ac_node list \<Rightarrow> (nat \<Rightarrow> buf) \<Rightarrow> nat list \<Rightarrow> nat \<Rightarrow> bool" where
  "row_ok nodes path table s \<longleftrightarrow> (\<forall>c < 256. table ! (s * 256 + c) < length nodes
     \<and> path (table ! (s * 256 + c)) = longest (trie_words nodes path) (path s @ [word_of_nat c]))"

lemma fold_row:
  assumes "(s + 1) * 256 \<le> length table" "\<And>tb c. (\<And>i. i < s * 256 \<or> (s + 1) * 256 \<le> i \<Longrightarrow> tb ! i = table ! i) \<Longrightarrow> c < 256 \<Longrightarrow> g tb c = h c"
    "k \<le> 256"
  shows "let tb = fold (\<lambda>c tb. tb[s * 256 + c := g tb c]) [0..<k] table
    in length tb = length table \<and> (\<forall>c < k. tb ! (s * 256 + c) = h c) \<and> (\<forall>i. i < s * 256 \<or> s * 256 + k \<le> i \<longrightarrow> tb ! i = table ! i)"
  using assms(3)
proof (induction k)
  case (Suc k)
  let ?tb = "fold (\<lambda>c tb. tb[s * 256 + c := g tb c]) [0..<k] table"
  have IH: "length ?tb = length table" "\<forall>c < k. ?tb ! (s * 256 + c) = h c" "\<forall>i. i < s * 256 \<or> s * 256 + k \<le> i \<longrightarrow> ?tb ! i = table ! i"
    using Suc unfolding Let_def by simp_all
  have "?tb ! i = table ! i" if "i < s * 256 \<or> (s + 1) * 256 \<le> i" for i using IH(3) that Suc(2) by auto
  then have "g ?tb k = h k" using assms(2) [of ?tb k] Suc(2) by simp
  moreover have "s * 256 + k < length ?tb" using assms(1) IH(1) Suc(2) by simp
  ultimately show ?case using IH by (auto simp: Let_def nth_list_update less_Suc_eq)
qed simp

lemma next_row_ok:
  assumes "trie nodes path" "s < length nodes" "s \<noteq> 0" "length table = length nodes * 256"
    "ac_fail (nodes ! s) \<noteq> s" "path (ac_fail (nodes ! s)) = longest (trie_words nodes path) (tl (path s))"
    "row_ok nodes path table (ac_fail (nodes ! s))"
  shows "row_ok nodes path (next_row nodes s table) s \<and> length (next_row nodes s table) = length table
    \<and> (\<forall>u < length nodes. u \<noteq> s \<longrightarrow> row_ok nodes path table u \<longrightarrow> row_ok nodes path (next_row nodes s table) u)"
proof -
  let ?f = "ac_fail (nodes ! s)" and ?W = "trie_words nodes path" and ?tb = "next_row nodes s table"
  let ?h = "\<lambda>c. case ac_children (nodes ! s) (word_of_nat c) of Some t \<Rightarrow> t | None \<Rightarrow> table ! (?f * 256 + c)"
  have apart: "u * 256 + c < s * 256 \<or> (s + 1) * 256 \<le> u * 256 + c" if uc: "u \<noteq> s" "c < 256" for u c
  proof -
    consider "u < s" | "s < u" using uc(1) by linarith
    then show ?thesis using uc(2) by cases auto
  qed
  have len: "(s + 1) * 256 \<le> length table" using assms(2,4) by simp
  have step: "(case ac_children (nodes ! s) (word_of_nat c) of Some t \<Rightarrow> t | None \<Rightarrow> tb ! (?f * 256 + c)) = ?h c"
    if same: "\<And>i. i < s * 256 \<or> (s + 1) * 256 \<le> i \<Longrightarrow> tb ! i = table ! i" and c: "c < 256" for tb c
    using same [OF apart [OF assms(5) c]] by (simp split: option.split)
  have "length ?tb = length table \<and> (\<forall>c < 256. ?tb ! (s * 256 + c) = ?h c) \<and> (\<forall>i. i < s * 256 \<or> s * 256 + 256 \<le> i \<longrightarrow> ?tb ! i = table ! i)"
    unfolding next_row_def using fold_row [OF len step order_refl] unfolding Let_def .
  then have tb: "length ?tb = length table" "\<And>c. c < 256 \<Longrightarrow> ?tb ! (s * 256 + c) = ?h c"
    "\<And>i. i < s * 256 \<or> (s + 1) * 256 \<le> i \<Longrightarrow> ?tb ! i = table ! i"
    unfolding distrib_right mult_1 by blast+
  obtain a x where x: "path s = a # x" using trie_nonempty [OF assms(1,2)] assms(3) by (cases "path s") auto
  have "?h c < length nodes \<and> path (?h c) = longest ?W (path s @ [word_of_nat c])" if c: "c < 256" for c
  proof (cases "ac_children (nodes ! s) (word_of_nat c)")
    case (Some t)
    then have t: "t < length nodes" "path t = path s @ [word_of_nat c]" using trie_child [OF assms(1,2)] by blast+
    then have "longest ?W (path s @ [word_of_nat c]) = path s @ [word_of_nat c]" using best_id path_in_words by metis
    then show ?thesis using Some t by simp
  next
    case None
    then have "path s @ [word_of_nat c] \<notin> ?W" using trie_child_none [OF assms(1,2)] by blast
    then have "longest ?W (path s @ [word_of_nat c]) = longest ?W (x @ [word_of_nat c])" using x by simp
    also have "\<dots> = longest ?W (path ?f @ [word_of_nat c])" using best_snoc [OF trie_words_closed [OF assms(1)]] assms(6) x by simp
    finally show ?thesis using None assms(7) c by (simp add: row_ok_def)
  qed
  then have "row_ok nodes path ?tb s" unfolding row_ok_def using tb(2) by simp
  moreover have "row_ok nodes path ?tb u" if u: "u \<noteq> s" "row_ok nodes path table u" for u
  proof -
    have "?tb ! (u * 256 + c) = table ! (u * 256 + c)" if "c < 256" for c using tb(3) apart [OF u(1) that] by blast
    then show ?thesis using u(2) by (simp add: row_ok_def)
  qed
  ultimately show ?thesis using tb(1) by blast
qed

lemma root_row_ok:
  assumes "trie nodes path"
  shows "row_ok nodes path (root_row nodes) 0 \<and> length (root_row nodes) = length nodes * 256"
proof -
  let ?W = "trie_words nodes path" and ?h = "\<lambda>c. case ac_children (nodes ! 0) (word_of_nat c) of Some t \<Rightarrow> t | None \<Rightarrow> 0"
  note root = trie_root [OF assms]
  have "(0 + 1) * 256 \<le> length (replicate (length nodes * 256) 0)" using root by (cases "length nodes") auto
  from fold_row [OF this, of "\<lambda>tb c. ?h c" ?h 256]
  have tb: "length (root_row nodes) = length nodes * 256" "\<And>c. c < 256 \<Longrightarrow> root_row nodes ! c = ?h c"
    unfolding root_row_def Let_def by simp_all
  have "?h c < length nodes \<and> path (?h c) = longest ?W [word_of_nat c]" for c
  proof (cases "ac_children (nodes ! 0) (word_of_nat c)")
    case (Some t)
    then have t: "t < length nodes" "path t = [word_of_nat c]" using trie_child [OF assms conjunct1 [OF root]] root by fastforce+
    then have "longest ?W [word_of_nat c] = [word_of_nat c]" using best_id path_in_words by metis
    then show ?thesis using Some t by simp
  next
    case None
    then have "[word_of_nat c] \<notin> ?W" using trie_child_none [OF assms conjunct1 [OF root]] root by simp
    then show ?thesis using None root by simp
  qed
  then show ?thesis using tb root by (simp add: row_ok_def)
qed

text \<open>The second walk: \<open>visited\<close> is what left the queue, and those rows are final.\<close>

lemma fill_next_ok:
  assumes "links nodes path sigs {..<length nodes}" "bfs nodes path P q" "length table = length nodes * 256"
    "length visited = length nodes" "\<And>s. s < length nodes \<Longrightarrow> visited ! s \<longleftrightarrow> s \<in> P \<and> s \<noteq> 0" "\<And>s. s \<in> P \<Longrightarrow> row_ok nodes path table s"
  shows "\<exists>tb. fill_next nodes q visited table = Some tb \<and> (\<forall>s < length nodes. row_ok nodes path tb s)"
  using assms(2-6)
proof (induction "length nodes - card P" arbitrary: P q visited table rule: less_induct)
  case less
  note trie = links_trie [OF assms(1)]
  show ?case
  proof (cases q)
    case Nil
    then have "\<forall>s < length nodes. row_ok nodes path table s" using bfs_end [OF trie] less(2,6) by blast
    moreover have "fill_next nodes q visited table = Some table" using Nil by (subst fill_next.simps) simp
    ultimately show ?thesis by blast
  next
    case (Cons s q')
    have b: "bfs nodes path P (s # q')" using less(2) Cons by simp
    note bound = bfs_bound [OF b]
    have s: "s < length nodes" "s \<noteq> 0" "s \<notin> P" using bound by auto
    let ?f = "ac_fail (nodes ! s)" and ?q = "q' @ map snd (kids (nodes ! s))" and ?tb = "next_row nodes s table"
    have f: "?f < length nodes" "path ?f = longest (trie_words nodes path) (tl (path s))"
      using links_linked [OF assms(1) _ s(1)] s(1) by (simp_all add: linked_def)
    have "length (path ?f) \<le> length (tl (path s))" unfolding f(2) using best_suffix suffix_length_le by blast
    moreover have "path s \<noteq> []" using trie_nonempty [OF trie s(1)] s(2) by simp
    ultimately have "length (path ?f) < length (path s)" by (cases "path s") simp_all
    then have "?f \<in> P" "?f \<noteq> s" using bfs_shallow [OF trie b f(1)] by auto
    then have row: "row_ok nodes path ?tb s" "length ?tb = length table"
        "\<And>u. u < length nodes \<Longrightarrow> u \<noteq> s \<Longrightarrow> row_ok nodes path table u \<Longrightarrow> row_ok nodes path ?tb u"
      using next_row_ok [OF trie s(1,2) less(3) _ f(2)] less(6) by blast+
    have rows: "row_ok nodes path ?tb u" if "u \<in> insert s P" for u
      using that row bound less(6) s(3) by (cases "u = s") auto
    have vis: "visited[s := True] ! u \<longleftrightarrow> u \<in> insert s P \<and> u \<noteq> 0" if "u < length nodes" for u
      using that less(4,5) s by (cases "u = s") simp_all
    have "\<exists>tb. fill_next nodes ?q (visited[s := True]) ?tb = Some tb \<and> (\<forall>s < length nodes. row_ok nodes path tb s)"
      by (rule less(1) [OF bfs_measure [OF b] bfs_step [OF trie b] _ _ vis rows]) (use row(2) less(3,4) in simp_all)
    moreover have "fill_next nodes q visited table = fill_next nodes ?q (visited[s := True]) ?tb"
      using Cons s less(5) [OF s(1)] by (subst fill_next.simps) simp
    ultimately show ?thesis by simp
  qed
qed

lemma root_links_holds:
  assumes "holds nodes path hs fs"
  shows "root_links nodes = nodes"
proof -
  have "fold (\<lambda>t ns. ns[t := (ns ! t)\<lparr>ac_fail := 0\<rparr>]) ts nodes = nodes" if "set ts \<subseteq> {..<length nodes}" for ts
    using that
  proof (induction ts)
    case (Cons t ts)
    have "(nodes ! t)\<lparr>ac_fail := 0\<rparr> = nodes ! t" using holds_node(1) [OF assms, of t] Cons.prems by (cases "nodes ! t") simp
    then have "nodes[t := (nodes ! t)\<lparr>ac_fail := 0\<rparr>] = nodes" using list_update_id by metis
    then show ?case using Cons by simp
  qed simp
  moreover have "set (map snd (kids (nodes ! 0))) \<subseteq> {..<length nodes}"
    using bfs_bound [OF bfs_start [OF holds_trie [OF assms]]] by blast
  ultimately show ?thesis unfolding root_links_def by blast
qed

lemma holds_links:
  assumes "holds nodes path sigs sigs"
  shows "links nodes path sigs ({0} \<union> set (map snd (kids (nodes ! 0))))"
proof -
  note trie = holds_trie [OF assms]
  note root = trie_root [OF trie]
  have own: "unlinked nodes path sigs t" if "t < length nodes" for t using holds_node [OF assms that] by (simp add: unlinked_def)
  have "linked nodes path sigs t" if t: "t < length nodes" "t \<in> {0} \<union> set (map snd (kids (nodes ! 0)))" for t
  proof -
    have short: "length (path t) \<le> 1"
    proof (cases "t = 0")
      case False
      then obtain b where b: "ac_children (nodes ! 0) b = Some t" using t(2) kids_snd by blast
      then have "path t = path 0 @ [b]" using trie_child [OF trie conjunct1 [OF root] b] by blast
      then show ?thesis using root by simp
    qed (use root in simp)
    have "suffix p (path t) \<longleftrightarrow> p = path t" if "p \<noteq> []" for p
      using short that by (cases "path t") (auto simp: suffix_Cons)
    then have "matching pat sigs (\<lambda>p. suffix p (path t)) = matching pat sigs (\<lambda>p. p = path t)" for pat
      unfolding matching_def by blast
    moreover have "tl (path t) = []" using short by (cases "path t") auto
    moreover have "ac_fail (nodes ! t) = 0" using holds_node(1) [OF assms t(1)] .
    ultimately show ?thesis using own [OF t(1)] root by (simp add: linked_def unlinked_def)
  qed
  then show ?thesis using trie own holds_words [OF assms] by (simp add: links_def patterns_in_def)
qed

section \<open>The automaton\<close>

lemma ac_run_snoc: "ac_run table (bs @ [b]) = ac_next table (ac_run table bs) b"
  by (simp add: ac_run_def)

lemma ac_run_longest:
  assumes "trie nodes path" "\<And>s. s < length nodes \<Longrightarrow> row_ok nodes path table s"
  shows "ac_run table bs < length nodes \<and> path (ac_run table bs) = longest (trie_words nodes path) bs"
proof (induction bs rule: rev_induct)
  case Nil
  then show ?case using trie_root [OF assms(1)] by (simp add: ac_run_def)
next
  case (snoc b bs)
  have "ac_run table (bs @ [b]) < length nodes \<and> path (ac_run table (bs @ [b])) = longest (trie_words nodes path) (path (ac_run table bs) @ [b])"
    using assms(2) [OF conjunct1 [OF snoc]] unat_byte_less [of b] unfolding row_ok_def ac_run_snoc ac_next_def by fastforce
  then show ?case using snoc best_snoc [OF trie_words_closed [OF assms(1)], of bs b] by simp
qed

text \<open>C36. The automaton is built for every set of signatures, and after any sequence of bytes the state lists
  exactly the signatures whose header, respectively footer, ends there.\<close>

theorem automaton_reports_every_match:
  "\<exists>nodes table. build_aho_corasick sigs = Some (nodes, table)
     \<and> (\<forall>bs. ac_run table bs < length nodes
          \<and> set (ac_headers (nodes ! ac_run table bs)) = sg_id ` {sig \<in> set sigs. sg_header sig \<noteq> [] \<and> suffix (sg_header sig) bs}
          \<and> set (ac_footers (nodes ! ac_run table bs)) = sg_id ` {sig \<in> set sigs. sg_footer sig \<noteq> [] \<and> suffix (sg_footer sig) bs})"
proof -
  obtain path where h: "holds (build_trie sigs) path (set sigs) (set sigs)" using build_trie_holds by blast
  let ?ns = "build_trie sigs" let ?q = "\<lambda>ns. map snd (kids (ns ! 0))"
  obtain nodes where nodes: "link_nodes ?ns (?q ?ns) = Some nodes" "links nodes path (set sigs) {..<length nodes}"
    using link_nodes_links [OF holds_links [OF h] bfs_start [OF holds_trie [OF h]]] by blast
  note trie = links_trie [OF nodes(2)]
  note root = root_row_ok [OF trie]
  have "\<exists>table. fill_next nodes (?q nodes) (replicate (length nodes) False) (root_row nodes) = Some table \<and> (\<forall>s < length nodes. row_ok nodes path table s)"
    by (rule fill_next_ok [OF nodes(2) bfs_start [OF trie]]) (use root in auto)
  then obtain table where table: "fill_next nodes (?q nodes) (replicate (length nodes) False) (root_row nodes) = Some table"
      "\<And>s. s < length nodes \<Longrightarrow> row_ok nodes path table s" by blast
  have "build_aho_corasick sigs = Some (nodes, table)"
    unfolding build_aho_corasick_def Let_def root_links_holds [OF h] using nodes(1) table(1) by simp
  moreover have "ac_run table bs < length nodes
      \<and> set (ac_headers (nodes ! ac_run table bs)) = sg_id ` {sig \<in> set sigs. sg_header sig \<noteq> [] \<and> suffix (sg_header sig) bs}
      \<and> set (ac_footers (nodes ! ac_run table bs)) = sg_id ` {sig \<in> set sigs. sg_footer sig \<noteq> [] \<and> suffix (sg_footer sig) bs}" for bs
  proof -
    have run: "ac_run table bs < length nodes" "path (ac_run table bs) = longest (trie_words nodes path) bs"
      using ac_run_longest [OF trie table(2)] by blast+
    have pats: "sg_header ` set sigs \<subseteq> trie_words nodes path" "sg_footer ` set sigs \<subseteq> trie_words nodes path"
      using nodes(2) by (simp_all add: links_def patterns_in_def)
    have "linked nodes path (set sigs) (ac_run table bs)" using links_linked [OF nodes(2) _ run(1)] run(1) by simp
    moreover have "suffix (sg_header sig) (longest (trie_words nodes path) bs) \<longleftrightarrow> suffix (sg_header sig) bs" if "sig \<in> set sigs" for sig
      using pats(1) that by (intro suffix_best) blast
    moreover have "suffix (sg_footer sig) (longest (trie_words nodes path) bs) \<longleftrightarrow> suffix (sg_footer sig) bs" if "sig \<in> set sigs" for sig
      using pats(2) that by (intro suffix_best) blast
    ultimately show ?thesis using run(1) by (simp add: linked_def run(2) matching_def cong: conj_cong)
  qed
  ultimately show ?thesis by blast
qed

end
