(* ===== verification/Gap_Carving.thy ===== *)
theory Gap_Carving
  imports Prelude
begin

text \<open>
  Gap carving (carver/bgc.cpp, include/byteback\_carver.h): a file in two or three fragments is found by
  trying every gap, and the attempts of all workers share one budget.  The callers pass a buffer that
  reaches at least to the footer.  \<open>running\<close> is what the loads of the cancel flag give, by the number of
  the attempt.
\<close>

section \<open>The searches\<close>

record bgc_result =
  bg_found :: bool
  bg_frag1 :: nat
  bg_gap :: nat
  bg_frag2 :: nat
  bg_gap2 :: nat

definition no_bgc :: bgc_result where
  "no_bgc = \<lparr>bg_found = False, bg_frag1 = 0, bg_gap = 0, bg_frag2 = 0, bg_gap2 = 0\<rparr>"

definition max_span_copy :: nat where "max_span_copy = 64 * 1024 * 1024"

text \<open>A counting loop whose body returns from the function (\<open>Inl\<close>) or goes on with a count of attempts.
  The steps are at least 1.\<close>

function for_loop :: "(nat \<Rightarrow> bool) \<Rightarrow> (nat \<Rightarrow> nat \<Rightarrow> 'r + nat) \<Rightarrow> nat \<Rightarrow> nat \<Rightarrow> nat \<Rightarrow> nat \<Rightarrow> 'r + nat" where
  "for_loop go body step bound i attempts =
     (if step = 0 \<or> bound \<le> i \<or> \<not> go attempts then Inr attempts
      else case body i attempts of Inl r \<Rightarrow> Inl r | Inr a \<Rightarrow> for_loop go body step bound (i + step) a)"
  by pat_completeness auto
termination by (relation "measure (\<lambda>(go, body, step, bound, i, a). bound - i)") auto

declare for_loop.simps [simp del]

definition gap_limit :: "nat \<Rightarrow> nat \<Rightarrow> nat" where
  "gap_limit max_gap span = min (if max_gap = 0 then 64 * 1024 else max_gap) span"

definition gap_step :: "nat \<Rightarrow> nat \<Rightarrow> nat" where
  "gap_step step span = min (if step = 0 then 1 else step) span"

definition part_between :: "buf \<Rightarrow> nat \<Rightarrow> nat \<Rightarrow> buf" where
  "part_between disk a b = slice a (b - a) disk"

definition bgc_attempt :: "buf \<Rightarrow> nat \<Rightarrow> nat \<Rightarrow> (buf \<Rightarrow> int) \<Rightarrow> nat \<Rightarrow> (nat \<Rightarrow> bool) \<Rightarrow> nat \<Rightarrow> nat \<Rightarrow> nat \<Rightarrow> bgc_result + nat" where
  "bgc_attempt disk header footer validator budget running gap_start gap_len attempts =
     (let a = attempts + 1; local_start = gap_start - header; frag2 = gap_start + gap_len
      in if budget \<le> a then Inl no_bgc
         else if \<not> running a then Inl no_bgc
         else if max_span_copy < local_start + (footer - frag2) then Inr a
         else if 85 \<le> validator (part_between disk header gap_start @ part_between disk frag2 footer)
              then Inl (no_bgc\<lparr>bg_found := True, bg_frag1 := local_start, bg_gap := gap_len\<rparr>)
              else Inr a)"

definition bifragmented_gap_carve ::
    "buf \<Rightarrow> nat \<Rightarrow> nat \<Rightarrow> nat \<Rightarrow> (buf \<Rightarrow> int) \<Rightarrow> nat \<Rightarrow> nat \<Rightarrow> (nat \<Rightarrow> bool) \<Rightarrow> bgc_result" where
  "bifragmented_gap_carve disk header footer max_gap validator step_bytes budget running =
     (if length disk \<le> header \<or> footer \<le> header then no_bgc
      else let span = footer - header; limit = gap_limit max_gap span; step = gap_step step_bytes span
           in if span < 4 then no_bgc
              else case for_loop (\<lambda>a. a < budget)
                     (\<lambda>gap_start. for_loop (\<lambda>a. True) (bgc_attempt disk header footer validator budget running gap_start)
                        step (min (limit + 1) (footer - gap_start + 1)) step)
                     step footer (header + step) 0 of
                Inl r \<Rightarrow> r
              | Inr a \<Rightarrow> no_bgc)"

definition tri_attempt ::
    "buf \<Rightarrow> nat \<Rightarrow> nat \<Rightarrow> (buf \<Rightarrow> int) \<Rightarrow> nat \<Rightarrow> (nat \<Rightarrow> bool) \<Rightarrow> nat \<Rightarrow> nat \<Rightarrow> nat \<Rightarrow> nat \<Rightarrow> nat \<Rightarrow> bgc_result + nat" where
  "tri_attempt disk header footer validator budget running g1_start g1_len g2_start g2_len attempts =
     (let a = attempts + 1; after_g1 = g1_start + g1_len
      in if budget \<le> a then Inl no_bgc
         else if \<not> running a then Inl no_bgc
         else if max_span_copy < (g1_start - header) + (g2_start - after_g1) + (footer - (g2_start + g2_len)) then Inr a
         else if 85 \<le> validator (part_between disk header g1_start @ part_between disk after_g1 g2_start @ part_between disk (g2_start + g2_len) footer)
              then Inl \<lparr>bg_found = True, bg_frag1 = g1_start - header, bg_gap = g1_len, bg_frag2 = g2_start - after_g1, bg_gap2 = g2_len\<rparr>
              else Inr a)"

definition tri_fragmented_gap_carve ::
    "buf \<Rightarrow> nat \<Rightarrow> nat \<Rightarrow> nat \<Rightarrow> (buf \<Rightarrow> int) \<Rightarrow> nat \<Rightarrow> nat \<Rightarrow> (nat \<Rightarrow> bool) \<Rightarrow> bgc_result" where
  "tri_fragmented_gap_carve disk header footer max_gap validator step_bytes budget running =
     (if length disk \<le> header \<or> footer \<le> header then no_bgc
      else let span = footer - header; limit = gap_limit max_gap span; step = gap_step step_bytes span
           in if span < 8 then no_bgc
              else case for_loop (\<lambda>a. a < budget)
                     (\<lambda>g1_start. for_loop (\<lambda>a. True)
                        (\<lambda>g1_len. for_loop (\<lambda>a. a < budget)
                           (\<lambda>g2_start. for_loop (\<lambda>a. True) (tri_attempt disk header footer validator budget running g1_start g1_len g2_start)
                              step (min (limit + 1) (footer - g2_start + 1)) step)
                           step footer (g1_start + g1_len + step))
                        step (min (limit + 1) (footer - g1_start)) step)
                     step footer (header + step) 0 of
                Inl r \<Rightarrow> r
              | Inr a \<Rightarrow> no_bgc)"

section \<open>The searches try every gap in order\<close>

text \<open>\<open>i\<close>, \<open>i + step\<close>, and so on below the bound.\<close>

function steps :: "nat \<Rightarrow> nat \<Rightarrow> nat \<Rightarrow> nat list" where
  "steps step bound i = (if step = 0 \<or> bound \<le> i then [] else i # steps step bound (i + step))"
  by pat_completeness auto
termination by (relation "measure (\<lambda>(step, bound, i). bound - i)") auto

declare steps.simps [simp del]

primrec try_all :: "('c \<Rightarrow> nat \<Rightarrow> 'r + nat) \<Rightarrow> 'c list \<Rightarrow> nat \<Rightarrow> 'r + nat" where
  "try_all f [] a = Inr a"
| "try_all f (c # cs) a = (case f c a of Inl r \<Rightarrow> Inl r | Inr a' \<Rightarrow> try_all f cs a')"

lemma for_loop_try_all: "for_loop (\<lambda>a. True) body step bound i a = try_all body (steps step bound i) a"
proof (induction "bound - i" arbitrary: i a rule: less_induct)
  case less
  show ?case
  proof (cases "step = 0 \<or> bound \<le> i")
    case False
    then have "for_loop (\<lambda>a. True) body step bound (i + step) a' = try_all body (steps step bound (i + step)) a'" for a'
      using False by (intro less(1)) arith
    then show ?thesis using False
      by (simp add: for_loop.simps [of "\<lambda>a. True" body step bound i a] steps.simps [of step bound i] split: sum.split)
  qed (simp add: for_loop.simps [of "\<lambda>a. True" body step bound i a] steps.simps [of step bound i])
qed

text \<open>As long as the body keeps the count below the budget, the test of the budget never ends the loop.\<close>

lemma for_loop_budget:
  assumes "\<And>i a a'. body i a = Inr a' \<Longrightarrow> a < budget \<Longrightarrow> a' < budget" "a < budget"
  shows "for_loop (\<lambda>a. a < budget) body step bound i a = try_all body (steps step bound i) a"
  using assms(2)
proof (induction "bound - i" arbitrary: i a rule: less_induct)
  case less
  show ?case
  proof (cases "step = 0 \<or> bound \<le> i")
    case False
    then have "for_loop (\<lambda>a. a < budget) body step bound (i + step) a' = try_all body (steps step bound (i + step)) a'" if "a' < budget" for a'
      using False that by (intro less(1)) arith+
    then show ?thesis using False less(2) assms(1) [of i a]
      by (simp add: for_loop.simps [of "\<lambda>a. a < budget" body step bound i a] steps.simps [of step bound i] split: sum.split)
  qed (auto simp add: for_loop.simps [of "\<lambda>a. a < budget" body step bound i a] steps.simps [of step bound i])
qed

lemma try_all_append: "try_all f (xs @ ys) a = (case try_all f xs a of Inl r \<Rightarrow> Inl r | Inr a' \<Rightarrow> try_all f ys a')"
  by (induction xs arbitrary: a) (simp_all split: sum.split)

lemma try_all_concat: "try_all (\<lambda>x. try_all (f x) (g x)) xs a = try_all (\<lambda>(x, y). f x y) (concat (map (\<lambda>x. map (Pair x) (g x)) xs)) a"
proof (induction xs arbitrary: a)
  case (Cons x xs)
  have "try_all (\<lambda>(x, y). f x y) (map (Pair x) ys) a = try_all (f x) ys a" for ys a by (induction ys arbitrary: a) (simp_all split: sum.split)
  then show ?case using Cons by (simp add: try_all_append split: sum.split)
qed simp

lemma try_all_keeps:
  assumes "\<And>c a a'. f c a = Inr a' \<Longrightarrow> a < n \<Longrightarrow> a' < n"
  shows "try_all f cs a = Inr a' \<Longrightarrow> a < n \<Longrightarrow> a' < (n :: nat)"
  using assms by (induction cs arbitrary: a) (auto split: sum.splits)

text \<open>The gaps in the order of the search, and what a candidate would give.\<close>

definition gaps :: "nat \<Rightarrow> nat \<Rightarrow> nat \<Rightarrow> nat \<Rightarrow> (nat \<times> nat) list" where
  "gaps step limit footer first =
     concat (map (\<lambda>s. map (Pair s) (steps step (min (limit + 1) (footer - s + 1)) step)) (steps step footer first))"

definition gap_pairs :: "nat \<Rightarrow> nat \<Rightarrow> nat \<Rightarrow> nat \<Rightarrow> ((nat \<times> nat) \<times> nat \<times> nat) list" where
  "gap_pairs step limit footer first =
     concat (map (\<lambda>(s, n). map (Pair (s, n)) (gaps step limit footer (s + n + step)))
       (concat (map (\<lambda>s. map (Pair s) (steps step (min (limit + 1) (footer - s)) step)) (steps step footer first))))"

definition without_gap :: "buf \<Rightarrow> nat \<Rightarrow> nat \<Rightarrow> nat \<times> nat \<Rightarrow> buf" where
  "without_gap disk header footer g = part_between disk header (fst g) @ part_between disk (fst g + snd g) footer"

definition without_gaps :: "buf \<Rightarrow> nat \<Rightarrow> nat \<Rightarrow> (nat \<times> nat) \<times> nat \<times> nat \<Rightarrow> buf" where
  "without_gaps disk header footer gg = (case gg of (g, h) \<Rightarrow>
     part_between disk header (fst g) @ part_between disk (fst g + snd g) (fst h) @ part_between disk (fst h + snd h) footer)"

definition bgc_of :: "nat \<Rightarrow> (nat \<times> nat) option \<Rightarrow> bgc_result" where
  "bgc_of header r = (case r of None \<Rightarrow> no_bgc
     | Some (s, n) \<Rightarrow> no_bgc\<lparr>bg_found := True, bg_frag1 := s - header, bg_gap := n\<rparr>)"

definition tri_of :: "nat \<Rightarrow> ((nat \<times> nat) \<times> nat \<times> nat) option \<Rightarrow> bgc_result" where
  "tri_of header r = (case r of None \<Rightarrow> no_bgc
     | Some ((s, n), t, m) \<Rightarrow> \<lparr>bg_found = True, bg_frag1 = s - header, bg_gap = n, bg_frag2 = t - (s + n), bg_gap2 = m\<rparr>)"

text \<open>A search with \<open>budget\<close>: the first good candidate among the next \<open>budget - 1\<close>; a cancelled search
  gives nothing or the same.\<close>

lemma try_all_find:
  assumes "\<And>c a. f c a = (if budget \<le> a + 1 then Inl none else if good c then Inl (res c) else Inr (a + 1))"
  shows "a < budget \<Longrightarrow> (case try_all f cs a of Inl r \<Rightarrow> r | Inr a' \<Rightarrow> none)
    = (case List.find good (take (budget - 1 - a) cs) of None \<Rightarrow> none | Some c \<Rightarrow> res c)"
proof (induction cs arbitrary: a)
  case (Cons c cs)
  show ?case
  proof (cases "budget \<le> a + 1")
    case True
    then show ?thesis by (simp add: assms)
  next
    case False
    then obtain k where "budget - 1 - a = Suc k" "k = budget - 1 - (a + 1)" by (cases "budget - 1 - a") auto
    then show ?thesis using False Cons.IH [of "a + 1"] by (simp add: assms)
  qed
qed simp

lemma try_all_cancel:
  assumes "\<And>c a. g c a = Inl none \<or> g c a = f c a"
  shows "(case try_all g cs a of Inl r \<Rightarrow> r | Inr a' \<Rightarrow> none) \<in> {none, case try_all f cs a of Inl r \<Rightarrow> r | Inr a' \<Rightarrow> none}"
proof (induction cs arbitrary: a)
  case (Cons c cs)
  show ?case
  proof (cases "f c a")
    case (Inr b)
    then show ?thesis using assms [of c a] Cons [of b] by auto
  qed (use assms [of c a] in auto)
qed simp

definition bgc_good :: "buf \<Rightarrow> nat \<Rightarrow> nat \<Rightarrow> (buf \<Rightarrow> int) \<Rightarrow> nat \<times> nat \<Rightarrow> bool" where
  "bgc_good disk header footer validator g \<longleftrightarrow>
     (fst g - header) + (footer - (fst g + snd g)) \<le> max_span_copy \<and> 85 \<le> validator (without_gap disk header footer g)"

definition tri_good :: "buf \<Rightarrow> nat \<Rightarrow> nat \<Rightarrow> (buf \<Rightarrow> int) \<Rightarrow> (nat \<times> nat) \<times> nat \<times> nat \<Rightarrow> bool" where
  "tri_good disk header footer validator gg \<longleftrightarrow> (case gg of ((s, n), t, m) \<Rightarrow>
     (s - header) + (t - (s + n)) + (footer - (t + m)) \<le> max_span_copy \<and> 85 \<le> validator (without_gaps disk header footer gg))"

definition bgc_spec :: "buf \<Rightarrow> nat \<Rightarrow> nat \<Rightarrow> nat \<Rightarrow> (buf \<Rightarrow> int) \<Rightarrow> nat \<Rightarrow> nat \<Rightarrow> bgc_result" where
  "bgc_spec disk header footer max_gap validator step_bytes budget =
     (let span = footer - header; step = gap_step step_bytes span
      in if length disk \<le> header \<or> footer < header + 4 then no_bgc
         else bgc_of header (List.find (bgc_good disk header footer validator)
                (take (budget - 1) (gaps step (gap_limit max_gap span) footer (header + step)))))"

definition tri_spec :: "buf \<Rightarrow> nat \<Rightarrow> nat \<Rightarrow> nat \<Rightarrow> (buf \<Rightarrow> int) \<Rightarrow> nat \<Rightarrow> nat \<Rightarrow> bgc_result" where
  "tri_spec disk header footer max_gap validator step_bytes budget =
     (let span = footer - header; step = gap_step step_bytes span
      in if length disk \<le> header \<or> footer < header + 8 then no_bgc
         else tri_of header (List.find (tri_good disk header footer validator)
                (take (budget - 1) (gap_pairs step (gap_limit max_gap span) footer (header + step)))))"

lemma attempt_keeps:
  "bgc_attempt disk header footer validator budget running s n a = Inr a' \<Longrightarrow> a < budget \<Longrightarrow> a' < budget"
  by (auto simp: bgc_attempt_def Let_def split: if_splits)

lemma tri_attempt_keeps:
  "tri_attempt disk header footer validator budget running s n t m a = Inr a' \<Longrightarrow> a < budget \<Longrightarrow> a' < budget"
  by (auto simp: tri_attempt_def Let_def split: if_splits)

text \<open>Without a budget nothing is tried, and otherwise the nested loops are one search.\<close>

lemma for_loop_no_budget: "for_loop (\<lambda>a. a < 0) body step bound i 0 = Inr 0"
  by (simp add: for_loop.simps [of _ body step bound i 0])

lemma bgc_loops:
  assumes "0 < budget"
  shows "for_loop (\<lambda>a. a < budget)
       (\<lambda>s. for_loop (\<lambda>a. True) (bgc_attempt disk header footer validator budget running s) step (min (limit + 1) (footer - s + 1)) step)
       step footer first 0
     = try_all (\<lambda>(s, n). bgc_attempt disk header footer validator budget running s n) (gaps step limit footer first) 0"
proof -
  have "for_loop (\<lambda>a. a < budget) (\<lambda>s. try_all (bgc_attempt disk header footer validator budget running s) (g s)) step footer first 0
      = try_all (\<lambda>s. try_all (bgc_attempt disk header footer validator budget running s) (g s)) (steps step footer first) 0" for g
    by (rule for_loop_budget [OF _ assms]) (erule try_all_keeps [rotated], simp_all add: attempt_keeps)
  then show ?thesis unfolding for_loop_try_all gaps_def by (simp only: try_all_concat)
qed

lemma tri_loops:
  assumes "0 < budget"
  shows "for_loop (\<lambda>a. a < budget)
       (\<lambda>s. for_loop (\<lambda>a. True)
          (\<lambda>n. for_loop (\<lambda>a. a < budget)
             (\<lambda>t. for_loop (\<lambda>a. True) (tri_attempt disk header footer validator budget running s n t) step (min (limit + 1) (footer - t + 1)) step)
             step footer (s + n + step))
          step (min (limit + 1) (footer - s)) step)
       step footer first 0
     = try_all (\<lambda>((s, n), t, m). tri_attempt disk header footer validator budget running s n t m) (gap_pairs step limit footer first) 0"
proof -
  let ?f = "\<lambda>s n t m. tri_attempt disk header footer validator budget running s n t m"
  let ?inner = "\<lambda>s n. for_loop (\<lambda>a. a < budget) (\<lambda>t. for_loop (\<lambda>a. True) (?f s n t) step (min (limit + 1) (footer - t + 1)) step) step footer (s + n + step)"
  have inner: "?inner s n a = try_all (\<lambda>(t, m). ?f s n t m) (gaps step limit footer (s + n + step)) a" if "a < budget" for s n a
  proof -
    have "for_loop (\<lambda>a. a < budget) (\<lambda>t. try_all (?f s n t) (g t)) step footer (s + n + step) a
        = try_all (\<lambda>t. try_all (?f s n t) (g t)) (steps step footer (s + n + step)) a" for g
      by (rule for_loop_budget [OF _ that]) (erule try_all_keeps [rotated], simp_all add: tri_attempt_keeps)
    then show ?thesis unfolding for_loop_try_all gaps_def by (simp only: try_all_concat)
  qed
  have keeps: "?inner s n a = Inr a' \<Longrightarrow> a < budget \<Longrightarrow> a' < budget" for s n a a'
    unfolding inner by (erule try_all_keeps [rotated]) (auto simp: tri_attempt_keeps split: prod.splits)
  have try_inner: "try_all (?inner s) ns a = try_all (\<lambda>n. try_all (\<lambda>(t, m). ?f s n t m) (gaps step limit footer (s + n + step))) ns a" if "a < budget" for s ns a
    using that
  proof (induction ns arbitrary: a)
    case (Cons n ns)
    show ?case
    proof (cases "?inner s n a")
      case (Inr b)
      then have "b < budget" using keeps Cons.prems by blast
      then show ?thesis using Cons.IH [of b] Inr inner [OF Cons.prems] by simp
    qed (use inner [OF Cons.prems] in simp)
  qed simp
  have "for_loop (\<lambda>a. a < budget) (\<lambda>s. try_all (?inner s) (g s)) step footer first 0 = try_all (\<lambda>s. try_all (?inner s) (g s)) (steps step footer first) 0" for g
    by (rule for_loop_budget [OF _ assms]) (erule try_all_keeps [rotated], simp_all add: keeps)
  moreover have "try_all (\<lambda>s. try_all (?inner s) (g s)) ss a
      = try_all (\<lambda>s. try_all (\<lambda>n. try_all (\<lambda>(t, m). ?f s n t m) (gaps step limit footer (s + n + step))) (g s)) ss a" if "a < budget" for g ss a
    using that
  proof (induction ss arbitrary: a)
    case (Cons s ss)
    show ?case
    proof (cases "try_all (?inner s) (g s) a")
      case (Inr b)
      then have "b < budget" using try_all_keeps [of "?inner s" budget] keeps Cons.prems by blast
      then show ?thesis using Cons.IH [of b] Inr try_inner [OF Cons.prems] by simp
    qed (use try_inner [OF Cons.prems] in simp)
  qed simp
  ultimately have "for_loop (\<lambda>a. a < budget) (\<lambda>s. try_all (?inner s) (g s)) step footer first 0
      = try_all (\<lambda>s. try_all (\<lambda>n. try_all (\<lambda>(t, m). ?f s n t m) (gaps step limit footer (s + n + step))) (g s)) (steps step footer first) 0" for g
    using assms by simp
  then have "for_loop (\<lambda>a. a < budget) (\<lambda>s. for_loop (\<lambda>a. True) (?inner s) step (min (limit + 1) (footer - s)) step) step footer first 0
      = try_all (\<lambda>s. try_all (\<lambda>n. try_all (\<lambda>(t, m). ?f s n t m) (gaps step limit footer (s + n + step))) (steps step (min (limit + 1) (footer - s)) step))
          (steps step footer first) 0"
    unfolding for_loop_try_all .
  also have "\<dots> = try_all (\<lambda>(s, n). try_all (\<lambda>(t, m). ?f s n t m) (gaps step limit footer (s + n + step)))
      (concat (map (\<lambda>s. map (Pair s) (steps step (min (limit + 1) (footer - s)) step)) (steps step footer first))) 0"
    by (rule try_all_concat)
  also have "(\<lambda>(s, n). try_all (\<lambda>(t, m). ?f s n t m) (gaps step limit footer (s + n + step)))
      = (\<lambda>p. try_all (\<lambda>q. case p of (s, n) \<Rightarrow> case q of (t, m) \<Rightarrow> ?f s n t m) (case p of (s, n) \<Rightarrow> gaps step limit footer (s + n + step)))"
    by (rule ext) (simp split: prod.split)
  also have "try_all (\<lambda>p. try_all (\<lambda>q. case p of (s, n) \<Rightarrow> case q of (t, m) \<Rightarrow> ?f s n t m) (case p of (s, n) \<Rightarrow> gaps step limit footer (s + n + step))) ps 0
      = try_all (\<lambda>(p, q). case p of (s, n) \<Rightarrow> case q of (t, m) \<Rightarrow> ?f s n t m)
          (concat (map (\<lambda>p. map (Pair p) (case p of (s, n) \<Rightarrow> gaps step limit footer (s + n + step))) ps)) 0" for ps
    by (rule try_all_concat)
  also have "(\<lambda>(p, q). case p of (s, n) \<Rightarrow> case q of (t, m) \<Rightarrow> ?f s n t m) = (\<lambda>((s, n), t, m). ?f s n t m)"
    by (rule ext) (simp split: prod.split)
  also have "(\<lambda>p. map (Pair p) (case p of (s, n) \<Rightarrow> gaps step limit footer (s + n + step)))
      = (\<lambda>(s, n). map (Pair (s, n)) (gaps step limit footer (s + n + step)))"
    by (rule ext) (simp split: prod.split)
  finally show ?thesis unfolding gap_pairs_def .
qed

text \<open>What a search gives: its own return, or nothing after all candidates.\<close>

definition outcome :: "bgc_result + nat \<Rightarrow> bgc_result" where
  "outcome x = (case x of Inl r \<Rightarrow> r | Inr a \<Rightarrow> no_bgc)"

lemma bgc_as_search:
  fixes header footer step_bytes max_gap :: nat
  defines "step \<equiv> gap_step step_bytes (footer - header)" and "limit \<equiv> gap_limit max_gap (footer - header)"
  shows "bifragmented_gap_carve disk header footer max_gap validator step_bytes budget running
    = (if length disk \<le> header \<or> footer < header + 4 \<or> budget = 0 then no_bgc
       else outcome (try_all (\<lambda>(s, n). bgc_attempt disk header footer validator budget running s n) (gaps step limit footer (header + step)) 0))"
proof (cases "length disk \<le> header \<or> footer < header + 4")
  case True
  then show ?thesis by (auto simp: bifragmented_gap_carve_def Let_def)
next
  case False
  then have pre: "\<not> (length disk \<le> header \<or> footer \<le> header)" "\<not> footer - header < 4" by auto
  show ?thesis
  proof (cases "budget = 0")
    case True
    show ?thesis
      unfolding bifragmented_gap_carve_def Let_def if_not_P [OF pre(1)] if_not_P [OF pre(2)] True for_loop_no_budget by simp
  next
    case b: False
    then have "0 < budget" by simp
    show ?thesis
      unfolding bifragmented_gap_carve_def Let_def if_not_P [OF pre(1)] if_not_P [OF pre(2)] bgc_loops [OF \<open>0 < budget\<close>]
      using False b by (simp add: outcome_def step_def limit_def)
  qed
qed

lemma tri_as_search:
  fixes header footer step_bytes max_gap :: nat
  defines "step \<equiv> gap_step step_bytes (footer - header)" and "limit \<equiv> gap_limit max_gap (footer - header)"
  shows "tri_fragmented_gap_carve disk header footer max_gap validator step_bytes budget running
    = (if length disk \<le> header \<or> footer < header + 8 \<or> budget = 0 then no_bgc
       else outcome (try_all (\<lambda>((s, n), t, m). tri_attempt disk header footer validator budget running s n t m) (gap_pairs step limit footer (header + step)) 0))"
proof (cases "length disk \<le> header \<or> footer < header + 8")
  case True
  then show ?thesis by (auto simp: tri_fragmented_gap_carve_def Let_def)
next
  case False
  then have pre: "\<not> (length disk \<le> header \<or> footer \<le> header)" "\<not> footer - header < 8" by auto
  show ?thesis
  proof (cases "budget = 0")
    case True
    show ?thesis
      unfolding tri_fragmented_gap_carve_def Let_def if_not_P [OF pre(1)] if_not_P [OF pre(2)] True for_loop_no_budget by simp
  next
    case b: False
    then have "0 < budget" by simp
    show ?thesis
      unfolding tri_fragmented_gap_carve_def Let_def if_not_P [OF pre(1)] if_not_P [OF pre(2)] tri_loops [OF \<open>0 < budget\<close>]
      using False b by (simp add: outcome_def step_def limit_def)
  qed
qed

text \<open>C37. Both searches give the first gap, or pair of gaps, in their order whose removal validates, among
  as many candidates as the budget allows; a cancelled search gives that or nothing.\<close>

theorem gap_searches_are_exhaustive:
  "bifragmented_gap_carve disk header footer max_gap validator step_bytes budget (\<lambda>a. True)
     = bgc_spec disk header footer max_gap validator step_bytes budget
   \<and> tri_fragmented_gap_carve disk header footer max_gap validator step_bytes budget (\<lambda>a. True)
     = tri_spec disk header footer max_gap validator step_bytes budget
   \<and> bifragmented_gap_carve disk header footer max_gap validator step_bytes budget running
     \<in> {no_bgc, bgc_spec disk header footer max_gap validator step_bytes budget}
   \<and> tri_fragmented_gap_carve disk header footer max_gap validator step_bytes budget running
     \<in> {no_bgc, tri_spec disk header footer max_gap validator step_bytes budget}"
proof -
  let ?span = "footer - header"
  let ?step = "gap_step step_bytes ?span" and ?limit = "gap_limit max_gap ?span"
  let ?gaps = "gaps ?step ?limit footer (header + ?step)" and ?pairs = "gap_pairs ?step ?limit footer (header + ?step)"
  let ?f = "\<lambda>running (s, n). bgc_attempt disk header footer validator budget running s n"
  let ?t = "\<lambda>running ((s, n), t, m). tri_attempt disk header footer validator budget running s n t m"
  have "?f (\<lambda>a. True) c a = (if budget \<le> a + 1 then Inl no_bgc else if bgc_good disk header footer validator c
      then Inl (bgc_of header (Some c)) else Inr (a + 1))" for c a
    by (cases c) (auto simp: bgc_attempt_def bgc_good_def without_gap_def bgc_of_def Let_def)
  from try_all_find [OF this, where a = 0 and cs = ?gaps]
  have bgc_full: "bifragmented_gap_carve disk header footer max_gap validator step_bytes budget (\<lambda>a. True)
      = bgc_spec disk header footer max_gap validator step_bytes budget"
    unfolding bgc_as_search bgc_spec_def Let_def by (auto simp: outcome_def bgc_of_def split: option.split)
  have "?t (\<lambda>a. True) c a = (if budget \<le> a + 1 then Inl no_bgc else if tri_good disk header footer validator c
      then Inl (tri_of header (Some c)) else Inr (a + 1))" for c a
    by (cases c) (auto simp: tri_attempt_def tri_good_def without_gaps_def tri_of_def Let_def)
  from try_all_find [OF this, where a = 0 and cs = ?pairs]
  have tri_full: "tri_fragmented_gap_carve disk header footer max_gap validator step_bytes budget (\<lambda>a. True)
      = tri_spec disk header footer max_gap validator step_bytes budget"
    unfolding tri_as_search tri_spec_def Let_def by (auto simp: outcome_def tri_of_def split: option.split)
  have "?f running c a = Inl no_bgc \<or> ?f running c a = ?f (\<lambda>a. True) c a" for c a
    by (cases c) (simp add: bgc_attempt_def Let_def)
  from try_all_cancel [OF this, where a = 0 and cs = ?gaps]
  have "bifragmented_gap_carve disk header footer max_gap validator step_bytes budget running
      \<in> {no_bgc, bifragmented_gap_carve disk header footer max_gap validator step_bytes budget (\<lambda>a. True)}"
    unfolding bgc_as_search outcome_def by auto
  moreover have "?t running c a = Inl no_bgc \<or> ?t running c a = ?t (\<lambda>a. True) c a" for c a
    by (cases c; cases "budget \<le> a + 1 \<or> \<not> running (a + 1)") (simp_all add: tri_attempt_def Let_def split: prod.split)
  from try_all_cancel [OF this, where a = 0 and cs = ?pairs]
  have "tri_fragmented_gap_carve disk header footer max_gap validator step_bytes budget running
      \<in> {no_bgc, tri_fragmented_gap_carve disk header footer max_gap validator step_bytes budget (\<lambda>a. True)}"
    unfolding tri_as_search outcome_def by auto
  ultimately show ?thesis unfolding bgc_full tri_full using bgc_full tri_full by simp
qed

section \<open>The shared budget\<close>

text \<open>One call by itself, and the calls of many workers: each atomic operation is a step, \<open>Restoring\<close> is a
  worker part_between its two operations.\<close>

definition bgc_budget_try_acquire :: "int \<Rightarrow> bool \<times> int" where
  "bgc_budget_try_acquire budget = (if budget \<le> 0 then (False, budget - 1 + 1) else (True, budget - 1))"

datatype worker = Before | Restoring | Acquired | Refused

record budget_state =
  bs_counter :: int
  bs_workers :: "worker list"

inductive budget_step :: "budget_state \<Rightarrow> budget_state \<Rightarrow> bool" where
  take: "i < length (bs_workers s) \<Longrightarrow> bs_workers s ! i = Before \<Longrightarrow> 0 < bs_counter s \<Longrightarrow>
    budget_step s \<lparr>bs_counter = bs_counter s - 1, bs_workers = (bs_workers s)[i := Acquired]\<rparr>"
| miss: "i < length (bs_workers s) \<Longrightarrow> bs_workers s ! i = Before \<Longrightarrow> bs_counter s \<le> 0 \<Longrightarrow>
    budget_step s \<lparr>bs_counter = bs_counter s - 1, bs_workers = (bs_workers s)[i := Restoring]\<rparr>"
| restore: "i < length (bs_workers s) \<Longrightarrow> bs_workers s ! i = Restoring \<Longrightarrow>
    budget_step s \<lparr>bs_counter = bs_counter s + 1, bs_workers = (bs_workers s)[i := Refused]\<rparr>"

inductive_cases budget_stepE: "budget_step s s'"

definition budget_start :: "int \<Rightarrow> nat \<Rightarrow> budget_state" where
  "budget_start budget n = \<lparr>bs_counter = budget, bs_workers = replicate n Before\<rparr>"

abbreviation workers :: "budget_state \<Rightarrow> worker \<Rightarrow> nat" where
  "workers s w \<equiv> count_list (bs_workers s) w"

definition budget_inv :: "int \<Rightarrow> nat \<Rightarrow> budget_state \<Rightarrow> bool" where
  "budget_inv budget n s \<longleftrightarrow> length (bs_workers s) = n
     \<and> bs_counter s = budget - int (workers s Acquired) - int (workers s Restoring)
     \<and> workers s Acquired \<le> nat budget
     \<and> (0 < workers s Restoring + workers s Refused \<longrightarrow> workers s Acquired = nat budget)"

lemma count_list_update:
  "i < length xs \<Longrightarrow> count_list (xs[i := y]) w + (if xs ! i = w then 1 else 0) = count_list xs w + (if y = w then 1 else 0)"
proof (induction xs arbitrary: i)
  case (Cons x xs)
  show ?case
  proof (cases i)
    case (Suc j)
    then show ?thesis using Cons.IH [of j] Cons.prems by (auto split: if_splits)
  qed simp
qed simp

lemma workers_sum: "count_list ws Before + count_list ws Restoring + count_list ws Acquired + count_list ws Refused = length ws"
proof (induction ws)
  case (Cons w ws)
  then show ?case by (cases w) auto
qed simp

text \<open>What a step does to the counts.\<close>

lemma budget_step_counts:
  assumes "budget_step s s'"
  shows "length (bs_workers s') = length (bs_workers s)
    \<and> (0 < bs_counter s \<and> bs_counter s' = bs_counter s - 1 \<and> workers s Before = Suc (workers s' Before) \<and> workers s' Acquired = Suc (workers s Acquired)
         \<and> workers s' Restoring = workers s Restoring \<and> workers s' Refused = workers s Refused
       \<or> bs_counter s \<le> 0 \<and> bs_counter s' = bs_counter s - 1 \<and> workers s Before = Suc (workers s' Before) \<and> workers s' Acquired = workers s Acquired
         \<and> workers s' Restoring = Suc (workers s Restoring) \<and> workers s' Refused = workers s Refused
       \<or> bs_counter s' = bs_counter s + 1 \<and> workers s' Before = workers s Before \<and> workers s' Acquired = workers s Acquired
         \<and> workers s Restoring = Suc (workers s' Restoring) \<and> workers s' Refused = Suc (workers s Refused))"
  using assms
proof cases
  case (take i)
  have "count_list (bs_workers s') w + (if bs_workers s ! i = w then 1 else 0) = workers s w + (if Acquired = w then 1 else 0)" for w
    using count_list_update [OF take(2), of Acquired w] take(1) by simp
  from this [of Before] this [of Restoring] this [of Acquired] this [of Refused] show ?thesis using take by simp
next
  case (miss i)
  have "count_list (bs_workers s') w + (if bs_workers s ! i = w then 1 else 0) = workers s w + (if Restoring = w then 1 else 0)" for w
    using count_list_update [OF miss(2), of Restoring w] miss(1) by simp
  from this [of Before] this [of Restoring] this [of Acquired] this [of Refused] show ?thesis using miss by simp
next
  case (restore i)
  have "count_list (bs_workers s') w + (if bs_workers s ! i = w then 1 else 0) = workers s w + (if Refused = w then 1 else 0)" for w
    using count_list_update [OF restore(2), of Refused w] restore(1) by simp
  from this [of Before] this [of Restoring] this [of Acquired] this [of Refused] show ?thesis using restore by simp
qed

lemma budget_step_inv: "budget_step s s' \<Longrightarrow> budget_inv budget n s \<Longrightarrow> budget_inv budget n s'"
  using budget_step_counts [of s s'] unfolding budget_inv_def by linarith

text \<open>Each worker has at most two steps to go.\<close>

definition steps_left :: "budget_state \<Rightarrow> nat" where
  "steps_left s = 2 * workers s Before + workers s Restoring"

lemma budget_step_left: "budget_step s s' \<Longrightarrow> steps_left s' < steps_left s"
  using budget_step_counts [of s s'] unfolding steps_left_def by linarith

lemma budget_stuck:
  assumes "\<not> (\<exists>s'. budget_step s s')"
  shows "steps_left s = 0"
proof -
  have "bs_workers s ! i \<notin> {Before, Restoring}" if "i < length (bs_workers s)" for i
    using assms that take [of i s] miss [of i s] restore [of i s] by (meson insertE linorder_not_le singletonD)
  then have "Before \<notin> set (bs_workers s)" "Restoring \<notin> set (bs_workers s)" by (auto simp: in_set_conv_nth)
  then show ?thesis by (simp add: steps_left_def)
qed

lemma count_list_replicate: "count_list (replicate n x) w = (if x = w then n else 0)"
  by (induction n) auto

lemma budget_run:
  "(budget_step ^^ k) (budget_start budget n) s \<Longrightarrow> budget_inv budget n s \<and> k + steps_left s \<le> 2 * n"
proof (induction k arbitrary: s)
  case 0
  then have "s = budget_start budget n" by simp
  then show ?case by (simp add: budget_inv_def budget_start_def steps_left_def count_list_replicate)
next
  case (Suc k)
  then obtain u where u: "(budget_step ^^ k) (budget_start budget n) u" "budget_step u s" by auto
  then show ?case using Suc.IH [OF u(1)] budget_step_inv [OF u(2)] budget_step_left [OF u(2)] by fastforce
qed

text \<open>C38. Whatever the order of their operations, \<open>n\<close> workers never hold more than the budget; within \<open>2 n\<close>
  steps all of them have an answer, and then exactly as many hold a unit as the budget allows, and the
  counter is what is left.\<close>

theorem budget_is_spent_exactly:
  assumes "(budget_step ^^ k) (budget_start budget n) s"
  shows "k \<le> 2 * n \<and> workers s Acquired \<le> nat budget
    \<and> ((\<exists>s'. budget_step s s')
       \<or> workers s Acquired = min n (nat budget) \<and> workers s Refused = n - min n (nat budget)
         \<and> bs_counter s = budget - int (min n (nat budget)))"
proof -
  have inv: "budget_inv budget n s" "k + steps_left s \<le> 2 * n" using budget_run [OF assms] by blast+
  moreover have "workers s Acquired = min n (nat budget) \<and> workers s Refused = n - min n (nat budget)
      \<and> bs_counter s = budget - int (min n (nat budget))" if "\<not> (\<exists>s'. budget_step s s')"
  proof -
    have "workers s Before = 0" "workers s Restoring = 0" using budget_stuck [OF that] by (simp_all add: steps_left_def)
    moreover have "length (bs_workers s) = n" using inv(1) by (simp add: budget_inv_def)
    ultimately show ?thesis using inv(1) workers_sum [of "bs_workers s"] unfolding budget_inv_def by (cases "workers s Refused = 0") simp_all
  qed
  ultimately show ?thesis unfolding budget_inv_def by fastforce
qed

theorem budget_is_spent_exactly_witness:
  "\<exists>s. (budget_step ^^ 3) (budget_start 1 2) s \<and> workers s Acquired = 1 \<and> workers s Refused = 1 \<and> bs_counter s = 0"
proof -
  let ?s = "\<lparr>bs_counter = 0, bs_workers = [Acquired, Refused]\<rparr>"
  have "budget_step (budget_start 1 2) \<lparr>bs_counter = 0, bs_workers = [Acquired, Before]\<rparr>"
    using take [of 0 "budget_start 1 2"] by (simp add: budget_start_def numeral_2_eq_2)
  moreover have "budget_step \<lparr>bs_counter = 0, bs_workers = [Acquired, Before]\<rparr> \<lparr>bs_counter = - 1, bs_workers = [Acquired, Restoring]\<rparr>"
    using miss [of 1 "\<lparr>bs_counter = 0, bs_workers = [Acquired, Before]\<rparr>"] by simp
  moreover have "budget_step \<lparr>bs_counter = - 1, bs_workers = [Acquired, Restoring]\<rparr> ?s"
    using restore [of 1 "\<lparr>bs_counter = - 1, bs_workers = [Acquired, Restoring]\<rparr>"] by simp
  ultimately have run: "(budget_step ^^ 3) (budget_start 1 2) ?s" by (auto simp: numeral_3_eq_3 relcompp_apply)
  have "\<not> (\<exists>s'. budget_step ?s s')"
    using budget_step_left [of ?s] by (auto simp: steps_left_def)
  then show ?thesis using budget_is_spent_exactly [OF run] run by auto
qed

end
