(* ===== verification/File_Validators.thy ===== *)
theory File_Validators
  imports Size_Parsers Recovery_Validation
begin

text \<open>
  The structural validators of carved and recovered files, the repairs of files without their end
  (include/carver/file\_validators.h), and the archives of the ZIP family (carver/parsers/zip\_family.cpp).
  A score is an \<open>int\<close>, as in the code; every access is behind a test of the size.
\<close>

section \<open>JPEG\<close>

definition is_restart :: "byte \<Rightarrow> bool" where
  "is_restart m \<longleftrightarrow> 0xD0 \<le> m \<and> m \<le> 0xD7"

text \<open>Entropy-coded data: to the next marker that is neither stuffing nor a restart.\<close>

function jpeg_skip :: "buf \<Rightarrow> nat \<Rightarrow> nat" where
  "jpeg_skip d i =
     (if i + 1 < length d \<and> \<not> (d ! i = 0xFF \<and> d ! (i + 1) \<noteq> 0 \<and> \<not> is_restart (d ! (i + 1))) then jpeg_skip d (i + 1) else i)"
  by pat_completeness auto
termination by (relation "measure (\<lambda>(d, i). length d - i)") auto

declare jpeg_skip.simps [simp del]

lemma jpeg_skip_ge: "i \<le> jpeg_skip d i"
  by (induction d i rule: jpeg_skip.induct) (subst jpeg_skip.simps, auto)

definition jpeg_end :: "bool \<Rightarrow> bool \<Rightarrow> int" where
  "jpeg_end seg sos = (if sos then 75 else if seg then 50 else 20)"

function jpeg_loop :: "buf \<Rightarrow> nat \<Rightarrow> bool \<Rightarrow> bool \<Rightarrow> int" where
  "jpeg_loop d i seg sos =
     (if \<not> i + 1 < length d then jpeg_end seg sos
      else if d ! i \<noteq> 0xFF then jpeg_loop d (i + 1) seg sos
      else let marker = d ! (i + 1)
           in if marker = 0xD9 then (if sos then 95 else if seg then 70 else 30)
              else if marker = 0 \<or> is_restart marker then jpeg_loop d (i + 2) seg sos
              else if length d \<le> i + 3 then jpeg_end seg sos
              else if be_nat 0 (slice (i + 2) 2 d) < 2 then 20
              else let sos' = (sos \<or> marker = 0xDA); j = i + (2 + be_nat 0 (slice (i + 2) 2 d))
                   in jpeg_loop d (if sos' then jpeg_skip d j else j) True sos')"
  by pat_completeness auto
termination
proof (relation "measure (\<lambda>(d, i, seg, sos). length d - i)", goal_cases)
  case (4 d i seg sos marker sos' j)
  have "i < (if sos' then jpeg_skip d j else j)" using jpeg_skip_ge [of j d] 4 by auto
  then show ?case using 4(1) by simp
qed auto

declare jpeg_loop.simps [simp del]

definition validate_jpeg :: "buf \<Rightarrow> int" where
  "validate_jpeg d = (if length d < 4 then 0 else if d ! 0 \<noteq> 0xFF \<or> d ! 1 \<noteq> 0xD8 then 0 else jpeg_loop d 2 False False)"

definition append_missing_jpeg_eoi :: "buf \<Rightarrow> buf option" where
  "append_missing_jpeg_eoi buf =
     (if length buf < 4 then None
      else if buf ! 0 \<noteq> 0xFF \<or> buf ! 1 \<noteq> 0xD8 then None
      else if buf ! (length buf - 2) = 0xFF \<and> last buf = 0xD9 then None
      else if validate_jpeg buf < 75 then None
      else Some (buf @ [0xFF, 0xD9]))"

section \<open>PNG\<close>

definition crc32_bit :: "u32 \<Rightarrow> u32" where
  "crc32_bit c = (if c AND 1 \<noteq> 0 then 0xEDB88320 XOR drop_bit 1 c else drop_bit 1 c)"

definition crc32_table :: "u32 list" where
  "crc32_table = map (\<lambda>i. (crc32_bit ^^ 8) (word_of_nat i)) [0..<256]"

definition crc32_byte :: "byte \<Rightarrow> u32 \<Rightarrow> u32" where
  "crc32_byte b crc = crc32_table ! unat ((crc XOR ucast b) AND 0xFF) XOR drop_bit 8 crc"

definition crc32 :: "buf \<Rightarrow> u32" where
  "crc32 data = fold crc32_byte data 0xFFFFFFFF XOR 0xFFFFFFFF"

definition ascii_letter :: "byte \<Rightarrow> bool" where
  "ascii_letter c \<longleftrightarrow> 65 \<le> c \<and> c \<le> 90 \<or> 97 \<le> c \<and> c \<le> 122"

definition png_end :: "bool \<Rightarrow> bool \<Rightarrow> nat \<Rightarrow> int" where
  "png_end ihdr iend checked =
     (if \<not> ihdr then 0 else if iend \<and> 0 < checked then 98 else if iend then 80 else if 0 < checked then 70 else 40)"

text \<open>The flag of IEND is set only where the loop ends, so inside it is false.\<close>

function png_loop :: "buf \<Rightarrow> nat \<Rightarrow> bool \<Rightarrow> nat \<Rightarrow> int" where
  "png_loop d i ihdr checked =
     (if length d < i + 12 then png_end ihdr False checked
      else let len = be_nat 0 (slice i 4 d); ty = slice (i + 4) 4 d
           in if \<not> list_all ascii_letter ty then 30
              else if \<not> ihdr \<and> ty \<noteq> bytes_of ''IHDR'' then 10
              else if ty = bytes_of ''IEND'' then png_end True True checked
              else if length d < i + 8 + len + 4 then 60
              else if crc32 (slice (i + 4) (w32 (len + 4)) d) \<noteq> word_of_nat (be_nat 0 (slice (i + 8 + len) 4 d)) then 40
              else png_loop d (i + 8 + len + 4) True (checked + 1))"
  by pat_completeness auto
termination by (relation "measure (\<lambda>(d, i, ihdr, checked). length d - i)") auto

declare png_loop.simps [simp del]

definition png_magic :: buf where
  "png_magic = [0x89] @ bytes_of ''PNG'' @ [0x0D, 0x0A, 0x1A, 0x0A]"

definition validate_png :: "buf \<Rightarrow> int" where
  "validate_png d = (if length d < 8 \<or> take 8 d \<noteq> png_magic then 0 else png_loop d 8 False 0)"

section \<open>BMP, RIFF, GZIP, MPEG-TS\<close>

definition le_int32 :: "buf \<Rightarrow> nat \<Rightarrow> int" where
  "le_int32 d off = sint (word_of_nat (le_nat (slice off 4 d)) :: u32)"

definition validate_bmp :: "buf \<Rightarrow> int" where
  "validate_bmp d =
     (if length d < 14 \<or> take 2 d \<noteq> bytes_of ''BM'' then 0
      else let bf_size = le_nat (slice 2 4 d); off_bits = le_nat (slice 10 4 d)
           in if off_bits < 14 \<or> 1024 * 1024 < off_bits then 5
              else if 0 < bf_size \<and> bf_size < off_bits then 5
              else if length d < 18 then 25
              else let dib = le_nat (slice 14 4 d); w = le_int32 d 18; h = le_int32 d 22
                   in if dib \<notin> {12, 40, 108, 124} then 10
                      else if 26 \<le> length d \<and> 40 \<le> dib \<and> (w = 0 \<or> h = 0) then 20
                      else if 26 \<le> length d \<and> 40 \<le> dib \<and> (w < -65535 \<or> 65535 < w \<or> h < -65535 \<or> 65535 < h) then 15
                      else if 0 < bf_size \<and> bf_size \<le> length d then 90 else 70)"

definition detect_riff_subtype :: "buf \<Rightarrow> string option" where
  "detect_riff_subtype d =
     (if length d < 12 then None
      else if slice 8 4 d = bytes_of ''WEBP'' then Some ''webp''
      else if slice 8 4 d = bytes_of ''AVI '' then Some ''avi''
      else if slice 8 4 d = bytes_of ''WAVE'' then Some ''wav'' else None)"

definition validate_riff :: "buf \<Rightarrow> int" where
  "validate_riff d =
     (if length d < 12 then 0 else if take 4 d \<noteq> bytes_of ''RIFF'' then 0 else if detect_riff_subtype d \<noteq> None then 90 else 15)"

text \<open>Behind the terminating zero at or after \<open>i\<close>.\<close>

definition gzip_text :: "buf \<Rightarrow> nat \<Rightarrow> nat option" where
  "gzip_text d i = (let z = i + length (takeWhile (\<lambda>b. b \<noteq> 0) (drop i d)) in if length d \<le> z then None else Some (z + 1))"

definition gzip_extra :: "buf \<Rightarrow> nat \<Rightarrow> nat option" where
  "gzip_extra d i =
     (if length d < i + 2 then None
      else let j = i + (2 + le_nat (slice i 2 d)) in if length d < j then None else Some j)"

definition validate_gzip :: "buf \<Rightarrow> int" where
  "validate_gzip d =
     (if length d < 10 then 0
      else if d ! 0 \<noteq> 0x1F \<or> d ! 1 \<noteq> 0x8B then 0
      else if d ! 2 \<noteq> 0x08 then 20
      else if d ! 3 AND 0xE0 \<noteq> 0 then 20
      else case (if d ! 3 AND 0x04 \<noteq> 0 then gzip_extra d 10 else Some 10) of
        None \<Rightarrow> 30
      | Some i1 \<Rightarrow> (case (if d ! 3 AND 0x08 \<noteq> 0 then gzip_text d i1 else Some i1) of
          None \<Rightarrow> 30
        | Some i2 \<Rightarrow> (case (if d ! 3 AND 0x10 \<noteq> 0 then gzip_text d i2 else Some i2) of
            None \<Rightarrow> 30
          | Some i3 \<Rightarrow> if length d < i3 + 8 then 40 else 85)))"

definition validate_mpeg_ts :: "buf \<Rightarrow> int" where
  "validate_mpeg_ts d =
     (if length d < 188 * 5 then 0 else if list_ex (\<lambda>i. d ! (i * 188) \<noteq> 0x47) [0..<5] then 0 else 92)"

section \<open>ZIP\<close>

definition pk :: "byte \<Rightarrow> byte \<Rightarrow> buf" where
  "pk a b = bytes_of ''PK'' @ [a, b]"

text \<open>A signature in the last 65557 bytes.\<close>

definition pk_in_tail :: "buf \<Rightarrow> byte \<Rightarrow> byte \<Rightarrow> bool" where
  "pk_in_tail d a b \<longleftrightarrow> list_ex (\<lambda>i. slice i 4 d = pk a b) [length d - 65557..<length d - 3]"

definition validate_zip :: "buf \<Rightarrow> int" where
  "validate_zip d =
     (if length d < 4 then 0
      else if take 4 d \<noteq> pk 3 4 then 0
      else let central = pk_in_tail d 1 2; eocd = pk_in_tail d 5 6
           in if eocd \<and> central then 95 else if eocd then 70 else if central then 60 else 30)"

record zip_local =
  zl_flags :: nat
  zl_method :: nat
  zl_time :: nat
  zl_date :: nat
  zl_name_len :: nat
  zl_crc :: nat
  zl_comp :: nat
  zl_uncomp :: nat
  zl_header_off :: nat
  zl_name_off :: nat

definition zip_local_at :: "buf \<Rightarrow> nat \<Rightarrow> zip_local" where
  "zip_local_at d i =
     \<lparr>zl_flags = le_nat (slice (i + 6) 2 d), zl_method = le_nat (slice (i + 8) 2 d), zl_time = le_nat (slice (i + 10) 2 d),
      zl_date = le_nat (slice (i + 12) 2 d), zl_name_len = le_nat (slice (i + 26) 2 d), zl_crc = le_nat (slice (i + 14) 4 d),
      zl_comp = le_nat (slice (i + 18) 4 d), zl_uncomp = le_nat (slice (i + 22) 4 d), zl_header_off = i, zl_name_off = i + 30\<rparr>"

text \<open>The local headers one after the other, at most \<open>n\<close>; \<open>None\<close>: the repair is given up.\<close>

primrec zip_locals :: "nat \<Rightarrow> buf \<Rightarrow> nat \<Rightarrow> zip_local list option" where
  "zip_locals 0 d i = Some []"
| "zip_locals (Suc n) d i =
     (if length d < i + 30 then Some []
      else if slice i 4 d \<noteq> pk 3 4 then Some []
      else let loc = zip_local_at d i;
               after = i + 30 + zl_name_len loc + le_nat (slice (i + 28) 2 d) + zl_comp loc
           in if bit (zl_flags loc) 3 then None
              else if length d < after then None
              else map_option ((#) loc) (zip_locals n d after))"

definition zip_central_entry :: "buf \<Rightarrow> zip_local \<Rightarrow> buf" where
  "zip_central_entry d loc =
     pk 1 2 @ nat_le 2 20 @ nat_le 2 20 @ nat_le 2 (zl_flags loc) @ nat_le 2 (zl_method loc) @ nat_le 2 (zl_time loc) @ nat_le 2 (zl_date loc)
     @ nat_le 4 (zl_crc loc) @ nat_le 4 (zl_comp loc) @ nat_le 4 (zl_uncomp loc) @ nat_le 2 (zl_name_len loc)
     @ nat_le 2 0 @ nat_le 2 0 @ nat_le 2 0 @ nat_le 2 0 @ nat_le 4 0 @ nat_le 4 (zl_header_off loc)
     @ slice (zl_name_off loc) (zl_name_len loc) d"

definition zip_eocd :: "nat \<Rightarrow> nat \<Rightarrow> nat \<Rightarrow> buf" where
  "zip_eocd n cd_size cd_off =
     pk 5 6 @ nat_le 2 0 @ nat_le 2 0 @ nat_le 2 n @ nat_le 2 n @ nat_le 4 cd_size @ nat_le 4 cd_off @ nat_le 2 0"

definition rebuild_missing_zip_directory :: "buf \<Rightarrow> buf option" where
  "rebuild_missing_zip_directory buf =
     (if length buf < 30 \<or> take 4 buf \<noteq> pk 3 4 then None
      else if pk_in_tail buf 5 6 then None
      else case zip_locals 4096 buf 0 of
        None \<Rightarrow> None
      | Some [] \<Rightarrow> None
      | Some locals \<Rightarrow>
          let cd = concat (map (zip_central_entry buf) locals)
          in Some (buf @ cd @ zip_eocd (length locals) (length cd) (length buf)))"

text \<open>The last end record, searched from the end.\<close>

definition find_eocd :: "buf \<Rightarrow> nat option" where
  "find_eocd d =
     (if length d < 22 then None else List.find (\<lambda>i. slice i 4 d = pk 5 6) (rev [length d - 65557..<length d - 21]))"

definition sniff_at :: "buf \<Rightarrow> nat \<Rightarrow> string" where
  "sniff_at d i =
     (if slice i 5 d = bytes_of ''word/'' then ''docx'' else if slice i 3 d = bytes_of ''xl/'' then ''xlsx''
      else if slice i 4 d = bytes_of ''ppt/'' then ''pptx'' else [])"

definition sniff_office_subtype :: "buf \<Rightarrow> string" where
  "sniff_office_subtype d =
     (case List.find (\<lambda>i. sniff_at d i \<noteq> []) [0..<min (length d) (256 * 1024) - 5] of None \<Rightarrow> [] | Some i \<Rightarrow> sniff_at d i)"

definition zip_end :: "buf \<Rightarrow> parse_result \<Rightarrow> parse_result" where
  "zip_end d r =
     (case find_eocd d of
        None \<Rightarrow> r
      | Some i \<Rightarrow> let e = i + 22 + le_nat (slice (i + 20) 2 d)
                  in if e \<le> length d \<and> 0 < e then r\<lparr>pr_size := e, pr_conf := max (pr_conf r) 92\<rparr> else r)"

definition parse_zip_family :: "buf \<Rightarrow> parse_result" where
  "parse_zip_family d =
     (if length d < 4 \<or> take 4 d \<noteq> pk 3 4 then no_bound
      else if validate_zip d \<le> 0 then no_bound
      else let r = zip_end d (bounded_by (length d) (nat (validate_zip d))); sub = sniff_office_subtype d
           in if sub = [] then r else r\<lparr>pr_ext := sub, pr_conf := max (pr_conf r) 88\<rparr>)"

section \<open>PDF\<close>

definition is_dec_digit :: "byte \<Rightarrow> bool" where
  "is_dec_digit b \<longleftrightarrow> 48 \<le> b \<and> b \<le> 57"

definition contains_from :: "nat \<Rightarrow> buf \<Rightarrow> buf \<Rightarrow> bool" where
  "contains_from start pat d \<longleftrightarrow> list_ex (\<lambda>i. slice i (length pat) d = pat) [start..<length d + 1 - length pat]"

definition pdf_closed :: "buf \<Rightarrow> bool" where
  "pdf_closed d = contains_from (length d - 1024) (bytes_of ''%%EOF'') d"

text \<open>The last byte is not looked at when \<open>obj\<close> is searched.\<close>

definition validate_pdf :: "buf \<Rightarrow> int" where
  "validate_pdf d =
     (if length d < 8 then 0
      else if take 5 d \<noteq> bytes_of ''%PDF-'' then 0
      else if \<not> is_dec_digit (d ! 5) then 20
      else let saw_obj = contains_from 0 (bytes_of ''obj'') (butlast d); saw_eof = pdf_closed d
           in if saw_obj \<and> saw_eof then 90 else if saw_obj then 55 else if saw_eof then 50 else 25)"

text \<open>The decimal number at \<open>j\<close>, stopped at 100000, and the position behind it.\<close>

function pdf_number :: "buf \<Rightarrow> nat \<Rightarrow> nat \<Rightarrow> nat \<times> nat" where
  "pdf_number d j num =
     (if j < length d \<and> is_dec_digit (d ! j) \<and> num < 100000 then pdf_number d (j + 1) (num * 10 + (unat (d ! j) - 48)) else (j, num))"
  by pat_completeness auto
termination by (relation "measure (\<lambda>(d, j, num). length d - j)") auto

declare pdf_number.simps [simp del]

definition skip_digits :: "buf \<Rightarrow> nat \<Rightarrow> nat" where
  "skip_digits d j = j + length (takeWhile is_dec_digit (drop j d))"

text \<open>The number of the object that begins at \<open>i\<close>: its number, a generation and \<open>obj\<close>.\<close>

definition pdf_object_at :: "buf \<Rightarrow> nat \<Rightarrow> nat option" where
  "pdf_object_at d i =
     (if \<not> is_dec_digit (d ! i) then None
      else if 0 < i \<and> is_dec_digit (d ! (i - 1)) then None
      else if 0 < i \<and> 32 < d ! (i - 1) \<and> d ! (i - 1) \<noteq> 10 \<and> d ! (i - 1) \<noteq> 13 then None
      else let (j, num) = pdf_number d i 0
           in if length d \<le> j + 5 \<or> d ! j \<noteq> 32 then None
              else if \<not> is_dec_digit (d ! (j + 1)) then None
              else let k = skip_digits d (j + 1)
                   in if length d < k + 4 \<or> d ! k \<noteq> 32 then None
                      else if slice (k + 1) 3 d \<noteq> bytes_of ''obj'' then None
                      else if num = 0 \<or> 4096 < num then None
                      else Some num)"

record pdf_objects =
  po_offs :: "nat \<Rightarrow> nat option"
  po_root :: nat
  po_max :: nat

definition note_object :: "buf \<Rightarrow> nat \<Rightarrow> pdf_objects \<Rightarrow> pdf_objects" where
  "note_object d i s =
     (case pdf_object_at d i of
        None \<Rightarrow> s
      | Some num \<Rightarrow>
          let s1 = (if po_offs s num = None then s\<lparr>po_offs := (po_offs s)(num \<mapsto> i), po_root := (if po_root s = 0 then num else po_root s)\<rparr> else s)
          in s1\<lparr>po_max := max (po_max s1) num\<rparr>)"

definition pdf_objects_of :: "buf \<Rightarrow> pdf_objects" where
  "pdf_objects_of d = fold (note_object d) [0..<length d - 6] \<lparr>po_offs = Map.empty, po_root = 0, po_max = 0\<rparr>"

definition ten_digits :: "nat \<Rightarrow> string" where
  "ten_digits n = replicate (10 - length (dec_string n)) CHR ''0'' @ dec_string n"

definition newline :: string where "newline = [CHR 0x0A]"

definition xref_line :: "pdf_objects \<Rightarrow> nat \<Rightarrow> string" where
  "xref_line s n =
     (case po_offs s n of Some off \<Rightarrow> ten_digits off @ '' 00000 n '' @ newline | None \<Rightarrow> ''0000000000 00000 f '' @ newline)"

definition xref_text :: "pdf_objects \<Rightarrow> nat \<Rightarrow> string" where
  "xref_text s xref_off =
     ''xref'' @ newline @ ''0 '' @ dec_string (po_max s + 1) @ newline @ ''0000000000 65535 f '' @ newline
     @ concat (map (xref_line s) [1..<po_max s + 1])
     @ ''trailer'' @ newline @ ''<< /Size '' @ dec_string (po_max s + 1) @ '' /Root '' @ dec_string (po_root s) @ '' 0 R >>'' @ newline
     @ ''startxref'' @ newline @ dec_string xref_off @ newline @ ''%%EOF'' @ newline"

definition rebuild_missing_pdf_xref :: "buf \<Rightarrow> buf option" where
  "rebuild_missing_pdf_xref buf =
     (if length buf < 8 \<or> take 5 buf \<noteq> bytes_of ''%PDF-'' then None
      else if pdf_closed buf then None
      else let s = pdf_objects_of buf
           in if po_root s = 0 \<or> po_max s = 0 then None
              else Some (buf @ bytes_of (xref_text s (length buf))))"

section \<open>The validators and repairs of the recovery\<close>

text \<open>An MP4 file on which the box walk does not return has no score.\<close>

definition carve_validator :: "carve_format \<Rightarrow> buf \<Rightarrow> int" where
  "carve_validator f d =
     (case f of Jpeg \<Rightarrow> validate_jpeg d | Png \<Rightarrow> validate_png d | Zip \<Rightarrow> validate_zip d | Pdf \<Rightarrow> validate_pdf d
      | Gzip \<Rightarrow> validate_gzip d | Riff \<Rightarrow> validate_riff d | Bmp \<Rightarrow> validate_bmp d | MpegTs \<Rightarrow> validate_mpeg_ts d
      | Sqlite \<Rightarrow> int (pr_conf (parse_sqlite_db d))
      | Mp4 \<Rightarrow> (case parse_mp4_mov d of Some (Some r) \<Rightarrow> int (pr_conf r) | _ \<Rightarrow> undefined))"

definition with_carver :: "recovery_env \<Rightarrow> recovery_env" where
  "with_carver env = env\<lparr>en_validator := carve_validator, en_fix_jpeg := append_missing_jpeg_eoi,
     en_fix_pdf := rebuild_missing_pdf_xref, en_fix_zip := rebuild_missing_zip_directory\<rparr>"

section \<open>A closed JPEG keeps its score\<close>

abbreviation eoi :: buf where "eoi \<equiv> [0xFF, 0xD9]"

lemma jpeg_loop_at_end:
  assumes "length d \<le> i + 1" "d \<noteq> []"
  shows "75 \<le> jpeg_loop (d @ eoi) i seg True"
proof -
  consider "i + 1 = length d" | "i = length d" | "length d < i" using assms by linarith
  then show ?thesis
  proof cases
    case 1
    have at_eoi: "75 \<le> jpeg_loop (d @ eoi) (i + 1) seg True" using 1 by (subst jpeg_loop.simps) (simp add: nth_append)
    have "(d @ eoi) ! (i + 1) = 0xFF" using 1 by (simp add: nth_append)
    then show ?thesis using 1 at_eoi
      by (subst jpeg_loop.simps) (simp add: Let_def is_restart_def jpeg_end_def)
  next
    case 2
    then show ?thesis by (subst jpeg_loop.simps) (simp add: nth_append)
  next
    case 3
    then show ?thesis by (subst jpeg_loop.simps) (simp add: jpeg_end_def)
  qed
qed

lemma jpeg_loop_over: "length d \<le> i + 1 \<Longrightarrow> jpeg_loop d i seg True = 75"
  by (subst jpeg_loop.simps) (simp add: jpeg_end_def)

lemma jpeg_skip_append:
  "jpeg_skip d i + 1 < length d \<and> jpeg_skip (d @ e) i = jpeg_skip d i
   \<or> length d \<le> jpeg_skip d i + 1 \<and> jpeg_skip d i \<le> jpeg_skip (d @ e) i"
proof (induction d i rule: jpeg_skip.induct)
  case (1 d i)
  show ?case
  proof (cases "i + 1 < length d")
    case True
    then have same: "(d @ e) ! i = d ! i" "(d @ e) ! (i + 1) = d ! (i + 1)" by (simp_all add: nth_append)
    show ?thesis
    proof (cases "d ! i = 0xFF \<and> d ! (i + 1) \<noteq> 0 \<and> \<not> is_restart (d ! (i + 1))")
      case stop: True
      then have "jpeg_skip d i = i" "jpeg_skip (d @ e) i = i" using same by (subst jpeg_skip.simps, simp)+
      then show ?thesis using True by simp
    next
      case False
      then have "jpeg_skip d i = jpeg_skip d (i + 1)" "jpeg_skip (d @ e) i = jpeg_skip (d @ e) (i + 1)"
        using True same by (subst jpeg_skip.simps, simp)+
      then show ?thesis using 1 True False by simp
    qed
  next
    case False
    then have "jpeg_skip d i = i" by (subst jpeg_skip.simps) simp
    then show ?thesis using False jpeg_skip_ge [of i "d @ e"] by simp
  qed
qed

lemma jpeg_loop_closed: "75 \<le> jpeg_loop d i seg sos \<Longrightarrow> d \<noteq> [] \<Longrightarrow> 75 \<le> jpeg_loop (d @ eoi) i seg sos"
proof (induction d i seg sos rule: jpeg_loop.induct)
  case (1 d i seg sos)
  let ?d = "d @ eoi" and ?m = "d ! (i + 1)" and ?n = "be_nat 0 (slice (i + 2) 2 d)"
  show ?case
  proof (cases "i + 1 < length d")
    case False
    then have "sos" using 1(4) by (subst (asm) jpeg_loop.simps) (auto simp: jpeg_end_def split: if_splits)
    then show ?thesis using jpeg_loop_at_end [of d i seg] False 1(5) by simp
  next
    case in_d: True
    then have same: "?d ! i = d ! i" "?d ! (i + 1) = ?m" by (simp_all add: nth_append)
    consider (plain) "d ! i \<noteq> 0xFF" | (closing) "d ! i = 0xFF" "?m = 0xD9" | (stuffed) "d ! i = 0xFF" "?m \<noteq> 0xD9" "?m = 0 \<or> is_restart ?m"
      | (segment) "d ! i = 0xFF" "?m \<noteq> 0xD9" "\<not> (?m = 0 \<or> is_restart ?m)" by blast
    then show ?thesis
    proof cases
      case plain
      then have "jpeg_loop d i seg sos = jpeg_loop d (i + 1) seg sos" "jpeg_loop ?d i seg sos = jpeg_loop ?d (i + 1) seg sos"
        using in_d same by (subst jpeg_loop.simps, simp)+
      then show ?thesis using 1 in_d plain by simp
    next
      case closing
      then have "jpeg_loop ?d i seg sos = jpeg_loop d i seg sos"
        using in_d same by (subst (1 2) jpeg_loop.simps) simp
      then show ?thesis using 1(4) by simp
    next
      case stuffed
      then have "jpeg_loop d i seg sos = jpeg_loop d (i + 2) seg sos" "jpeg_loop ?d i seg sos = jpeg_loop ?d (i + 2) seg sos"
        using in_d same by (subst jpeg_loop.simps, simp add: Let_def)+
      then show ?thesis using 1 in_d stuffed by simp
    next
      case segment
      define sos' where "sos' = (sos \<or> ?m = 0xDA)"
      let ?next = "\<lambda>d. i + (2 + be_nat 0 (slice (i + 2) 2 d))"
      show ?thesis
      proof (cases "length d \<le> i + 3")
        case True
        then have "sos" using 1(4) in_d segment by (subst (asm) jpeg_loop.simps) (auto simp: jpeg_end_def Let_def split: if_splits)
        have two: "255 \<le> be_nat 0 (slice (i + 2) 2 ?d)"
        proof -
          consider "i + 3 = length d" | "i + 2 = length d" using True in_d by linarith
          then show ?thesis
          proof cases
            case 1
            then have "slice (i + 2) 2 ?d = [d ! (i + 2), 0xFF]"
              by (auto simp: slice_def take_Suc_conv_app_nth numeral_2_eq_2 simp flip: Cons_nth_drop_Suc)
            then show ?thesis by simp
          next
            case 2
            then have "slice (i + 2) 2 ?d = [0xFF, 0xD9]" by (simp add: slice_def)
            then show ?thesis by simp
          qed
        qed
        have "jpeg_loop ?d i seg sos = jpeg_loop ?d (jpeg_skip ?d (?next ?d)) True True"
          using in_d same segment True two \<open>sos\<close> by (subst jpeg_loop.simps) (simp add: Let_def jpeg_end_def)
        moreover have "length ?d \<le> jpeg_skip ?d (?next ?d) + 1" using jpeg_skip_ge [of "?next ?d" ?d] two True in_d by simp
        ultimately show ?thesis by (simp only: jpeg_loop_over)
      next
        case False
        then have n: "be_nat 0 (slice (i + 2) 2 ?d) = ?n" by (simp add: slice_append_left)
        have two: "\<not> ?n < 2" using 1(4) in_d segment False by (subst (asm) jpeg_loop.simps) (auto simp: Let_def split: if_splits)
        have old: "jpeg_loop d i seg sos = jpeg_loop d (if sos' then jpeg_skip d (?next d) else ?next d) True sos'"
          using in_d segment False two unfolding sos'_def by (subst jpeg_loop.simps) (simp add: Let_def)
        have new: "jpeg_loop ?d i seg sos = jpeg_loop ?d (if sos' then jpeg_skip ?d (?next d) else ?next d) True sos'"
          using in_d same segment False two n unfolding sos'_def by (subst jpeg_loop.simps) (simp add: Let_def)
        have IH: "75 \<le> jpeg_loop ?d (if sos' then jpeg_skip d (?next d) else ?next d) True sos'"
          using 1(3) [OF _ _ refl segment(2,3) False two sos'_def refl] in_d segment(1) 1(4,5) old by simp
        show ?thesis
        proof (cases "sos' \<and> length d \<le> jpeg_skip d (?next d) + 1")
          case True
          then have "length d \<le> jpeg_skip ?d (?next d) + 1" using jpeg_skip_append [of d "?next d" eoi] by linarith
          then show ?thesis unfolding new using True jpeg_loop_at_end [OF _ 1(5)] by simp
        next
          case False
          then have "sos' \<Longrightarrow> jpeg_skip ?d (?next d) = jpeg_skip d (?next d)" using jpeg_skip_append [of d "?next d" eoi] by linarith
          then show ?thesis unfolding new using IH by (cases sos') simp_all
        qed
      qed
    qed
  qed
qed

lemma closed_jpeg:
  assumes "append_missing_jpeg_eoi buf = Some out"
  shows "out = buf @ eoi \<and> 75 \<le> validate_jpeg out \<and> append_missing_jpeg_eoi out = None"
proof -
  have buf: "\<not> length buf < 4" "buf ! 0 = 0xFF" "buf ! 1 = 0xD8" "75 \<le> validate_jpeg buf" "out = buf @ eoi"
    using assms by (auto simp: append_missing_jpeg_eoi_def split: if_splits)
  then have "75 \<le> jpeg_loop buf 2 False False" by (simp add: validate_jpeg_def split: if_splits)
  then have "75 \<le> jpeg_loop out 2 False False" using jpeg_loop_closed [of buf 2] buf(1,5) by (cases "buf = []") simp_all
  moreover have "out ! 0 = 0xFF" "out ! 1 = 0xD8" using buf by (simp_all add: nth_append)
  ultimately have "75 \<le> validate_jpeg out" using buf(1,5) by (simp add: validate_jpeg_def)
  moreover have "append_missing_jpeg_eoi out = None" using buf(5) by (simp add: append_missing_jpeg_eoi_def nth_append)
  ultimately show ?thesis using buf(5) by blast
qed

section \<open>The rebuilt directory of a ZIP archive\<close>

lemma slice_shift: "slice (length pre + k) n (pre @ rest) = slice k n rest"
  by (simp add: slice_def)

lemma nat_le_2: "nat_le 2 v = [word_of_nat v, word_of_nat (v div 256)]"
  by (simp add: numeral_2_eq_2)

lemma nat_le_4: "nat_le 4 v = [word_of_nat v, word_of_nat (v div 256), word_of_nat (v div 256 div 256), word_of_nat (v div 256 div 256 div 256)]"
proof -
  have "nat_le (Suc (Suc (Suc (Suc 0)))) v
      = [word_of_nat v, word_of_nat (v div 256), word_of_nat (v div 256 div 256), word_of_nat (v div 256 div 256 div 256)]"
    by (simp only: nat_le.simps)
  then show ?thesis by (simp only: eval_nat_numeral(2,3) BitM.simps numeral_One One_nat_def)
qed

lemma length_pk [simp]: "length (pk a b) = 4"
  by (simp add: pk_def bytes_of_def)

lemma pk_expand: "pk a b = [0x50, 0x4B, a, b]"
  by (simp add: pk_def bytes_of_def)

lemma eocd_fields:
  "length (zip_eocd n s off) = 22" "slice 0 4 (zip_eocd n s off) = pk 5 6" "slice 10 2 (zip_eocd n s off) = nat_le 2 n"
  "slice 16 4 (zip_eocd n s off) = nat_le 4 off" "slice 20 2 (zip_eocd n s off) = nat_le 2 0"
  by (simp_all add: zip_eocd_def nat_le_2 nat_le_4 pk_expand slice_def)

lemma entry_fields:
  assumes "zl_name_off l + zl_name_len l \<le> length d"
  shows "length (zip_central_entry d l) = 46 + zl_name_len l" "slice 0 4 (zip_central_entry d l @ r) = pk 1 2"
    "slice 8 2 (zip_central_entry d l @ r) = nat_le 2 (zl_flags l)" "slice 10 2 (zip_central_entry d l @ r) = nat_le 2 (zl_method l)"
    "slice 12 2 (zip_central_entry d l @ r) = nat_le 2 (zl_time l)" "slice 14 2 (zip_central_entry d l @ r) = nat_le 2 (zl_date l)"
    "slice 16 4 (zip_central_entry d l @ r) = nat_le 4 (zl_crc l)" "slice 20 4 (zip_central_entry d l @ r) = nat_le 4 (zl_comp l)"
    "slice 24 4 (zip_central_entry d l @ r) = nat_le 4 (zl_uncomp l)" "slice 28 2 (zip_central_entry d l @ r) = nat_le 2 (zl_name_len l)"
    "slice 30 2 (zip_central_entry d l @ r) = nat_le 2 0" "slice 32 2 (zip_central_entry d l @ r) = nat_le 2 0"
    "slice 42 4 (zip_central_entry d l @ r) = nat_le 4 (zl_header_off l)"
    "slice 46 (zl_name_len l) (zip_central_entry d l @ r) = slice (zl_name_off l) (zl_name_len l) d"
  using assms by (simp_all add: zip_central_entry_def nat_le_2 nat_le_4 pk_expand slice_def)

text \<open>What another program reads: the end record, and the central entries it points to.\<close>

definition central_entry_at :: "buf \<Rightarrow> nat \<Rightarrow> zip_local \<times> buf" where
  "central_entry_at d i =
     (let header = le_nat (slice (i + 42) 4 d); n = le_nat (slice (i + 28) 2 d)
      in (\<lparr>zl_flags = le_nat (slice (i + 8) 2 d), zl_method = le_nat (slice (i + 10) 2 d), zl_time = le_nat (slice (i + 12) 2 d),
            zl_date = le_nat (slice (i + 14) 2 d), zl_name_len = n, zl_crc = le_nat (slice (i + 16) 4 d),
            zl_comp = le_nat (slice (i + 20) 4 d), zl_uncomp = le_nat (slice (i + 24) 4 d), zl_header_off = header, zl_name_off = header + 30\<rparr>,
          slice (i + 46) n d))"

primrec central_entries :: "nat \<Rightarrow> buf \<Rightarrow> nat \<Rightarrow> (zip_local \<times> buf) list option" where
  "central_entries 0 d i = Some []"
| "central_entries (Suc n) d i =
     (if slice i 4 d \<noteq> pk 1 2 then None
      else map_option ((#) (central_entry_at d i))
        (central_entries n d (i + 46 + le_nat (slice (i + 28) 2 d) + le_nat (slice (i + 30) 2 d) + le_nat (slice (i + 32) 2 d))))"

definition read_zip_directory :: "buf \<Rightarrow> (zip_local \<times> buf) list option" where
  "read_zip_directory d =
     (case find_eocd d of None \<Rightarrow> None | Some i \<Rightarrow> central_entries (le_nat (slice (i + 10) 2 d)) d (le_nat (slice (i + 16) 4 d)))"

definition good_local :: "buf \<Rightarrow> zip_local \<Rightarrow> bool" where
  "good_local d l \<longleftrightarrow> l = zip_local_at d (zl_header_off l) \<and> slice (zl_header_off l) 4 d = pk 3 4 \<and> zl_name_off l + zl_name_len l \<le> length d"

lemma zip_locals_good: "zip_locals n d i = Some ls \<Longrightarrow> length ls \<le> n \<and> (\<forall>l \<in> set ls. good_local d l)"
proof (induction n arbitrary: i ls)
  case (Suc n)
  let ?l = "zip_local_at d i"
  let ?after = "i + 30 + zl_name_len ?l + le_nat (slice (i + 28) 2 d) + zl_comp ?l"
  show ?case
  proof (cases "length d < i + 30 \<or> slice i 4 d \<noteq> pk 3 4")
    case True
    then show ?thesis using Suc.prems by (auto split: if_splits)
  next
    case False
    then obtain ls' where ls': "zip_locals n d ?after = Some ls'" "ls = ?l # ls'" "\<not> length d < ?after"
      using Suc.prems by (auto simp: Let_def split: if_splits)
    have "good_local d ?l" using False ls'(3) by (simp add: good_local_def zip_local_at_def)
    then show ?thesis using Suc.IH [OF ls'(1)] ls'(2) by simp
  qed
qed simp

lemma le_nat_fits: "m < 256 ^ n \<Longrightarrow> le_nat (nat_le n m) = m"
  by (simp add: le_nat_nat_le)

lemma central_entry_read:
  assumes "good_local buf l" "length buf < 2 ^ 32"
  shows "central_entry_at (pre @ zip_central_entry buf l @ r) (length pre) = (l, slice (zl_name_off l) (zl_name_len l) buf)"
    and "slice (length pre) 4 (pre @ zip_central_entry buf l @ r) = pk 1 2"
    and "le_nat (slice (length pre + 28) 2 (pre @ zip_central_entry buf l @ r)) = zl_name_len l"
    and "le_nat (slice (length pre + 30) 2 (pre @ zip_central_entry buf l @ r)) = 0"
    and "le_nat (slice (length pre + 32) 2 (pre @ zip_central_entry buf l @ r)) = 0"
proof -
  have l: "l = zip_local_at buf (zl_header_off l)" "zl_name_off l + zl_name_len l \<le> length buf" using assms(1) by (simp_all add: good_local_def)
  note fields = entry_fields [OF l(2)]
  have bounds: "zl_flags l < 256 ^ 2" "zl_method l < 256 ^ 2" "zl_time l < 256 ^ 2" "zl_date l < 256 ^ 2" "zl_name_len l < 256 ^ 2"
    "zl_crc l < 256 ^ 4" "zl_comp l < 256 ^ 4" "zl_uncomp l < 256 ^ 4"
    by (subst l(1), simp only: zip_local_at_def zip_local.simps le_nat_slice_less)+
  have name: "zl_name_off l = zl_header_off l + 30" by (subst (1) l(1)) (simp add: zip_local_at_def)
  then have "zl_header_off l < 256 ^ 4" using l(2) assms(2) by simp
  note reads = slice_shift [of pre 8] slice_shift [of pre 10] slice_shift [of pre 12] slice_shift [of pre 14] slice_shift [of pre 16] slice_shift [of pre 20]
    slice_shift [of pre 24] slice_shift [of pre 28] slice_shift [of pre 30] slice_shift [of pre 32] slice_shift [of pre 42] slice_shift [of pre 46]
  show len: "le_nat (slice (length pre + 28) 2 (pre @ zip_central_entry buf l @ r)) = zl_name_len l"
    unfolding reads fields by (rule le_nat_fits [OF bounds(5)])
  show "slice (length pre) 4 (pre @ zip_central_entry buf l @ r) = pk 1 2"
    using slice_shift [of pre 0] fields(2) by simp
  show "le_nat (slice (length pre + 30) 2 (pre @ zip_central_entry buf l @ r)) = 0" "le_nat (slice (length pre + 32) 2 (pre @ zip_central_entry buf l @ r)) = 0"
    unfolding reads fields by (simp_all add: nat_le_2)
  show "central_entry_at (pre @ zip_central_entry buf l @ r) (length pre) = (l, slice (zl_name_off l) (zl_name_len l) buf)"
    unfolding central_entry_at_def Let_def len
    unfolding reads fields
    using bounds \<open>zl_header_off l < 256 ^ 4\<close> name by (simp only: le_nat_fits) simp
qed

lemma central_entries_read:
  assumes "\<And>l. l \<in> set ls \<Longrightarrow> good_local buf l" "length buf < 2 ^ 32"
  shows "central_entries (length ls) (pre @ concat (map (zip_central_entry buf) ls) @ r) (length pre)
    = Some (map (\<lambda>l. (l, slice (zl_name_off l) (zl_name_len l) buf)) ls)"
  using assms(1)
proof (induction ls arbitrary: pre)
  case (Cons l ls)
  let ?rest = "concat (map (zip_central_entry buf) ls) @ r"
  let ?d = "pre @ zip_central_entry buf l @ ?rest"
  have l: "good_local buf l" using Cons.prems by simp
  note entry = central_entry_read [OF l assms(2), of pre ?rest]
  have "length (pre @ zip_central_entry buf l) = length pre + 46 + zl_name_len l"
    using entry_fields(1) [of l buf] l by (simp add: good_local_def)
  then have "central_entries (length ls) ?d (length pre + 46 + zl_name_len l) = Some (map (\<lambda>l. (l, slice (zl_name_off l) (zl_name_len l) buf)) ls)"
    using Cons.IH [of "pre @ zip_central_entry buf l"] Cons.prems by (simp add: add.assoc)
  then show ?case using entry by simp
qed simp

lemma rebuilt_zip:
  assumes "rebuild_missing_zip_directory buf = Some out"
  obtains ls cd where "zip_locals 4096 buf 0 = Some ls" "ls \<noteq> []" "cd = concat (map (zip_central_entry buf) ls)"
    "out = buf @ cd @ zip_eocd (length ls) (length cd) (length buf)" "30 \<le> length buf" "take 4 buf = pk 3 4"
  using assms by (auto simp: rebuild_missing_zip_directory_def Let_def split: if_splits option.splits list.splits)

lemma rebuilt_zip_ends:
  assumes "rebuild_missing_zip_directory buf = Some out"
  shows "\<exists>cd n. out = (buf @ cd) @ zip_eocd n (length cd) (length buf)" "30 \<le> length buf" "take 4 buf = pk 3 4"
  by (rule rebuilt_zip [OF assms]; force)+

lemma tail_has_eocd: "pk_in_tail (pre @ zip_eocd n s off) 5 6"
proof -
  have "slice (length pre) 4 (pre @ zip_eocd n s off) = pk 5 6" using slice_shift [of pre 0 4] eocd_fields(2) by simp
  moreover have "length pre \<in> set [length (pre @ zip_eocd n s off) - 65557..<length (pre @ zip_eocd n s off) - 3]"
    by (simp add: eocd_fields)
  ultimately show ?thesis unfolding pk_in_tail_def list_ex_iff by blast
qed

lemma found_eocd: "find_eocd (pre @ zip_eocd n s off) = Some (length pre)"
proof -
  let ?d = "pre @ zip_eocd n s off"
  have "length ?d - 65557 \<le> length pre" "length ?d - 21 = Suc (length pre)" "\<not> length ?d < 22" by (simp_all add: eocd_fields)
  then have "rev [length ?d - 65557..<length ?d - 21] = length pre # rev [length ?d - 65557..<length pre]" by simp
  moreover have "slice (length pre) 4 ?d = pk 5 6" using slice_shift [of pre 0 4] eocd_fields(2) by simp
  ultimately show ?thesis unfolding find_eocd_def using \<open>\<not> length ?d < 22\<close> by simp
qed


definition demo_zip :: buf where
  "demo_zip = pk 3 4 @ nat_le 2 20 @ nat_le 2 0 @ nat_le 2 0 @ nat_le 4 0 @ nat_le 4 7 @ nat_le 4 2 @ nat_le 4 2 @ nat_le 2 1 @ nat_le 2 0
     @ bytes_of ''a'' @ bytes_of ''hi''"


section \<open>Repaired files pass the validation after the recovery\<close>

lemma contains_from_iff:
  "contains_from start pat d \<longleftrightarrow> (\<exists>i. start \<le> i \<and> i + length pat \<le> length d \<and> slice i (length pat) d = pat)"
  by (auto simp: contains_from_def list_ex_iff Bex_def less_diff_conv)

lemma pdf_root_found:
  assumes "po_root (pdf_objects_of d) \<noteq> 0"
  shows "\<exists>i. pdf_object_at d i \<noteq> None"
proof (rule ccontr)
  assume "\<not> (\<exists>i. pdf_object_at d i \<noteq> None)"
  then have "fold (note_object d) idx s = s" for idx s
    by (induction idx) (simp_all add: note_object_def)
  then show False using assms by (simp add: pdf_objects_of_def)
qed

lemma pdf_object_text:
  assumes "pdf_object_at d i = Some n"
  shows "contains_from 0 (bytes_of ''obj'') d"
proof -
  define k where "k = skip_digits d (fst (pdf_number d i 0) + 1)"
  have "\<not> length d < k + 4 \<and> slice (k + 1) 3 d = bytes_of ''obj''"
    using assms by (simp add: pdf_object_at_def k_def Let_def case_prod_beta split: if_splits)
  then show ?thesis unfolding contains_from_iff by (intro exI [of _ "k + 1"]) (simp add: numeral_3_eq_3)
qed

lemma contains_append: "contains_from 0 p b \<Longrightarrow> contains_from 0 p (b @ e)"
proof -
  assume "contains_from 0 p b"
  then obtain i where "i + length p \<le> length b" "slice i (length p) b = p" unfolding contains_from_iff by blast
  then have "0 \<le> i \<and> i + length p \<le> length (b @ e) \<and> slice i (length p) (b @ e) = p" by (simp add: slice_append_left)
  then show ?thesis unfolding contains_from_iff by blast
qed

lemma rebuilt_pdf:
  assumes "rebuild_missing_pdf_xref buf = Some out"
  shows "\<exists>mid. out = buf @ mid @ bytes_of (''%%EOF'' @ newline)" "8 \<le> length buf" "take 5 buf = bytes_of ''%PDF-''"
    "contains_from 0 (bytes_of ''obj'') buf"
proof -
  have r: "8 \<le> length buf" "take 5 buf = bytes_of ''%PDF-''" "po_root (pdf_objects_of buf) \<noteq> 0"
    "out = buf @ bytes_of (xref_text (pdf_objects_of buf) (length buf))"
    using assms by (auto simp: rebuild_missing_pdf_xref_def Let_def split: if_splits)
  then show "8 \<le> length buf" "take 5 buf = bytes_of ''%PDF-''" "contains_from 0 (bytes_of ''obj'') buf"
    using pdf_root_found pdf_object_text by blast+
  have "\<exists>t. xref_text s n = t @ ''%%EOF'' @ newline" for s n
    unfolding xref_text_def append_assoc [symmetric] by blast
  then show "\<exists>mid. out = buf @ mid @ bytes_of (''%%EOF'' @ newline)" unfolding r(4) by (metis bytes_of_def map_append)
qed

text \<open>The score of a sample that has the head of the file and ends as the file ends.\<close>

lemma closed_pdf: "pdf_closed (x @ bytes_of (''%%EOF'' @ newline))"
proof -
  let ?p = "bytes_of ''%%EOF''"
  have "slice (length x) (length ?p) (x @ bytes_of (''%%EOF'' @ newline)) = ?p"
    using slice_shift [of x 0 "length ?p"] by (simp add: bytes_of_def slice_def newline_def)
  moreover have "length (x @ bytes_of (''%%EOF'' @ newline)) = length x + 6" by (simp add: newline_def)
  ultimately show ?thesis unfolding pdf_closed_def contains_from_iff by (intro exI [of _ "length x"]) simp
qed

lemma repaired_pdf_score:
  assumes "rebuild_missing_pdf_xref buf = Some out" "is_dec_digit (buf ! 5)"
  shows "validate_pdf out = 90"
proof -
  note r = rebuilt_pdf [OF assms(1)]
  obtain mid where out: "out = buf @ mid @ bytes_of (''%%EOF'' @ newline)" using r(1) by blast
  have "butlast out = buf @ butlast (mid @ bytes_of (''%%EOF'' @ newline))"
    unfolding out by (simp add: butlast_append newline_def bytes_of_def)
  then have "contains_from 0 (bytes_of ''obj'') (butlast out)" using contains_append [OF r(4)] by simp
  moreover have "pdf_closed out" using closed_pdf [of "buf @ mid"] by (simp add: out)
  moreover have "take 5 out = bytes_of ''%PDF-''" "\<not> length out < 8" "out ! 5 = buf ! 5" using r(2,3) by (simp_all add: out nth_append)
  ultimately show ?thesis using assms(2) by (simp add: validate_pdf_def)
qed

definition carve_repair :: "carve_format \<Rightarrow> buf \<Rightarrow> buf option" where
  "carve_repair f buf = (case f of Jpeg \<Rightarrow> append_missing_jpeg_eoi buf | Pdf \<Rightarrow> rebuild_missing_pdf_xref buf
     | Zip \<Rightarrow> rebuild_missing_zip_directory buf | _ \<Rightarrow> None)"

lemma sample_head: "n \<le> 2 ^ 20 \<Longrightarrow> n \<le> length d \<Longrightarrow> take n (validation_sample ext d) = take n d"
  by (auto simp: validation_sample_def Let_def min_def)

lemma repaired_zip_sample:
  assumes "rebuild_missing_zip_directory buf = Some out" "needs_tail_sample ext"
  shows "60 \<le> validate_zip (validation_sample ext out)"
proof -
  obtain cd n where zip: "out = (buf @ cd) @ zip_eocd n (length cd) (length buf)" "30 \<le> length buf" "take 4 buf = pk 3 4"
    using rebuilt_zip_ends [OF assms(1)] by blast
  let ?e = "zip_eocd n (length cd) (length buf)"
  have "\<exists>pre. validation_sample ext out = pre @ ?e"
  proof (cases "length out \<le> 2 ^ 20")
    case True
    then have "validation_sample ext out = out" by (simp add: validation_sample_def)
    then show ?thesis using zip(1) by auto
  next
    case False
    then have "length out - 65536 \<le> length (buf @ cd)" unfolding zip(1) by (simp add: eocd_fields)
    moreover have "drop k out = drop k (buf @ cd) @ ?e" if "k \<le> length (buf @ cd)" for k unfolding zip(1) using that by simp
    ultimately have "drop (length out - 65536) out = drop (length out - 65536) (buf @ cd) @ ?e" by blast
    moreover have "validation_sample ext out = take (2 ^ 20) out @ drop (length out - 65536) out"
      using False assms(2) by (simp add: validation_sample_def Let_def)
    ultimately show ?thesis by (metis append_assoc)
  qed
  then obtain pre where pre: "validation_sample ext out = pre @ ?e" by blast
  have "take 4 (validation_sample ext out) = pk 3 4" using sample_head [of 4 out ext] zip by simp
  moreover have "4 \<le> length (validation_sample ext out)" unfolding pre by (simp add: eocd_fields)
  ultimately show ?thesis using tail_has_eocd [of pre] unfolding pre by (simp add: validate_zip_def Let_def)
qed

lemma repair_again:
  assumes "carve_repair f buf = Some out"
  shows "take (length buf) out = buf \<and> carve_repair f out = None \<and> out \<noteq> []"
proof -
  consider "f = Jpeg" | "f = Zip" | "f = Pdf" using assms by (cases f) (simp_all add: carve_repair_def)
  then show ?thesis
  proof cases
    case 1
    then have "append_missing_jpeg_eoi buf = Some out" using assms by (simp add: carve_repair_def)
    from closed_jpeg [OF this] have "out = buf @ eoi" "append_missing_jpeg_eoi out = None" by blast+
    then show ?thesis using 1 by (simp add: carve_repair_def)
  next
    case 2
    then have "rebuild_missing_zip_directory buf = Some out" using assms by (simp add: carve_repair_def)
    then obtain cd n where zip: "out = (buf @ cd) @ zip_eocd n (length cd) (length buf)" "30 \<le> length buf"
      using rebuilt_zip_ends by blast
    then have "buf \<noteq> []" by auto
    then show ?thesis using 2 zip tail_has_eocd [of "buf @ cd"] by (simp add: carve_repair_def rebuild_missing_zip_directory_def)
  next
    case 3
    then have r: "rebuild_missing_pdf_xref buf = Some out" using assms by (simp add: carve_repair_def)
    obtain mid where out: "out = buf @ mid @ bytes_of (''%%EOF'' @ newline)" using rebuilt_pdf(1) [OF r] by blast
    moreover have "buf \<noteq> []" using rebuilt_pdf(2) [OF r] by auto
    ultimately show ?thesis using 3 closed_pdf [of "buf @ mid"] by (simp add: carve_repair_def rebuild_missing_pdf_xref_def)
  qed
qed



end
