(* ===== verification/Spec2Isabelle.thy ===== *)
theory Spec2Isabelle
  imports Prelude Raid_Layout Gf256 Aes Disk_IO Virtual_Raid Raid_Recovery Fat_Chain Runs_Codec Digests Aes_Ccm Utf8 Audit_Log Partition_Scanner File_Record Ntfs_Util Lznt1 Ntfs_Records
    Dedup_Index Sector_Reads Hex_Search Path_Util Path_Rebuild Recovery_Validation Recovery_Engine Luks Luks_Wrap
    Byte_Source Ewf_Writer Ewf_Reader Ewf_Image Ewf_Roundtrip Size_Parsers Size_Walks
    Aho_Corasick Gap_Carving File_Validators
begin

text \<open>
  Verification development of the byteback data-recovery engine (native/src and native/include).

  The program.  A \<open>DiskReader\<close> gives sectors of a physical disk, of an image file, of a software
  RAID array or of a buffer in memory; with a volume key it decrypts what it reads.  The partition
  scanner finds volumes on it, file-system parsers and the carver produce file records, the
  coordinator drops duplicates and stores the rest, and the recovery engine copies the content of
  a record into a new file, which is then validated.  Every step is written to an audit log whose
  lines are chained by hashes.

  What models what (paths under native/src unless they begin with include):

    \<^item> \<open>Prelude\<close>: bytes, slices of buffers, little-endian numbers, the wrap-around of 32 and 64 bit
      unsigned arithmetic on \<open>nat\<close> (\<open>w32\<close>, \<open>w64\<close>, \<open>sub64\<close>), checked accesses (\<open>rd_slice\<close>, \<open>rd_le\<close>:
      \<open>None\<close> is an access outside the buffer), and the collections \<open>slice_simps\<close> and \<open>wrap_simps\<close>.
    \<^item> \<open>Raid_Layout\<close> (fs/raid_layout.cpp), \<open>Gf256\<close> (fs/raid6_math.cpp), \<open>Virtual_Raid\<close> and
      \<open>Raid_Recovery\<close> (fs/virtual_raid.cpp): placement of blocks, the field arithmetic of the second
      parity, and the reads of an array with lost or unreadable members.  Every placement is a
      bijection, the log tables compute the field, and with at most the tolerated losses a read of
      a consistent array gives its content.
    \<^item> \<open>Aes\<close> (crypto/aes_xts.cpp), \<open>Digests\<close> (crypto/sha256.cpp, crypto/md5.cpp), \<open>Aes_Ccm\<close>
      (crypto/aes_ccm.cpp): decryption inverts encryption; the streaming contexts refine the hash of
      the whole message; key derivation equals its standard; CCM accepts exactly what it produces.
    \<^item> \<open>Disk_IO\<close> (io/disk_reader_win.cpp, include/byteback_io.h): the record \<open>reader\<close> holds the
      fields of \<open>DiskReader\<close>; memory volumes live in a heap, because clones share them.  The locale
      \<open>sector_source\<close> is the contract of \<open>readSectors\<close> that \<open>readBytes\<close> rests on, interpreted on
      memory volumes; \<open>Sector_Reads\<close> states the same contract for the clients that read through it.
    \<^item> \<open>Luks\<close>, \<open>Luks_Wrap\<close> (fs/luks.cpp): key slots, anti-forensic merge, search for the volume, key
      hand-over to the reader; a written volume opens and reads as its payload.
    \<^item> \<open>Partition_Scanner\<close> (fs/partition_scanner.cpp), \<open>Fat_Chain\<close> (fs/fat_chain.cpp): partition
      tables with unreadable sectors, search for lost volumes, cluster chains and time stamps.
    \<^item> \<open>Ntfs_Util\<close>, \<open>Ntfs_Records\<close>, \<open>Lznt1\<close> (include/fs/ntfs_util.h), \<open>Path_Rebuild\<close>
      (fs/ntfs_path_rebuild.cpp): fixups, attribute and journal records, the decompressor against a
      chunk-wise specification of its format, and the index of parent directories.
    \<^item> \<open>File_Record\<close>, \<open>Runs_Codec\<close> (include/byteback_db.h, db/runs_codec.cpp), \<open>Utf8\<close>
      (include/util/utf8_sanitize.h): what is stored of a file and how.
    \<^item> \<open>Dedup_Index\<close> (scan/dedup_index.cpp), \<open>Hex_Search\<close> (search/hex_search.cpp): the bucketed index
      against a search through all records; the windowed search against all matches.
    \<^item> \<open>Path_Util\<close> (recovery/path_util.cpp), \<open>Recovery_Validation\<close> (recovery/validation.cpp,
      fs/refs_integrity.cpp), \<open>Recovery_Engine\<close> (recovery/recovery_engine.cpp): names that cannot
      leave the destination, checks after the recovery, and the recovery itself over a file system
      that is a map from names to contents.
    \<^item> \<open>Audit_Log\<close> (forensic/audit_logger.cpp): a session's log verifies, and the verifier accepts
      exactly the chains.

  Conventions.  Unsigned integers of the code are natural numbers with every wrap-around that can
  happen written out, bytes and the words of the ciphers are \<open>w word\<close>; a container of the code is a list or a
  map.  A result of type \<open>option\<close> whose \<open>None\<close> the theory calls undefined stands for an access outside
  a buffer, so a theorem that the result is \<open>Some\<close> excludes it.  Loops that need not end are
  \<open>partial_function (option)\<close> and \<open>None\<close> is then also not returning; the theorems on them give the
  inputs for which they return.  No fuel is used: the other loops recurse with a measure.
  Third-party code and the operating system are arguments: sector reads, the case folding of file
  names, the opened files, the format validators.

  Not modelled.  The SQLite store, the N-API bridge, the device control calls and the user
  interface consist of calls into code that is not in the repository.  The carver's format
  parsers, most file-system parsers, the imager, the virtual-disk readers and the threads of the scan
  coordinator are program logic that is still to be modelled.

  Plan.  Next: the allocation maps, the imager, BitLocker on top of the modelled ciphers, the
  volume managers, the walk of the NTFS master file table, and the virtual-disk readers as further
  instances of the reader's back ends.
\<close>

end
